(* ===== verification/RS_Prelude.thy ===== *)
theory RS_Prelude
  imports "HOL-Library.Word" "HOL-Library.Monad_Syntax" "HOL-Library.Multiset"
begin

text \<open>
  Shared material of the librtpsynth development: the C integer types the library uses,
  checked arithmetic for C's signed \<open>int\<close>, bounds-checked memory reads, and the contract
  of a component that is driven by a sequence of inputs.

  Conventions used throughout.
  \<^item> A value of type \<open>'a option\<close> returned by a model of a C function is \<open>None\<close> when the C
    program does not carry on: an assertion fails and \<open>abort()\<close> is called, a signed
    addition overflows, or memory outside of an object is accessed. Error codes and NULL
    results, which the caller sees, are ordinary values inside \<open>Some\<close>.
  \<^item> \<open>uintN_t\<close> is \<open>N word\<close>, so arithmetic wraps exactly as in C. \<open>int\<close> is \<open>int\<close>, with the
    range checked where the code can leave it.
  \<^item> \<open>size_t\<close> values that are lengths of objects in memory are \<open>nat\<close>.
\<close>

unbundle bit_operations_syntax

named_theorems wire_simps \<open>facts on the byte layout of RTP headers\<close>
named_theorems jb_simps \<open>unfolding rules of the jitter buffer's operations\<close>
named_theorems sched_simps \<open>unfolding rules of the scheduler's operations\<close>

type_synonym u8 = "8 word"
type_synonym u16 = "16 word"
type_synonym u32 = "32 word"
type_synonym u64 = "64 word"

section \<open>C integers\<close>

text \<open>Signed \<open>int\<close> arithmetic: leaving the 32-bit range is undefined behaviour.\<close>

definition i32_range :: "int \<Rightarrow> bool" where
  "i32_range z \<longleftrightarrow> - 2147483648 \<le> z \<and> z \<le> 2147483647"

definition i32_check :: "int \<Rightarrow> int option" where
  "i32_check z = (if i32_range z then Some z else None)"

lemma i32_check_Some [simp]: "i32_check z = Some y \<longleftrightarrow> i32_range z \<and> y = z"
  by (auto simp: i32_check_def)

lemma i32_check_in [simp]: "i32_range z \<Longrightarrow> i32_check z = Some z"
  by (simp add: i32_check_def)

text \<open>Conversion of a \<open>size_t\<close> to \<open>int\<close> keeps the low 32 bits.\<close>

definition i32_of_size :: "nat \<Rightarrow> int" where
  "i32_of_size n = sint (of_nat n :: u32)"

lemma i32_of_size_small: "n \<le> 2147483647 \<Longrightarrow> i32_of_size n = int n"
  by (simp add: i32_of_size_def signed_of_nat signed_take_bit_int_eq_self)

section \<open>Memory reads\<close>

definition rd :: "'a list \<Rightarrow> nat \<Rightarrow> 'a option" where
  "rd xs i = (if i < length xs then Some (xs ! i) else None)"

lemma rd_Some [simp]: "rd xs i = Some v \<longleftrightarrow> i < length xs \<and> v = xs ! i"
  by (auto simp: rd_def)

lemma rd_in [simp]: "i < length xs \<Longrightarrow> rd xs i = Some (xs ! i)"
  by (simp add: rd_def)

section \<open>Words\<close>

lemma bit_word_high: "LENGTH('a::len) \<le> n \<Longrightarrow> \<not> bit (a :: 'a word) n"
  using bit_imp_le_length [of a n] by auto

lemma word1_cases: "(w :: 1 word) = 0 \<or> w = 1"
proof -
  have "unat w < 2 ^ LENGTH(1)" by (rule unsigned_less)
  then have "unat w = 0 \<or> unat w = 1" by auto
  then show ?thesis by (simp add: word_unat_eq_iff)
qed

lemma word1_neq_0 [simp]: "(w :: 1 word) \<noteq> 0 \<longleftrightarrow> w = 1"
  using word1_cases [of w] by auto

lemma unat_complement_u64: "unat (- 1 - (x :: u64)) = 18446744073709551615 - unat x"
proof -
  have "x \<le> - 1" by simp
  then have "unat (- 1 - x) = unat (- 1 :: u64) - unat x" by (rule unat_sub)
  then show ?thesis by (simp add: unsigned_minus_1_eq_mask mask_eq_exp_minus_1)
qed

section \<open>Error numbers\<close>

definition ENOMEM :: int where
  "ENOMEM = 12"

definition ENOENT :: int where
  "ENOENT = 2"

section \<open>Growing arrays\<close>

text \<open>The schedulers double the capacity of an array until it is large enough.\<close>

definition SIZE_MAX :: nat where
  "SIZE_MAX = 18446744073709551615"

lemma SIZE_MAX_code [code]: "SIZE_MAX = nat 18446744073709551615"
  by (simp add: SIZE_MAX_def)

lemma SIZE_MAX_half: "SIZE_MAX div 2 < n \<longleftrightarrow> 9223372036854775807 < int n"
  by (auto simp: SIZE_MAX_def)

function grow_cap :: "nat \<Rightarrow> nat \<Rightarrow> nat option" where
  "grow_cap new_cap need =
     (if new_cap < need then
        if new_cap = 0 \<or> new_cap > SIZE_MAX div 2 then None else grow_cap (new_cap * 2) need
      else Some new_cap)"
  by pat_completeness auto
termination by (relation "measure (\<lambda>(n, need). need - n)") auto

declare grow_cap.simps [simp del]

lemma grow_cap_ge: "grow_cap n need = Some c \<Longrightarrow> need \<le> c \<and> n \<le> c"
  by (induction n need rule: grow_cap.induct) (subst (asm) (2) grow_cap.simps, auto split: if_splits)

section \<open>Components driven by a sequence of inputs\<close>

text \<open>
  A component with one entry point is a step function that consumes an input, produces an
  output and may crash (\<open>None\<close>). \<open>run_steps\<close> feeds it a list of inputs and collects the
  outputs; \<open>admissible_run\<close> says that every input is admissible in the state it meets.
\<close>

fun run_steps :: "('s \<Rightarrow> 'i \<Rightarrow> ('o \<times> 's) option) \<Rightarrow> 's \<Rightarrow> 'i list \<Rightarrow> ('o list \<times> 's) option" where
  "run_steps step s [] = Some ([], s)"
| "run_steps step s (i # is) =
     (case step s i of
        None \<Rightarrow> None
      | Some (out, s') \<Rightarrow>
          (case run_steps step s' is of
             None \<Rightarrow> None
           | Some (outs, s'') \<Rightarrow> Some (out # outs, s'')))"

fun admissible_run :: "('s \<Rightarrow> 'i \<Rightarrow> ('o \<times> 's) option) \<Rightarrow> ('s \<Rightarrow> 'i \<Rightarrow> bool) \<Rightarrow> 's \<Rightarrow> 'i list \<Rightarrow> bool" where
  "admissible_run step adm s [] = True"
| "admissible_run step adm s (i # is) =
     (adm s i \<and> (case step s i of None \<Rightarrow> True | Some (out, s') \<Rightarrow> admissible_run step adm s' is))"

lemma run_steps_append:
  "run_steps step s xs = Some (outs, s1) \<Longrightarrow> run_steps step s1 ys = Some (outs', s2) \<Longrightarrow>
     run_steps step s (xs @ ys) = Some (outs @ outs', s2)"
  by (induction xs arbitrary: s outs) (auto split: option.splits)

locale invariant_machine =
  fixes step :: "'s \<Rightarrow> 'i \<Rightarrow> ('o \<times> 's) option"
    and adm :: "'s \<Rightarrow> 'i \<Rightarrow> bool"
    and inv :: "'s \<Rightarrow> bool"
  assumes step_total: "inv s \<Longrightarrow> adm s i \<Longrightarrow> step s i \<noteq> None"
    and step_inv: "inv s \<Longrightarrow> adm s i \<Longrightarrow> step s i = Some (out, s') \<Longrightarrow> inv s'"
begin

lemma run_ok:
  "inv s \<Longrightarrow> admissible_run step adm s is \<Longrightarrow>
     \<exists>outs s'. run_steps step s is = Some (outs, s') \<and> inv s' \<and> length outs = length is"
proof (induction "is" arbitrary: s)
  case Nil
  then show ?case by simp
next
  case (Cons i "is")
  from Cons.prems have adm: "adm s i" by simp
  with Cons.prems(1) obtain out s1 where step: "step s i = Some (out, s1)"
    using step_total [of s i] by auto
  with Cons.prems adm have "inv s1" and "admissible_run step adm s1 is"
    using step_inv by auto
  then obtain outs s2 where "run_steps step s1 is = Some (outs, s2)" "inv s2"
      "length outs = length is"
    using Cons.IH by blast
  with step show ?case by simp
qed

text \<open>
  A property of outputs that chains through the state: what one step's output relates, a
  run's outputs relate end to end.
\<close>

lemma run_chain:
  assumes refl: "\<And>s. inv s \<Longrightarrow> R s [] s"
    and chain: "\<And>s i out s' outs s''. inv s \<Longrightarrow> adm s i \<Longrightarrow> step s i = Some (out, s') \<Longrightarrow>
        R s' outs s'' \<Longrightarrow> R s (out # outs) s''"
  shows "inv s \<Longrightarrow> admissible_run step adm s is \<Longrightarrow> run_steps step s is = Some (outs, s') \<Longrightarrow>
     R s outs s'"
proof (induction "is" arbitrary: s outs)
  case Nil
  then show ?case using refl by simp
next
  case (Cons i "is")
  from Cons.prems obtain out s1 outs1 where step: "step s i = Some (out, s1)"
    and rest: "run_steps step s1 is = Some (outs1, s')" and outs: "outs = out # outs1"
    by (auto split: option.splits)
  from Cons.prems step have "inv s1" and "admissible_run step adm s1 is"
    using step_inv by auto
  then have "R s1 outs1 s'" using rest by (rule Cons.IH)
  with Cons.prems step outs show ?case using chain by auto
qed

end

section \<open>First-in first-out queues\<close>

text \<open>
  The contract of the queues that connect the threads: what \<open>contents\<close> a queue has, whether it
  has \<open>room\<close>, and what \<open>push\<close> and \<open>pop\<close> do to them. The number counts how many more times
  something may be pushed before the indices of a queue run out.
\<close>

datatype 'v fifo_op = Push 'v | Pop

fun fifo_run :: "('q \<Rightarrow> 'v \<Rightarrow> (bool \<times> 'q) option) \<Rightarrow> ('q \<Rightarrow> ('v option \<times> 'q) option) \<Rightarrow> 'q \<Rightarrow>
    'v fifo_op list \<Rightarrow> ('v list \<times> 'v list \<times> 'q) option" where
  "fifo_run push pop q [] = Some ([], [], q)"
| "fifo_run push pop q (Push v # ops) =
     (case push q v of
        None \<Rightarrow> None
      | Some (done, q') \<Rightarrow>
          (case fifo_run push pop q' ops of
             None \<Rightarrow> None
           | Some (accepted, out, q'') \<Rightarrow> Some ((if done then v # accepted else accepted), out, q'')))"
| "fifo_run push pop q (Pop # ops) =
     (case pop q of
        None \<Rightarrow> None
      | Some (r, q') \<Rightarrow>
          (case fifo_run push pop q' ops of
             None \<Rightarrow> None
           | Some (accepted, out, q'') \<Rightarrow>
               Some (accepted, (case r of None \<Rightarrow> out | Some v \<Rightarrow> v # out), q'')))"

locale fifo_queue =
  fixes ok :: "nat \<Rightarrow> 'q \<Rightarrow> bool"
    and contents :: "'q \<Rightarrow> 'v list"
    and room :: "'q \<Rightarrow> bool"
    and push :: "'q \<Rightarrow> 'v \<Rightarrow> (bool \<times> 'q) option"
    and pop :: "'q \<Rightarrow> ('v option \<times> 'q) option"
  assumes push_room: "ok (Suc n) q \<Longrightarrow> room q \<Longrightarrow>
      \<exists>q'. push q v = Some (True, q') \<and> ok n q' \<and> contents q' = contents q @ [v]"
    and push_full: "ok (Suc n) q \<Longrightarrow> \<not> room q \<Longrightarrow>
      \<exists>q'. push q v = Some (False, q') \<and> ok n q' \<and> contents q' = contents q"
    and pop_some: "ok n q \<Longrightarrow> contents q = v # vs \<Longrightarrow>
      \<exists>q'. pop q = Some (Some v, q') \<and> ok n q' \<and> contents q' = vs"
    and pop_none: "ok n q \<Longrightarrow> contents q = [] \<Longrightarrow>
      \<exists>q'. pop q = Some (None, q') \<and> ok n q' \<and> contents q' = []"
    and ok_less: "ok (Suc n) q \<Longrightarrow> ok n q"
begin

lemma run_fifo:
  "ok (length ops) q \<Longrightarrow> \<exists>accepted out q'. fifo_run push pop q ops = Some (accepted, out, q') \<and>
     ok 0 q' \<and> out @ contents q' = contents q @ accepted"
proof (induction ops arbitrary: q)
  case Nil
  then show ?case by simp
next
  case (Cons op ops)
  show ?case
  proof (cases op)
    case (Push v)
    show ?thesis
    proof (cases "room q")
      case True
      from push_room [OF _ True, of "length ops" v] Cons.prems obtain q1 where
        p: "push q v = Some (True, q1)" "ok (length ops) q1" "contents q1 = contents q @ [v]" by auto
      from Cons.IH [OF p(2)] p Push show ?thesis by auto
    next
      case False
      from push_full [OF _ False, of "length ops" v] Cons.prems obtain q1 where
        p: "push q v = Some (False, q1)" "ok (length ops) q1" "contents q1 = contents q" by auto
      from Cons.IH [OF p(2)] p Push show ?thesis by auto
    qed
  next
    case Pop
    have ok: "ok (length ops) q" using Cons.prems ok_less by simp
    show ?thesis
    proof (cases "contents q")
      case Nil
      from pop_none [OF ok Nil] obtain q1 where
        p: "pop q = Some (None, q1)" "ok (length ops) q1" "contents q1 = []" by auto
      from Cons.IH [OF p(2)] p Pop Nil show ?thesis by auto
    next
      case (Cons v vs)
      from pop_some [OF ok Cons] obtain q1 where
        p: "pop q = Some (Some v, q1)" "ok (length ops) q1" "contents q1 = vs" by auto
      from Cons.IH [OF p(2)] p Pop Cons show ?thesis by auto
    qed
  qed
qed

end

end
