(* ===== verification/Rtp_Wire.thy ===== *)
theory Rtp_Wire
  imports RS_Prelude
begin

text \<open>
  The wire format of \<^verbatim>\<open>src/rtp.h\<close>: the packed structure \<open>rtp_hdr\<close> with its bit fields, how a
  little-endian host lays it out in memory, the byte-order conversions of the C library,
  and the macros on sequence numbers and time stamps. The order of the bit fields in
  \<open>rtp_hdr\<close> depends on the host's byte order so that the bytes in memory do not.
\<close>

section \<open>Integers in memory\<close>

definition mem16 :: "u16 \<Rightarrow> u8 list" where
  "mem16 w = [ucast w, ucast (drop_bit 8 w)]"

definition load16 :: "u8 \<Rightarrow> u8 \<Rightarrow> u16" where
  "load16 b0 b1 = ucast b0 OR push_bit 8 (ucast b1)"

definition mem32 :: "u32 \<Rightarrow> u8 list" where
  "mem32 w = [ucast w, ucast (drop_bit 8 w), ucast (drop_bit 16 w), ucast (drop_bit 24 w)]"

definition load32 :: "u8 \<Rightarrow> u8 \<Rightarrow> u8 \<Rightarrow> u8 \<Rightarrow> u32" where
  "load32 b0 b1 b2 b3 =
     ucast b0 OR push_bit 8 (ucast b1) OR push_bit 16 (ucast b2) OR push_bit 24 (ucast b3)"

text \<open>\<open>htons\<close>/\<open>ntohs\<close> and \<open>htonl\<close>/\<open>ntohl\<close> swap the bytes on a little-endian host.\<close>

definition ntohs :: "u16 \<Rightarrow> u16" where
  "ntohs w = load16 (ucast (drop_bit 8 w)) (ucast w)"

definition ntohl :: "u32 \<Rightarrow> u32" where
  "ntohl w = load32 (ucast (drop_bit 24 w)) (ucast (drop_bit 16 w)) (ucast (drop_bit 8 w)) (ucast w)"

lemma length_mem [simp]: "length (mem16 v) = 2" "length (mem32 w) = 4"
  by (simp_all add: mem16_def mem32_def)

lemma load16_mem16: "load16 (ucast w) (ucast (drop_bit 8 w)) = w"
  unfolding load16_def by (rule bit_word_eqI) (auto simp: bit_simps)

lemma load32_mem32:
  "load32 (ucast w) (ucast (drop_bit 8 w)) (ucast (drop_bit 16 w)) (ucast (drop_bit 24 w)) = w"
  (is "?l = _")
proof (rule bit_word_eqI)
  fix n assume "n < LENGTH(32)"
  then have "n < 8 \<or> 8 \<le> n \<and> n < 16 \<or> 16 \<le> n \<and> n < 24 \<or> 24 \<le> n \<and> n < 32" by auto
  then show "bit ?l n = bit w n"
    unfolding load32_def by (auto simp: bit_simps)
qed

lemma mem16_load16 [simp]: "mem16 (load16 a b) = [a, b]"
  unfolding load16_def mem16_def by (auto intro!: bit_word_eqI simp: bit_simps bit_word_high)

lemma mem32_load32 [simp]: "mem32 (load32 a b c d) = [a, b, c, d]"
  unfolding load32_def mem32_def by (auto intro!: bit_word_eqI simp: bit_simps bit_word_high)

lemma load16_bytes [simp]:
  "ucast (load16 a b) = a" "ucast (drop_bit 8 (load16 a b)) = b"
  using mem16_load16 [of a b] by (simp_all add: mem16_def)

lemma load32_bytes [simp]:
  "ucast (load32 a b c d) = a" "ucast (drop_bit 8 (load32 a b c d)) = b"
  "ucast (drop_bit 16 (load32 a b c d)) = c" "ucast (drop_bit 24 (load32 a b c d)) = d"
  using mem32_load32 [of a b c d] by (simp_all add: mem32_def)

lemma ntohs_ntohs [simp]: "ntohs (ntohs w) = w"
  by (simp add: ntohs_def load16_mem16)

lemma ntohl_ntohl [simp]: "ntohl (ntohl w) = w"
  by (simp add: ntohl_def load32_mem32)

lemma ntohs_load16: "ntohs (load16 a b) = load16 b a"
  by (simp add: ntohs_def)

lemma ntohl_load32: "ntohl (load32 a b c d) = load32 d c b a"
  by (simp add: ntohl_def)

lemma mem16_ntohs: "mem16 (ntohs w) = rev (mem16 w)"
  by (simp add: ntohs_def) (simp add: mem16_def)

lemma mem32_ntohl: "mem32 (ntohl w) = rev (mem32 w)"
  by (simp add: ntohl_def) (simp add: mem32_def)

section \<open>The header structure\<close>

record rtp_hdr =
  h_version :: "2 word"
  h_p :: "1 word"
  h_x :: "1 word"
  h_cc :: "4 word"
  h_mbt :: "1 word"
  h_pt :: "7 word"
  h_seq :: u16
  h_ts :: u32
  h_ssrc :: u32

text \<open>\<open>sizeof(struct rtp_hdr)\<close> and \<open>sizeof(struct rtp_hdr_ext)\<close>, without the flexible arrays.\<close>

definition SIZEOF_RTP_HDR :: nat where
  "SIZEOF_RTP_HDR = 12"

definition SIZEOF_RTP_HDR_EXT :: nat where
  "SIZEOF_RTP_HDR_EXT = 4"

lemmas sizeof_defs [simp] = SIZEOF_RTP_HDR_def SIZEOF_RTP_HDR_EXT_def

definition RTP_HDR_LEN :: "rtp_hdr \<Rightarrow> nat" where
  "RTP_HDR_LEN h = SIZEOF_RTP_HDR + unat (h_cc h) * 4"

text \<open>The bytes of the structure in memory, and the structure read at a buffer.\<close>

definition flags_byte :: "rtp_hdr \<Rightarrow> u8" where
  "flags_byte h =
     push_bit 6 (ucast (h_version h)) OR push_bit 5 (ucast (h_p h)) OR
     push_bit 4 (ucast (h_x h)) OR ucast (h_cc h)"

definition type_byte :: "rtp_hdr \<Rightarrow> u8" where
  "type_byte h = push_bit 7 (ucast (h_mbt h)) OR ucast (h_pt h)"

definition store_hdr :: "rtp_hdr \<Rightarrow> u8 list" where
  "store_hdr h = [flags_byte h, type_byte h] @ mem16 (h_seq h) @ mem32 (h_ts h) @ mem32 (h_ssrc h)"

definition load_hdr :: "u8 list \<Rightarrow> rtp_hdr option" where
  "load_hdr buf =
     (if length buf < SIZEOF_RTP_HDR then None
      else Some \<lparr>
        h_version = ucast (drop_bit 6 (buf ! 0)),
        h_p = ucast (drop_bit 5 (buf ! 0)),
        h_x = ucast (drop_bit 4 (buf ! 0)),
        h_cc = ucast (buf ! 0),
        h_mbt = ucast (drop_bit 7 (buf ! 1)),
        h_pt = ucast (buf ! 1),
        h_seq = load16 (buf ! 2) (buf ! 3),
        h_ts = load32 (buf ! 4) (buf ! 5) (buf ! 6) (buf ! 7),
        h_ssrc = load32 (buf ! 8) (buf ! 9) (buf ! 10) (buf ! 11)\<rparr>)"

lemma length_store_hdr [simp]: "length (store_hdr h) = 12"
  by (simp add: store_hdr_def)

lemma flags_byte_fields [wire_simps]:
  "ucast (drop_bit 6 (flags_byte h)) = h_version h"
  "ucast (drop_bit 5 (flags_byte h)) = h_p h"
  "ucast (drop_bit 4 (flags_byte h)) = h_x h"
  "ucast (flags_byte h) = h_cc h"
  unfolding flags_byte_def by (auto intro!: bit_word_eqI simp: bit_simps bit_word_high)

lemma type_byte_fields [wire_simps]:
  "ucast (drop_bit 7 (type_byte h)) = h_mbt h"
  "ucast (type_byte h) = h_pt h"
  unfolding type_byte_def by (auto intro!: bit_word_eqI simp: bit_simps bit_word_high)

lemma flags_byte_split:
  "push_bit 6 (ucast (ucast (drop_bit 6 b) :: 2 word)) OR
   push_bit 5 (ucast (ucast (drop_bit 5 b) :: 1 word)) OR
   push_bit 4 (ucast (ucast (drop_bit 4 b) :: 1 word)) OR ucast (ucast b :: 4 word) = (b :: u8)"
  (is "?l = _")
proof (rule bit_word_eqI)
  fix n assume "n < LENGTH(8)"
  then have "n < 4 \<or> n = 4 \<or> n = 5 \<or> 6 \<le> n \<and> n < 8" by auto
  then show "bit ?l n = bit b n" by (auto simp: bit_simps)
qed

lemma type_byte_split:
  "push_bit 7 (ucast (ucast (drop_bit 7 b) :: 1 word)) OR ucast (ucast b :: 7 word) = (b :: u8)"
  (is "?l = _")
proof (rule bit_word_eqI)
  fix n assume "n < LENGTH(8)"
  then have "n < 7 \<or> n = 7" by auto
  then show "bit ?l n = bit b n" by (auto simp: bit_simps)
qed

lemma take_12:
  assumes "12 \<le> length buf"
  shows "take 12 buf = [buf ! 0, buf ! 1, buf ! 2, buf ! 3, buf ! 4, buf ! 5,
     buf ! 6, buf ! 7, buf ! 8, buf ! 9, buf ! 10, buf ! 11]"
  using assms
  by (intro nth_equalityI) (auto simp: nth_Cons numeral_eq_Suc split: nat.splits)

text \<open>Reading back a stored header gives the header; storing a header that was read gives the bytes.\<close>

lemma load_hdr_store_hdr [wire_simps]: "load_hdr (store_hdr h @ rest) = Some h"
proof -
  have "store_hdr h @ rest = flags_byte h # type_byte h # (mem16 (h_seq h) @ mem32 (h_ts h) @ mem32 (h_ssrc h) @ rest)"
    by (simp add: store_hdr_def)
  then show ?thesis
    by (simp add: load_hdr_def wire_simps mem16_def mem32_def load16_mem16 load32_mem32)
qed

lemma store_hdr_load_hdr: "load_hdr buf = Some h \<Longrightarrow> store_hdr h = take 12 buf"
  by (auto simp: load_hdr_def store_hdr_def flags_byte_def type_byte_def flags_byte_split
      type_byte_split take_12 split: if_splits)

lemma load_hdr_Some: "12 \<le> length buf \<Longrightarrow> \<exists>h. load_hdr buf = Some h"
  by (simp add: load_hdr_def)

section \<open>Sequence numbers and time stamps\<close>

text \<open>
  \<open>SEQ_DIST\<close> on 16-bit sequence numbers and \<open>ts_less\<close> on 32-bit time stamps. The literal
  \<open>1 << 31\<close> of \<open>ts_less\<close> is converted to \<open>uint32_t\<close>.
\<close>

definition SEQ_DIST :: "u16 \<Rightarrow> u16 \<Rightarrow> int" where
  "SEQ_DIST seq1 seq2 =
     (if seq1 \<le> seq2 then uint seq2 - uint seq1 else uint seq2 + 65536 - uint seq1)"

definition ts_less :: "u32 \<Rightarrow> u32 \<Rightarrow> bool" where
  "ts_less ts1 ts2 \<longleftrightarrow> ts1 - ts2 > 0x80000000"

lemma SEQ_DIST_eq: "SEQ_DIST a b = uint (b - a)"
proof -
  have "uint (b - a) = (uint b - uint a) mod 65536"
    by (simp add: uint_word_ariths)
  moreover have "0 \<le> uint a" "uint a < 65536" "0 \<le> uint b" "uint b < 65536"
    using uint_lt2p [of a] uint_lt2p [of b] by simp_all
  ultimately show ?thesis
    unfolding SEQ_DIST_def word_le_def by (smt (verit) mod_pos_pos_trivial mod_add_self2)
qed

lemma ts_less_forward:
  assumes "0 < d" and "d < 2147483648"
  shows "ts_less t (t + of_nat d)"
proof -
  have "uint (t - (t + of_nat d)) = (- int d) mod 4294967296"
    by (simp add: uint_word_ariths unsigned_of_nat take_bit_eq_mod mod_minus_eq of_nat_mod)
  also have "\<dots> = 4294967296 - int d"
    using assms by (simp add: zmod_zminus1_eq_if)
  finally show ?thesis
    using assms by (simp add: ts_less_def word_less_def)
qed

end
