(* ===== verification/Rtp_Parser.thy ===== *)
theory Rtp_Parser
  imports Rtp_Wire
begin

text \<open>
  The RTP parser and validator of \<^verbatim>\<open>src/rtp.c\<close>, with the payload profiles and the
  result structure \<open>rtp_info\<close> of \<^verbatim>\<open>src/rtp_info.h\<close>. The datagram is the list of its bytes;
  \<open>size\<close> is the length of the list. Every byte is read through a bounds check, so that the
  result \<open>None\<close> stands for a read outside of the datagram or for a signed overflow.
\<close>

section \<open>Payload types and profiles\<close>

datatype rtp_pt_kind = RTP_PTK_AUDIO | RTP_PTK_VIDEO | RTP_PTK_SIGN | RTP_PTK_RES

text \<open>The enumerator \<open>RTP_PTK_UNK\<close> has the same value as \<open>RTP_PTK_AUDIO\<close>.\<close>

definition RTP_PTK_UNK :: rtp_pt_kind where
  "RTP_PTK_UNK = RTP_PTK_AUDIO"

record rtp_profile =
  ts_rate :: int
  sample_rate :: int
  nchannels :: int
  pt_kind :: rtp_pt_kind

definition RTP_PROFILE_AUDIO :: "int \<Rightarrow> int \<Rightarrow> rtp_profile" where
  "RTP_PROFILE_AUDIO s nc =
     \<lparr>ts_rate = s, sample_rate = s, nchannels = nc, pt_kind = RTP_PTK_AUDIO\<rparr>"

definition rtp_profile_reserved :: rtp_profile where
  "rtp_profile_reserved = \<lparr>ts_rate = 0, sample_rate = 0, nchannels = 0, pt_kind = RTP_PTK_RES\<rparr>"

text \<open>Array elements without an initialiser are zero.\<close>

definition rtp_profile_zero :: rtp_profile where
  "rtp_profile_zero = \<lparr>ts_rate = 0, sample_rate = 0, nchannels = 0, pt_kind = RTP_PTK_UNK\<rparr>"

definition rtp_profiles :: "rtp_profile list" where
  "rtp_profiles =
     [RTP_PROFILE_AUDIO 8000 1,
      rtp_profile_reserved,
      rtp_profile_reserved,
      RTP_PROFILE_AUDIO 8000 1,
      RTP_PROFILE_AUDIO 8000 1,
      RTP_PROFILE_AUDIO 8000 1,
      RTP_PROFILE_AUDIO 16000 1,
      RTP_PROFILE_AUDIO 8000 1,
      RTP_PROFILE_AUDIO 8000 1,
      RTP_PROFILE_AUDIO 8000 1,
      RTP_PROFILE_AUDIO 44100 1,
      RTP_PROFILE_AUDIO 44100 2,
      RTP_PROFILE_AUDIO 8000 1,
      RTP_PROFILE_AUDIO 8000 1,
      RTP_PROFILE_AUDIO 90000 2,
      RTP_PROFILE_AUDIO 8000 1,
      RTP_PROFILE_AUDIO 11025 1,
      RTP_PROFILE_AUDIO 22050 1,
      RTP_PROFILE_AUDIO 8000 1] @ replicate 109 rtp_profile_zero"

lemma length_rtp_profiles [simp]: "length rtp_profiles = 128"
  by (simp add: rtp_profiles_def)

text \<open>The payload types the parser tells apart (\<open>enum rtp_type\<close>).\<close>

datatype rtp_type =
    RTP_UNKN | RTP_PCMU | RTP_GSM | RTP_G723 | RTP_DVI4_8000 | RTP_DVI4_16000 | RTP_LPC
  | RTP_PCMA | RTP_G722 | RTP_L16_MONO | RTP_L16_STEREO | RTP_QCELP | RTP_CN | RTP_MPA
  | RTP_G728 | RTP_DVI4_11025 | RTP_DVI4_22050 | RTP_G729 | RTP_TSE | RTP_TSE_CISCO

primrec rtp_type_code :: "rtp_type \<Rightarrow> int" where
  "rtp_type_code RTP_UNKN = -1"
| "rtp_type_code RTP_PCMU = 0"
| "rtp_type_code RTP_GSM = 3"
| "rtp_type_code RTP_G723 = 4"
| "rtp_type_code RTP_DVI4_8000 = 5"
| "rtp_type_code RTP_DVI4_16000 = 6"
| "rtp_type_code RTP_LPC = 7"
| "rtp_type_code RTP_PCMA = 8"
| "rtp_type_code RTP_G722 = 9"
| "rtp_type_code RTP_L16_MONO = 10"
| "rtp_type_code RTP_L16_STEREO = 11"
| "rtp_type_code RTP_QCELP = 12"
| "rtp_type_code RTP_CN = 13"
| "rtp_type_code RTP_MPA = 14"
| "rtp_type_code RTP_G728 = 15"
| "rtp_type_code RTP_DVI4_11025 = 16"
| "rtp_type_code RTP_DVI4_22050 = 17"
| "rtp_type_code RTP_G729 = 18"
| "rtp_type_code RTP_TSE = 100"
| "rtp_type_code RTP_TSE_CISCO = 101"

section \<open>Results\<close>

datatype rtp_parser_err =
    RTP_PARSER_NOTPARSED | RTP_PARSER_OK | RTP_PARSER_PTOOSHRT | RTP_PARSER_IHDRVER
  | RTP_PARSER_PTOOSHRTXS | RTP_PARSER_PTOOSHRTXH | RTP_PARSER_PTOOSHRTPS
  | RTP_PARSER_PTOOSHRTP | RTP_PARSER_IPS

primrec parser_err_code :: "rtp_parser_err \<Rightarrow> int" where
  "parser_err_code RTP_PARSER_NOTPARSED = 0"
| "parser_err_code RTP_PARSER_OK = 1"
| "parser_err_code RTP_PARSER_PTOOSHRT = -1"
| "parser_err_code RTP_PARSER_IHDRVER = -2"
| "parser_err_code RTP_PARSER_PTOOSHRTXS = -3"
| "parser_err_code RTP_PARSER_PTOOSHRTXH = -4"
| "parser_err_code RTP_PARSER_PTOOSHRTPS = -5"
| "parser_err_code RTP_PARSER_PTOOSHRTP = -6"
| "parser_err_code RTP_PARSER_IPS = -7"

text \<open>The message of an error code; any other code aborts.\<close>

fun rtp_packet_parse_errstr :: "rtp_parser_err \<Rightarrow> string option" where
  "rtp_packet_parse_errstr RTP_PARSER_OK = Some ''no error''"
| "rtp_packet_parse_errstr RTP_PARSER_PTOOSHRT = Some ''packet is too short for RTP header''"
| "rtp_packet_parse_errstr RTP_PARSER_IHDRVER = Some ''incorrect RTP header version''"
| "rtp_packet_parse_errstr RTP_PARSER_PTOOSHRTXS =
     Some ''packet is too short for extended RTP header size''"
| "rtp_packet_parse_errstr RTP_PARSER_PTOOSHRTXH =
     Some ''packet is too short for extended RTP header''"
| "rtp_packet_parse_errstr RTP_PARSER_PTOOSHRTPS =
     Some ''packet is too short for RTP padding size''"
| "rtp_packet_parse_errstr RTP_PARSER_PTOOSHRTP = Some ''packet is too short for RTP padding''"
| "rtp_packet_parse_errstr RTP_PARSER_IPS = Some ''invalid RTP padding size''"
| "rtp_packet_parse_errstr RTP_PARSER_NOTPARSED = None"

definition RTP_NSAMPLES_UNKNOWN :: int where
  "RTP_NSAMPLES_UNKNOWN = -1"

record rtp_info =
  data_size :: nat
  data_offset :: nat
  nsamples :: int
  ri_ts :: u32
  ri_seq :: u16
  ri_ssrc :: u32
  appendable :: int
  ri_profile :: "rtp_profile option"

text \<open>A structure cleared by \<open>memset\<close>.\<close>

definition rtp_info_zero :: rtp_info where
  "rtp_info_zero = \<lparr>data_size = 0, data_offset = 0, nsamples = 0, ri_ts = 0, ri_seq = 0,
     ri_ssrc = 0, appendable = 0, ri_profile = None\<rparr>"

section \<open>Counting samples\<close>

definition g723_len :: "u8 \<Rightarrow> int" where
  "g723_len ch =
     (if ch AND 3 = 2 then 4
      else if ch AND 3 = 0 then 24
      else if ch AND 3 = 1 then 20
      else RTP_NSAMPLES_UNKNOWN)"

text \<open>The loop of \<open>g723_samples\<close> over the position \<open>pos\<close> with the accumulator \<open>samples\<close>.\<close>

lemma g723_len_cases: "g723_len ch = 4 \<or> g723_len ch = 24 \<or> g723_len ch = 20 \<or> g723_len ch = -1"
  by (simp add: g723_len_def RTP_NSAMPLES_UNKNOWN_def)

function g723_loop :: "u8 list \<Rightarrow> int \<Rightarrow> int \<Rightarrow> int \<Rightarrow> int option" where
  "g723_loop buf maxlen pos samples =
     (if pos < maxlen then
        (case i32_check (samples + 240) of
           None \<Rightarrow> None
         | Some samples' \<Rightarrow>
             (case rd buf (nat pos) of
                None \<Rightarrow> None
              | Some ch \<Rightarrow>
                  (if g723_len ch = RTP_NSAMPLES_UNKNOWN then Some RTP_NSAMPLES_UNKNOWN
                   else (case i32_check (pos + g723_len ch) of
                           None \<Rightarrow> None
                         | Some pos' \<Rightarrow> g723_loop buf maxlen pos' samples'))))
      else Some samples)"
  by pat_completeness auto
termination
proof (relation "measure (\<lambda>(buf, maxlen, pos, samples). nat (maxlen - pos))", goal_cases)
  case 1
  then show ?case by simp
next
  case (2 buf maxlen pos samples samples' ch pos')
  then show ?case using g723_len_cases [of ch] by (auto simp: RTP_NSAMPLES_UNKNOWN_def)
qed

declare g723_loop.simps [simp del]

definition g723_samples :: "u8 list \<Rightarrow> int \<Rightarrow> int option" where
  "g723_samples buf maxlen = g723_loop buf maxlen 0 0"

definition rtp_calc_samples :: "int \<Rightarrow> nat \<Rightarrow> u8 list \<Rightarrow> int option" where
  "rtp_calc_samples codec_id nbytes buf =
     (if codec_id = rtp_type_code RTP_PCMU \<or> codec_id = rtp_type_code RTP_PCMA then
        Some (i32_of_size nbytes)
      else if codec_id = rtp_type_code RTP_G729 then
        Some (i32_of_size ((nbytes div 10) * 80 + (if nbytes mod 10 = 0 then 0 else 80)))
      else if codec_id = rtp_type_code RTP_GSM then
        Some (i32_of_size (160 * (nbytes div 33)))
      else if codec_id = rtp_type_code RTP_G723 then
        g723_samples buf (i32_of_size nbytes)
      else if codec_id = rtp_type_code RTP_G722 then
        Some (i32_of_size nbytes)
      else Some RTP_NSAMPLES_UNKNOWN)"

section \<open>The parser\<close>

text \<open>
  The three tests of \<open>rtp_packet_parse_raw\<close> that move the data offset or look at the
  padding, in the order of the code. \<open>Inl\<close> is an early return with an error.
\<close>

definition parse_ext :: "u8 list \<Rightarrow> rtp_hdr \<Rightarrow> rtp_info \<Rightarrow> (rtp_parser_err \<times> rtp_info + rtp_info) option" where
  "parse_ext buf header rinfo =
     (if h_x header \<noteq> 0 then
        (if length buf < data_offset rinfo + SIZEOF_RTP_HDR_EXT then
           Some (Inl (RTP_PARSER_PTOOSHRTXS, rinfo))
         else do {
           l0 \<leftarrow> rd buf (data_offset rinfo + 2);
           l1 \<leftarrow> rd buf (data_offset rinfo + 3);
           Some (Inr (rinfo\<lparr>data_offset := data_offset rinfo + (SIZEOF_RTP_HDR_EXT +
             unat (ntohs (load16 l0 l1)) * 4)\<rparr>))
         })
      else Some (Inr rinfo))"

definition parse_padding :: "u8 list \<Rightarrow> rtp_hdr \<Rightarrow> rtp_info \<Rightarrow> (rtp_parser_err + nat) option" where
  "parse_padding buf header rinfo =
     (if h_p header \<noteq> 0 then
        (if data_offset rinfo = length buf then Some (Inl RTP_PARSER_PTOOSHRTPS)
         else do {
           b \<leftarrow> rd buf (length buf - 1);
           (if b = 0 then Some (Inl RTP_PARSER_IPS) else Some (Inr (unat b)))
         })
      else Some (Inr 0))"

text \<open>The end of the parser, once the packet is known to be well formed.\<close>

definition parse_fill :: "u8 list \<Rightarrow> rtp_hdr \<Rightarrow> nat \<Rightarrow> rtp_info \<Rightarrow> (rtp_parser_err \<times> rtp_info) option" where
  "parse_fill buf header padding_size rinfo0 =
     (let rinfo = rinfo0\<lparr>data_size := length buf - data_offset rinfo0 - padding_size,
            ri_ts := ntohl (h_ts header),
            ri_seq := ntohs (h_seq header),
            ri_ssrc := ntohl (h_ssrc header),
            ri_profile := Some (rtp_profiles ! unat (h_pt header))\<rparr>
      in if data_size rinfo = 0 then Some (RTP_PARSER_OK, rinfo)
         else do {
           ns \<leftarrow> rtp_calc_samples (uint (h_pt header)) (data_size rinfo) (drop (data_offset rinfo) buf);
           let rinfo' = rinfo\<lparr>nsamples := ns\<rparr>;
           Some (RTP_PARSER_OK,
             if uint (h_pt header) = rtp_type_code RTP_G729 \<and> data_size rinfo' mod 10 \<noteq> 0
             then rinfo'\<lparr>appendable := 0\<rparr> else rinfo')
         })"

text \<open>Everything after the header extension was skipped.\<close>

definition parse_rest :: "u8 list \<Rightarrow> rtp_hdr \<Rightarrow> rtp_info \<Rightarrow> (rtp_parser_err \<times> rtp_info) option" where
  "parse_rest buf header rinfo =
     (if length buf < data_offset rinfo then Some (RTP_PARSER_PTOOSHRTXH, rinfo)
      else do {
        q \<leftarrow> parse_padding buf header rinfo;
        (case q of
           Inl e \<Rightarrow> Some (e, rinfo)
         | Inr padding_size \<Rightarrow>
             (if length buf < data_offset rinfo + padding_size
              then Some (RTP_PARSER_PTOOSHRTP, rinfo)
              else parse_fill buf header padding_size rinfo))
      })"

definition rtp_packet_parse_raw :: "u8 list \<Rightarrow> rtp_info \<Rightarrow> (rtp_parser_err \<times> rtp_info) option" where
  "rtp_packet_parse_raw buf rinfo0 =
     (let rinfo = rinfo0\<lparr>data_size := 0, data_offset := 0, appendable := 1,
            nsamples := RTP_NSAMPLES_UNKNOWN\<rparr>
      in if length buf < SIZEOF_RTP_HDR then Some (RTP_PARSER_PTOOSHRT, rinfo)
         else do {
           header \<leftarrow> load_hdr buf;
           (if h_version header \<noteq> 2 then Some (RTP_PARSER_IHDRVER, rinfo)
            else do {
              r \<leftarrow> parse_ext buf header (rinfo\<lparr>data_offset := RTP_HDR_LEN header\<rparr>);
              (case r of
                 Inl err \<Rightarrow> Some err
               | Inr rinfo' \<Rightarrow> parse_rest buf header rinfo')
            })
         })"

section \<open>Correctness of the sample counters\<close>

text \<open>
  Reference definitions. A G.723.1 payload is a sequence of frames whose first byte tells
  their length (the last one may be cut short); each frame is 240 samples.
  The bound of 33554432 bytes (32 MiB) in what follows keeps the sample counter, a signed
  \<open>int\<close>, from overflowing; a UDP datagram has at most 65535 bytes.
\<close>

function g723_frames :: "u8 list \<Rightarrow> nat option" where
  "g723_frames [] = Some 0"
| "g723_frames (ch # rest) =
     (if g723_len ch = RTP_NSAMPLES_UNKNOWN then None
      else map_option Suc (g723_frames (drop (nat (g723_len ch)) (ch # rest))))"
  by pat_completeness auto
termination
proof (relation "measure length", goal_cases)
  case 1
  then show ?case by simp
next
  case (2 ch rest)
  then show ?case using g723_len_cases [of ch] by (auto simp: RTP_NSAMPLES_UNKNOWN_def)
qed

declare g723_frames.simps [simp del]

lemma g723_frames_Nil [simp]: "g723_frames [] = Some 0"
  by (simp add: g723_frames.simps)

lemma g723_frames_step:
  "xs \<noteq> [] \<Longrightarrow> g723_frames xs =
     (if g723_len (hd xs) = RTP_NSAMPLES_UNKNOWN then None
      else map_option Suc (g723_frames (drop (nat (g723_len (hd xs))) xs)))"
  by (cases xs) (simp_all add: g723_frames.simps)

lemma g723_loop_frames:
  assumes "0 \<le> pos" and "maxlen \<le> int (length buf)" and "maxlen \<le> 33554432"
    and "0 \<le> samples" and "samples \<le> 60 * pos" and "pos \<le> maxlen + 23"
  shows "g723_loop buf maxlen pos samples =
    Some (case g723_frames (drop (nat pos) (take (nat maxlen) buf)) of
            None \<Rightarrow> RTP_NSAMPLES_UNKNOWN | Some k \<Rightarrow> samples + 240 * int k)"
  using assms
proof (induction buf maxlen pos samples rule: g723_loop.induct)
  case (1 buf maxlen pos samples)
  show ?case
  proof (cases "pos < maxlen")
    case False
    with "1.prems" show ?thesis by (simp add: g723_loop.simps [of buf])
  next
    case True
    let ?ch = "buf ! nat pos"
    from True "1.prems" have len: "nat pos < length buf" by linarith
    let ?xs = "drop (nat pos) (take (nat maxlen) buf)"
    have hd: "hd ?xs = ?ch" "?xs \<noteq> []"
      using True len "1.prems"(1) by (simp_all add: hd_drop_conv_nth)
    have r1: "i32_range (samples + 240)"
      using True "1.prems" by (simp add: i32_range_def)
    show ?thesis
    proof (cases "g723_len ?ch = RTP_NSAMPLES_UNKNOWN")
      case unk: True
      then show ?thesis using True len hd r1
        by (simp add: g723_loop.simps [of buf] g723_frames_step)
    next
      case known: False
      then have n: "4 \<le> g723_len ?ch" "g723_len ?ch \<le> 24"
        using g723_len_cases [of ?ch] by (auto simp: RTP_NSAMPLES_UNKNOWN_def)
      then have r2: "i32_range (pos + g723_len ?ch)"
        using True "1.prems" by (simp add: i32_range_def)
      have "nat (pos + g723_len ?ch) = nat (g723_len ?ch) + nat pos"
        using n "1.prems"(1) by (simp add: nat_add_distrib)
      moreover have "g723_loop buf maxlen (pos + g723_len ?ch) (samples + 240) =
        Some (case g723_frames (drop (nat (pos + g723_len ?ch)) (take (nat maxlen) buf)) of
            None \<Rightarrow> RTP_NSAMPLES_UNKNOWN | Some k \<Rightarrow> samples + 240 + 240 * int k)"
        using "1.IH" [OF True] r1 r2 len known n True "1.prems" by simp
      ultimately show ?thesis
        using True len hd r1 r2 known
        by (simp add: g723_loop.simps [of buf] g723_frames_step split: option.split)
    qed
  qed
qed


lemma g723_samples_frames:
  assumes "n \<le> length buf" and "n \<le> 33554432"
  shows "g723_samples buf (int n) =
    Some (case g723_frames (take n buf) of
            None \<Rightarrow> RTP_NSAMPLES_UNKNOWN | Some k \<Rightarrow> 240 * int k)"
  using assms by (simp add: g723_samples_def g723_loop_frames split: option.split)

text \<open>The number of samples of a payload, by payload type; -1 when it is not known.\<close>

definition payload_samples :: "int \<Rightarrow> u8 list \<Rightarrow> int" where
  "payload_samples pt payload =
     (let n = int (length payload) in
      if pt = 0 \<or> pt = 8 \<or> pt = 9 then n
      else if pt = 18 then 80 * ((n + 9) div 10)
      else if pt = 3 then 160 * (n div 33)
      else if pt = 4 then (case g723_frames payload of None \<Rightarrow> -1 | Some k \<Rightarrow> 240 * int k)
      else -1)"

lemma g729_frames:
  "(n div 10) * 80 + (if n mod 10 = 0 then 0 else 80) = 80 * ((n + 9) div (10::nat))"
proof (cases "n mod 10 = 0")
  case True
  then show ?thesis by auto
next
  case False
  define q r where "q = n div 10" and "r = n mod 10"
  have "n = 10 * q + r" and "0 < r" and "r < 10"
    using False by (simp_all add: q_def r_def)
  then have "(n + 9) div 10 = Suc q"
    by (intro div_nat_eqI) simp_all
  with False show ?thesis by (simp add: q_def)
qed

lemma rtp_calc_samples_spec:
  assumes "n \<le> length buf" and "n \<le> 33554432"
  shows "rtp_calc_samples pt n buf = Some (payload_samples pt (take n buf))"
proof -
  note g729 = g729_frames [of n]
  have z: "int (80 * ((n + 9) div 10)) = 80 * ((int n + 9) div 10)"
    "int (160 * (n div 33)) = 160 * (int n div 33)"
    by (simp_all add: zdiv_int)
  have "i32_of_size (80 * ((n + 9) div 10)) = 80 * ((int n + 9) div 10)"
    "i32_of_size (160 * (n div 33)) = 160 * (int n div 33)"
    unfolding z [symmetric] using assms by (intro i32_of_size_small; linarith)+
  then show ?thesis
    using assms
    by (simp add: rtp_calc_samples_def payload_samples_def g729 i32_of_size_small
        g723_samples_frames RTP_NSAMPLES_UNKNOWN_def cong: option.case_cong)
qed

section \<open>The packet layout of RFC 3550\<close>

text \<open>
  What a well-formed packet looks like: the fixed header, the list of contributing sources,
  the optional extension whose second half-word is its length in 32-bit words, the payload,
  and the optional padding whose last byte is its own length.
\<close>

definition ext_layout :: "rtp_hdr \<Rightarrow> u8 list \<Rightarrow> bool" where
  "ext_layout h ext \<longleftrightarrow>
     (if h_x h = 0 then ext = []
      else 4 \<le> length ext \<and> length ext = 4 + 4 * unat (load16 (ext ! 3) (ext ! 2)))"

definition pad_layout :: "rtp_hdr \<Rightarrow> u8 list \<Rightarrow> bool" where
  "pad_layout h pad \<longleftrightarrow>
     (if h_p h = 0 then pad = [] else pad \<noteq> [] \<and> unat (last pad) = length pad)"

definition rtp_layout :: "u8 list \<Rightarrow> rtp_hdr \<Rightarrow> u8 list \<Rightarrow> u8 list \<Rightarrow> u8 list \<Rightarrow> u8 list \<Rightarrow> bool" where
  "rtp_layout buf h csrc ext payload pad \<longleftrightarrow>
     buf = store_hdr h @ csrc @ ext @ payload @ pad \<and> h_version h = 2 \<and>
     length csrc = 4 * unat (h_cc h) \<and> ext_layout h ext \<and> pad_layout h pad"

text \<open>What the parser is expected to report for such a packet.\<close>

definition layout_info :: "rtp_info \<Rightarrow> rtp_hdr \<Rightarrow> u8 list \<Rightarrow> u8 list \<Rightarrow> u8 list \<Rightarrow> rtp_info" where
  "layout_info ri h csrc ext payload =
     ri\<lparr>data_size := length payload,
        data_offset := 12 + length csrc + length ext,
        nsamples := (if payload = [] then -1 else payload_samples (uint (h_pt h)) payload),
        ri_ts := ntohl (h_ts h), ri_seq := ntohs (h_seq h), ri_ssrc := ntohl (h_ssrc h),
        appendable := (if uint (h_pt h) = 18 \<and> length payload mod 10 \<noteq> 0 then 0 else 1),
        ri_profile := Some (rtp_profiles ! unat (h_pt h))\<rparr>"

lemma parse_ext_layout:
  assumes "buf = hd12 @ csrc @ ext @ rest" and "length hd12 = 12" and "ext_layout h ext"
    and "data_offset ri = 12 + length csrc"
  shows "parse_ext buf h ri = Some (Inr (ri\<lparr>data_offset := 12 + length csrc + length ext\<rparr>))"
proof (cases "h_x h = 0")
  case True
  with assms show ?thesis by (simp add: parse_ext_def ext_layout_def)
next
  case False
  with assms have l: "4 \<le> length ext" "length ext = 4 + 4 * unat (load16 (ext ! 3) (ext ! 2))"
    by (simp_all add: ext_layout_def)
  have "buf ! (12 + length csrc + 2) = ext ! 2" "buf ! (12 + length csrc + 3) = ext ! 3"
    using assms(1,2) l(1) by (simp_all add: nth_append)
  then show ?thesis
    using False assms l by (simp add: parse_ext_def ntohs_load16 mult.commute)
qed

lemma parse_padding_layout:
  assumes "buf = front @ payload @ pad" and "pad_layout h pad"
    and "data_offset ri = length front"
  shows "parse_padding buf h ri = Some (Inr (length pad))"
proof (cases "h_p h = 0")
  case True
  with assms show ?thesis by (simp add: parse_padding_def pad_layout_def)
next
  case False
  with assms have l: "pad \<noteq> []" "unat (last pad) = length pad"
    by (simp_all add: pad_layout_def)
  have "buf ! (length buf - 1) = last pad"
    using assms(1) l(1) by (metis append_is_Nil_conv last_appendR last_conv_nth)
  moreover have "last pad \<noteq> 0" using l by auto
  ultimately show ?thesis
    using False assms l by (simp add: parse_padding_def)
qed

lemma parse_fill_layout:
  assumes "buf = front @ payload @ pad" and "data_offset ri = length front"
    and "length buf \<le> 33554432"
  shows "parse_fill buf h (length pad) ri = Some (RTP_PARSER_OK,
     let ri' = ri\<lparr>data_size := length payload, ri_ts := ntohl (h_ts h), ri_seq := ntohs (h_seq h),
        ri_ssrc := ntohl (h_ssrc h), ri_profile := Some (rtp_profiles ! unat (h_pt h))\<rparr>
     in if payload = [] then ri'
        else ri'\<lparr>nsamples := payload_samples (uint (h_pt h)) payload,
          appendable := (if uint (h_pt h) = 18 \<and> length payload mod 10 \<noteq> 0 then 0 else appendable ri)\<rparr>)"
proof -
  have "rtp_calc_samples (uint (h_pt h)) (length payload) (payload @ pad) =
      Some (payload_samples (uint (h_pt h)) payload)"
    using assms by (subst rtp_calc_samples_spec) auto
  then show ?thesis
    using assms(1,2) by (auto simp: parse_fill_def Let_def)
qed

lemma parse_layout:
  assumes "rtp_layout buf h csrc ext payload pad" and "length buf \<le> 33554432"
  shows "rtp_packet_parse_raw buf ri = Some (RTP_PARSER_OK, layout_info ri h csrc ext payload)"
proof -
  let ?ri = "ri\<lparr>data_size := 0, data_offset := 12 + length csrc, appendable := 1,
            nsamples := RTP_NSAMPLES_UNKNOWN\<rparr>"
  let ?ri' = "ri\<lparr>data_size := 0, data_offset := 12 + length csrc + length ext, appendable := 1,
            nsamples := RTP_NSAMPLES_UNKNOWN\<rparr>"
  from assms(1) have buf: "buf = store_hdr h @ csrc @ ext @ payload @ pad"
    and v: "h_version h = 2" and c: "length csrc = 4 * unat (h_cc h)"
    and e: "ext_layout h ext" and p: "pad_layout h pad"
    by (simp_all add: rtp_layout_def)
  have hdr: "load_hdr buf = Some h" by (simp add: buf wire_simps)
  have "parse_ext buf h ?ri = Some (Inr ?ri')"
    using parse_ext_layout [OF buf _ e, of ?ri] by simp
  moreover have "parse_padding buf h ?ri' = Some (Inr (length pad))"
    by (rule parse_padding_layout [of _ "store_hdr h @ csrc @ ext" payload]) (simp_all add: buf p)
  moreover note parse_fill_layout [of buf "store_hdr h @ csrc @ ext" payload pad ?ri' h]
  ultimately show ?thesis
    using hdr v c assms(2)
    by (cases ri) (auto simp: rtp_packet_parse_raw_def parse_rest_def RTP_HDR_LEN_def buf layout_info_def Let_def
        RTP_NSAMPLES_UNKNOWN_def mult.commute)
qed


lemma parse_ext_Inr:
  assumes "parse_ext buf h ri = Some (Inr ri')" and "data_offset ri' \<le> length buf"
  obtains n where "ri' = ri\<lparr>data_offset := data_offset ri + n\<rparr>"
    and "ext_layout h (take n (drop (data_offset ri) buf))"
    and "length (take n (drop (data_offset ri) buf)) = n"
proof (cases "h_x h = 0")
  case True
  with assms have "ri' = ri\<lparr>data_offset := data_offset ri + 0\<rparr>"
    by (simp add: parse_ext_def)
  with True show ?thesis by (intro that [of 0]) (simp_all add: ext_layout_def)
next
  case False
  let ?l = "unat (load16 (buf ! (data_offset ri + 3)) (buf ! (data_offset ri + 2)))"
  from False assms(1) have "data_offset ri + 4 \<le> length buf"
    and ri': "ri' = ri\<lparr>data_offset := data_offset ri + (4 + 4 * ?l)\<rparr>"
    by (auto simp: parse_ext_def ntohs_load16 mult.commute bind_eq_Some_conv split: if_splits)
  with False assms(2) show ?thesis
    by (intro that [of "4 + 4 * ?l"]) (simp_all add: ext_layout_def)
qed

lemma parse_padding_Inr:
  assumes "parse_padding buf h ri = Some (Inr n)" and "data_offset ri + n \<le> length buf"
  shows "pad_layout h (drop (length buf - n) buf)"
proof (cases "h_p h = 0")
  case True
  with assms show ?thesis by (simp add: parse_padding_def pad_layout_def)
next
  case False
  with assms have "length buf \<noteq> 0" and n: "n = unat (buf ! (length buf - 1))"
    and "buf ! (length buf - 1) \<noteq> 0"
    by (auto simp: parse_padding_def bind_eq_Some_conv split: if_splits)
  then have "0 < n" by (simp add: unat_gt_0)
  moreover have "last (drop (length buf - n) buf) = buf ! (length buf - 1)"
    using \<open>0 < n\<close> assms(2) \<open>length buf \<noteq> 0\<close> by (simp add: last_conv_nth)
  ultimately show ?thesis
    using False assms(2) n by (simp add: pad_layout_def)
qed

lemma parse_rest_OK:
  assumes "parse_rest buf h ri = Some (RTP_PARSER_OK, ri')"
  obtains n where "parse_padding buf h ri = Some (Inr n)" "data_offset ri + n \<le> length buf"
    "parse_fill buf h n ri = Some (RTP_PARSER_OK, ri')"
proof -
  have "parse_padding buf h ri \<noteq> Some (Inl RTP_PARSER_OK)"
    by (auto simp: parse_padding_def bind_eq_Some_conv split: if_splits)
  moreover obtain q where "parse_padding buf h ri = Some q" and "data_offset ri \<le> length buf"
    using assms by (auto simp: parse_rest_def bind_eq_Some_conv not_less split: if_splits)
  ultimately show ?thesis
    using assms by (cases q) (auto simp: parse_rest_def split: if_splits intro: that)
qed

lemma parse_OK_cases:
  assumes "rtp_packet_parse_raw buf ri = Some (RTP_PARSER_OK, ri')"
  obtains h ri0 ri1 where "load_hdr buf = Some h" "h_version h = 2"
    "data_offset ri0 = RTP_HDR_LEN h" "parse_ext buf h ri0 = Some (Inr ri1)"
    "parse_rest buf h ri1 = Some (RTP_PARSER_OK, ri')"
proof -
  have "parse_ext buf h r \<noteq> Some (Inl (RTP_PARSER_OK, r'))" for h r r'
    by (auto simp: parse_ext_def bind_eq_Some_conv split: if_splits)
  moreover obtain h where h: "load_hdr buf = Some h" "h_version h = 2" "\<not> length buf < 12"
    using assms by (auto simp: rtp_packet_parse_raw_def Let_def bind_eq_Some_conv split: if_splits)
  moreover define ri0 where "ri0 = ri\<lparr>data_size := 0, data_offset := 0, appendable := 1,
        nsamples := RTP_NSAMPLES_UNKNOWN\<rparr>\<lparr>data_offset := RTP_HDR_LEN h\<rparr>"
  moreover obtain r where "parse_ext buf h ri0 = Some r"
    using assms h by (auto simp: rtp_packet_parse_raw_def Let_def bind_eq_Some_conv ri0_def)
  ultimately show ?thesis
    using assms that [of h ri0] by (cases r) (auto simp: rtp_packet_parse_raw_def Let_def)
qed

lemma parse_OK_layout:
  assumes "rtp_packet_parse_raw buf ri = Some (RTP_PARSER_OK, ri')"
  obtains h csrc ext payload pad where "rtp_layout buf h csrc ext payload pad"
proof -
  obtain h ri0 ri1 where h: "load_hdr buf = Some h" "h_version h = 2"
    and ri0: "data_offset ri0 = RTP_HDR_LEN h" and ext: "parse_ext buf h ri0 = Some (Inr ri1)"
    and rest: "parse_rest buf h ri1 = Some (RTP_PARSER_OK, ri')"
    using parse_OK_cases [OF assms] by blast
  obtain n where pad: "parse_padding buf h ri1 = Some (Inr n)"
    and off: "data_offset ri1 + n \<le> length buf"
    using parse_rest_OK [OF rest] by blast
  obtain k where ri1: "data_offset ri1 = RTP_HDR_LEN h + k"
    and e: "ext_layout h (take k (drop (RTP_HDR_LEN h) buf))"
    using off ri0 by (auto intro: parse_ext_Inr [OF ext])
  let ?c = "take (4 * unat (h_cc h)) (drop 12 buf)"
  let ?e = "take k (drop (RTP_HDR_LEN h) buf)"
  let ?p = "take (length buf - n - data_offset ri1) (drop (data_offset ri1) buf)"
  let ?d = "drop (length buf - n) buf"
  have "length buf - n - data_offset ri1 + data_offset ri1 = length buf - n"
    using off by simp
  then have "drop (data_offset ri1) buf = ?p @ ?d"
    using append_take_drop_id [of "length buf - n - data_offset ri1" "drop (data_offset ri1) buf"]
    by simp
  moreover have "drop (RTP_HDR_LEN h) buf = ?e @ drop (data_offset ri1) buf"
    by (simp add: ri1 add.commute flip: drop_drop)
  moreover have "drop 12 buf = ?c @ drop (RTP_HDR_LEN h) buf"
    by (simp add: RTP_HDR_LEN_def mult.commute add.commute [of 12] flip: drop_drop)
  moreover have "buf = store_hdr h @ drop 12 buf"
    using store_hdr_load_hdr [OF h(1)] by simp
  ultimately have "buf = store_hdr h @ ?c @ ?e @ ?p @ ?d" by simp
  moreover have "length ?c = 4 * unat (h_cc h)"
    using off by (simp add: ri1 RTP_HDR_LEN_def)
  ultimately have "rtp_layout buf h ?c ?e ?p ?d"
    using h(2) e parse_padding_Inr [OF pad off] unfolding rtp_layout_def by blast
  then show ?thesis by (rule that)
qed

lemma parse_ext_total: "parse_ext buf h ri \<noteq> None"
  by (auto simp: parse_ext_def)

lemma parse_padding_total: "data_offset ri \<le> length buf \<Longrightarrow> parse_padding buf h ri \<noteq> None"
  by (auto simp: parse_padding_def)

lemma parse_fill_total:
  assumes "length buf \<le> 33554432"
  shows "parse_fill buf h n ri \<noteq> None"
  using assms by (simp add: parse_fill_def Let_def rtp_calc_samples_spec)

lemma parse_rest_total:
  assumes "length buf \<le> 33554432"
  shows "parse_rest buf h ri \<noteq> None"
proof (cases "data_offset ri \<le> length buf")
  case True
  then obtain q where "parse_padding buf h ri = Some q"
    using parse_padding_total [of ri buf h] by auto
  then show ?thesis
    using parse_fill_total [OF assms] by (auto simp: parse_rest_def split: sum.split)
qed (simp add: parse_rest_def)

lemma parse_total:
  assumes "length buf \<le> 33554432"
  shows "\<exists>err ri'. rtp_packet_parse_raw buf ri = Some (err, ri')"
proof (cases "length buf < 12")
  case False
  then obtain h where "load_hdr buf = Some h" using load_hdr_Some [of buf] by auto
  moreover define ri0 where "ri0 = ri\<lparr>data_size := 0, data_offset := 0, appendable := 1,
        nsamples := RTP_NSAMPLES_UNKNOWN\<rparr>\<lparr>data_offset := RTP_HDR_LEN h\<rparr>"
  moreover obtain r where "parse_ext buf h ri0 = Some r"
    using parse_ext_total [of buf h ri0] by fast
  ultimately show ?thesis
    using False parse_rest_total [OF assms]
    by (auto simp: rtp_packet_parse_raw_def Let_def split: sum.split)
qed (simp add: rtp_packet_parse_raw_def)


text \<open>What the parser has written when it fails.\<close>

definition parse_untouched :: "rtp_info \<Rightarrow> rtp_info \<Rightarrow> bool" where
  "parse_untouched ri ri' \<longleftrightarrow>
     data_size ri' = 0 \<and> nsamples ri' = RTP_NSAMPLES_UNKNOWN \<and> appendable ri' = 1 \<and>
     ri_ts ri' = ri_ts ri \<and> ri_seq ri' = ri_seq ri \<and> ri_ssrc ri' = ri_ssrc ri \<and>
     ri_profile ri' = ri_profile ri"

lemma parse_ext_untouched:
  "parse_ext buf h ri1 = Some r \<Longrightarrow> parse_untouched ri ri1 \<Longrightarrow>
     parse_untouched ri (case r of Inl (e, ri') \<Rightarrow> ri' | Inr ri' \<Rightarrow> ri')"
  by (auto simp: parse_ext_def parse_untouched_def bind_eq_Some_conv split: if_splits)

lemma parse_fill_OK: "parse_fill buf h n ri = Some (err, ri') \<Longrightarrow> err = RTP_PARSER_OK"
  by (auto simp: parse_fill_def Let_def bind_eq_Some_conv split: if_splits)

lemma parse_rest_untouched:
  assumes "parse_rest buf h ri = Some (err, ri')" and "err \<noteq> RTP_PARSER_OK"
  shows "ri' = ri"
proof (cases "data_offset ri \<le> length buf")
  case True
  then obtain q where "parse_padding buf h ri = Some q" 
    using parse_padding_total [of ri buf h] by auto
  then show ?thesis
    using assms True
    by (cases q) (auto simp: parse_rest_def dest: parse_fill_OK split: if_splits)
qed (use assms in \<open>simp add: parse_rest_def\<close>)

lemma parse_error_untouched:
  assumes "rtp_packet_parse_raw buf ri = Some (err, ri')" and "err \<noteq> RTP_PARSER_OK"
  shows "parse_untouched ri ri'"
proof (cases "length buf < 12")
  case False
  then obtain h where "load_hdr buf = Some h" using load_hdr_Some [of buf] by auto
  moreover define ri0 where "ri0 = ri\<lparr>data_size := 0, data_offset := 0, appendable := 1,
        nsamples := RTP_NSAMPLES_UNKNOWN\<rparr>"
  moreover obtain r where r: "parse_ext buf h (ri0\<lparr>data_offset := RTP_HDR_LEN h\<rparr>) = Some r"
    using parse_ext_total [of buf h] by fast
  moreover have "parse_untouched ri ri0" "parse_untouched ri (ri0\<lparr>data_offset := RTP_HDR_LEN h\<rparr>)"
    by (simp_all add: ri0_def parse_untouched_def)
  ultimately show ?thesis
    using False assms parse_ext_untouched [OF r, of ri] parse_rest_untouched [OF _ assms(2)]
    by (cases r) (auto simp: rtp_packet_parse_raw_def Let_def split: if_splits)
qed (use assms in \<open>auto simp: rtp_packet_parse_raw_def parse_untouched_def\<close>)

section \<open>Properties of the parser\<close>

text \<open>
  C7. Every datagram of at most 2^25 bytes that is laid out as RFC 3550 prescribes is accepted, the reported offset and size delimit exactly its
  payload, the time stamp, sequence number and source are those of the header in host order, and the number of samples is the one of the payload.
\<close>

theorem parser_accepts_layout:
  assumes "rtp_layout buf h csrc ext payload pad" and "length buf \<le> 33554432"
  shows "\<exists>ri'. rtp_packet_parse_raw buf ri = Some (RTP_PARSER_OK, ri') \<and>
    ri' = layout_info ri h csrc ext payload \<and>
    take (data_size ri') (drop (data_offset ri') buf) = payload"
proof -
  have "take (length payload) (drop (12 + length csrc + length ext) buf) = payload"
    using assms(1) by (simp add: rtp_layout_def)
  then show ?thesis
    using parse_layout [OF assms, of ri] by (simp add: layout_info_def)
qed

theorem parser_accepts_layout_witness:
  "rtp_packet_parse_raw (store_hdr \<lparr>h_version = 2, h_p = 1, h_x = 1, h_cc = 1, h_mbt = 0,
      h_pt = 18, h_seq = 0x0100, h_ts = 0, h_ssrc = 7\<rparr> @ [1,2,3,4] @ [9,9,0,1,5,6,7,8] @
      [10,11] @ [0,2]) rtp_info_zero \<noteq> None"
proof -
  let ?h = "\<lparr>h_version = 2, h_p = 1, h_x = 1, h_cc = 1, h_mbt = 0,
      h_pt = 18, h_seq = 0x0100, h_ts = 0, h_ssrc = 7\<rparr> :: rtp_hdr"
  have "rtp_layout (store_hdr ?h @ [1,2,3,4] @ [9,9,0,1,5,6,7,8] @ [10,11] @ [0,2])
      ?h [1,2,3,4] [9,9,0,1,5,6,7,8] [10,11] [0,2]"
    by (simp add: rtp_layout_def ext_layout_def pad_layout_def load16_def)
  from parser_accepts_layout [OF this, of rtp_info_zero] show ?thesis by auto
qed

text \<open>
  C8. Nothing else is accepted: whatever datagram of at most 2^25 bytes the parser accepts is laid out as RFC 3550 prescribes, and the report is the
  one of that layout. In particular the payload and the padding lie inside of the datagram.
\<close>

theorem parser_accepts_only_layouts:
  assumes "rtp_packet_parse_raw buf ri = Some (RTP_PARSER_OK, ri')" and "length buf \<le> 33554432"
  shows "\<exists>h csrc ext payload pad. rtp_layout buf h csrc ext payload pad \<and>
    ri' = layout_info ri h csrc ext payload"
proof -
  obtain h csrc ext payload pad where l: "rtp_layout buf h csrc ext payload pad"
    using parse_OK_layout [OF assms(1)] by blast
  moreover have "ri' = layout_info ri h csrc ext payload"
    using parse_layout [OF l assms(2), of ri] assms(1) by simp
  ultimately show ?thesis by blast
qed

theorem parser_accepts_only_layouts_witness:
  "\<exists>ri' h csrc ext payload pad.
     rtp_packet_parse_raw [0x80,0,0,1,0,0,0,2,0,0,0,3,42] rtp_info_zero = Some (RTP_PARSER_OK, ri') \<and>
     rtp_layout [0x80,0,0,1,0,0,0,2,0,0,0,3,42] h csrc ext payload pad \<and> data_offset ri' = 12"
proof -
  let ?b = "[0x80,0,0,1,0,0,0,2,0,0,0,3,42] :: u8 list"
  have "\<exists>ri'. rtp_packet_parse_raw ?b rtp_info_zero = Some (RTP_PARSER_OK, ri') \<and> data_offset ri' = 12"
    by (simp add: rtp_packet_parse_raw_def parse_rest_def parse_ext_def parse_padding_def
        parse_fill_def load_hdr_def RTP_HDR_LEN_def rtp_calc_samples_def Let_def)
  then obtain ri' where "rtp_packet_parse_raw ?b rtp_info_zero = Some (RTP_PARSER_OK, ri')"
      and "data_offset ri' = 12" by blast
  with parser_accepts_only_layouts [OF this(1)] show ?thesis by fastforce
qed

text \<open>
  C30. The parser never reads outside of the datagram and never overflows: whatever the bytes of a datagram of at most 2^25 bytes are, it returns a
  result.
\<close>

theorem parser_memory_safe:
  assumes "length buf \<le> 33554432"
  shows "\<exists>err ri'. rtp_packet_parse_raw buf ri = Some (err, ri')"
  using parse_total [OF assms] .

theorem parser_memory_safe_witness:
  "\<exists>err ri'. rtp_packet_parse_raw [0xBF, 0x84, 1] rtp_info_zero = Some (err, ri')"
  by (rule parser_memory_safe) simp

text \<open>
  When the parser reports an error, the caller's structure has no payload and the
  stream fields (time stamp, sequence number, source, profile) are as they were.
\<close>

lemma parser_error_untouched:
  assumes "rtp_packet_parse_raw buf ri = Some (err, ri')" and "err \<noteq> RTP_PARSER_OK"
  shows "parse_untouched ri ri'"
  using parse_error_untouched [OF assms] .

lemma parser_error_untouched_example:
  "\<exists>ri'. rtp_packet_parse_raw [0xA0,0,0,1,0,0,0,2,0,0,0,3] rtp_info_zero =
     Some (RTP_PARSER_PTOOSHRTPS, ri') \<and> parse_untouched rtp_info_zero ri'"
proof -
  obtain ri' where r: "rtp_packet_parse_raw [0xA0,0,0,1,0,0,0,2,0,0,0,3] rtp_info_zero =
     Some (RTP_PARSER_PTOOSHRTPS, ri')"
    by (simp add: rtp_packet_parse_raw_def parse_rest_def parse_ext_def parse_padding_def
        load_hdr_def RTP_HDR_LEN_def Let_def)
  with parser_error_untouched [OF r] show ?thesis by simp
qed

text \<open>
  The sample counters agree with the reference for every payload type: bytes for
  PCMU, PCMA and G.722, 80 for each started G.729 frame of 10 bytes, 160 for each whole GSM
  frame of 33 bytes, 240 for each G.723.1 frame, and unknown otherwise.
\<close>

lemma samples_reference:
  assumes "n \<le> length buf" and "n \<le> 33554432"
  shows "rtp_calc_samples pt n buf = Some (payload_samples pt (take n buf))"
  using rtp_calc_samples_spec [OF assms] .

lemma samples_reference_example:
  "rtp_calc_samples 4 5 [2,0,0,0,1] = Some (payload_samples 4 [2,0,0,0,1])"
  using samples_reference [of 5 "[2,0,0,0,1]" 4] by simp

end
