(* ===== verification/Rtp_Jbuf.thy ===== *)
theory Rtp_Jbuf
  imports Rtp_Parser
begin

text \<open>
  The jitter buffer of \<^verbatim>\<open>src/rtpjbuf.c\<close> and \<^verbatim>\<open>src/rtpjbuf.h\<close>: parse a datagram, extend its
  16-bit sequence number to a 64-bit logical one, drop late and duplicate packets, keep the
  others sorted, and release in-order runs, with an erasure frame for every gap.

  The list of queued frames, linked through \<open>next\<close> in C, is a HOL list; only RTP frames are
  ever queued. The \<open>data\<close> pointer of a packet is an address. \<open>malloc\<close> may fail, which is an
  argument. \<open>None\<close> is the outcome \<open>abort()\<close> of a failed \<open>d_assert\<close>, a division by zero, or
  a crash of the parser.
\<close>

section \<open>Data\<close>

type_synonym addr = nat

record rtp_packet =
  pk_info :: rtp_info
  lseq :: u64
  jbcnt :: u64
  pk_data :: addr

record ers_frame =
  lseq_start :: u64
  lseq_end :: u64
  ts_diff :: u32

datatype rtp_frame = RFT_RTP rtp_packet | RFT_ERS ers_frame

record rjb_udp_in_r =
  r_error :: int
  r_ready :: "rtp_frame list"
  r_drop :: "rtp_frame list"

record jitter_buffer =
  jb_head :: "rtp_packet list"
  jb_size :: u32
  jb_capacity :: u32

record rtpjbuf_stats =
  drop_dup :: u64
  drop_late :: u64
  drop_perror :: u64
  seq_wup :: u64

record rtpjbuf_inst =
  last_lseq :: u64
  last_ts :: u32
  last_max_lseq :: u64
  lseq_mask :: u64
  jb :: jitter_buffer
  jbs :: rtpjbuf_stats
  inst_ers :: ers_frame

definition LRS_DEFAULT :: u64 where
  "LRS_DEFAULT = -1"

definition LMS_DEFAULT :: u64 where
  "LMS_DEFAULT = LRS_DEFAULT"

definition RJB_ENOMEM :: int where
  "RJB_ENOMEM = parser_err_code RTP_PARSER_IPS - 1000"

definition d_assert :: "bool \<Rightarrow> unit option" where
  "d_assert invar = (if invar then Some () else None)"

lemma d_assert_Some [simp]: "d_assert b = Some u \<longleftrightarrow> b"
  by (simp add: d_assert_def)

lemma d_assert_True [simp]: "d_assert True = Some ()"
  by (simp add: d_assert_def)

abbreviation queued :: "rtpjbuf_inst \<Rightarrow> rtp_packet list" where
  "queued s \<equiv> jb_head (jb s)"

abbreviation warm_up :: "rtpjbuf_inst \<Rightarrow> bool" where
  "warm_up s \<equiv> last_lseq s = LRS_DEFAULT"

section \<open>Operations\<close>

definition rtpjbuf_ctor :: "bool \<Rightarrow> u32 \<Rightarrow> rtpjbuf_inst option" where
  "rtpjbuf_ctor malloc_ok capacity =
     (if \<not> malloc_ok then None
      else Some \<lparr>last_lseq = LRS_DEFAULT, last_ts = 0, last_max_lseq = LMS_DEFAULT, lseq_mask = 0,
        jb = \<lparr>jb_head = [], jb_size = 0, jb_capacity = capacity\<rparr>,
        jbs = \<lparr>drop_dup = 0, drop_late = 0, drop_perror = 0, seq_wup = 0\<rparr>,
        inst_ers = \<lparr>lseq_start = 0, lseq_end = 0, ts_diff = 0\<rparr>\<rparr>)"

text \<open>The destructor frees, in order, the frames that are still queued.\<close>

fun rtpjbuf_dtor_loop :: "rtp_packet list \<Rightarrow> rtp_packet list \<Rightarrow> rtp_packet list" where
  "rtpjbuf_dtor_loop [] freed = freed"
| "rtpjbuf_dtor_loop (rfp # rfp_next) freed = rtpjbuf_dtor_loop rfp_next (freed @ [rfp])"

definition rtpjbuf_dtor :: "rtpjbuf_inst \<Rightarrow> rtp_packet list" where
  "rtpjbuf_dtor s = rtpjbuf_dtor_loop (queued s) []"

text \<open>
  A packet that stays at the end of a nearly full buffer for too long is taken out, so that
  a stray packet far ahead of the stream cannot block the buffer.
\<close>

definition purge_stale_tail :: "rtpjbuf_inst \<Rightarrow> rtp_packet option \<times> rtpjbuf_inst" where
  "purge_stale_tail s =
     (if queued s = [] \<or> jb_size (jb s) < jb_capacity (jb s) - 1 then (None, s)
      else
        (let prevs = butlast (queued s);
             fp = (last (queued s))\<lparr>jbcnt := jbcnt (last (queued s)) + 1\<rparr>
         in if jbcnt fp < ucast (jb_capacity (jb s))
            then (None, s\<lparr>jb := (jb s)\<lparr>jb_head := prevs @ [fp]\<rparr>\<rparr>)
            else (Some fp,
              s\<lparr>jb := (jb s)\<lparr>jb_head := prevs, jb_size := jb_size (jb s) - 1\<rparr>,
                last_max_lseq :=
                  (if last_max_lseq s = lseq fp
                   then (if prevs \<noteq> [] then lseq (last prevs) else LMS_DEFAULT)
                   else last_max_lseq s)\<rparr>)))"

text \<open>
  Put an erasure frame in front of the run \<open>fps\<close> when it does not continue the stream. All
  arithmetic on the time stamps is done in \<open>uint32_t\<close>.
\<close>

definition ers_ts_diff :: "u32 \<Rightarrow> u32 \<Rightarrow> u32 option" where
  "ers_ts_diff prev_ts ts =
     (if ts < prev_ts then
        (let ts_diff64 = (0x100000000 + ucast ts - ucast prev_ts :: u64)
         in do { d_assert (ts_diff64 < 0x100000000); Some (ucast ts_diff64) })
      else Some (ts - prev_ts))"

definition insert_ers_frame ::
    "rtpjbuf_inst \<Rightarrow> rtp_packet list \<Rightarrow> (rtp_frame list \<times> rtpjbuf_inst) option" where
  "insert_ers_frame s fps =
     (let fp = hd fps in
      if last_lseq s + 1 = lseq fp then Some (map RFT_RTP fps, s)
      else do {
        let start = last_lseq s + 1;
        let end = lseq fp - 1;
        tsd \<leftarrow> ers_ts_diff (last_ts s) (ri_ts (pk_info fp));
        let lseq_diff = (ucast (end - start + 1) :: u32);
        _ \<leftarrow> (if lseq_diff + 1 = 0 then None else Some ());
        let ers = \<lparr>lseq_start = start, lseq_end = end,
              ts_diff = tsd * lseq_diff div (lseq_diff + 1)\<rparr>;
        Some (RFT_ERS ers # map RFT_RTP fps, s\<lparr>inst_ers := ers\<rparr>)
      })"

definition save_last :: "rtpjbuf_inst \<Rightarrow> rtp_packet \<Rightarrow> rtpjbuf_inst option" where
  "save_last s rp = do {
     d_assert (last_lseq s = LRS_DEFAULT \<or> last_lseq s < lseq rp);
     Some (s\<lparr>last_lseq := lseq rp, last_ts := ri_ts (pk_info rp)\<rparr>)
   }"

text \<open>The longest prefix with consecutive logical sequence numbers, and the rest.\<close>

fun split_run :: "rtp_packet list \<Rightarrow> rtp_packet list \<times> rtp_packet list" where
  "split_run [] = ([], [])"
| "split_run [x] = ([x], [])"
| "split_run (x # y # rest) =
     (if lseq x + 1 \<noteq> lseq y then ([x], y # rest)
      else (let (run, others) = split_run (y # rest) in (x # run, others)))"

text \<open>
  Extension of the sequence number. A high number right after a wrap belongs to the
  previous cycle; a number far below the maximum starts a new cycle.
\<close>

definition seq_unwrap :: "rtpjbuf_inst \<Rightarrow> rtp_packet \<Rightarrow> rtp_packet \<times> rtpjbuf_inst" where
  "seq_unwrap s fp =
     (if last_max_lseq s mod 65536 < 536 \<and> ri_seq (pk_info fp) > 65000 then
        (fp\<lparr>lseq := lseq fp - 0x10000\<rparr>, s)
      else if last_max_lseq s > 65000 \<and> lseq fp < last_max_lseq s - 65000 then
        (fp\<lparr>lseq := lseq fp + 0x10000\<rparr>,
         s\<lparr>lseq_mask := lseq_mask s + 0x10000, jbs := (jbs s)\<lparr>seq_wup := seq_wup (jbs s) + 1\<rparr>\<rparr>)
      else (fp, s))"

text \<open>The label \<open>lms_init\<close>: the packet meets an empty buffer.\<close>

definition lms_init ::
    "rtpjbuf_inst \<Rightarrow> rtp_packet \<Rightarrow> rtp_frame list \<Rightarrow> (rjb_udp_in_r \<times> rtpjbuf_inst) option" where
  "lms_init s0 fp drp =
     (let s = s0\<lparr>last_max_lseq := lseq fp\<rparr> in
      if \<not> warm_up s \<and> last_lseq s = lseq fp - 1 then do {
        s' \<leftarrow> save_last s fp;
        Some (\<lparr>r_error = 0, r_ready = [RFT_RTP fp], r_drop = drp\<rparr>, s')
      }
      else if warm_up s \<and> lseq fp = 0 then do {
        d_assert (last_lseq s = LRS_DEFAULT);
        s' \<leftarrow> save_last s fp;
        Some (\<lparr>r_error = 0, r_ready = [RFT_RTP fp], r_drop = drp\<rparr>, s')
      }
      else Some (\<lparr>r_error = 0, r_ready = [], r_drop = drp\<rparr>,
        s\<lparr>jb := (jb s)\<lparr>jb_head := [fp], jb_size := 1\<rparr>\<rparr>))"

text \<open>The label \<open>gotdup\<close>, and the packet that comes too late.\<close>

definition gotdup ::
    "rtpjbuf_inst \<Rightarrow> rtp_packet \<Rightarrow> rtp_frame list \<Rightarrow> rjb_udp_in_r \<times> rtpjbuf_inst" where
  "gotdup s fp drp =
     (\<lparr>r_error = 0, r_ready = [], r_drop = RFT_RTP fp # drp\<rparr>,
      s\<lparr>jbs := (jbs s)\<lparr>drop_dup := drop_dup (jbs s) + 1\<rparr>\<rparr>)"

definition gotlate ::
    "rtpjbuf_inst \<Rightarrow> rtp_packet \<Rightarrow> rtp_frame list \<Rightarrow> rjb_udp_in_r \<times> rtpjbuf_inst" where
  "gotlate s fp drp =
     (\<lparr>r_error = 0, r_ready = [], r_drop = RFT_RTP fp # drp\<rparr>,
      s\<lparr>jbs := (jbs s)\<lparr>drop_late := drop_late (jbs s) + 1\<rparr>\<rparr>)"

text \<open>Release the first run of the buffer.\<close>

definition release_run ::
    "rtpjbuf_inst \<Rightarrow> rtp_frame list \<Rightarrow> (rjb_udp_in_r \<times> rtpjbuf_inst) option" where
  "release_run s drp =
     (let (run, others) = split_run (queued s);
          s1 = s\<lparr>jb := (jb s)\<lparr>jb_head := others, jb_size := jb_size (jb s) - 1 - of_nat (length run - 1)\<rparr>\<rparr>
      in do {
        d_assert (warm_up s1 \<or> last_lseq s1 < lseq (hd run));
        d_assert (\<not> warm_up s1 \<or> last_lseq s1 = LMS_DEFAULT);
        (ready, s2) \<leftarrow> (if \<not> warm_up s1 then insert_ers_frame s1 run
                        else Some (map RFT_RTP run, s1));
        s3 \<leftarrow> save_last s2 (last run);
        (if queued s3 = [] then d_assert (jb_size (jb s3) = 0) else d_assert (jb_size (jb s3) > 0));
        Some (\<lparr>r_error = 0, r_ready = ready, r_drop = drp\<rparr>, s3)
      })"

text \<open>Insert a packet into a buffer that is not empty, and release a run when it is time to.\<close>

definition insert_sorted ::
    "rtpjbuf_inst \<Rightarrow> rtp_packet \<Rightarrow> rtp_frame list \<Rightarrow> (rjb_udp_in_r \<times> rtpjbuf_inst) option" where
  "insert_sorted s fp drp =
     (let pre = takeWhile (\<lambda>ifp. lseq ifp < lseq fp) (queued s);
          post = dropWhile (\<lambda>ifp. lseq ifp < lseq fp) (queued s)
      in if post \<noteq> [] \<and> lseq (hd post) = lseq fp then Some (gotdup s fp drp)
         else do {
           s1 \<leftarrow> (if post \<noteq> [] then Some (s\<lparr>jb := (jb s)\<lparr>jb_head := pre @ fp # post\<rparr>\<rparr>)
                  else do {
                    d_assert (last_max_lseq s < lseq fp);
                    Some (s\<lparr>jb := (jb s)\<lparr>jb_head := pre @ [fp]\<rparr>, last_max_lseq := lseq fp\<rparr>)
                  });
           let s2 = s1\<lparr>jb := (jb s1)\<lparr>jb_size := jb_size (jb s1) + 1\<rparr>\<rparr>;
           (if jb_size (jb s2) = jb_capacity (jb s2) \<or>
               (\<not> warm_up s2 \<and> lseq (hd (queued s2)) = last_lseq s2 + 1)
            then release_run s2 drp
            else Some (\<lparr>r_error = 0, r_ready = [], r_drop = drp\<rparr>, s2))
         })"

text \<open>The packet with its extended number: late, first in an empty buffer, or one more in the buffer.\<close>

definition place_frame ::
    "rtpjbuf_inst \<Rightarrow> rtp_packet \<Rightarrow> rtp_frame list \<Rightarrow> (rjb_udp_in_r \<times> rtpjbuf_inst) option" where
  "place_frame s fp drp =
     (if \<not> warm_up s \<and> lseq fp \<le> last_lseq s then
        (let ldist = sint (ucast (last_lseq s - lseq fp) :: u32)
         in Some (if ldist = 0 then gotdup s fp drp else gotlate s fp drp))
      else if queued s = [] then do {
        d_assert (jb_size (jb s) = 0);
        d_assert (last_max_lseq s < lseq fp);
        lms_init s fp drp
      }
      else insert_sorted s fp drp)"

text \<open>What \<open>rtpjbuf_udp_in\<close> does with a parsed packet.\<close>

definition enqueue_frame ::
    "rtpjbuf_inst \<Rightarrow> rtp_packet \<Rightarrow> rtp_frame list \<Rightarrow> (rjb_udp_in_r \<times> rtpjbuf_inst) option" where
  "enqueue_frame s0 fp0 drp =
     (if last_max_lseq s0 = LMS_DEFAULT then do {
        d_assert (queued s0 = []);
        lms_init s0 fp0 drp
      }
      else do {
        d_assert (queued s0 = [] \<or> warm_up s0 \<or> lseq (hd (queued s0)) - 1 > last_lseq s0);
        let (fp, s) = seq_unwrap s0 fp0;
        place_frame s fp drp
      })"

definition rtpjbuf_udp_in ::
    "rtpjbuf_inst \<Rightarrow> bool \<Rightarrow> addr \<Rightarrow> u8 list \<Rightarrow> (rjb_udp_in_r \<times> rtpjbuf_inst) option" where
  "rtpjbuf_udp_in s0 malloc_ok ptr bytes =
     (let (stale, s) = purge_stale_tail s0;
          drp = (case stale of None \<Rightarrow> [] | Some fp \<Rightarrow> [RFT_RTP fp])
      in if \<not> malloc_ok then Some (\<lparr>r_error = RJB_ENOMEM, r_ready = [], r_drop = drp\<rparr>, s)
         else do {
           (perror, info) \<leftarrow> rtp_packet_parse_raw bytes rtp_info_zero;
           (if perror \<noteq> RTP_PARSER_OK then
              Some (\<lparr>r_error = parser_err_code perror, r_ready = [], r_drop = drp\<rparr>,
                s\<lparr>jbs := (jbs s)\<lparr>drop_perror := drop_perror (jbs s) + 1\<rparr>\<rparr>)
            else
              enqueue_frame s
                \<lparr>pk_info = info, lseq = lseq_mask s OR ucast (ri_seq info), jbcnt = 0, pk_data = ptr\<rparr>
                drp)
         })"

text \<open>
  \<open>rtpjbuf_flush\<close> releases the last run of the buffer. The runs before it are dropped,
  each in front of the ones dropped before.
\<close>

lemma split_run_append: "split_run xs = (run, others) \<Longrightarrow> xs = run @ others"
  by (induction xs arbitrary: run others rule: split_run.induct)
    (auto split: if_splits prod.splits)

lemma split_run_nonempty: "split_run xs = (run, others) \<Longrightarrow> xs \<noteq> [] \<Longrightarrow> run \<noteq> []"
  by (cases xs rule: split_run.cases) (auto split: if_splits prod.splits)

function flush_runs :: "rtp_packet list \<Rightarrow> rtp_packet list \<Rightarrow> rtp_packet list \<times> rtp_packet list" where
  "flush_runs xs drp =
     (if snd (split_run xs) = [] then (fst (split_run xs), drp)
      else flush_runs (snd (split_run xs)) (fst (split_run xs) @ drp))"
  by pat_completeness auto
termination
proof (relation "measure (\<lambda>(xs, drp). length xs)", goal_cases)
  case 1
  then show ?case by simp
next
  case (2 xs drp)
  obtain run others where s: "split_run xs = (run, others)" by (cases "split_run xs")
  from split_run_append [OF s] have xs: "xs = run @ others" .
  with 2 s have "run \<noteq> []" using split_run_nonempty [OF s] by auto
  with s xs show ?case by (cases run) simp_all
qed

declare flush_runs.simps [simp del]

definition rtpjbuf_flush :: "rtpjbuf_inst \<Rightarrow> (rjb_udp_in_r \<times> rtpjbuf_inst) option" where
  "rtpjbuf_flush s =
     (if queued s = [] then Some (\<lparr>r_error = 0, r_ready = [], r_drop = []\<rparr>, s)
      else do {
        d_assert (lseq (hd (queued s)) - 1 > last_lseq s \<or> last_lseq s = LRS_DEFAULT);
        let (run, drp) = flush_runs (queued s) [];
        (ready, s1) \<leftarrow> insert_ers_frame s run;
        s2 \<leftarrow> save_last s1 (last run);
        Some (\<lparr>r_error = 0, r_ready = ready, r_drop = map RFT_RTP drp\<rparr>,
          s2\<lparr>jb := (jb s2)\<lparr>jb_head := [], jb_size := 0\<rparr>\<rparr>)
      })"

end
