(* ===== verification/Rtp_Jbuf_Inv.thy ===== *)
theory Rtp_Jbuf_Inv
  imports Rtp_Jbuf
begin

text \<open>
  The invariant of the jitter buffer, and what every operation does to it: no operation
  reaches a failing assertion, the frames handed out continue the stream without a gap or
  an overlap, and every packet is in exactly one place.
\<close>

section \<open>Logical sequence numbers\<close>

lemma take_bit_16_mod: "take_bit 16 (w :: u64) = 0 \<longleftrightarrow> unat w mod 65536 = 0"
proof -
  have "unat (take_bit 16 w) = unat w mod 65536"
    by (simp add: take_bit_eq_mod unat_mod)
  then show ?thesis by (metis unsigned_0 word_unat_eq_iff)
qed

lemma unat_mod_65536: "unat (w mod 65536 :: u64) = unat w mod 65536"
  by (simp add: unat_mod)

lemma unat_u64: "unat (w :: u64) < 18446744073709551616"
  using unsigned_less [of w] by simp

lemma unat_u16: "unat (w :: u16) < 65536"
  using unsigned_less [of w] by simp

lemma unat_mask_or_seq:
  assumes "take_bit 16 (msk :: u64) = 0"
  shows "unat (msk OR ucast (seq :: u16)) = unat msk + unat seq"
proof -
  have "msk AND ucast seq = 0"
  proof (rule bit_word_eqI)
    fix n assume "n < LENGTH(64)"
    have "\<not> bit (take_bit 16 msk) n" using assms by simp
    then have "n < 16 \<Longrightarrow> \<not> bit msk n" by (simp add: bit_take_bit_iff)
    then show "bit (msk AND ucast seq) n \<longleftrightarrow> bit (0 :: u64) n"
      using bit_word_high [where a = seq and n = n] by (cases "n < 16") (auto simp: bit_simps)
  qed
  then have eq: "msk OR ucast seq = msk + ucast seq" by (rule disjunctive_add_eq_or [symmetric])
  from assms obtain q where q: "unat msk = 65536 * q"
    by (auto simp: take_bit_16_mod dvd_def simp flip: dvd_eq_mod_eq_0)
  then have "q < 281474976710656" using unat_u64 [of msk] by simp
  then have "unat msk + unat seq < 18446744073709551616"
    using unat_u16 [of seq] q by simp
  moreover have "unat (ucast seq :: u64) = unat seq"
    using unat_u16 [of seq] by (simp add: unsigned_ucast_eq take_bit_nat_eq_self)
  ultimately show ?thesis by (simp add: eq unat_word_ariths)
qed

lemma ucast_u16_eq: "(ucast (w :: u64) :: u16) = s \<longleftrightarrow> unat w mod 65536 = unat s"
  by (simp add: word_unat_eq_iff unsigned_ucast_eq take_bit_eq_mod)

lemma unat_add_small: "unat (a :: u64) + unat b < 18446744073709551616 \<Longrightarrow> unat (a + b) = unat a + unat b"
  by (simp add: unat_word_ariths)

lemma unat_sub_ge: "unat (b :: u64) \<le> unat a \<Longrightarrow> unat (a - b) = unat a - unat b"
  by (simp add: unat_sub word_le_nat_alt)

section \<open>Invariant\<close>

text \<open>The next logical sequence number the buffer hands out; 0 during warm-up.\<close>

definition next_lseq :: "rtpjbuf_inst \<Rightarrow> nat" where
  "next_lseq s = unat (last_lseq s + 1)"

definition jb_sizes :: "jitter_buffer \<Rightarrow> bool" where
  "jb_sizes b \<longleftrightarrow> 3 \<le> unat (jb_capacity b) \<and> unat (jb_size b) = length (jb_head b) \<and>
     length (jb_head b) < unat (jb_capacity b)"

definition jb_order :: "rtp_packet list \<Rightarrow> bool" where
  "jb_order ps \<longleftrightarrow> sorted_wrt (\<lambda>p q. unat (lseq p) < unat (lseq q)) ps \<and>
     (\<forall>p \<in> set ps. unat (lseq p) mod 65536 = unat (ri_seq (pk_info p)))"

definition jb_marks :: "rtpjbuf_inst \<Rightarrow> bool" where
  "jb_marks s \<longleftrightarrow> unat (lseq_mask s) mod 65536 = 0 \<and>
     (last_max_lseq s \<noteq> LMS_DEFAULT \<longrightarrow> unat (last_max_lseq s) < unat (lseq_mask s) + 65536) \<and>
     (if queued s = [] then last_max_lseq s = last_lseq s
      else last_max_lseq s = lseq (last (queued s)) \<and> last_max_lseq s \<noteq> LMS_DEFAULT \<and>
        (warm_up s \<or> unat (last_lseq s) + 1 < unat (lseq (hd (queued s)))))"

definition jb_inv :: "rtpjbuf_inst \<Rightarrow> bool" where
  "jb_inv s \<longleftrightarrow> jb_sizes (jb s) \<and> jb_order (queued s) \<and> jb_marks s"

text \<open>Room for the 64-bit numbers and for the 32-bit difference of an erasure frame.\<close>

definition seq_room :: "rtpjbuf_inst \<Rightarrow> bool" where
  "seq_room s \<longleftrightarrow> unat (lseq_mask s) < 2 ^ 63 \<and> unat (lseq_mask s) < next_lseq s + 2 ^ 31"

section \<open>What a step hands out\<close>

text \<open>The frames cover the logical sequence numbers from \<open>a\<close> up to \<open>b\<close>, without a gap or an overlap.\<close>

fun tiles :: "nat \<Rightarrow> rtp_frame list \<Rightarrow> nat \<Rightarrow> bool" where
  "tiles a [] b \<longleftrightarrow> a = b"
| "tiles a (RFT_RTP p # fs) b \<longleftrightarrow> unat (lseq p) = a \<and>
     a mod 65536 = unat (ri_seq (pk_info p)) \<and> tiles (a + 1) fs b"
| "tiles a (RFT_ERS e # fs) b \<longleftrightarrow> unat (lseq_start e) = a \<and> a \<le> unat (lseq_end e) \<and>
     tiles (unat (lseq_end e) + 1) fs b"

lemma tiles_append: "tiles a fs b \<Longrightarrow> tiles b gs c \<Longrightarrow> tiles a (fs @ gs) c"
  by (induction a fs b rule: tiles.induct) auto

lemma tiles_run:
  "split_run ps = (run, others) \<Longrightarrow> ps \<noteq> [] \<Longrightarrow> jb_order ps \<Longrightarrow>
     tiles (unat (lseq (hd ps))) (map RFT_RTP run) (unat (lseq (last run)) + 1)"
proof (induction ps arbitrary: run others rule: split_run.induct)
  case (3 x y rest)
  show ?case
  proof (cases "lseq x + 1 = lseq y")
    case True
    with 3 obtain run' where run': "split_run (y # rest) = (run', others)" "run = x # run'"
      by (auto split: prod.splits)
    from 3(4) have xy: "unat (lseq x) < unat (lseq y)" "jb_order (y # rest)"
      "unat (lseq x) mod 65536 = unat (ri_seq (pk_info x))"
      by (auto simp: jb_order_def)
    then have "unat (lseq y) = unat (lseq x) + 1"
      using unat_u64 [of "lseq y"] by (subst True [symmetric]) (simp add: unat_add_small)
    with 3 True run' xy split_run_nonempty [OF run'(1)] show ?thesis by auto
  next
    case False
    with 3 show ?thesis by (auto simp: jb_order_def)
  qed
qed (auto simp: jb_order_def)

lemma split_run_gap:
  "split_run ps = (run, others) \<Longrightarrow> jb_order ps \<Longrightarrow> others \<noteq> [] \<Longrightarrow>
     unat (lseq (last run)) + 1 < unat (lseq (hd others))"
proof (induction ps arbitrary: run others rule: split_run.induct)
  case (3 x y rest)
  show ?case
  proof (cases "lseq x + 1 = lseq y")
    case True
    with 3 obtain run' where run': "split_run (y # rest) = (run', others)" "run = x # run'"
      by (auto split: prod.splits)
    with 3 True split_run_nonempty [OF run'(1)] show ?thesis by (auto simp: jb_order_def)
  next
    case False
    from 3(3) have xy: "unat (lseq x) < unat (lseq y)" by (auto simp: jb_order_def)
    moreover from xy have "unat (lseq x + 1) = unat (lseq x) + 1"
      using unat_u64 [of "lseq y"] by (simp add: unat_add_small)
    with False have "unat (lseq x) + 1 \<noteq> unat (lseq y)" by (metis word_unat_eq_iff)
    ultimately show ?thesis using 3 False by auto
  qed
qed (auto simp: jb_order_def)

lemma jb_order_appendD: "jb_order (xs @ ys) \<Longrightarrow> jb_order xs \<and> jb_order ys"
  by (auto simp: jb_order_def sorted_wrt_append)

text \<open>The RTP packets among the frames, and what identifies a packet: its header and its buffer.\<close>

fun rtp_of :: "rtp_frame list \<Rightarrow> rtp_packet list" where
  "rtp_of [] = []"
| "rtp_of (RFT_RTP p # fs) = p # rtp_of fs"
| "rtp_of (RFT_ERS e # fs) = rtp_of fs"

definition pk_key :: "rtp_packet \<Rightarrow> rtp_info \<times> addr" where
  "pk_key p = (pk_info p, pk_data p)"

definition held :: "rtp_packet list \<Rightarrow> (rtp_info \<times> addr) multiset" where
  "held ps = mset (map pk_key ps)"

lemma rtp_of_map [simp]: "rtp_of (map RFT_RTP ps) = ps"
  by (induction ps) auto

lemma rtp_of_append [simp]: "rtp_of (fs @ gs) = rtp_of fs @ rtp_of gs"
  by (induction fs rule: rtp_of.induct) auto

lemma held_simps [simp]:
  "held [] = {#}" "held (p # ps) = add_mset (pk_key p) (held ps)" "held (ps @ qs) = held ps + held qs"
  by (auto simp: held_def)

section \<open>Releasing a run\<close>

lemma ers_ts_diff_total: "ers_ts_diff a b = Some (b - a)"
proof (cases "b < a")
  case True
  then have lt: "unat b < unat a" by (simp add: word_less_nat_alt)
  have bounds: "unat a < 4294967296" "unat b < 4294967296"
    using unsigned_less [of a] unsigned_less [of b] by simp_all
  have ucast: "unat (ucast a :: u64) = unat a" "unat (ucast b :: u64) = unat b"
    using bounds by (simp_all add: unsigned_ucast_eq take_bit_nat_eq_self)
  let ?d = "0x100000000 + ucast b - ucast a :: u64"
  have "unat (0x100000000 + ucast b :: u64) = 4294967296 + unat b"
    using bounds ucast by (simp add: unat_add_small)
  then have d: "unat ?d = 4294967296 + unat b - unat a"
    using bounds ucast by (simp add: unat_sub_ge)
  then have "?d < 0x100000000" using lt by (simp add: word_less_nat_alt)
  moreover have "(ucast ?d :: u32) = b - a"
  proof -
    have "unat (ucast ?d :: u32) = 4294967296 + unat b - unat a"
      using d lt bounds by (simp add: unsigned_ucast_eq take_bit_nat_eq_self)
    moreover have "unat (b - a) = 4294967296 + unat b - unat a"
      using lt bounds by (simp add: unat_sub_if')
    ultimately show ?thesis by (simp add: word_unat_eq_iff)
  qed
  ultimately show ?thesis using True by (simp add: ers_ts_diff_def)
qed (simp add: ers_ts_diff_def)

lemma insert_ers_frame_ok:
  assumes "next_lseq s \<le> unat (lseq (hd fps))" "unat (lseq (hd fps)) < next_lseq s + 4294967295"
    and run: "tiles (unat (lseq (hd fps))) (map RFT_RTP fps) b"
  shows "\<exists>ready e. insert_ers_frame s fps = Some (ready, s\<lparr>inst_ers := e\<rparr>) \<and>
    tiles (next_lseq s) ready b \<and> rtp_of ready = fps"
proof (cases "last_lseq s + 1 = lseq (hd fps)")
  case True
  then have "insert_ers_frame s fps = Some (map RFT_RTP fps, s\<lparr>inst_ers := inst_ers s\<rparr>)"
    by (simp add: insert_ers_frame_def)
  with True run show ?thesis by (metis next_lseq_def rtp_of_map)
next
  case False
  let ?start = "last_lseq s + 1" and ?stop = "lseq (hd fps) - 1"
  from False have "next_lseq s \<noteq> unat (lseq (hd fps))" by (simp add: next_lseq_def word_unat_eq_iff)
  with assms have lt: "next_lseq s < unat (lseq (hd fps))" by simp
  then have e: "unat ?stop = unat (lseq (hd fps)) - 1" by (simp add: unat_sub_ge)
  define d where "d = lseq (hd fps) - ?start"
  have ends: "?stop - ?start + 1 = d" by (simp add: d_def)
  have "unat d = unat (lseq (hd fps)) - next_lseq s"
    unfolding d_def using lt by (simp add: unat_sub_ge next_lseq_def)
  then have "unat (ucast d :: u32) + 1 < 4294967296"
    using assms(2) by (simp add: unsigned_ucast_eq take_bit_nat_eq_self)
  then have "unat (ucast d + 1 :: u32) \<noteq> 0" by (simp add: unat_word_ariths)
  then have nz: "(ucast d + 1 :: u32) \<noteq> 0" by (metis unsigned_0)
  define ers where "ers = \<lparr>lseq_start = ?start, lseq_end = ?stop,
    ts_diff = (ri_ts (pk_info (hd fps)) - last_ts s) * ucast d div (ucast d + 1)\<rparr>"
  have "insert_ers_frame s fps = Some (RFT_ERS ers # map RFT_RTP fps, s\<lparr>inst_ers := ers\<rparr>)"
    using False nz unfolding insert_ers_frame_def Let_def ends
    by (simp add: ers_ts_diff_total ers_def)
  moreover have "tiles (next_lseq s) (RFT_ERS ers # map RFT_RTP fps) b"
    using run lt e by (simp add: ers_def next_lseq_def)
  ultimately show ?thesis by (metis rtp_of.simps(3) rtp_of_map)
qed

text \<open>
  The progress of the stream: after warm-up the frames handed out continue it exactly; during
  warm-up nothing is handed out, or the stream starts.
\<close>

definition advances :: "rtpjbuf_inst \<Rightarrow> rtp_frame list \<Rightarrow> rtpjbuf_inst \<Rightarrow> bool" where
  "advances s fs s' \<longleftrightarrow>
     (if warm_up s then warm_up s' \<and> fs = [] \<or> \<not> warm_up s' \<and> (\<exists>a. tiles a fs (next_lseq s'))
      else \<not> warm_up s' \<and> tiles (next_lseq s) fs (next_lseq s'))"

lemma advances_refl: "advances s [] s"
  by (auto simp: advances_def)

lemma advances_trans: "advances s fs s' \<Longrightarrow> advances s' gs s'' \<Longrightarrow> advances s (fs @ gs) s''"
  by (auto simp: advances_def split: if_splits intro: tiles_append)

lemma unat_DEFAULT: "unat w = 18446744073709551615 \<longleftrightarrow> w = LRS_DEFAULT"
  by (simp add: word_unat_eq_iff LRS_DEFAULT_def unsigned_minus_1_eq_mask mask_eq_exp_minus_1)

lemma next_lseq_known: "\<not> warm_up s \<Longrightarrow> next_lseq s = unat (last_lseq s) + 1"
  using unat_u64 [of "last_lseq s"] unat_DEFAULT [of "last_lseq s"]
  by (simp add: next_lseq_def unat_add_small)

lemma next_lseq_warm_up: "warm_up s \<Longrightarrow> next_lseq s = 0"
  by (simp add: next_lseq_def LRS_DEFAULT_def)

lemma jb_order_hd_last:
  assumes "jb_order ps" "p \<in> set ps"
  shows "unat (lseq p) \<le> unat (lseq (last ps))" "unat (lseq (hd ps)) \<le> unat (lseq p)"
proof -
  from assms have ne: "ps \<noteq> []" and ord: "sorted_wrt (\<lambda>p q. unat (lseq p) < unat (lseq q)) ps"
    by (auto simp: jb_order_def)
  have "ps = butlast ps @ [last ps]" using ne by simp
  then have "sorted_wrt (\<lambda>p q. unat (lseq p) < unat (lseq q)) (butlast ps @ [last ps])"
    and "p \<in> set (butlast ps @ [last ps])" using ord assms(2) by metis+
  then show "unat (lseq p) \<le> unat (lseq (last ps))" by (auto simp: sorted_wrt_append)
  show "unat (lseq (hd ps)) \<le> unat (lseq p)" using ord ne assms(2) by (cases ps) auto
qed

text \<open>The state right after an insertion: the buffer may be full, or its head may be due.\<close>

definition jb_filled :: "rtpjbuf_inst \<Rightarrow> bool" where
  "jb_filled s \<longleftrightarrow> 3 \<le> unat (jb_capacity (jb s)) \<and> unat (jb_size (jb s)) = length (queued s) \<and>
     length (queued s) \<le> unat (jb_capacity (jb s)) \<and> jb_order (queued s) \<and> queued s \<noteq> [] \<and>
     unat (lseq_mask s) mod 65536 = 0 \<and> unat (last_max_lseq s) < unat (lseq_mask s) + 65536 \<and>
     last_max_lseq s = lseq (last (queued s)) \<and> last_max_lseq s \<noteq> LMS_DEFAULT \<and>
     (warm_up s \<or> unat (last_lseq s) + 1 \<le> unat (lseq (hd (queued s))))"

definition step_ok ::
    "rtpjbuf_inst \<Rightarrow> (rtp_info \<times> addr) multiset \<Rightarrow> rjb_udp_in_r \<Rightarrow> rtpjbuf_inst \<Rightarrow> bool" where
  "step_ok s new r s' \<longleftrightarrow> jb_inv s' \<and> jb_capacity (jb s') = jb_capacity (jb s) \<and>
     advances s (r_ready r) s' \<and>
     held (queued s') + held (rtp_of (r_ready r)) + held (rtp_of (r_drop r)) = held (queued s) + new"

lemma jb_size_after_run:
  assumes "unat (n :: u32) = length (run @ others)" "run \<noteq> []"
  shows "unat (n - 1 - of_nat (length run - 1)) = length others"
proof -
  have eq: "n - 1 - of_nat (length run - 1) = n - of_nat (length run)"
    using assms(2) by (cases run) auto
  have "unat (of_nat (length run) :: u32) = length run"
    using assms(1) unsigned_less [of n, where 'a = nat] by (simp add: unsigned_of_nat take_bit_nat_eq_self)
  then show ?thesis unfolding eq using assms(1) by (simp add: unat_sub word_le_nat_alt)
qed

text \<open>The frames a run is released as.\<close>

lemma release_frames_ok:
  assumes "warm_up s \<or> next_lseq s \<le> unat (lseq (hd run))"
    and "unat (lseq (hd run)) < next_lseq s + 4294967295"
    and t: "tiles (unat (lseq (hd run))) (map RFT_RTP run) b"
  shows "\<exists>ready e. (if \<not> warm_up s then insert_ers_frame s run else Some (map RFT_RTP run, s))
      = Some (ready, s\<lparr>inst_ers := e\<rparr>) \<and> rtp_of ready = run \<and>
      tiles (if warm_up s then unat (lseq (hd run)) else next_lseq s) ready b"
proof (cases "warm_up s")
  case True
  show ?thesis
    by (rule exI [of _ "map RFT_RTP run"], rule exI [of _ "inst_ers s"]) (use True t in simp)
next
  case False
  with assms(1) have "next_lseq s \<le> unat (lseq (hd run))" by simp
  from insert_ers_frame_ok [OF this assms(2) t] show ?thesis using False by auto
qed

lemma release_run_ok:
  assumes "jb_filled s" "unat (last_max_lseq s) < next_lseq s + 4294967295"
  shows "\<exists>r s'. release_run s drp = Some (r, s') \<and> step_ok s (held (rtp_of drp)) r s'"
proof -
  obtain run others where sp: "split_run (queued s) = (run, others)" by (cases "split_run (queued s)")
  from assms have inv: "jb_order (queued s)" "queued s \<noteq> []" "last_max_lseq s = lseq (last (queued s))"
    "last_max_lseq s \<noteq> LMS_DEFAULT" "warm_up s \<or> unat (last_lseq s) + 1 \<le> unat (lseq (hd (queued s)))"
    by (auto simp: jb_filled_def)
  from split_run_append [OF sp] split_run_nonempty [OF sp inv(2)]
  have q: "queued s = run @ others" and ne: "run \<noteq> []" by auto
  then have hd: "hd (queued s) = hd run" by simp
  define s1 where "s1 = s\<lparr>jb := (jb s)\<lparr>jb_head := others,
     jb_size := jb_size (jb s) - 1 - of_nat (length run - 1)\<rparr>\<rparr>"
  have same: "last_lseq s1 = last_lseq s" "next_lseq s1 = next_lseq s" "queued s1 = others"
    "last_max_lseq s1 = last_max_lseq s" "lseq_mask s1 = lseq_mask s"
    by (simp_all add: s1_def next_lseq_def)
  have size: "unat (jb_size (jb s1)) = length others"
    using assms(1) jb_size_after_run [OF _ ne, of "jb_size (jb s)" others]
    by (simp add: s1_def jb_filled_def q)
  have t: "tiles (unat (lseq (hd run))) (map RFT_RTP run) (unat (lseq (last run)) + 1)"
    using tiles_run [OF sp inv(2,1)] by (simp add: hd)
  have ord: "jb_order others" "unat (lseq (hd run)) \<le> unat (lseq (last run))"
      "unat (lseq (last run)) \<le> unat (last_max_lseq s)"
    using inv q ne jb_order_appendD [of run others] jb_order_hd_last [of "run @ others"]
    by (auto simp: jb_order_def intro: jb_order_hd_last(2))
  have nd: "lseq (last run) \<noteq> LRS_DEFAULT"
    using ord(3) inv(4) unat_u64 [of "last_max_lseq s"] unat_DEFAULT [of "last_max_lseq s"]
      unat_DEFAULT [of "lseq (last run)"] by (auto simp: LMS_DEFAULT_def)
  obtain ready e where rel: "(if \<not> warm_up s1 then insert_ers_frame s1 run else Some (map RFT_RTP run, s1))
      = Some (ready, s1\<lparr>inst_ers := e\<rparr>)" and out: "rtp_of ready = run"
      "tiles (if warm_up s1 then unat (lseq (hd run)) else next_lseq s1) ready (unat (lseq (last run)) + 1)"
  proof -
    have "warm_up s1 \<or> next_lseq s1 \<le> unat (lseq (hd run))"
      using inv(5) by (cases "warm_up s") (simp_all add: same hd next_lseq_known)
    moreover have "unat (lseq (hd run)) < next_lseq s1 + 4294967295"
      using assms(2) ord(2,3) by (simp add: same)
    ultimately show ?thesis using release_frames_ok [OF _ _ t, of s1] that by blast
  qed
  let ?s3 = "s1\<lparr>inst_ers := e, last_lseq := lseq (last run), last_ts := ri_ts (pk_info (last run))\<rparr>"
  have "save_last (s1\<lparr>inst_ers := e\<rparr>) (last run) = Some ?s3"
    using inv(5) ord(2) by (auto simp: save_last_def same hd word_less_nat_alt)
  moreover have "warm_up s1 \<or> last_lseq s1 < lseq (hd run)"
    using inv(5) by (auto simp: same hd word_less_nat_alt)
  moreover have "others = [] \<Longrightarrow> jb_size (jb s1) = 0" "others \<noteq> [] \<Longrightarrow> jb_size (jb s1) > 0"
    using size by (auto simp: word_unat_eq_iff word_less_nat_alt)
  ultimately have run_eq: "release_run s drp = Some (\<lparr>r_error = 0, r_ready = ready, r_drop = drp\<rparr>, ?s3)"
    unfolding release_run_def sp Let_def prod.case s1_def [symmetric] rel
    by (simp add: same LMS_DEFAULT_def d_assert_def)
  have "length others < unat (jb_capacity (jb s))"
    using assms(1) ne by (cases run) (auto simp: jb_filled_def q)
  then have inv': "jb_inv ?s3"
    using assms(1) size ord ne nd split_run_gap [OF sp inv(1)]
    by (auto simp: jb_inv_def jb_sizes_def jb_marks_def jb_filled_def same q s1_def LMS_DEFAULT_def)
  have adv: "advances s ready ?s3"
    using out(2) nd by (auto simp: advances_def next_lseq_known same)
  have "step_ok s (held (rtp_of drp)) \<lparr>r_error = 0, r_ready = ready, r_drop = drp\<rparr> ?s3"
    using inv' adv by (simp add: step_ok_def out(1) q same) (simp add: s1_def)
  then show ?thesis using run_eq by blast
qed

section \<open>Sequence numbers of new packets\<close>

lemma last_max_bound: "jb_inv s \<Longrightarrow> last_max_lseq s \<noteq> LMS_DEFAULT \<Longrightarrow>
    unat (last_max_lseq s) < unat (lseq_mask s) + 65536"
  by (auto simp: jb_inv_def jb_marks_def)

definition early_wrap :: "rtpjbuf_inst \<Rightarrow> u16 \<Rightarrow> bool" where
  "early_wrap s seq \<longleftrightarrow> lseq_mask s = 0 \<and> last_max_lseq s \<noteq> LMS_DEFAULT \<and>
     last_max_lseq s mod 65536 < 536 \<and> seq > 65000"

text \<open>The state and the packet after the number has been extended.\<close>

definition unwrapped :: "rtpjbuf_inst \<Rightarrow> rtp_packet \<Rightarrow> rtp_packet \<Rightarrow> rtpjbuf_inst \<Rightarrow> bool" where
  "unwrapped s0 fp0 fp s \<longleftrightarrow> pk_key fp = pk_key fp0 \<and> unat (lseq fp) mod 65536 = unat (ri_seq (pk_info fp)) \<and>
     unat (lseq fp) < unat (lseq_mask s) + 65536 \<and> unat (lseq_mask s) \<le> unat (lseq_mask s0) + 65536 \<and>
     jb_inv s \<and> jb s = jb s0 \<and> last_lseq s = last_lseq s0 \<and> last_max_lseq s = last_max_lseq s0"

lemma seq_unwrap_ok:
  assumes inv: "jb_inv s0" and room: "unat (lseq_mask s0) < 2 ^ 63"
    and lms: "last_max_lseq s0 \<noteq> LMS_DEFAULT" and ew: "\<not> early_wrap s0 (ri_seq (pk_info fp0))"
    and fp0: "unat (lseq fp0) = unat (lseq_mask s0) + unat (ri_seq (pk_info fp0))"
  shows "unwrapped s0 fp0 (fst (seq_unwrap s0 fp0)) (snd (seq_unwrap s0 fp0))"
proof -
  let ?m = "unat (lseq_mask s0)" and ?seq = "unat (ri_seq (pk_info fp0))"
  from inv have m: "65536 dvd ?m" by (auto simp: jb_inv_def jb_marks_def)
  have seq: "?seq < 65536" by (rule unat_u16)
  consider (pre) "last_max_lseq s0 mod 65536 < 536 \<and> ri_seq (pk_info fp0) > 65000"
    | (wrap) "\<not> (last_max_lseq s0 mod 65536 < 536 \<and> ri_seq (pk_info fp0) > 65000)"
        "last_max_lseq s0 > 65000 \<and> lseq fp0 < last_max_lseq s0 - 65000"
    | (plain) "\<not> (last_max_lseq s0 mod 65536 < 536 \<and> ri_seq (pk_info fp0) > 65000)"
        "\<not> (last_max_lseq s0 > 65000 \<and> lseq fp0 < last_max_lseq s0 - 65000)" by blast
  then show ?thesis
  proof cases
    case pre
    with ew lms have "lseq_mask s0 \<noteq> 0" by (simp add: early_wrap_def)
    then have "?m \<noteq> 0" by (simp add: word_unat_eq_iff)
    then obtain k where k: "?m = 65536 * Suc k" using m by (metis dvdE mult_0_right not0_implies_Suc)
    then have "unat (lseq fp0 - 0x10000) = 65536 * k + ?seq" using fp0 by (simp add: unat_sub_ge)
    moreover have "(65536 * k + ?seq) mod 65536 = ?seq" using seq by simp
    moreover have "65536 * k + ?seq < ?m + 65536" using k seq by simp
    ultimately show ?thesis using pre inv seq by (simp add: seq_unwrap_def unwrapped_def pk_key_def)
  next
    case wrap
    have "unat (lseq fp0 + 0x10000) = ?m + ?seq + 65536"
      "unat (lseq_mask s0 + 0x10000) = ?m + 65536"
      using room fp0 seq by (simp_all add: unat_add_small)
    moreover have "(?m + ?seq + 65536) mod 65536 = ?seq" using m seq by (auto elim!: dvdE)
    ultimately show ?thesis using wrap inv seq
      by (auto simp: seq_unwrap_def unwrapped_def pk_key_def jb_inv_def jb_marks_def)
  next
    case plain
    moreover have "(?m + ?seq) mod 65536 = ?seq" using m seq by (auto elim!: dvdE)
    ultimately show ?thesis using inv fp0 seq
      by (auto simp: seq_unwrap_def unwrapped_def pk_key_def)
  qed
qed

section \<open>Handling of a parsed packet\<close>

lemma lms_init_ok:
  assumes inv: "jb_inv s" and q: "queued s = []"
    and seq: "unat (lseq fp) mod 65536 = unat (ri_seq (pk_info fp))"
    and lt: "unat (lseq fp) < unat (lseq_mask s) + 65536" and nd: "lseq fp \<noteq> LRS_DEFAULT"
    and gt: "warm_up s \<or> unat (last_lseq s) < unat (lseq fp)"
  shows "\<exists>r s'. lms_init s fp drp = Some (r, s') \<and> step_ok s ({#pk_key fp#} + held (rtp_of drp)) r s'"
proof -
  let ?s = "s\<lparr>last_max_lseq := lseq fp\<rparr>"
  let ?out = "\<lparr>r_error = 0, r_ready = [RFT_RTP fp], r_drop = drp\<rparr>"
  let ?s' = "?s\<lparr>last_lseq := lseq fp, last_ts := ri_ts (pk_info fp)\<rparr>"
  from inv q have sizes: "jb_sizes (jb s)" "65536 dvd unat (lseq_mask s)" "jb_size (jb s) = 0"
    by (auto simp: jb_inv_def jb_sizes_def jb_marks_def word_unat_eq_iff)
  have start: "step_ok s ({#pk_key fp#} + held (rtp_of drp)) ?out ?s'"
    if "next_lseq s = unat (lseq fp)"
  proof -
    have "jb_inv ?s'" using sizes lt nd q by (auto simp: jb_inv_def jb_marks_def jb_order_def LMS_DEFAULT_def)
    moreover have "advances s [RFT_RTP fp] ?s'"
      using that nd seq next_lseq_known [of ?s'] by (auto simp: advances_def)
    ultimately show ?thesis by (simp add: step_ok_def q)
  qed
  consider (cont) "\<not> warm_up s" "last_lseq s = lseq fp - 1" | (first) "warm_up s" "lseq fp = 0"
    | (queue) "\<not> (\<not> warm_up s \<and> last_lseq s = lseq fp - 1)" "\<not> (warm_up s \<and> lseq fp = 0)"
    by blast
  then show ?thesis
  proof cases
    case cont
    then have "next_lseq s = unat (lseq fp)" by (simp add: next_lseq_def)
    moreover have "lms_init s fp drp = Some (?out, ?s')"
      using cont gt by (auto simp: lms_init_def save_last_def word_less_nat_alt)
    ultimately show ?thesis using start by blast
  next
    case first
    then have "next_lseq s = unat (lseq fp)" by (simp add: next_lseq_warm_up)
    moreover have "lms_init s fp drp = Some (?out, ?s')"
      using first by (auto simp: lms_init_def save_last_def)
    ultimately show ?thesis using start by blast
  next
    case queue
    let ?s2 = "?s\<lparr>jb := (jb s)\<lparr>jb_head := [fp], jb_size := 1\<rparr>\<rparr>"
    have "lms_init s fp drp = Some (\<lparr>r_error = 0, r_ready = [], r_drop = drp\<rparr>, ?s2)"
      using queue by (auto simp: lms_init_def Let_def)
    moreover have gap: "warm_up s \<or> unat (last_lseq s) + 1 < unat (lseq fp)"
    proof (cases "warm_up s")
      case False
      with queue have "last_lseq s + 1 \<noteq> lseq fp" by (metis add_diff_cancel_right')
      with False have "unat (last_lseq s) + 1 \<noteq> unat (lseq fp)"
        by (metis next_lseq_def next_lseq_known word_unat_eq_iff)
      then show ?thesis using gt by auto
    qed simp
    have "jb_inv ?s2"
      using sizes lt nd seq gap by (auto simp: jb_inv_def jb_marks_def jb_order_def jb_sizes_def LMS_DEFAULT_def)
    moreover have "advances s [] ?s2" by (auto simp: advances_def next_lseq_def)
    ultimately show ?thesis by (simp add: step_ok_def q)
  qed
qed

lemma dropped_ok:
  "jb_inv s \<Longrightarrow> step_ok s ({#pk_key fp#} + held (rtp_of drp)) (fst (gotdup s fp drp)) (snd (gotdup s fp drp))"
  "jb_inv s \<Longrightarrow> step_ok s ({#pk_key fp#} + held (rtp_of drp)) (fst (gotlate s fp drp)) (snd (gotlate s fp drp))"
  by (auto simp: gotdup_def gotlate_def step_ok_def advances_def next_lseq_def jb_inv_def jb_marks_def)

text \<open>Insertion keeps the order.\<close>

lemma insert_order:
  fixes fp ps
  defines "pre \<equiv> takeWhile (\<lambda>p. lseq p < lseq fp) ps" and "post \<equiv> dropWhile (\<lambda>p. lseq p < lseq fp) ps"
  assumes ord: "jb_order ps" and seq: "unat (lseq fp) mod 65536 = unat (ri_seq (pk_info fp))"
    and ne: "post = [] \<or> lseq (hd post) \<noteq> lseq fp"
  shows "jb_order (pre @ fp # post)"
proof -
  have ps: "ps = pre @ post" by (simp add: pre_def post_def)
  have lo: "\<forall>p \<in> set pre. unat (lseq p) < unat (lseq fp)"
    by (auto simp: pre_def word_less_nat_alt dest: set_takeWhileD)
  have hi: "\<forall>p \<in> set post. unat (lseq fp) < unat (lseq p)"
  proof (cases "post = []")
    case False
    then have "\<not> lseq (hd post) < lseq fp" unfolding post_def by (rule hd_dropWhile)
    with ne False have "unat (lseq fp) < unat (lseq (hd post))"
      by (auto simp: word_less_nat_alt word_unat_eq_iff)
    moreover have "jb_order post" using ord jb_order_appendD [of pre post] by (simp add: ps)
    ultimately show ?thesis using jb_order_hd_last(2) [of post] by fastforce
  qed simp
  from ord seq lo hi show ?thesis unfolding jb_order_def ps
    by (auto simp: sorted_wrt_append)
qed

lemma filled_not_due:
  assumes "jb_filled s" "jb_size (jb s) \<noteq> jb_capacity (jb s)"
    and "warm_up s \<or> lseq (hd (queued s)) \<noteq> last_lseq s + 1"
  shows "jb_inv s"
proof -
  have "unat (jb_size (jb s)) \<noteq> unat (jb_capacity (jb s))" using assms(2) by (simp add: word_unat_eq_iff)
  moreover have "warm_up s \<or> unat (last_lseq s) + 1 \<noteq> unat (lseq (hd (queued s)))"
    using assms(3) by (metis next_lseq_def next_lseq_known word_unat_eq_iff)
  ultimately show ?thesis using assms(1)
    by (auto simp: jb_filled_def jb_inv_def jb_sizes_def jb_marks_def)
qed

lemma release_or_wait_ok:
  assumes "jb_filled s" "unat (last_max_lseq s) < next_lseq s + 4294967295"
  shows "\<exists>r s'. (if jb_size (jb s) = jb_capacity (jb s) \<or> (\<not> warm_up s \<and> lseq (hd (queued s)) = last_lseq s + 1)
      then release_run s drp else Some (\<lparr>r_error = 0, r_ready = [], r_drop = drp\<rparr>, s)) = Some (r, s') \<and>
    step_ok s (held (rtp_of drp)) r s'"
proof (cases "jb_size (jb s) = jb_capacity (jb s) \<or> (\<not> warm_up s \<and> lseq (hd (queued s)) = last_lseq s + 1)")
  case True
  then show ?thesis using release_run_ok [OF assms] by simp
next
  case False
  then have "jb_inv s" using filled_not_due [OF assms(1)] by auto
  then have "step_ok s (held (rtp_of drp)) \<lparr>r_error = 0, r_ready = [], r_drop = drp\<rparr> s"
    by (simp add: step_ok_def advances_refl)
  with False show ?thesis by auto
qed

lemma step_ok_later:
  assumes "step_ok s2 new r s'" "last_lseq s2 = last_lseq s"
    and "jb_capacity (jb s2) = jb_capacity (jb s)" "held (queued s2) = held (queued s) + add"
  shows "step_ok s (add + new) r s'"
  using assms by (auto simp: step_ok_def advances_def next_lseq_def ac_simps)

lemma insert_sorted_ok:
  assumes inv: "jb_inv s" and q: "queued s \<noteq> []"
    and seq: "unat (lseq fp) mod 65536 = unat (ri_seq (pk_info fp))"
    and lt: "unat (lseq fp) < unat (lseq_mask s) + 65536" and nd: "lseq fp \<noteq> LRS_DEFAULT"
    and gt: "warm_up s \<or> unat (last_lseq s) < unat (lseq fp)"
    and room: "unat (lseq_mask s) + 65536 \<le> next_lseq s + 4294967295"
  shows "\<exists>r s'. insert_sorted s fp drp = Some (r, s') \<and> step_ok s ({#pk_key fp#} + held (rtp_of drp)) r s'"
proof -
  define pre where "pre = takeWhile (\<lambda>p. lseq p < lseq fp) (queued s)"
  define post where "post = dropWhile (\<lambda>p. lseq p < lseq fp) (queued s)"
  have pp: "queued s = pre @ post" by (simp add: pre_def post_def)
  from inv q have i: "jb_sizes (jb s)" "jb_order (queued s)" "65536 dvd unat (lseq_mask s)"
    "last_max_lseq s = lseq (last (queued s))" "last_max_lseq s \<noteq> LMS_DEFAULT"
    "warm_up s \<or> unat (last_lseq s) + 1 < unat (lseq (hd (queued s)))"
    "unat (last_max_lseq s) < unat (lseq_mask s) + 65536"
    by (auto simp: jb_inv_def jb_marks_def)
  show ?thesis
  proof (cases "post \<noteq> [] \<and> lseq (hd post) = lseq fp")
    case True
    then have "insert_sorted s fp drp = Some (gotdup s fp drp)"
      by (simp add: insert_sorted_def pre_def [symmetric] post_def [symmetric])
    with dropped_ok(1) [OF inv, of fp drp] show ?thesis by (metis prod.collapse)
  next
    case False
    define lm where "lm = (if post = [] then lseq fp else last_max_lseq s)"
    define s2 where "s2 = s\<lparr>jb := (jb s)\<lparr>jb_head := pre @ fp # post, jb_size := jb_size (jb s) + 1\<rparr>,
      last_max_lseq := lm\<rparr>"
    have ord: "jb_order (pre @ fp # post)"
      unfolding pre_def post_def by (rule insert_order) (use i(2) seq False in \<open>auto simp: post_def\<close>)
    have "post = [] \<Longrightarrow> last_max_lseq s < lseq fp"
    proof -
      assume "post = []"
      then have "last (queued s) \<in> set pre" using q pp by auto
      then show ?thesis by (auto simp: i(4) pre_def dest: set_takeWhileD)
    qed
    then have ins: "insert_sorted s fp drp =
      (if jb_size (jb s2) = jb_capacity (jb s2) \<or> (\<not> warm_up s2 \<and> lseq (hd (queued s2)) = last_lseq s2 + 1)
      then release_run s2 drp else Some (\<lparr>r_error = 0, r_ready = [], r_drop = drp\<rparr>, s2))"
      using False unfolding insert_sorted_def pre_def [symmetric] post_def [symmetric] Let_def
      by (cases s) (auto simp: s2_def lm_def)
    have size: "unat (jb_size (jb s) + 1) = unat (jb_size (jb s)) + 1"
      using i(1) unsigned_less [of "jb_capacity (jb s)", where 'a = nat]
      by (simp add: jb_sizes_def unat_word_ariths)
    have hd: "warm_up s \<or> unat (last_lseq s) + 1 \<le> unat (lseq (hd (pre @ fp # post)))"
      using gt i(6) pp by (cases pre) auto
    have "jb_filled s2"
      using i size ord hd nd lt unfolding jb_filled_def
      by (auto simp: s2_def lm_def jb_sizes_def pp LMS_DEFAULT_def)
    moreover have "unat (last_max_lseq s2) < next_lseq s2 + 4294967295"
      using room lt i(7) by (auto simp: s2_def lm_def next_lseq_def)
    ultimately obtain r s' where r: "insert_sorted s fp drp = Some (r, s')" "step_ok s2 (held (rtp_of drp)) r s'"
      using release_or_wait_ok unfolding ins by blast
    have "step_ok s ({#pk_key fp#} + held (rtp_of drp)) r s'"
      by (rule step_ok_later [OF r(2)]) (simp_all add: s2_def pp)
    with r(1) show ?thesis by blast
  qed
qed

lemma place_frame_ok:
  assumes inv: "jb_inv s" and lms: "last_max_lseq s \<noteq> LMS_DEFAULT"
    and seq: "unat (lseq fp) mod 65536 = unat (ri_seq (pk_info fp))"
    and lt: "unat (lseq fp) < unat (lseq_mask s) + 65536" and nd: "lseq fp \<noteq> LRS_DEFAULT"
    and room: "unat (lseq_mask s) + 65536 \<le> next_lseq s + 4294967295"
  shows "\<exists>r s'. place_frame s fp drp = Some (r, s') \<and> step_ok s ({#pk_key fp#} + held (rtp_of drp)) r s'"
proof (cases "\<not> warm_up s \<and> lseq fp \<le> last_lseq s")
  case True
  then show ?thesis using dropped_ok [OF inv, of fp drp] by (auto simp: place_frame_def Let_def prod_eq_iff)
next
  case False
  then have gt: "warm_up s \<or> unat (last_lseq s) < unat (lseq fp)" by (auto simp: word_le_nat_alt)
  show ?thesis
  proof (cases "queued s = []")
    case True
    with inv lms have "last_max_lseq s = last_lseq s" "jb_size (jb s) = 0" "\<not> warm_up s"
      by (auto simp: jb_inv_def jb_marks_def jb_sizes_def LMS_DEFAULT_def word_unat_eq_iff)
    then have "jb_size (jb s) = 0" "last_max_lseq s < lseq fp" using gt by (auto simp: word_less_nat_alt)
    then have "place_frame s fp drp = lms_init s fp drp" using True False by (auto simp: place_frame_def)
    then show ?thesis using lms_init_ok [OF inv True seq lt nd gt] by simp
  next
    case nonempty: False
    then have "place_frame s fp drp = insert_sorted s fp drp" using False by (auto simp: place_frame_def)
    then show ?thesis using insert_sorted_ok [OF inv nonempty seq lt nd gt room] by simp
  qed
qed

lemma enqueue_frame_ok:
  assumes inv: "jb_inv s0" and room: "seq_room s0" and ew: "\<not> early_wrap s0 (ri_seq (pk_info fp0))"
    and fp0: "unat (lseq fp0) = unat (lseq_mask s0) + unat (ri_seq (pk_info fp0))"
  shows "\<exists>r s'. enqueue_frame s0 fp0 drp = Some (r, s') \<and>
    step_ok s0 ({#pk_key fp0#} + held (rtp_of drp)) r s'"
proof (cases "last_max_lseq s0 = LMS_DEFAULT")
  case True
  with inv have q: "queued s0 = []" "warm_up s0" "65536 dvd unat (lseq_mask s0)"
    by (auto simp: jb_inv_def jb_marks_def LMS_DEFAULT_def split: if_splits)
  have "lseq fp0 \<noteq> LRS_DEFAULT" "unat (lseq fp0) < unat (lseq_mask s0) + 65536"
    using fp0 room unat_u16 [of "ri_seq (pk_info fp0)"] unat_DEFAULT [of "lseq fp0"]
    by (auto simp: seq_room_def)
  moreover have "unat (lseq fp0) mod 65536 = unat (ri_seq (pk_info fp0))"
    using fp0 q(3) unat_u16 [of "ri_seq (pk_info fp0)"] by (auto elim!: dvdE)
  ultimately show ?thesis using lms_init_ok [OF inv q(1)] q True by (simp add: enqueue_frame_def)
next
  case False
  obtain fp s where fps: "seq_unwrap s0 fp0 = (fp, s)" by (cases "seq_unwrap s0 fp0")
  have "unat (lseq_mask s0) < 2 ^ 63" using room by (simp add: seq_room_def)
  from seq_unwrap_ok [OF inv this False ew fp0] have u: "unwrapped s0 fp0 fp s" by (simp add: fps)
  then have s: "jb_inv s" "last_max_lseq s \<noteq> LMS_DEFAULT" "queued s = queued s0" "last_lseq s = last_lseq s0"
      "unat (lseq fp) mod 65536 = unat (ri_seq (pk_info fp))" "pk_key fp = pk_key fp0"
      "unat (lseq fp) < unat (lseq_mask s) + 65536" "unat (lseq_mask s) \<le> unat (lseq_mask s0) + 65536"
    using False by (auto simp: unwrapped_def)
  then have "lseq fp \<noteq> LRS_DEFAULT"
    using room unat_DEFAULT [of "lseq fp"] by (auto simp: seq_room_def)
  moreover have "unat (lseq_mask s) + 65536 \<le> next_lseq s + 4294967295"
    using s(4,8) room by (simp add: seq_room_def next_lseq_def)
  moreover have "queued s0 = [] \<or> warm_up s0 \<or> lseq (hd (queued s0)) - 1 > last_lseq s0"
    using inv by (auto simp: jb_inv_def jb_marks_def word_less_nat_alt unat_sub_ge)
  moreover from this have "enqueue_frame s0 fp0 drp = place_frame s fp drp"
    using False by (simp add: enqueue_frame_def fps)
  ultimately obtain r s' where "enqueue_frame s0 fp0 drp = Some (r, s')"
    and ok: "step_ok s ({#pk_key fp#} + held (rtp_of drp)) r s'"
    using place_frame_ok [OF s(1,2,5,7), of drp] by auto
  moreover have "step_ok s0 ({#pk_key fp0#} + held (rtp_of drp)) r s'"
    using step_ok_later [OF ok s(4), of "{#}"] u by (simp add: s unwrapped_def)
  ultimately show ?thesis by blast
qed

section \<open>Purging the tail\<close>

definition stale_frames :: "rtp_packet option \<Rightarrow> rtp_frame list" where
  "stale_frames stale = (case stale of None \<Rightarrow> [] | Some fp \<Rightarrow> [RFT_RTP fp])"

definition purged :: "rtpjbuf_inst \<Rightarrow> rtp_packet option \<Rightarrow> rtpjbuf_inst \<Rightarrow> bool" where
  "purged s0 stale s \<longleftrightarrow> jb_inv s \<and> last_lseq s = last_lseq s0 \<and> lseq_mask s = lseq_mask s0 \<and>
     jb_capacity (jb s) = jb_capacity (jb s0) \<and>
     held (queued s) + held (rtp_of (stale_frames stale)) = held (queued s0)"

lemma purge_stale_tail_ok:
  assumes inv: "jb_inv s0"
  shows "purged s0 (fst (purge_stale_tail s0)) (snd (purge_stale_tail s0))"
proof (cases "queued s0 = [] \<or> jb_size (jb s0) < jb_capacity (jb s0) - 1")
  case True
  then show ?thesis using inv by (simp add: purge_stale_tail_def purged_def stale_frames_def)
next
  case False
  define prevs tl where "prevs = butlast (queued s0)" and "tl = last (queued s0)"
  from False have q: "queued s0 = prevs @ [tl]" by (simp add: prevs_def tl_def)
  from inv have i: "jb_sizes (jb s0)" "jb_order (prevs @ [tl])" "65536 dvd unat (lseq_mask s0)"
    "last_max_lseq s0 = lseq tl" "lseq tl \<noteq> LMS_DEFAULT"
    "unat (lseq tl) < unat (lseq_mask s0) + 65536"
    "warm_up s0 \<or> unat (last_lseq s0) + 1 < unat (lseq (hd (prevs @ [tl])))"
    unfolding jb_inv_def jb_marks_def q by auto
  have "unat (jb_capacity (jb s0) - 1) = unat (jb_capacity (jb s0)) - 1"
    using i(1) by (simp add: jb_sizes_def unat_sub word_le_nat_alt)
  with False i(1) have "2 \<le> length (queued s0)" by (auto simp: jb_sizes_def word_less_nat_alt)
  then have ne: "prevs \<noteq> []" by (auto simp: q)
  have ord: "jb_order prevs" "unat (lseq (last prevs)) < unat (lseq tl)"
    using i(2) ne jb_order_appendD by (auto simp: jb_order_def sorted_wrt_append)
  then have nd: "lseq (last prevs) \<noteq> LMS_DEFAULT"
    using unat_u64 [of "lseq tl"] unat_DEFAULT [of "lseq (last prevs)"] by (auto simp: LMS_DEFAULT_def)
  let ?fp = "tl\<lparr>jbcnt := jbcnt tl + 1\<rparr>"
  have key: "pk_key ?fp = pk_key tl" by (simp add: pk_key_def)
  show ?thesis
  proof (cases "jbcnt ?fp < ucast (jb_capacity (jb s0))")
    case True
    let ?s = "s0\<lparr>jb := (jb s0)\<lparr>jb_head := prevs @ [?fp]\<rparr>\<rparr>"
    have "purge_stale_tail s0 = (None, ?s)"
      using False True by (simp add: purge_stale_tail_def Let_def prevs_def tl_def)
    moreover have "jb_inv ?s" using i ne
      by (auto simp: jb_inv_def jb_sizes_def jb_marks_def jb_order_def sorted_wrt_append q)
    ultimately show ?thesis by (simp add: purged_def stale_frames_def q key)
  next
    case old: False
    let ?s = "s0\<lparr>jb := (jb s0)\<lparr>jb_head := prevs, jb_size := jb_size (jb s0) - 1\<rparr>,
      last_max_lseq := lseq (last prevs)\<rparr>"
    have "purge_stale_tail s0 = (Some ?fp, ?s)"
      using False old ne i(4) by (simp add: purge_stale_tail_def Let_def prevs_def tl_def)
    moreover have "unat (jb_size (jb s0) - 1) = length prevs"
      using i(1) by (simp add: jb_sizes_def unat_sub word_le_nat_alt q)
    then have "jb_inv ?s" using i ne ord nd
      by (auto simp: jb_inv_def jb_sizes_def jb_marks_def q)
    ultimately show ?thesis by (simp add: purged_def stale_frames_def q key)
  qed
qed

section \<open>A whole datagram\<close>

text \<open>What a datagram adds to the packets the buffer is responsible for.\<close>

definition accepted :: "bool \<Rightarrow> addr \<Rightarrow> u8 list \<Rightarrow> (rtp_info \<times> addr) multiset" where
  "accepted malloc_ok ptr bytes =
     (case rtp_packet_parse_raw bytes rtp_info_zero of
        Some (RTP_PARSER_OK, info) \<Rightarrow> if malloc_ok then {#(info, ptr)#} else {#}
      | _ \<Rightarrow> {#})"

definition udp_in_admissible :: "rtpjbuf_inst \<Rightarrow> u8 list \<Rightarrow> bool" where
  "udp_in_admissible s bytes \<longleftrightarrow> length bytes \<le> 33554432 \<and> seq_room s \<and>
     (case rtp_packet_parse_raw bytes rtp_info_zero of
        Some (RTP_PARSER_OK, info) \<Rightarrow> \<not> early_wrap (snd (purge_stale_tail s)) (ri_seq info)
      | _ \<Rightarrow> True)"

lemma rtpjbuf_udp_in_ok:
  assumes inv: "jb_inv s" and adm: "udp_in_admissible s bytes"
  shows "\<exists>r s'. rtpjbuf_udp_in s malloc_ok ptr bytes = Some (r, s') \<and>
    step_ok s (accepted malloc_ok ptr bytes) r s'"
proof -
  obtain stale s1 where p: "purge_stale_tail s = (stale, s1)" by (cases "purge_stale_tail s")
  from purge_stale_tail_ok [OF inv] have s1: "jb_inv s1" "last_lseq s1 = last_lseq s"
      "lseq_mask s1 = lseq_mask s" "jb_capacity (jb s1) = jb_capacity (jb s)"
      "held (queued s1) + held (rtp_of (stale_frames stale)) = held (queued s)"
    by (auto simp: p purged_def)
  obtain err info where parse: "rtp_packet_parse_raw bytes rtp_info_zero = Some (err, info)"
    using parse_total [of bytes rtp_info_zero] adm unfolding udp_in_admissible_def by blast
  have keep: "step_ok s (accepted malloc_ok ptr bytes)
      \<lparr>r_error = e, r_ready = [], r_drop = stale_frames stale\<rparr> (s1\<lparr>jbs := j\<rparr>)"
    if "accepted malloc_ok ptr bytes = {#}" for e j
    using s1 that by (auto simp: step_ok_def advances_def next_lseq_def jb_inv_def jb_marks_def)
  consider "\<not> malloc_ok" | "malloc_ok" "err \<noteq> RTP_PARSER_OK" | "malloc_ok" "err = RTP_PARSER_OK" by blast
  then show ?thesis
  proof cases
    case 1
    then have "accepted malloc_ok ptr bytes = {#}" by (auto simp: accepted_def split: option.splits prod.splits rtp_parser_err.splits)
    from keep [OF this, of RJB_ENOMEM "jbs s1"] 1 show ?thesis
      by (simp add: rtpjbuf_udp_in_def p stale_frames_def)
  next
    case 2
    then have "accepted malloc_ok ptr bytes = {#}" by (cases err) (auto simp: accepted_def parse)
    from keep [OF this] 2 show ?thesis
      by (simp add: rtpjbuf_udp_in_def p parse stale_frames_def)
  next
    case 3
    let ?fp = "\<lparr>pk_info = info, lseq = lseq_mask s1 OR ucast (ri_seq info), jbcnt = 0, pk_data = ptr\<rparr>"
    have "take_bit 16 (lseq_mask s1) = 0"
      using s1(1) unfolding take_bit_16_mod by (simp add: jb_inv_def jb_marks_def)
    then have "unat (lseq ?fp) = unat (lseq_mask s1) + unat (ri_seq (pk_info ?fp))"
      by (simp add: unat_mask_or_seq)
    moreover have "seq_room s1" "\<not> early_wrap s1 (ri_seq (pk_info ?fp))"
      using adm s1 3 by (auto simp: udp_in_admissible_def seq_room_def next_lseq_def parse p)
    ultimately obtain r s' where e: "enqueue_frame s1 ?fp (stale_frames stale) = Some (r, s')"
      and ok: "step_ok s1 ({#pk_key ?fp#} + held (rtp_of (stale_frames stale))) r s'"
      using enqueue_frame_ok [OF s1(1)] by blast
    have "rtpjbuf_udp_in s malloc_ok ptr bytes = Some (r, s')"
      using 3 e by (simp add: rtpjbuf_udp_in_def p parse stale_frames_def)
    moreover have "step_ok s (accepted malloc_ok ptr bytes) r s'"
      using ok s1(2,4,5) 3 by (auto simp: step_ok_def advances_def next_lseq_def accepted_def parse pk_key_def ac_simps)
    ultimately show ?thesis by blast
  qed
qed

section \<open>Flushing\<close>

lemma flush_runs_ok:
  "xs \<noteq> [] \<Longrightarrow> jb_order xs \<Longrightarrow> flush_runs xs drp = (run, drp') \<Longrightarrow>
     run \<noteq> [] \<and> last run = last xs \<and> unat (lseq (hd xs)) \<le> unat (lseq (hd run)) \<and>
     tiles (unat (lseq (hd run))) (map RFT_RTP run) (unat (lseq (last run)) + 1) \<and>
     held drp' + held run = held drp + held xs \<and> set run \<subseteq> set xs"
proof (induction xs drp rule: flush_runs.induct)
  case (1 xs drp)
  obtain r others where sp: "split_run xs = (r, others)" by (cases "split_run xs")
  note ne = 1(2) and ord_xs = 1(3) and fl_xs = 1(4)
  from split_run_append [OF sp] split_run_nonempty [OF sp ne] have r: "xs = r @ others" "r \<noteq> []" by auto
  have f: "flush_runs xs drp = (if others = [] then (r, drp) else flush_runs others (r @ drp))"
    by (subst flush_runs.simps) (simp add: sp)
  show ?case
  proof (cases "others = []")
    case True
    with f fl_xs have "run = r" "drp' = drp" by auto
    then show ?thesis using True r tiles_run [OF sp ne ord_xs] by auto
  next
    case False
    with f fl_xs have fl: "flush_runs others (r @ drp) = (run, drp')" by simp
    have ord: "jb_order others" using ord_xs jb_order_appendD unfolding r(1) by blast
    have "hd others \<in> set xs" using False r by simp
    from jb_order_hd_last(2) [OF ord_xs this]
    have le: "unat (lseq (hd xs)) \<le> unat (lseq (hd others))" .
    have "run \<noteq> [] \<and> last run = last others \<and> unat (lseq (hd others)) \<le> unat (lseq (hd run)) \<and>
      tiles (unat (lseq (hd run))) (map RFT_RTP run) (unat (lseq (last run)) + 1) \<and>
      held drp' + held run = held (r @ drp) + held others \<and> set run \<subseteq> set others"
      using 1(1) [unfolded sp snd_conv fst_conv, OF False False ord fl] .
    then show ?thesis using le False by (auto simp: r(1))
  qed
qed

lemma rtpjbuf_flush_ok:
  assumes inv: "jb_inv s" and room: "seq_room s"
  shows "\<exists>r s'. rtpjbuf_flush s = Some (r, s') \<and> step_ok s {#} r s' \<and> queued s' = []"
proof (cases "queued s = []")
  case True
  then show ?thesis using inv by (simp add: rtpjbuf_flush_def step_ok_def advances_refl)
next
  case False
  from inv False have i: "jb_sizes (jb s)" "jb_order (queued s)" "65536 dvd unat (lseq_mask s)"
    "last_max_lseq s = lseq (last (queued s))" "last_max_lseq s \<noteq> LMS_DEFAULT"
    "warm_up s \<or> unat (last_lseq s) + 1 < unat (lseq (hd (queued s)))"
    "unat (last_max_lseq s) < unat (lseq_mask s) + 65536"
    by (auto simp: jb_inv_def jb_marks_def)
  obtain run drp where fl: "flush_runs (queued s) [] = (run, drp)" by (cases "flush_runs (queued s) []")
  from flush_runs_ok [OF False i(2) fl] have run: "run \<noteq> []" "last run = last (queued s)"
    "unat (lseq (hd (queued s))) \<le> unat (lseq (hd run))"
    "tiles (unat (lseq (hd run))) (map RFT_RTP run) (unat (lseq (last run)) + 1)"
    "held drp + held run = held (queued s)" "set run \<subseteq> set (queued s)" by auto
  have hd: "unat (lseq (hd run)) \<le> unat (lseq (last (queued s)))"
    using run(1,6) jb_order_hd_last(1) [OF i(2)] by (meson hd_in_set subsetD)
  have known: "\<not> warm_up s \<Longrightarrow> unat (last_lseq s) + 1 < unat (lseq (hd (queued s)))" using i(6) by auto
  have le: "next_lseq s \<le> unat (lseq (hd run))"
    using known run(3) by (cases "warm_up s") (auto simp: next_lseq_warm_up next_lseq_known)
  have "unat (lseq (hd run)) < next_lseq s + 4294967295"
    using hd i(4,7) room by (auto simp: seq_room_def)
  from insert_ers_frame_ok [OF le this run(4)] obtain ready e where
    ers: "insert_ers_frame s run = Some (ready, s\<lparr>inst_ers := e\<rparr>)"
      "tiles (next_lseq s) ready (unat (lseq (last run)) + 1)" "rtp_of ready = run" by blast
  define s2 where "s2 = s\<lparr>inst_ers := e, last_lseq := lseq (last run), last_ts := ri_ts (pk_info (last run))\<rparr>"
  define s3 where "s3 = s2\<lparr>jb := (jb s2)\<lparr>jb_head := [], jb_size := 0\<rparr>\<rparr>"
  have "warm_up s \<or> last_lseq s < lseq (last run)"
    using known run(2,3) hd by (cases "warm_up s") (simp_all add: word_less_nat_alt)
  then have "save_last (s\<lparr>inst_ers := e\<rparr>) (last run) = Some s2" by (simp add: save_last_def s2_def)
  moreover have "lseq (hd (queued s)) - 1 > last_lseq s \<or> last_lseq s = LRS_DEFAULT"
    using known by (cases "warm_up s") (simp_all add: word_less_nat_alt unat_sub_ge)
  ultimately have eq: "rtpjbuf_flush s = Some (\<lparr>r_error = 0, r_ready = ready, r_drop = map RFT_RTP drp\<rparr>, s3)"
    using False fl ers(1) by (simp add: rtpjbuf_flush_def s3_def)
  have nd: "lseq (last run) \<noteq> LRS_DEFAULT" using i(4,5) run(2) by (simp add: LMS_DEFAULT_def)
  then have "jb_inv s3" using i run(2)
    by (auto simp: jb_inv_def jb_sizes_def jb_order_def jb_marks_def s3_def s2_def)
  moreover have "advances s ready s3"
    using ers(2) nd next_lseq_known [of s3] by (auto simp: advances_def s3_def s2_def)
  ultimately have "step_ok s {#} \<lparr>r_error = 0, r_ready = ready, r_drop = map RFT_RTP drp\<rparr> s3"
    using run(5) by (simp add: step_ok_def ers(3) s3_def s2_def add.commute)
  then show ?thesis using eq by (auto simp: s3_def)
qed

end
