(* ===== verification/Rtp_Jbuf_Props.thy ===== *)
theory Rtp_Jbuf_Props
  imports Rtp_Jbuf_Inv
begin

text \<open>
  Properties of the jitter buffer over whole sequences of calls: the buffer is an instance of
  the machine of the prelude, whose inputs are datagrams and flushes.
\<close>

section \<open>The buffer as a machine\<close>

datatype jb_input = Udp_in bool addr "u8 list" | Flush

fun jb_step :: "rtpjbuf_inst \<Rightarrow> jb_input \<Rightarrow> (rjb_udp_in_r \<times> rtpjbuf_inst) option" where
  "jb_step s (Udp_in malloc_ok ptr bytes) = rtpjbuf_udp_in s malloc_ok ptr bytes"
| "jb_step s Flush = rtpjbuf_flush s"

fun jb_adm :: "rtpjbuf_inst \<Rightarrow> jb_input \<Rightarrow> bool" where
  "jb_adm s (Udp_in malloc_ok ptr bytes) = udp_in_admissible s bytes"
| "jb_adm s Flush = seq_room s"

fun jb_new :: "jb_input \<Rightarrow> (rtp_info \<times> addr) multiset" where
  "jb_new (Udp_in malloc_ok ptr bytes) = accepted malloc_ok ptr bytes"
| "jb_new Flush = {#}"

lemma jb_step_ok:
  assumes "jb_inv s" "jb_adm s i"
  shows "\<exists>r s'. jb_step s i = Some (r, s') \<and> step_ok s (jb_new i) r s'"
  using assms rtpjbuf_udp_in_ok [of s] rtpjbuf_flush_ok [of s] by (cases i) auto

interpretation jbm: invariant_machine jb_step jb_adm jb_inv
proof
  fix s i assume "jb_inv s" "jb_adm s i"
  from jb_step_ok [OF this] show "jb_step s i \<noteq> None" by auto
next
  fix s i out s' assume "jb_inv s" "jb_adm s i" "jb_step s i = Some (out, s')"
  with jb_step_ok [OF this(1,2)] show "jb_inv s'" by (auto simp: step_ok_def)
qed


lemma ctor_inv:
  assumes "rtpjbuf_ctor True capacity = Some s" "3 \<le> capacity"
  shows "jb_inv s" "jb_capacity (jb s) = capacity" "warm_up s" "queued s = []"
  using assms by (auto simp: rtpjbuf_ctor_def jb_inv_def jb_sizes_def jb_order_def jb_marks_def
      LMS_DEFAULT_def word_le_nat_alt)

text \<open>Everything the steps of a run do, end to end.\<close>

definition run_ok :: "rtpjbuf_inst \<Rightarrow> rjb_udp_in_r list \<Rightarrow> rtpjbuf_inst \<Rightarrow> bool" where
  "run_ok s outs s' \<longleftrightarrow> jb_capacity (jb s') = jb_capacity (jb s) \<and>
     advances s (concat (map r_ready outs)) s'"

lemma jb_run_ok:
  assumes "jb_inv s" "admissible_run jb_step jb_adm s is" "run_steps jb_step s is = Some (outs, s')"
  shows "run_ok s outs s'"
proof (rule jbm.run_chain [OF _ _ assms])
  fix s show "run_ok s [] s" by (simp add: run_ok_def advances_refl)
next
  fix s i out s1 outs s2
  assume "jb_inv s" "jb_adm s i" "jb_step s i = Some (out, s1)" "run_ok s1 outs s2"
  with jb_step_ok [OF this(1,2)] show "run_ok s (out # outs) s2"
    by (auto simp: run_ok_def step_ok_def intro: advances_trans)
qed

lemma mset_balance:
  assumes "A + B + C = D + E" "D + F + G = H + (I :: 'a multiset)"
  shows "A + (F + B) + (G + C) = H + (I + E)"
proof -
  have "A + (F + B) + (G + C) = (A + B + C) + (F + G)" by (simp add: ac_simps)
  also have "\<dots> = (D + F + G) + E" unfolding assms(1) by (simp add: ac_simps)
  finally show ?thesis unfolding assms(2) by (simp add: ac_simps)
qed

lemma jb_run_held:
  assumes "jb_inv s" "admissible_run jb_step jb_adm s is" "run_steps jb_step s is = Some (outs, s')"
  shows "held (queued s') + held (rtp_of (concat (map r_ready outs))) + held (rtp_of (concat (map r_drop outs)))
     = held (queued s) + sum_list (map jb_new is)"
  using assms
proof (induction "is" arbitrary: s outs)
  case Nil
  then show ?case by simp
next
  case (Cons i "is")
  then have adm: "jb_adm s i" by simp
  from jb_step_ok [OF Cons.prems(1) adm] obtain r s1 where
    st: "jb_step s i = Some (r, s1)" and ok: "step_ok s (jb_new i) r s1" by blast
  from Cons.prems(3) st obtain outs1 where
    rest: "run_steps jb_step s1 is = Some (outs1, s')" and outs: "outs = r # outs1"
    by (auto split: option.splits)
  have "jb_inv s1" using ok by (simp add: step_ok_def)
  moreover have "admissible_run jb_step jb_adm s1 is" using Cons.prems(2) st by simp
  ultimately have "held (queued s') + held (rtp_of (concat (map r_ready outs1))) +
      held (rtp_of (concat (map r_drop outs1))) = held (queued s1) + sum_list (map jb_new is)"
    using rest by (rule Cons.IH)
  moreover have "held (queued s1) + held (rtp_of (r_ready r)) + held (rtp_of (r_drop r)) =
      held (queued s) + jb_new i" using ok by (simp add: step_ok_def)
  ultimately show ?case using mset_balance by (simp add: outs)
qed

lemma rtpjbuf_dtor_eq: "rtpjbuf_dtor s = queued s"
proof -
  have "rtpjbuf_dtor_loop ps freed = freed @ ps" for ps freed
    by (induction ps freed rule: rtpjbuf_dtor_loop.induct) auto
  then show ?thesis by (simp add: rtpjbuf_dtor_def)
qed

section \<open>A stream in order\<close>

text \<open>The buffer is empty and the mask is the cycle of the last packet handed out.\<close>

definition in_sync :: "rtpjbuf_inst \<Rightarrow> bool" where
  "in_sync s \<longleftrightarrow> jb_inv s \<and> queued s = [] \<and> \<not> warm_up s \<and>
     unat (lseq_mask s) = unat (last_lseq s) - unat (last_lseq s) mod 65536"

definition ready_now :: "addr \<Rightarrow> rtp_info \<Rightarrow> nat \<Rightarrow> rjb_udp_in_r" where
  "ready_now ptr info n = \<lparr>r_error = 0,
     r_ready = [RFT_RTP \<lparr>pk_info = info, lseq = of_nat n, jbcnt = 0, pk_data = ptr\<rparr>], r_drop = []\<rparr>"

lemma unat_of_nat_u16: "unat (of_nat n :: u16) = n mod 65536"
  by (simp add: unsigned_of_nat take_bit_eq_mod)

lemma in_sync_unwrap:
  assumes sync: "in_sync s" and room: "unat (last_lseq s) + 1 < 2 ^ 63"
    and seq: "ri_seq (pk_info fp) = of_nat (unat (last_lseq s) + 1)"
    and fp: "unat (lseq fp) = unat (lseq_mask s) + unat (ri_seq (pk_info fp))"
  shows "\<exists>s1. seq_unwrap s fp = (fp\<lparr>lseq := last_lseq s + 1\<rparr>, s1) \<and>
    last_lseq s1 = last_lseq s \<and> jb s1 = jb s \<and> last_max_lseq s1 = last_lseq s \<and>
    unat (lseq_mask s1) = (unat (last_lseq s) + 1) - (unat (last_lseq s) + 1) mod 65536"
proof -
  define q r where "q = unat (last_lseq s) div 65536" and "r = unat (last_lseq s) mod 65536"
  then have L: "unat (last_lseq s) = 65536 * q + r" "r < 65536" by simp_all
  have m: "unat (lseq_mask s) = 65536 * q" "last_max_lseq s = last_lseq s"
    using sync unfolding in_sync_def jb_inv_def jb_marks_def by (simp_all add: q_def minus_mod_eq_mult_div)
  have seq': "unat (ri_seq (pk_info fp)) = (65536 * q + r + 1) mod 65536"
    unfolding seq L(1) by (rule unat_of_nat_u16)
  have n: "unat (last_lseq s + 1) = unat (last_lseq s) + 1"
    using room by (simp add: unat_add_small)
  show ?thesis
  proof (cases "r = 65535")
    case True
    then have "(65536 * q + r + 1) = 65536 * (q + 1)" by simp
    then have "unat (ri_seq (pk_info fp)) = 0" unfolding seq' by simp
    then have lfp: "unat (lseq fp) = 65536 * q" using fp m by simp
    have "\<not> last_max_lseq s mod 65536 < 536"
      using L True by (simp add: m word_less_nat_alt unat_mod_65536)
    moreover have "last_max_lseq s > 65000"
      using L True by (simp add: m word_less_nat_alt)
    moreover have "lseq fp < last_max_lseq s - 65000"
      using L True lfp by (simp add: m word_less_nat_alt unat_sub_ge)
    moreover have "lseq fp + 0x10000 = last_lseq s + 1"
      using L True lfp n room by (simp add: word_unat_eq_iff unat_add_small)
    moreover have "unat (lseq_mask s + 0x10000) = 65536 * q + 65536"
      using L m room by (simp add: unat_add_small)
    ultimately show ?thesis using m True L by (simp add: seq_unwrap_def)
  next
    case False
    then have r1: "r + 1 < 65536" using L by simp
    then have seq2: "unat (ri_seq (pk_info fp)) = r + 1" unfolding seq'
      using mod_mult_self4 [of 65536 q "r + 1"] by (simp only: add.assoc mod_less)
    then have lfp: "unat (lseq fp) = unat (last_lseq s) + 1" using fp m L by simp
    have "\<not> (last_max_lseq s mod 65536 < 536 \<and> ri_seq (pk_info fp) > 65000)"
      using L seq2 by (simp add: m word_less_nat_alt unat_mod_65536)
    moreover have "\<not> (last_max_lseq s > 65000 \<and> lseq fp < last_max_lseq s - 65000)"
      using lfp by (auto simp: m word_less_nat_alt unat_sub_ge)
    moreover have "lseq fp = last_lseq s + 1" using lfp n by (simp add: word_unat_eq_iff)
    moreover have "unat (lseq_mask s) = (65536 * q + r + 1) - (65536 * q + r + 1) mod 65536"
      using m(1) seq' seq2 by simp
    ultimately show ?thesis using m L by (cases fp) (simp add: seq_unwrap_def)
  qed
qed

lemma in_sync_step:
  assumes sync: "in_sync s" and room: "unat (last_lseq s) + 1 < 2 ^ 63"
    and parse: "rtp_packet_parse_raw bytes rtp_info_zero = Some (RTP_PARSER_OK, info)"
    and seq: "ri_seq info = of_nat (next_lseq s)"
  shows "\<exists>s'. rtpjbuf_udp_in s True ptr bytes = Some (ready_now ptr info (next_lseq s), s') \<and>
    in_sync s' \<and> last_lseq s' = last_lseq s + 1"
proof -
  let ?new = "\<lparr>pk_info = info, lseq = lseq_mask s OR ucast (ri_seq info), jbcnt = 0, pk_data = ptr\<rparr>"
  let ?fp = "\<lparr>pk_info = info, lseq = last_lseq s + 1, jbcnt = 0, pk_data = ptr\<rparr>"
  from sync have i: "queued s = []" "\<not> warm_up s" "jb_sizes (jb s)" "last_max_lseq s = last_lseq s"
    "unat (lseq_mask s) mod 65536 = 0" "jb_size (jb s) = 0"
    by (auto simp: in_sync_def jb_inv_def jb_marks_def jb_sizes_def word_unat_eq_iff)
  have nl: "next_lseq s = unat (last_lseq s) + 1" using i(2) by (rule next_lseq_known)
  have n: "unat (last_lseq s + 1) = unat (last_lseq s) + 1" using nl by (simp add: next_lseq_def)
  have "unat (lseq ?new) = unat (lseq_mask s) + unat (ri_seq (pk_info ?new))"
    using i(5) by (simp add: unat_mask_or_seq take_bit_16_mod [THEN iffD2])
  then obtain s1 where u: "seq_unwrap s ?new = (?fp, s1)" "last_lseq s1 = last_lseq s" "jb s1 = jb s"
      "last_max_lseq s1 = last_lseq s"
      "unat (lseq_mask s1) = (unat (last_lseq s) + 1) - (unat (last_lseq s) + 1) mod 65536"
    using in_sync_unwrap [OF sync room, of ?new] seq nl by auto
  have gt: "last_lseq s < last_lseq s + 1" using n by (simp add: word_less_nat_alt)
  let ?s' = "s1\<lparr>last_max_lseq := last_lseq s + 1, last_lseq := last_lseq s + 1, last_ts := ri_ts info\<rparr>"
  have nd: "last_lseq s + 1 \<noteq> LRS_DEFAULT"
    using n room unat_DEFAULT [of "last_lseq s + 1"] by auto
  have "purge_stale_tail s = (None, s)" using i(1) by (simp add: purge_stale_tail_def)
  then have "rtpjbuf_udp_in s True ptr bytes = enqueue_frame s ?new []"
    by (simp add: rtpjbuf_udp_in_def parse)
  also have "\<dots> = place_frame s1 ?fp []"
    using i u(1) by (simp add: enqueue_frame_def LMS_DEFAULT_def)
  also have "\<dots> = lms_init s1 ?fp []"
    using i u gt by (auto simp: place_frame_def dest: leD)
  also have "\<dots> = Some (\<lparr>r_error = 0, r_ready = [RFT_RTP ?fp], r_drop = []\<rparr>, ?s')"
    using i u gt by (simp add: lms_init_def save_last_def)
  also have "\<lparr>r_error = 0, r_ready = [RFT_RTP ?fp], r_drop = []\<rparr> = ready_now ptr info (next_lseq s)"
    by (simp add: ready_now_def next_lseq_def)
  finally have eq: "rtpjbuf_udp_in s True ptr bytes = Some (ready_now ptr info (next_lseq s), ?s')" .
  have "(unat (last_lseq s) + 1) mod 65536 \<le> unat (last_lseq s) + 1" by (rule mod_less_eq_dividend)
  moreover have "(unat (last_lseq s) + 1) mod 65536 < 65536" by simp
  ultimately have "in_sync ?s'"
    using i u(2-5) n nd by (auto simp: in_sync_def jb_inv_def jb_marks_def jb_order_def LMS_DEFAULT_def minus_mod_eq_mult_div)
  with eq show ?thesis by auto
qed

text \<open>The datagrams carry consecutive sequence numbers, starting with \<open>n\<close>.\<close>

fun consecutive :: "nat \<Rightarrow> (addr \<times> u8 list \<times> rtp_info) list \<Rightarrow> bool" where
  "consecutive n [] \<longleftrightarrow> True"
| "consecutive n ((ptr, bytes, info) # rest) \<longleftrightarrow>
     rtp_packet_parse_raw bytes rtp_info_zero = Some (RTP_PARSER_OK, info) \<and> ri_seq info = of_nat n \<and>
     consecutive (n + 1) rest"

fun ready_all :: "nat \<Rightarrow> (addr \<times> u8 list \<times> rtp_info) list \<Rightarrow> rjb_udp_in_r list" where
  "ready_all n [] = []"
| "ready_all n ((ptr, bytes, info) # rest) = ready_now ptr info n # ready_all (n + 1) rest"

lemma in_sync_run:
  assumes "in_sync s" "next_lseq s + length pkts < 2 ^ 63" "consecutive (next_lseq s) pkts"
  shows "\<exists>s'. run_steps jb_step s (map (\<lambda>(ptr, bytes, info). Udp_in True ptr bytes) pkts) =
      Some (ready_all (next_lseq s) pkts, s') \<and> in_sync s' \<and> next_lseq s' = next_lseq s + length pkts"
  using assms
proof (induction pkts arbitrary: s)
  case Nil
  then show ?case by simp
next
  case (Cons p pkts)
  obtain ptr bytes info where p: "p = (ptr, bytes, info)" by (cases p) auto
  have nl: "next_lseq s = unat (last_lseq s) + 1"
    using Cons.prems(1) next_lseq_known by (auto simp: in_sync_def)
  with Cons.prems p in_sync_step [of s bytes info ptr] obtain s1 where
    st: "rtpjbuf_udp_in s True ptr bytes = Some (ready_now ptr info (next_lseq s), s1)"
    and s1: "in_sync s1" "last_lseq s1 = last_lseq s + 1" by auto
  have n1: "next_lseq s1 = next_lseq s + 1"
    using s1 next_lseq_known [of s1] by (simp add: next_lseq_def in_sync_def)
  then obtain s2 where "run_steps jb_step s1 (map (\<lambda>(ptr, bytes, info). Udp_in True ptr bytes) pkts) =
      Some (ready_all (next_lseq s + 1) pkts, s2)" "in_sync s2" "next_lseq s2 = next_lseq s + 1 + length pkts"
    using Cons.IH [OF s1(1)] Cons.prems p by auto
  then show ?case using st p by simp
qed

lemma first_packet_zero:
  assumes "rtpjbuf_ctor True capacity = Some s" "3 \<le> capacity"
    and "rtp_packet_parse_raw bytes rtp_info_zero = Some (RTP_PARSER_OK, info)" "ri_seq info = 0"
  shows "\<exists>s'. rtpjbuf_udp_in s True ptr bytes = Some (ready_now ptr info 0, s') \<and> in_sync s' \<and> last_lseq s' = 0"
proof -
  let ?fp = "\<lparr>pk_info = info, lseq = 0, jbcnt = 0, pk_data = ptr\<rparr>"
  let ?s' = "s\<lparr>last_max_lseq := 0, last_lseq := 0, last_ts := ri_ts info\<rparr>"
  note s = ctor_inv [OF assms(1,2)]
  have m: "lseq_mask s = 0" "last_max_lseq s = LMS_DEFAULT"
    using assms(1) by (auto simp: rtpjbuf_ctor_def)
  have "purge_stale_tail s = (None, s)" using s(4) by (simp add: purge_stale_tail_def)
  then have "rtpjbuf_udp_in s True ptr bytes = enqueue_frame s ?fp []"
    using assms(3,4) m by (simp add: rtpjbuf_udp_in_def)
  also have "\<dots> = lms_init s ?fp []" using m s(4) by (simp add: enqueue_frame_def)
  also have "\<dots> = Some (ready_now ptr info 0, ?s')"
    using s(3) by (simp add: lms_init_def save_last_def ready_now_def)
  finally have "rtpjbuf_udp_in s True ptr bytes = Some (ready_now ptr info 0, ?s')" .
  moreover have "in_sync ?s'"
    using s m by (simp add: in_sync_def jb_inv_def jb_marks_def LRS_DEFAULT_def LMS_DEFAULT_def)
  ultimately show ?thesis by auto
qed


lemma seq_room_code [code]:
  "seq_room s \<longleftrightarrow> uint (lseq_mask s) < 9223372036854775808 \<and>
     uint (lseq_mask s) < uint (last_lseq s + 1) + 2147483648"
proof -
  have "a < 2 ^ 63 \<and> a < b + 2 ^ 31 \<longleftrightarrow> int a < 9223372036854775808 \<and> int a < int b + 2147483648" for a b
    by auto
  from this [of "unat (lseq_mask s)" "unat (last_lseq s + 1)"] show ?thesis
    unfolding seq_room_def next_lseq_def of_nat_unat .
qed

lemma udp_in_admissible_code [code]:
  "udp_in_admissible s bytes \<longleftrightarrow> int (length bytes) \<le> 33554432 \<and> seq_room s \<and>
     (case rtp_packet_parse_raw bytes rtp_info_zero of
        Some (RTP_PARSER_OK, info) \<Rightarrow> \<not> early_wrap (snd (purge_stale_tail s)) (ri_seq info)
      | _ \<Rightarrow> True)"
  by (simp add: udp_in_admissible_def)

definition sample_packet :: "u8 \<Rightarrow> u8 \<Rightarrow> u8 list" where
  "sample_packet hi lo = [0x80, 96, hi, lo, 0, 0, 0, 160, 0, 0, 0, 1]"

definition sample_ins :: "jb_input list" where
  "sample_ins = [Udp_in True 1 (sample_packet 0 7), Udp_in True 2 (sample_packet 0 9),
     Udp_in True 3 [1, 2, 3], Udp_in True 4 (sample_packet 0 6), Udp_in True 5 (sample_packet 0 9), Flush]"

lemma sample_ctor: "rtpjbuf_ctor True 3 = Some (the (rtpjbuf_ctor True 3))"
  by (simp add: rtpjbuf_ctor_def)

lemma sample_admissible: "admissible_run jb_step jb_adm (the (rtpjbuf_ctor True 3)) sample_ins"
  by code_simp

definition sample_stream :: "(addr \<times> u8 list \<times> rtp_info) list" where
  "sample_stream = map (\<lambda>n. (n, sample_packet 0 (of_nat n),
     snd (the (rtp_packet_parse_raw (sample_packet 0 (of_nat n)) rtp_info_zero)))) [0..<3]"

section \<open>Properties\<close>

text \<open>
  C1. The buffer never reaches a failing assertion: starting from the constructor with a capacity of at least 3, every admissible sequence of
  datagrams and flushes is served to its end, and afterwards fewer than \<open>capacity\<close> packets are queued, in strictly increasing order of
  their logical numbers. Admissible means that datagrams have at most 2^25 bytes, the 64-bit numbers do not run out, no gap is wider than 2^31, and in
  the first cycle of the 16-bit numbers no packet numbered above 65000 arrives while the highest number so far is below 536, which would be a late
  packet of the cycle before the first. With a capacity of 2 the statement is false.
\<close>

theorem jbuf_never_aborts:
  assumes "rtpjbuf_ctor True capacity = Some s0" and "3 \<le> capacity"
    and "admissible_run jb_step jb_adm s0 ins"
  shows "\<exists>outs s. run_steps jb_step s0 ins = Some (outs, s) \<and> length outs = length ins \<and>
    length (queued s) < unat capacity \<and> sorted_wrt (<) (map (\<lambda>p. unat (lseq p)) (queued s))"
proof -
  note s0 = ctor_inv [OF assms(1,2)]
  obtain outs s where run: "run_steps jb_step s0 ins = Some (outs, s)" "jb_inv s" "length outs = length ins"
    using jbm.run_ok [OF s0(1) assms(3)] by blast
  with jb_run_ok [OF s0(1) assms(3)] s0(2) have "jb_capacity (jb s) = capacity" by (simp add: run_ok_def)
  with run show ?thesis
    by (auto simp: jb_inv_def jb_sizes_def jb_order_def sorted_wrt_map)
qed

theorem jbuf_never_aborts_witness:
  "\<exists>outs s. run_steps jb_step (the (rtpjbuf_ctor True 3)) sample_ins = Some (outs, s) \<and>
     length outs = 6 \<and> length (queued s) < 3"
  using jbuf_never_aborts [OF sample_ctor _ sample_admissible] by (auto simp: sample_ins_def)

text \<open>
  C2. For a capacity of at least 3 and an admissible sequence of calls, the frames handed out over the whole sequence, packets and erasure frames in
  the order of their delivery, cover an interval of logical sequence numbers, each number exactly once, up to the last number delivered; the number of
  each packet agrees with the sequence number in its header modulo 65536. Admissible means that datagrams have at most 2^25 bytes, the 64-bit numbers
  do not run out, no gap is wider than 2^31, and in the first cycle of the 16-bit numbers no packet numbered above 65000 arrives while the highest
  number so far is below 536, which would be a late packet of the cycle before the first; with such a packet a number can be covered twice.
\<close>

theorem jbuf_output_tiles:
  assumes "rtpjbuf_ctor True capacity = Some s0" and "3 \<le> capacity"
    and "admissible_run jb_step jb_adm s0 ins" and "run_steps jb_step s0 ins = Some (outs, s)"
  shows "concat (map r_ready outs) = [] \<and> last_lseq s = LRS_DEFAULT \<or>
    (\<exists>a. tiles a (concat (map r_ready outs)) (unat (last_lseq s) + 1))"
proof -
  note s0 = ctor_inv [OF assms(1,2)]
  from jb_run_ok [OF s0(1) assms(3,4)] s0(3) show ?thesis
    using next_lseq_known [of s] by (auto simp: run_ok_def advances_def)
qed

theorem jbuf_output_tiles_witness:
  "\<exists>outs s a. run_steps jb_step (the (rtpjbuf_ctor True 3)) sample_ins = Some (outs, s) \<and>
     tiles a (concat (map r_ready outs)) (unat (last_lseq s) + 1) \<and>
     length (concat (map r_ready outs)) = 4"
proof -
  have run: "(case run_steps jb_step (the (rtpjbuf_ctor True 3)) sample_ins of None \<Rightarrow> False
      | Some (outs, s) \<Rightarrow> length (concat (map r_ready outs)) = 4)"
    by code_simp
  then obtain outs s where "run_steps jb_step (the (rtpjbuf_ctor True 3)) sample_ins = Some (outs, s)"
      "length (concat (map r_ready outs)) = 4"
    by (auto split: option.splits)
  with jbuf_output_tiles [OF sample_ctor _ sample_admissible this(1)] show ?thesis by fastforce
qed

text \<open>
  C3. No packet is lost, duplicated or leaked: for a capacity of at least 3 and an admissible sequence of calls, the packets handed out as ready,
  those handed out as dropped and those the destructor frees are together exactly the datagrams that were accepted. Admissible means that datagrams
  have at most 2^25 bytes, the 64-bit numbers do not run out, no gap is wider than 2^31, and in the first cycle of the 16-bit numbers no packet
  numbered above 65000 arrives while the highest number so far is below 536, which would be a late packet of the cycle before the first.
\<close>

theorem jbuf_conserves:
  assumes "rtpjbuf_ctor True capacity = Some s0" and "3 \<le> capacity"
    and "admissible_run jb_step jb_adm s0 ins" and "run_steps jb_step s0 ins = Some (outs, s)"
  shows "held (rtp_of (concat (map r_ready outs))) + held (rtp_of (concat (map r_drop outs))) +
    held (rtpjbuf_dtor s) = sum_list (map jb_new ins)"
proof -
  note s0 = ctor_inv [OF assms(1,2)]
  from jb_run_held [OF s0(1) assms(3,4)] s0(4) show ?thesis
    by (simp add: rtpjbuf_dtor_eq ac_simps)
qed

theorem jbuf_conserves_witness:
  "\<exists>outs s. run_steps jb_step (the (rtpjbuf_ctor True 3)) sample_ins = Some (outs, s) \<and>
     held (rtp_of (concat (map r_ready outs))) + held (rtp_of (concat (map r_drop outs))) +
       held (rtpjbuf_dtor s) = sum_list (map jb_new sample_ins)"
proof -
  have run: "run_steps jb_step (the (rtpjbuf_ctor True 3)) sample_ins \<noteq> None"
    by code_simp
  then obtain outs s where "run_steps jb_step (the (rtpjbuf_ctor True 3)) sample_ins = Some (outs, s)"
    by auto
  with jbuf_conserves [OF sample_ctor _ sample_admissible this] show ?thesis by simp
qed

text \<open>
  C31. A stream of fewer than 2^63 packets that arrive in order, starting with sequence number 0, passes through a buffer with a capacity of at least
  3 without any delay: every call returns exactly the packet that it was given, also across the wrap of the 16-bit sequence number.
\<close>

theorem jbuf_in_order_stream:
  assumes "rtpjbuf_ctor True capacity = Some s0" and "3 \<le> capacity"
    and "consecutive 0 pkts" and "length pkts < 2 ^ 63"
  shows "\<exists>s. run_steps jb_step s0 (map (\<lambda>(ptr, bytes, info). Udp_in True ptr bytes) pkts) =
    Some (ready_all 0 pkts, s)"
proof (cases pkts)
  case Nil
  then show ?thesis by simp
next
  case (Cons p rest)
  obtain ptr bytes info where p: "p = (ptr, bytes, info)" by (cases p) auto
  obtain s1 where s1: "rtpjbuf_udp_in s0 True ptr bytes = Some (ready_now ptr info 0, s1)"
      "in_sync s1" "last_lseq s1 = 0"
    using first_packet_zero [OF assms(1,2), of bytes info ptr] assms(3) by (auto simp: Cons p)
  then have n1: "next_lseq s1 = 1" by (simp add: next_lseq_def)
  from in_sync_run [OF s1(2)] obtain s2 where
    "run_steps jb_step s1 (map (\<lambda>(ptr, bytes, info). Udp_in True ptr bytes) rest) = Some (ready_all 1 rest, s2)"
    using assms(3,4) by (auto simp: Cons p n1)
  then show ?thesis using s1(1) by (simp add: Cons p)
qed

theorem jbuf_in_order_stream_witness:
  "\<exists>s. run_steps jb_step (the (rtpjbuf_ctor True 3))
     (map (\<lambda>(ptr, bytes, info). Udp_in True ptr bytes) sample_stream) = Some (ready_all 0 sample_stream, s)"
proof (rule jbuf_in_order_stream [OF sample_ctor])
  show "consecutive 0 sample_stream" by code_simp
  show "length sample_stream < 2 ^ 63" by (simp add: sample_stream_def)
qed simp

text \<open>
  For a stream with \<open>k\<close> ticks per packet, an erasure frame in front of a packet after \<open>n\<close>
  lost ones covers exactly the lost numbers and \<open>n * k\<close> ticks, as long as the product
  fits into 32 bits.
\<close>

lemma ers_uniform_gap:
  assumes "\<not> warm_up s" and "0 < n" and "unat (lseq fp) = unat (last_lseq s) + 1 + n"
    and "ri_ts (pk_info fp) = last_ts s + of_nat ((n + 1) * k)" and "(n + 1) * k * n < 2 ^ 32"
    and "n + 1 < 2 ^ 32"
  shows "\<exists>e. insert_ers_frame s (fp # fps) =
      Some (RFT_ERS e # map RFT_RTP (fp # fps), s\<lparr>inst_ers := e\<rparr>) \<and>
    unat (lseq_start e) = unat (last_lseq s) + 1 \<and> unat (lseq_end e) = unat (lseq fp) - 1 \<and>
    unat (ts_diff e) = n * k"
proof -
  have start: "unat (last_lseq s + 1) = unat (last_lseq s) + 1"
    using next_lseq_known [OF assms(1)] by (simp add: next_lseq_def)
  define d where "d = lseq fp - (last_lseq s + 1)"
  have ends: "lseq fp - 1 - (last_lseq s + 1) + 1 = d" by (simp add: d_def)
  have "unat d = n" unfolding d_def using assms(3) start by (simp add: unat_sub_ge)
  then have d32: "unat (ucast d :: u32) = n" using assms(6) by (simp add: unsigned_ucast_eq take_bit_nat_eq_self)
  then have d1: "unat (ucast d + 1 :: u32) = n + 1" using assms(6) by (simp add: unat_word_ariths)
  then have nz: "(ucast d + 1 :: u32) \<noteq> 0" by (metis Suc_eq_plus1 nat.distinct(1) unsigned_0)
  define e where "e = \<lparr>lseq_start = last_lseq s + 1, lseq_end = lseq fp - 1,
    ts_diff = (ri_ts (pk_info fp) - last_ts s) * ucast d div (ucast d + 1)\<rparr>"
  have ne: "last_lseq s + 1 \<noteq> lseq fp" using assms(2,3) start by (simp add: word_unat_eq_iff)
  have "insert_ers_frame s (fp # fps) = Some (RFT_ERS e # map RFT_RTP (fp # fps), s\<lparr>inst_ers := e\<rparr>)"
    using ne nz unfolding insert_ers_frame_def Let_def list.sel ends
    by (simp add: ers_ts_diff_total e_def)
  moreover have "unat (ts_diff e) = n * k"
  proof -
    define t where "t = (n + 1) * k"
    have "t * 1 \<le> t * n" using assms(2) by (intro mult_le_mono2) simp
    moreover have "t * n < 4294967296" using assms(5) by (simp add: t_def)
    ultimately have "t < 4294967296" by linarith
    then have "unat (of_nat t :: u32) = t" by (simp add: unsigned_of_nat take_bit_nat_eq_self)
    moreover have "t * n < 4294967296" using assms(5) by (simp add: t_def)
    ultimately have "unat (of_nat t * ucast d :: u32) = t * n" by (simp add: unat_word_ariths d32)
    moreover have "ts_diff e = of_nat t * ucast d div (ucast d + 1)"
      unfolding e_def assms(4) t_def [symmetric] by simp
    ultimately have "unat (ts_diff e) = t * n div (n + 1)" by (simp only: unat_div d1)
    also have "t * n = (n * k) * (n + 1)" by (simp add: t_def algebra_simps)
    finally show ?thesis by (simp only: nonzero_mult_div_cancel_right)
  qed
  moreover have "unat (lseq fp - 1) = unat (lseq fp) - 1" using assms(3) by (simp add: unat_sub_ge)
  ultimately show ?thesis using start by (auto simp: e_def)
qed

definition sample_inst :: "u64 \<Rightarrow> rtpjbuf_inst" where
  "sample_inst l = (the (rtpjbuf_ctor True 3))\<lparr>last_lseq := l, last_max_lseq := l\<rparr>"

definition sample_rtp :: "u64 \<Rightarrow> u32 \<Rightarrow> rtp_packet" where
  "sample_rtp l t = \<lparr>pk_info = rtp_info_zero\<lparr>ri_ts := t\<rparr>, lseq = l, jbcnt = 0, pk_data = 0\<rparr>"

lemma ers_uniform_gap_example:
  "\<exists>e. insert_ers_frame (sample_inst 7) [sample_rtp 11 640] =
     Some ([RFT_ERS e, RFT_RTP (sample_rtp 11 640)], (sample_inst 7)\<lparr>inst_ers := e\<rparr>) \<and> unat (ts_diff e) = 480"
proof -
  have "\<not> warm_up (sample_inst 7)" by code_simp
  moreover have "unat (lseq (sample_rtp 11 640)) = unat (last_lseq (sample_inst 7)) + 1 + 3"
    "ri_ts (pk_info (sample_rtp 11 640)) = last_ts (sample_inst 7) + of_nat ((3 + 1) * 160)"
    by (simp_all add: sample_rtp_def sample_inst_def rtpjbuf_ctor_def)
  ultimately show ?thesis
    using ers_uniform_gap [of "sample_inst 7" 3 "sample_rtp 11 640" 160 "[]"] by auto
qed

text \<open>
  The product is computed in 32 bits: after 6000 lost packets of 160 ticks the erasure frame
  reports 244291 ticks instead of 960000.
\<close>

lemma ers_gap_overflow:
  "map_option (\<lambda>(fs, s). ts_diff (inst_ers s))
     (insert_ers_frame (sample_inst 7) [sample_rtp 6008 960160]) = Some 244291"
  by code_simp

definition sample_seqs :: "(u8 \<times> u8) list \<Rightarrow> jb_input list" where
  "sample_seqs = map (\<lambda>(hi, lo). Udp_in True 0 (sample_packet hi lo))"

text \<open>
  A late packet of the cycle before the first one breaks the buffer: after the sequence
  numbers 10 and 65535 the second packet has the logical number \<open>2 ^ 64 - 1\<close>, the value that marks an empty
  buffer, and the next packet runs into the assertion that the buffer is empty.
\<close>

lemma jbuf_early_wrap_aborts:
  "run_steps jb_step (the (rtpjbuf_ctor True 4)) (sample_seqs [(0, 10), (255, 255), (0, 11)]) = None"
  by code_simp

text \<open>
  With a capacity of 2 the purge of a stale tail can empty the buffer and forget the
  highest number seen. A late packet is then queued below the numbers already delivered, and
  the next packet runs into an assertion.
\<close>

lemma jbuf_small_capacity_aborts:
  "run_steps jb_step (the (rtpjbuf_ctor True 2))
     (sample_seqs [(0, 100), (0, 101), (19, 136), (0, 50), (0, 50), (0, 102)]) = None"
  by code_simp

text \<open>
  A stray packet that is taken for the start of a new cycle is purged, but the mask of
  the new cycle stays: the packet 65505 that follows 65504 gets the logical number 131041.
\<close>

lemma jbuf_stale_wrap_mask:
  "map_option (\<lambda>(outs, s). map (\<lambda>p. (ri_seq (pk_info p), lseq p)) (queued s))
     (run_steps jb_step (the (rtpjbuf_ctor True 3))
       (sample_seqs [(255, 220), (255, 221), (255, 222), (255, 224), (0, 100),
         (255, 222), (255, 222), (255, 225)])) = Some [(65504, 65504), (65505, 131041)]"
  by code_simp

text \<open>
  During warm-up no erasure frame precedes the first run that a full buffer releases, but
  a flush puts one in front of it, for numbers no packet was ever expected for.
\<close>

lemma jbuf_flush_warm_up:
  "map_option (\<lambda>(outs, s). map (\<lambda>f. case f of RFT_ERS e \<Rightarrow> Some (lseq_start e, lseq_end e) | RFT_RTP p \<Rightarrow> None)
       (concat (map r_ready outs)))
     (run_steps jb_step (the (rtpjbuf_ctor True 3)) (sample_seqs [(0, 100)] @ [Flush])) = Some [Some (0, 99), None]"
  by code_simp

end
