(* ===== verification/RS_Time.thy ===== *)
theory RS_Time
  imports RS_Prelude
begin

text \<open>
  The time arithmetic of \<^verbatim>\<open>src/rsth_timeops.h\<close>. \<open>time_t\<close> and \<open>long\<close> are \<open>int\<close>: the values are
  clock readings, far from the limits of 64 bits.
\<close>

section \<open>Time\<close>

datatype timespec = Timespec (tv_sec: int) (tv_nsec: int)

definition NSEC_IN_SEC :: int where
  "NSEC_IN_SEC = 1000000000"

definition timespecsub :: "timespec \<Rightarrow> timespec \<Rightarrow> timespec" where
  "timespecsub vvp uvp =
     (let sec = tv_sec vvp - tv_sec uvp;
          nsec = tv_nsec vvp - tv_nsec uvp
      in if nsec < 0 then Timespec (sec - 1) (nsec + NSEC_IN_SEC) else Timespec sec nsec)"

definition timespec2un64time :: "timespec \<Rightarrow> u64" where
  "timespec2un64time s = of_int (tv_sec s) * of_int NSEC_IN_SEC + of_int (tv_nsec s)"

text \<open>Times are ordered by seconds, then nanoseconds.\<close>

instantiation timespec :: linorder
begin

definition less_eq_timespec :: "timespec \<Rightarrow> timespec \<Rightarrow> bool" where
  "less_eq_timespec a b \<longleftrightarrow> tv_sec a < tv_sec b \<or> tv_sec a = tv_sec b \<and> tv_nsec a \<le> tv_nsec b"

definition less_timespec :: "timespec \<Rightarrow> timespec \<Rightarrow> bool" where
  "less_timespec a b \<longleftrightarrow> tv_sec a < tv_sec b \<or> tv_sec a = tv_sec b \<and> tv_nsec a < tv_nsec b"

instance
  by standard (auto simp: less_eq_timespec_def less_timespec_def timespec.expand)

end

text \<open>A normalised time, and the nanoseconds it stands for.\<close>

definition ts_valid :: "timespec \<Rightarrow> bool" where
  "ts_valid t \<longleftrightarrow> 0 \<le> tv_nsec t \<and> tv_nsec t < NSEC_IN_SEC"

definition ts_ns :: "timespec \<Rightarrow> int" where
  "ts_ns t = tv_sec t * NSEC_IN_SEC + tv_nsec t"

lemma ts_le_ns: "ts_valid a \<Longrightarrow> ts_valid b \<Longrightarrow> a \<le> b \<longleftrightarrow> ts_ns a \<le> ts_ns b"
  by (auto simp: less_eq_timespec_def ts_valid_def ts_ns_def NSEC_IN_SEC_def)

lemma timespecsub_ns: "ts_ns (timespecsub a b) = ts_ns a - ts_ns b"
  by (simp add: timespecsub_def ts_ns_def Let_def NSEC_IN_SEC_def)

lemma timespec2un64time_ns: "timespec2un64time t = of_int (ts_ns t)"
  by (simp add: timespec2un64time_def ts_ns_def)

end
