(* ===== verification/Rtp_Synth.thy ===== *)
theory Rtp_Synth
  imports Rtp_Parser RS_Time
begin

text \<open>
  The packet synthesizer of \<^verbatim>\<open>src/rtpsynth.c\<close>: it writes the headers of a stream of RTP packets with consecutive
  sequence numbers and regular time stamps.

  The buffer of the caller is a list of bytes. Writing outside of it, and a signed overflow,
  is the outcome \<open>None\<close>. The clock, the random numbers and the result of \<open>malloc\<close> are
  arguments. A clock that fails leaves the variable it should have set as it was.
\<close>

section \<open>Writes into the buffer of the caller\<close>

definition mem_set :: "u8 list \<Rightarrow> int \<Rightarrow> u8 \<Rightarrow> nat \<Rightarrow> u8 list option" where
  "mem_set buf off v n =
     (if 0 \<le> off \<and> nat off + n \<le> length buf
      then Some (take (nat off) buf @ replicate n v @ drop (nat off + n) buf) else None)"

definition mem_move :: "u8 list \<Rightarrow> nat \<Rightarrow> nat \<Rightarrow> nat \<Rightarrow> u8 list option" where
  "mem_move buf dst src n =
     (if src + n \<le> length buf \<and> dst + n \<le> length buf
      then Some (take dst buf @ take n (drop src buf) @ drop (dst + n) buf) else None)"

definition mem_write :: "u8 list \<Rightarrow> u8 list \<Rightarrow> u8 list option" where
  "mem_write buf bytes =
     (if length bytes \<le> length buf then Some (bytes @ drop (length bytes) buf) else None)"

section \<open>State\<close>

record rsynth_seq =
  l_ts :: u64
  l_seq :: u64

record rsynth_inst =
  srate :: int
  ptime :: int
  rs_l :: rsynth_seq
  ts_inc :: int
  rs_last_ts :: timespec
  rs_model :: rtp_hdr

text \<open>The header of all zeros that \<open>memset\<close> leaves in the instance.\<close>

definition rtp_hdr_zero :: rtp_hdr where
  "rtp_hdr_zero = \<lparr>h_version = 0, h_p = 0, h_x = 0, h_cc = 0, h_mbt = 0, h_pt = 0,
     h_seq = 0, h_ts = 0, h_ssrc = 0\<rparr>"

text \<open>Reading the clock into a variable.\<close>

definition clock_into :: "timespec option \<Rightarrow> timespec \<Rightarrow> timespec" where
  "clock_into now old = (case now of None \<Rightarrow> old | Some t \<Rightarrow> t)"

section \<open>Operations\<close>

text \<open>The source of random numbers: the one of the user, or the default one.\<close>

definition rsynth_set_randfunc ::
    "('r \<Rightarrow> u32 \<times> 'r) \<Rightarrow> ('r \<Rightarrow> u32 \<times> 'r) option \<Rightarrow> ('r \<Rightarrow> u32 \<times> 'r)" where
  "rsynth_set_randfunc default_randfunc func =
     (case func of None \<Rightarrow> default_randfunc | Some f \<Rightarrow> f)"

text \<open>The outer option is undefined behaviour, the inner one the NULL of a failed \<open>malloc\<close>.\<close>

definition rsynth_ctor ::
    "('r \<Rightarrow> u32 \<times> 'r) \<Rightarrow> 'r \<Rightarrow> bool \<Rightarrow> timespec option \<Rightarrow> int \<Rightarrow> int \<Rightarrow>
     (rsynth_inst option \<times> 'r) option" where
  "rsynth_ctor randfunc r0 malloc_ok now srt pt =
     (if \<not> malloc_ok then Some (None, r0)
      else do {
        x \<leftarrow> i32_check (80 * pt);
        let (ssrc, r1) = randfunc r0;
        let (ts, r2) = randfunc r1;
        let (sq, r3) = randfunc r2;
        Some (Some \<lparr>srate = srt, ptime = pt,
            rs_l = \<lparr>l_ts = ucast (ts AND 0xfffffffe), l_seq = ucast (sq AND 0xffff)\<rparr>,
            ts_inc = x div 10, rs_last_ts = clock_into now (Timespec 0 0),
            rs_model = rtp_hdr_zero\<lparr>h_version := 2, h_mbt := 1, h_ssrc := ssrc\<rparr>\<rparr>, r3)
      })"

text \<open>The header of the next packet, and the state after it has been written.\<close>

definition next_hdr :: "rsynth_inst \<Rightarrow> int \<Rightarrow> rtp_hdr" where
  "next_hdr rip pt = (rs_model rip)\<lparr>h_pt := of_int pt, h_seq := ntohs (ucast (l_seq (rs_l rip))),
     h_ts := ntohl (ucast (l_ts (rs_l rip)))\<rparr>"

definition advance :: "rsynth_inst \<Rightarrow> timespec option \<Rightarrow> rsynth_inst" where
  "advance rip now = rip\<lparr>rs_model := (rs_model rip)\<lparr>h_mbt := 0\<rparr>,
     rs_l := \<lparr>l_ts = l_ts (rs_l rip) + of_int (ts_inc rip), l_seq = l_seq (rs_l rip) + 1\<rparr>,
     rs_last_ts := clock_into now (rs_last_ts rip)\<rparr>"

text \<open>
  The result is the number of bytes, the buffer and the new state. \<open>blen - sizeof(struct rtp_hdr)\<close>
  and the length of \<open>memmove\<close> are computed in \<open>size_t\<close>, everything else in \<open>unsigned int\<close>.
\<close>

definition rsynth_next_pkt_pa ::
    "rsynth_inst \<Rightarrow> int \<Rightarrow> int \<Rightarrow> u8 list \<Rightarrow> u32 \<Rightarrow> int \<Rightarrow> timespec option \<Rightarrow>
     (int \<times> u8 list \<times> rsynth_inst) option" where
  "rsynth_next_pkt_pa rip plen pt buf blen filled now =
     (let hl = (of_nat (RTP_HDR_LEN (rs_model rip)) :: u32);
          rs = hl + of_int plen
      in if rs > blen then Some (-1, buf, rip)
         else do {
           buf1 \<leftarrow>
             (if filled = 0 then
                mem_set buf (int SIZEOF_RTP_HDR) 0 (unat (ucast blen - of_nat SIZEOF_RTP_HDR :: u64))
              else do {
                moved \<leftarrow> mem_move buf (unat hl) 0 (unat (of_int plen :: u64));
                mem_set moved (uint hl + plen) 0 (unat (blen - hl - of_int plen))
              });
           buf2 \<leftarrow> mem_write buf1 (store_hdr (next_hdr rip pt));
           Some (sint rs, buf2, advance rip now)
         })"

text \<open>The caller gets a new buffer of the size of the packet; its old contents are \<open>malloc\<close>'s.\<close>

definition rsynth_next_pkt ::
    "(nat \<Rightarrow> u8 list option) \<Rightarrow> rsynth_inst \<Rightarrow> int \<Rightarrow> int \<Rightarrow> timespec option \<Rightarrow>
     (u8 list option \<times> rsynth_inst) option" where
  "rsynth_next_pkt malloc rip plen pt now =
     (let rs = (of_nat (RTP_HDR_LEN (rs_model rip)) + of_int plen :: u64)
      in case malloc (unat rs) of
           None \<Rightarrow> Some (None, rip)
         | Some rnp \<Rightarrow> do {
             (n, buf, rip') \<leftarrow> rsynth_next_pkt_pa rip plen pt rnp (ucast rs) 0 now;
             Some (Some buf, rip')
           })"

definition rsynth_skip :: "rsynth_inst \<Rightarrow> int \<Rightarrow> rsynth_inst option" where
  "rsynth_skip rip npkts = do {
     d \<leftarrow> i32_check (ts_inc rip * npkts);
     Some (rip\<lparr>rs_l := (rs_l rip)\<lparr>l_ts := l_ts (rs_l rip) + of_int d\<rparr>\<rparr>)
   }"

definition rsynth_set_mbt :: "rsynth_inst \<Rightarrow> u32 \<Rightarrow> u32 \<times> rsynth_inst" where
  "rsynth_set_mbt rip new_st =
     (ucast (h_mbt (rs_model rip)), rip\<lparr>rs_model := (rs_model rip)\<lparr>h_mbt := ucast new_st\<rparr>\<rparr>)"

text \<open>The position before the synchronisation is reported. A failing clock leaves an undefined time.\<close>

definition rsynth_resync :: "rsynth_inst \<Rightarrow> timespec option \<Rightarrow> (rsynth_seq \<times> rsynth_inst) option" where
  "rsynth_resync rip now =
     (case now of
        None \<Rightarrow> None
      | Some curr_ts \<Rightarrow>
          Some (rs_l rip, rip\<lparr>rs_l := (rs_l rip)\<lparr>l_ts := l_ts (rs_l rip) +
            timespec2un64time (timespecsub curr_ts (rs_last_ts rip)) * of_int (srate rip)
              div of_int NSEC_IN_SEC\<rparr>\<rparr>))"

section \<open>Memory\<close>

lemma mem_set_in:
  "off + n \<le> length buf \<Longrightarrow> mem_set buf (int off) v n = Some (take off buf @ replicate n v @ drop (off + n) buf)"
  by (simp add: mem_set_def)

lemma mem_move_in:
  "src + n \<le> length buf \<Longrightarrow> dst + n \<le> length buf \<Longrightarrow>
     mem_move buf dst src n = Some (take dst buf @ take n (drop src buf) @ drop (dst + n) buf)"
  by (simp add: mem_move_def)

lemma mem_write_in: "length bytes \<le> length buf \<Longrightarrow> mem_write buf bytes = Some (bytes @ drop (length bytes) buf)"
  by (simp add: mem_write_def)

section \<open>What a packet looks like\<close>

text \<open>The model header is plain: version 2, no padding, no extension, no contributing sources.\<close>

definition synth_ok :: "rsynth_inst \<Rightarrow> bool" where
  "synth_ok rip \<longleftrightarrow> h_version (rs_model rip) = 2 \<and> h_p (rs_model rip) = 0 \<and> h_x (rs_model rip) = 0 \<and>
     h_cc (rs_model rip) = 0"

lemma hdr_len_ok: "synth_ok rip \<Longrightarrow> RTP_HDR_LEN (rs_model rip) = 12"
  by (simp add: synth_ok_def RTP_HDR_LEN_def)

lemma unat_of_int_u32: "0 \<le> z \<Longrightarrow> z < 4294967296 \<Longrightarrow> unat (of_int z :: u32) = nat z"
  by (simp add: unat_eq_nat_uint uint_word_of_int_eq take_bit_int_eq_self)

lemma unat_of_int_u64: "0 \<le> z \<Longrightarrow> z < 18446744073709551616 \<Longrightarrow> unat (of_int z :: u64) = nat z"
  by (simp add: unat_eq_nat_uint uint_word_of_int_eq take_bit_int_eq_self)

lemma next_pkt_size:
  assumes "0 \<le> plen" "plen \<le> 2147483647"
  shows "unat (12 + of_int plen :: u32) = 12 + nat plen"
  using assms unat_of_int_u32 [of plen] by (simp add: unat_word_ariths nat_less_iff)

lemma next_pkt_fits:
  assumes "synth_ok rip" "unat blen = length buf" "0 \<le> plen" "12 + nat plen \<le> length buf"
    and "length buf \<le> 2147483647"
  shows "rsynth_next_pkt_pa rip plen pt buf blen filled now =
    Some (12 + plen,
      store_hdr (next_hdr rip pt) @
        (if filled = 0 then replicate (length buf - 12) 0
         else take (nat plen) buf @ replicate (length buf - 12 - nat plen) 0),
      advance rip now)"
proof -
  let ?rs = "12 + of_int plen :: u32"
  have plen: "plen \<le> 2147483647" using assms(3-5) by linarith
  have rs: "unat ?rs = 12 + nat plen" using next_pkt_size [OF assms(3) plen] .
  have guard: "\<not> ?rs > blen" using rs assms(2,4) by (simp add: word_less_nat_alt)
  have sint: "sint ?rs = 12 + plen"
  proof -
    have "uint ?rs = int (unat ?rs)" by (simp only: of_nat_unat)
    then have "uint ?rs = 12 + plen" unfolding rs using assms(3) by simp
    moreover have "12 + plen < 2147483648" using assms(3-5) by linarith
    ultimately show ?thesis using assms(3) by (simp add: sint_uint signed_take_bit_int_eq_self)
  qed
  have wr: "(do { buf1 \<leftarrow> Some b; buf2 \<leftarrow> mem_write buf1 (store_hdr (next_hdr rip pt));
      Some (sint ?rs, buf2, advance rip now) }) =
      Some (12 + plen, store_hdr (next_hdr rip pt) @ drop 12 b, advance rip now)" if "12 \<le> length b" for b
    using that by (simp add: mem_write_in sint)
  show ?thesis
  proof (cases "filled = 0")
    case True
    have blen: "unat (ucast blen :: u64) = length buf"
      using assms(2,5) by (simp add: unsigned_ucast_eq take_bit_nat_eq_self)
    then have "unat (ucast blen - 12 :: u64) = length buf - 12"
      using assms(4) by (simp add: unat_sub word_le_nat_alt)
    then have "mem_set buf (int SIZEOF_RTP_HDR) 0 (unat (ucast blen - of_nat SIZEOF_RTP_HDR :: u64)) =
        Some (take 12 buf @ replicate (length buf - 12) 0)"
      using assms(4) mem_set_in [of 12 "length buf - 12" buf 0] by simp
    then show ?thesis
      using True guard wr [of "take 12 buf @ replicate (length buf - 12) 0"] assms(4)
      unfolding rsynth_next_pkt_pa_def hdr_len_ok [OF assms(1)] Let_def by simp
  next
    case False
    have n: "unat (of_int plen :: u64) = nat plen" using assms(3) plen by (simp add: unat_of_int_u64)
    let ?moved = "take 12 buf @ take (nat plen) buf @ drop (12 + nat plen) buf"
    have move: "mem_move buf 12 0 (nat plen) = Some ?moved"
      using assms(4) mem_move_in [of 0 "nat plen" buf 12] by simp
    have "blen - 12 - of_int plen = blen - ?rs" by simp
    moreover have "unat (blen - ?rs) = length buf - 12 - nat plen"
      unfolding unat_sub [OF guard [unfolded not_less]] rs assms(2) by simp
    ultimately have k: "unat (blen - 12 - of_int plen :: u32) = length buf - 12 - nat plen" by metis
    have "mem_set ?moved (int (12 + nat plen)) 0 (length buf - 12 - nat plen) =
        Some (take 12 buf @ take (nat plen) buf @ replicate (length buf - 12 - nat plen) 0)"
      using assms(4) by (subst mem_set_in) simp_all
    moreover have "int (12 + nat plen) = 12 + plen" using assms(3) by simp
    ultimately have set: "mem_set ?moved (12 + plen) 0 (length buf - 12 - nat plen) =
        Some (take 12 buf @ take (nat plen) buf @ replicate (length buf - 12 - nat plen) 0)" by simp
    show ?thesis
      using False guard wr [of "take 12 buf @ take (nat plen) buf @ replicate (length buf - 12 - nat plen) 0"] assms(4)
      unfolding rsynth_next_pkt_pa_def hdr_len_ok [OF assms(1)] Let_def
      using set by (simp add: n move k)
  qed
qed

lemma next_pkt_too_small:
  assumes "synth_ok rip" "0 \<le> plen" "plen \<le> 2147483647" "unat blen < 12 + nat plen"
  shows "rsynth_next_pkt_pa rip plen pt buf blen filled now = Some (-1, buf, rip)"
  using assms next_pkt_size [OF assms(2,3)]
  by (simp add: rsynth_next_pkt_pa_def hdr_len_ok word_less_nat_alt)

lemma synth_ok_advance: "synth_ok rip \<Longrightarrow> synth_ok (advance rip now)"
  by (simp add: synth_ok_def advance_def)

lemma ctor_ok: "rsynth_ctor randfunc r0 malloc_ok now srt pt = Some (Some rip, r') \<Longrightarrow>
    synth_ok rip \<and> ts_inc rip = 8 * pt \<and> h_mbt (rs_model rip) = 1"
  by (auto simp: rsynth_ctor_def rtp_hdr_zero_def synth_ok_def bind_eq_Some_conv
      split: if_splits prod.splits)

text \<open>The report of the parser for a packet of the stream.\<close>

definition synth_info :: "rsynth_inst \<Rightarrow> int \<Rightarrow> u8 list \<Rightarrow> rtp_info" where
  "synth_info rip pt payload = layout_info rtp_info_zero (next_hdr rip pt) [] [] payload"

lemma synth_layout:
  "synth_ok rip \<Longrightarrow> rtp_layout (store_hdr (next_hdr rip pt) @ payload) (next_hdr rip pt) [] [] payload []"
  by (simp add: synth_ok_def rtp_layout_def next_hdr_def ext_layout_def pad_layout_def)

lemma synth_info_fields:
  "ri_seq (synth_info rip pt payload) = ucast (l_seq (rs_l rip))"
  "ri_ts (synth_info rip pt payload) = ucast (l_ts (rs_l rip))"
  "ri_ssrc (synth_info rip pt payload) = ntohl (h_ssrc (rs_model rip))"
  "data_offset (synth_info rip pt payload) = 12" "data_size (synth_info rip pt payload) = length payload"
  by (simp_all add: synth_info_def layout_info_def next_hdr_def)

lemma synth_parses:
  assumes "synth_ok rip" "length payload \<le> 33554420"
  shows "rtp_packet_parse_raw (store_hdr (next_hdr rip pt) @ payload) rtp_info_zero =
    Some (RTP_PARSER_OK, synth_info rip pt payload)"
  unfolding synth_info_def using assms(2) by (intro parse_layout [OF synth_layout [OF assms(1)]]) simp

section \<open>Streams\<close>

text \<open>
  The packets the synthesizer writes for a list of payloads, each into a buffer that holds
  the payload followed by room for the header (\<open>filled\<close>), with the clock readings.
\<close>

type_synonym synth_input = "int \<times> u8 list \<times> timespec option"

fun synth_step :: "rsynth_inst \<Rightarrow> synth_input \<Rightarrow> (u8 list \<times> rsynth_inst) option" where
  "synth_step rip (pt, payload, now) = do {
     (n, buf, rip') \<leftarrow> rsynth_next_pkt_pa rip (int (length payload)) pt (payload @ replicate 12 0)
        (of_nat (length payload + 12)) 1 now;
     Some (buf, rip')
   }"

fun synth_adm :: "rsynth_inst \<Rightarrow> synth_input \<Rightarrow> bool" where
  "synth_adm rip (pt, payload, now) \<longleftrightarrow> length payload \<le> 33554420"

lemma synth_step_eq:
  assumes "synth_ok rip" "length payload \<le> 33554420"
  shows "synth_step rip (pt, payload, now) =
    Some (store_hdr (next_hdr rip pt) @ payload, advance rip now)"
proof -
  let ?b = "payload @ replicate 12 0"
  have "unat (of_nat (length payload + 12) :: u32) = length ?b"
    using assms(2) by (simp only: unsigned_of_nat) (simp add: take_bit_nat_eq_self)
  from next_pkt_fits [OF assms(1) this, of "int (length payload)" pt 1 now] assms(2)
  show ?thesis by simp
qed

interpretation synth: invariant_machine synth_step synth_adm synth_ok
proof
  fix s i assume "synth_ok s" "synth_adm s i"
  then show "synth_step s i \<noteq> None" by (cases i) (simp add: synth_step_eq del: synth_step.simps)
next
  fix s i out s' assume "synth_ok s" "synth_adm s i" "synth_step s i = Some (out, s')"
  then show "synth_ok s'" by (cases i) (auto simp: synth_step_eq synth_ok_advance simp del: synth_step.simps)
qed

text \<open>The \<open>n\<close>-th header of a stream: consecutive numbers, regular time stamps, one marker.\<close>

definition stream_hdr :: "rsynth_inst \<Rightarrow> nat \<Rightarrow> int \<Rightarrow> rtp_hdr" where
  "stream_hdr rip n pt = (rs_model rip)\<lparr>h_mbt := (if n = 0 then h_mbt (rs_model rip) else 0), h_pt := of_int pt,
     h_seq := ntohs (ucast (l_seq (rs_l rip)) + of_nat n),
     h_ts := ntohl (ucast (l_ts (rs_l rip)) + of_nat n * of_int (ts_inc rip))\<rparr>"

fun stream_pkts :: "rsynth_inst \<Rightarrow> nat \<Rightarrow> synth_input list \<Rightarrow> u8 list list" where
  "stream_pkts rip n [] = []"
| "stream_pkts rip n ((pt, payload, now) # ins) =
     (store_hdr (stream_hdr rip n pt) @ payload) # stream_pkts rip (n + 1) ins"

lemma ucast_down_of_int: "(ucast (of_int z :: u64) :: u32) = of_int z" "(ucast (of_int z :: u64) :: u16) = of_int z"
  by (simp_all add: ucast_eq uint_word_of_int word_of_int_eq_iff take_bit_eq_mod mod_mod_cancel)

lemma ucast_down_add:
  "(ucast (a + b :: u64) :: u16) = ucast a + ucast b" "(ucast (a + b :: u64) :: u32) = ucast a + ucast b"
proof -
  have a: "a = of_int (uint a)" and b: "b = of_int (uint b)" by simp_all
  have "a + b = of_int (uint a + uint b)" by simp
  then show "(ucast (a + b :: u64) :: u16) = ucast a + ucast b" "(ucast (a + b :: u64) :: u32) = ucast a + ucast b"
    using ucast_down_of_int [of "uint a + uint b"] ucast_down_of_int [of "uint a"] ucast_down_of_int [of "uint b"]
    by (simp_all only: of_int_add a [symmetric] b [symmetric])
qed

lemma stream_hdr_0: "stream_hdr rip 0 pt = next_hdr rip pt"
  by (simp add: stream_hdr_def next_hdr_def)

lemma stream_hdr_advance: "stream_hdr (advance rip now) n pt = stream_hdr rip (n + 1) pt"
  by (simp add: stream_hdr_def advance_def ucast_down_add ucast_down_of_int algebra_simps)

lemma stream_pkts_advance: "stream_pkts (advance rip now) n ins = stream_pkts rip (n + 1) ins"
  by (induction rip "n + 1" ins arbitrary: n rule: stream_pkts.induct) (simp_all add: stream_hdr_advance)

lemma synth_stream_ok:
  "synth_ok rip \<Longrightarrow> \<forall>(pt, payload, now) \<in> set ins. length payload \<le> 33554420 \<Longrightarrow>
     \<exists>rip'. run_steps synth_step rip ins = Some (stream_pkts rip 0 ins, rip') \<and> synth_ok rip' \<and>
       l_seq (rs_l rip') = l_seq (rs_l rip) + of_nat (length ins)"
proof (induction ins arbitrary: rip)
  case Nil
  then show ?case by simp
next
  case (Cons i ins)
  obtain pt payload now where i: "i = (pt, payload, now)" by (cases i)
  have step: "synth_step rip i = Some (store_hdr (next_hdr rip pt) @ payload, advance rip now)"
    using Cons.prems by (simp only: i) (rule synth_step_eq, auto)
  obtain rip' where "run_steps synth_step (advance rip now) ins =
      Some (stream_pkts (advance rip now) 0 ins, rip')" "synth_ok rip'"
      "l_seq (rs_l rip') = l_seq (rs_l (advance rip now)) + of_nat (length ins)"
    using Cons.IH [of "advance rip now"] Cons.prems by (auto simp: synth_ok_advance)
  then show ?case using step
    by (simp add: i stream_pkts_advance stream_hdr_0 del: synth_step.simps) (simp add: advance_def)
qed

text \<open>A concrete instance, for the examples that accompany the properties.\<close>

definition sample_ctor_result :: "(rsynth_inst option \<times> nat) option" where
  "sample_ctor_result = rsynth_ctor (\<lambda>r. (0xffffffff, r + 1)) (0 :: nat) True (Some (Timespec 7 0)) 8000 20"

definition sample_synth :: rsynth_inst where
  "sample_synth = the (fst (the sample_ctor_result))"

lemma sample_synth_ctor:
  "rsynth_ctor (\<lambda>r. (0xffffffff, r + 1)) (0 :: nat) True (Some (Timespec 7 0)) 8000 20 =
     Some (Some sample_synth, 3)"
  by (simp add: sample_synth_def sample_ctor_result_def rsynth_ctor_def i32_range_def Let_def)

section \<open>Properties\<close>

text \<open>
  C10. What the synthesizer writes, the parser reads back: for the first packet after the constructor, whatever the random start values, and a payload
  that the caller has put at the start of a buffer with room for the header (at most 2^25 bytes in all), the packet is accepted, its sequence number,
  time stamp and source are those of the synthesizer, and the payload is found unchanged behind the header; the rest of the buffer is cleared.
\<close>

theorem synth_parse_roundtrip:
  assumes "rsynth_ctor randfunc r0 True now0 srt ptm = Some (Some rip, r')"
    and "length payload + 12 + room \<le> 33554432" and "length rest = 12 + room"
  shows "\<exists>buf' info. rsynth_next_pkt_pa rip (int (length payload)) pt (payload @ rest)
        (of_nat (length (payload @ rest))) 1 now = Some (int (length payload) + 12, buf', advance rip now) \<and>
      drop (length payload + 12) buf' = replicate room 0 \<and>
      rtp_packet_parse_raw (take (length payload + 12) buf') rtp_info_zero = Some (RTP_PARSER_OK, info) \<and>
      ri_seq info = ucast (l_seq (rs_l rip)) \<and> ri_ts info = ucast (l_ts (rs_l rip)) \<and>
      ri_ssrc info = ntohl (h_ssrc (rs_model rip)) \<and>
      take (data_size info) (drop (data_offset info) buf') = payload"
proof -
  have ok: "synth_ok rip" using ctor_ok [OF assms(1)] by simp
  let ?buf = "payload @ rest"
  have "unat (of_nat (length ?buf) :: u32) = length ?buf"
    using assms(2,3) by (simp only: unsigned_of_nat) (simp add: take_bit_nat_eq_self)
  from next_pkt_fits [OF ok this, of "int (length payload)" pt 1 now] assms(2,3)
  have "rsynth_next_pkt_pa rip (int (length payload)) pt ?buf (of_nat (length ?buf)) 1 now =
      Some (int (length payload) + 12, store_hdr (next_hdr rip pt) @ payload @ replicate room 0, advance rip now)"
    by (simp add: add.commute)
  moreover have "rtp_packet_parse_raw (store_hdr (next_hdr rip pt) @ payload) rtp_info_zero =
      Some (RTP_PARSER_OK, synth_info rip pt payload)"
    using assms(2) by (intro synth_parses ok) simp
  ultimately show ?thesis by (simp add: synth_info_fields)
qed

theorem synth_parse_roundtrip_witness:
  "\<exists>buf' info. rsynth_next_pkt_pa sample_synth 3 8 ([1, 2, 3] @ replicate 14 9) 17 1 None =
      Some (15, buf', advance sample_synth None) \<and>
    rtp_packet_parse_raw (take 15 buf') rtp_info_zero = Some (RTP_PARSER_OK, info) \<and>
    take (data_size info) (drop (data_offset info) buf') = [1, 2, 3]"
proof -
  have "length [1, 2, 3 :: u8] + 12 + 2 \<le> 33554432" "length (replicate 14 (9 :: u8)) = 12 + 2" by simp_all
  from synth_parse_roundtrip [OF sample_synth_ctor this, of 8 None] show ?thesis by auto
qed


text \<open>
  C33. The packets of a stream that starts at the constructor carry consecutive 16-bit sequence numbers, wrapping around, time stamps that advance by
  the same increment, and the marker only on the first packet; payloads have at most 33554420 bytes.
\<close>

theorem synth_stream:
  assumes "rsynth_ctor randfunc r0 True now0 srt ptm = Some (Some rip, r')"
    and "\<forall>(pt, payload, now) \<in> set ins. length payload \<le> 33554420"
  shows "\<exists>rip'. run_steps synth_step rip ins = Some (stream_pkts rip 0 ins, rip')"
  using synth_stream_ok [OF _ assms(2), of rip] ctor_ok [OF assms(1)] by blast

theorem synth_stream_witness:
  "\<exists>rip'. run_steps synth_step sample_synth [(0, [1], None), (0, [2, 3], None)] =
     Some (stream_pkts sample_synth 0 [(0, [1], None), (0, [2, 3], None)], rip')"
  by (rule synth_stream [OF sample_synth_ctor]) simp


text \<open>
  A buffer that is too small for the packet is rejected with -1, and neither the buffer nor the
  state of the stream is touched; any other call with a payload of a valid length
  stays inside of the buffer.
\<close>

lemma synth_next_pkt_safe:
  assumes "rsynth_ctor randfunc r0 True now0 srt ptm = Some (Some rip, r')"
    and "0 \<le> plen" and "length buf \<le> 2147483647" and "plen \<le> 2147483647"
  shows "rsynth_next_pkt_pa rip plen pt buf (of_nat (length buf)) filled now =
      Some (-1, buf, rip) \<and> length buf < 12 + nat plen \<or>
    (\<exists>buf'. rsynth_next_pkt_pa rip plen pt buf (of_nat (length buf)) filled now =
      Some (12 + plen, buf', advance rip now) \<and> length buf' = length buf)"
proof -
  have ok: "synth_ok rip" using ctor_ok [OF assms(1)] by simp
  have blen: "unat (of_nat (length buf) :: u32) = length buf"
    using assms(3) by (simp add: unsigned_of_nat take_bit_nat_eq_self)
  show ?thesis
  proof (cases "12 + nat plen \<le> length buf")
    case True
    then show ?thesis using next_pkt_fits [OF ok blen assms(2) True assms(3)] by auto
  next
    case False
    then show ?thesis using next_pkt_too_small [OF ok assms(2,4)] blen by auto
  qed
qed

lemma synth_next_pkt_safe_example:
  "\<exists>buf'. rsynth_next_pkt_pa sample_synth 2 0 (replicate 14 7) 14 1 None =
     Some (14, buf', advance sample_synth None) \<and> length buf' = 14"
  using synth_next_pkt_safe [OF sample_synth_ctor, of 2 "replicate 14 7" 0 1 None] by simp


text \<open>
  After a pause the time stamp advances by the number of samples that fit into the time since the
  last packet, rounded down, and the position before the pause is reported.
\<close>

lemma synth_resync_exact:
  assumes "ts_valid (rs_last_ts rip)" and "ts_valid now" and "rs_last_ts rip \<le> now"
    and "0 \<le> srate rip" and "(ts_ns now - ts_ns (rs_last_ts rip)) * srate rip < 2 ^ 64"
  shows "\<exists>rip'. rsynth_resync rip (Some now) = Some (rs_l rip, rip') \<and>
    l_ts (rs_l rip') = l_ts (rs_l rip) +
      of_int ((ts_ns now - ts_ns (rs_last_ts rip)) * srate rip div 1000000000) \<and>
    l_seq (rs_l rip') = l_seq (rs_l rip)"
proof -
  let ?d = "ts_ns now - ts_ns (rs_last_ts rip)"
  have "0 \<le> ?d * srate rip"
    using assms(1-4) by (intro mult_nonneg_nonneg) (simp_all add: ts_le_ns)
  then have "uint (of_int (?d * srate rip) :: u64) = ?d * srate rip"
    using assms(5) by (simp add: uint_word_of_int_eq take_bit_int_eq_self del: of_int_mult)
  then have "of_int (?d * srate rip) div (1000000000 :: u64) = of_int (?d * srate rip div 1000000000)"
    by (simp add: word_div_def del: of_int_mult)
  then show ?thesis
    by (simp add: rsynth_resync_def timespec2un64time_ns timespecsub_ns NSEC_IN_SEC_def)
qed

lemma synth_resync_exact_example:
  "\<exists>rip'. rsynth_resync sample_synth (Some (Timespec 9 500000000)) = Some (rs_l sample_synth, rip') \<and>
     l_ts (rs_l rip') = l_ts (rs_l sample_synth) + 20000"
proof -
  have st: "rs_last_ts sample_synth = Timespec 7 0" "srate sample_synth = 8000"
    by (simp_all add: sample_synth_def sample_ctor_result_def rsynth_ctor_def clock_into_def i32_range_def Let_def)
  have "\<exists>rip'. rsynth_resync sample_synth (Some (Timespec 9 500000000)) = Some (rs_l sample_synth, rip') \<and>
     l_ts (rs_l rip') = l_ts (rs_l sample_synth) +
       of_int ((ts_ns (Timespec 9 500000000) - ts_ns (rs_last_ts sample_synth)) * srate sample_synth div 1000000000) \<and>
     l_seq (rs_l rip') = l_seq (rs_l sample_synth)"
    by (rule synth_resync_exact)
      (simp_all add: st ts_valid_def less_eq_timespec_def ts_ns_def NSEC_IN_SEC_def)
  then show ?thesis by (auto simp: st ts_ns_def NSEC_IN_SEC_def)
qed


text \<open>
  Skipping packets leaves a gap in the time stamps but not in the sequence numbers: the next
  packet has the time stamp of the packet that would have come after the skipped ones.
\<close>

lemma synth_skip_gap:
  assumes "rsynth_skip rip (int n) = Some rip'"
  shows "h_ts (next_hdr rip' pt) = h_ts (stream_hdr rip n pt) \<and>
    h_seq (next_hdr rip' pt) = h_seq (next_hdr rip pt)"
proof -
  from assms have rip': "rip' = rip\<lparr>rs_l := (rs_l rip)\<lparr>l_ts := l_ts (rs_l rip) + of_int (ts_inc rip * int n)\<rparr>\<rparr>"
    by (auto simp: rsynth_skip_def bind_eq_Some_conv)
  have "(of_int (ts_inc rip * int n) :: u32) = of_nat n * of_int (ts_inc rip)" by simp
  then show ?thesis
    by (simp add: rip' next_hdr_def stream_hdr_def ucast_down_add ucast_down_of_int del: of_int_mult)
qed

lemma synth_skip_gap_example:
  "\<exists>rip'. rsynth_skip sample_synth (int 3) = Some rip' \<and>
     h_ts (next_hdr rip' 0) = h_ts (stream_hdr sample_synth 3 0)"
proof -
  have "ts_inc sample_synth = 160" using ctor_ok [OF sample_synth_ctor] by simp
  then obtain rip' where r: "rsynth_skip sample_synth (int 3) = Some rip'"
    by (simp add: rsynth_skip_def i32_range_def)
  from synth_skip_gap [OF r] r show ?thesis by blast
qed

text \<open>
  A packet in a buffer of its own is the header followed by \<open>plen\<close> zero bytes, whatever
  \<open>malloc\<close> returned; without memory nothing changes.
\<close>

lemma synth_next_pkt_alloc:
  assumes "rsynth_ctor randfunc r0 True now0 srt ptm = Some (Some rip, r')"
    and "\<And>n b. malloc n = Some b \<Longrightarrow> length b = n" and "0 \<le> plen" and "plen \<le> 2147483635"
  shows "rsynth_next_pkt malloc rip plen pt now =
    (if malloc (12 + nat plen) = None then Some (None, rip)
     else Some (Some (store_hdr (next_hdr rip pt) @ replicate (nat plen) 0), advance rip now))"
proof -
  have ok: "synth_ok rip" using ctor_ok [OF assms(1)] by simp
  have rs: "unat (12 + of_int plen :: u64) = 12 + nat plen"
    using assms(3,4) by (simp add: unat_word_ariths unat_of_int_u64)
  have rs32: "(ucast (12 + of_int plen :: u64) :: u32) = 12 + of_int plen"
    using ucast_down_of_int(1) [of "12 + plen"] by simp
  show ?thesis
  proof (cases "malloc (12 + nat plen)")
    case None
    then show ?thesis by (simp add: rsynth_next_pkt_def hdr_len_ok [OF ok] rs)
  next
    case (Some b)
    with assms(2) have len: "length b = 12 + nat plen" by blast
    have "unat (12 + of_int plen :: u32) = length b"
      using next_pkt_size [OF assms(3)] assms(4) len by simp
    from next_pkt_fits [OF ok this assms(3), of pt 0 now] len assms(4) Some
    show ?thesis by (simp add: rsynth_next_pkt_def hdr_len_ok [OF ok] rs rs32)
  qed
qed

lemma synth_next_pkt_alloc_example:
  "rsynth_next_pkt (\<lambda>n. Some (replicate n 0xAA)) sample_synth 2 0 None =
     Some (Some (store_hdr (next_hdr sample_synth 0) @ [0, 0]), advance sample_synth None)"
proof -
  have two: "replicate 2 (0 :: u8) = [0, 0]" by (simp add: eval_nat_numeral)
  show ?thesis
    using synth_next_pkt_alloc [OF sample_synth_ctor, of "\<lambda>n. Some (replicate n 0xAA)" 2 0 None]
    by (simp add: two)
qed


text \<open>
  A negative payload length is not rejected: for -1 and a buffer of 11 bytes the size check
  passes, and the length of the clearing \<open>memset\<close> or of the \<open>memmove\<close> wraps around,
  so memory outside of the buffer is written.
\<close>

lemma synth_negative_plen:
  assumes "rsynth_ctor randfunc r0 True now0 srt ptm = Some (Some rip, r')" and "length buf = 11"
  shows "rsynth_next_pkt_pa rip (-1) pt buf 11 filled now = None"
proof -
  have ok: "synth_ok rip" using ctor_ok [OF assms(1)] by simp
  show ?thesis using assms(2)
    by (simp add: rsynth_next_pkt_pa_def hdr_len_ok [OF ok] mem_set_def mem_move_def
        unsigned_minus_1_eq_mask mask_eq_exp_minus_1)
qed

lemma synth_negative_plen_example:
  "rsynth_next_pkt_pa sample_synth (-1) 0 (replicate 11 0) 11 0 None = None"
  by (rule synth_negative_plen [OF sample_synth_ctor]) simp


text \<open>
  The increment of a packet does not depend on the sampling rate, but the synchronisation does:
  at 16000 samples per second and 20 ms per packet a packet advances the time stamp by 160
  while a pause of 20 ms advances it by 320.
\<close>

lemma synth_rate_mismatch:
  "\<exists>rip r'. rsynth_ctor (\<lambda>r. (5, r + 1)) (0 :: nat) True (Some (Timespec 7 0)) 16000 20 = Some (Some rip, r') \<and>
     l_ts (rs_l (advance rip None)) = l_ts (rs_l rip) + 160 \<and>
     map_option (\<lambda>(old, rip'). l_ts (rs_l rip')) (rsynth_resync rip (Some (Timespec 7 20000000))) =
       Some (l_ts (rs_l rip) + 320)"
  by (simp add: rsynth_ctor_def clock_into_def rsynth_resync_def timespec2un64time_def timespecsub_def
      advance_def NSEC_IN_SEC_def i32_range_def Let_def)

text \<open>
  The synchronisation does not remember that it has been done: a second one at the same time
  advances the time stamp once more by the whole pause.
\<close>

lemma synth_resync_twice:
  assumes "rsynth_resync rip (Some now) = Some (old, rip1)" and "rsynth_resync rip1 (Some now) = Some (old1, rip2)"
  shows "l_ts (rs_l rip2) - l_ts (rs_l rip1) = l_ts (rs_l rip1) - l_ts (rs_l rip)"
  using assms by (auto simp: rsynth_resync_def)

lemma synth_resync_twice_example:
  "\<exists>old rip1 old1 rip2. rsynth_resync sample_synth (Some (Timespec 8 0)) = Some (old, rip1) \<and>
     rsynth_resync rip1 (Some (Timespec 8 0)) = Some (old1, rip2) \<and>
     l_ts (rs_l rip2) - l_ts (rs_l rip1) = l_ts (rs_l rip1) - l_ts (rs_l sample_synth)"
proof -
  obtain old rip1 where a: "rsynth_resync sample_synth (Some (Timespec 8 0)) = Some (old, rip1)"
    by (simp add: rsynth_resync_def)
  obtain old1 rip2 where b: "rsynth_resync rip1 (Some (Timespec 8 0)) = Some (old1, rip2)"
    by (simp add: rsynth_resync_def)
  from synth_resync_twice [OF a b] a b show ?thesis by blast
qed


end
