(* ===== verification/SPMC_Queue.thy ===== *)
theory SPMC_Queue
  imports RS_Prelude
begin

text \<open>
  The bounded queue with one producer and many consumers of \<^verbatim>\<open>src/SPMCQueue.c\<close>.

  First the three operations as one thread sees them that nobody interferes with: the loops of
  the consumers repeat as often as the weak compare-and-exchange fails for no reason, which is
  an argument. Then the same code, cut at every access to a shared variable, as a step
  relation of one producer and any number of consumers, with sequentially consistent memory.
  \<open>None\<close> is a failing assertion or an access outside of the slots.
\<close>

section \<open>State and operations\<close>

record 'v SPMCQueue =
  capacity :: u64
  q_mask :: u64
  writeIdx :: u64
  readIdxCache :: u64
  readIdx :: u64
  writeIdxCache :: u64
  slots :: "'v list"

definition SIZEOF_SPMCQUEUE :: nat where
  "SIZEOF_SPMCQUEUE = 320"

definition round_up_size :: "u64 \<Rightarrow> u64 \<Rightarrow> u64" where
  "round_up_size sz alignment = (sz + alignment - 1) AND NOT (alignment - 1)"

text \<open>\<open>alloc\<close> gives a block of that many bytes, seen as the slots that fit behind the structure.\<close>

definition create_queue :: "(nat \<Rightarrow> 'v list option) \<Rightarrow> u64 \<Rightarrow> 'v SPMCQueue option" where
  "create_queue alloc cap =
     (if cap = 0 then None
      else if cap AND (cap - 1) \<noteq> 0 then None
      else if cap > (- 1 - of_nat SIZEOF_SPMCQUEUE) div 8 then None
      else case alloc (unat (round_up_size (of_nat SIZEOF_SPMCQUEUE + 8 * cap) 64)) of
             None \<Rightarrow> None
           | Some mem \<Rightarrow> Some \<lparr>capacity = cap, q_mask = cap - 1, writeIdx = 0, readIdxCache = 0,
               readIdx = 0, writeIdxCache = 0, slots = mem\<rparr>)"

definition slot_write :: "'v SPMCQueue \<Rightarrow> u64 \<Rightarrow> 'v \<Rightarrow> 'v SPMCQueue option" where
  "slot_write q i v =
     (if unat (i AND q_mask q) < length (slots q)
      then Some (q\<lparr>slots := (slots q)[unat (i AND q_mask q) := v]\<rparr>) else None)"

definition slot_read :: "'v SPMCQueue \<Rightarrow> u64 \<Rightarrow> 'v option" where
  "slot_read q i = rd (slots q) (unat (i AND q_mask q))"

definition try_push :: "'v SPMCQueue \<Rightarrow> 'v \<Rightarrow> (bool \<times> 'v SPMCQueue) option" where
  "try_push q v =
     (let w = writeIdx q; next = w + 1 in
      if next - readIdxCache q \<le> capacity q then do {
        q1 \<leftarrow> slot_write q w v;
        Some (True, q1\<lparr>writeIdx := next\<rparr>)
      }
      else
        (let q0 = q\<lparr>readIdxCache := readIdx q\<rparr> in
         if next - readIdxCache q0 \<le> capacity q0 then do {
           q1 \<leftarrow> slot_write q0 w v;
           Some (True, q1\<lparr>writeIdx := next\<rparr>)
         }
         else Some (False, q0)))"

text \<open>
  The start of a consumer's loop: \<open>Inl\<close> when the queue is empty, otherwise the write index
  that was seen.
\<close>

definition pop_window :: "'v SPMCQueue \<Rightarrow> (unit + u64 \<times> u64) option \<times> 'v SPMCQueue" where
  "pop_window q =
     (let r = readIdx q in
      if r \<ge> writeIdxCache q then
        (let w = writeIdx q; q0 = q\<lparr>writeIdxCache := w\<rparr> in
         if r = w then (Some (Inl ()), q0)
         else if \<not> r < w then (None, q0)
         else (Some (Inr (r, w)), q0))
      else (Some (Inr (r, writeIdxCache q)), q))"

fun try_pop :: "nat \<Rightarrow> 'v SPMCQueue \<Rightarrow> ('v option \<times> 'v SPMCQueue) option" where
  "try_pop spurious q =
     (case pop_window q of
        (None, q0) \<Rightarrow> None
      | (Some (Inl u), q0) \<Rightarrow> Some (None, q0)
      | (Some (Inr (r, w)), q0) \<Rightarrow> do {
          rval \<leftarrow> slot_read q0 r;
          (case spurious of
             0 \<Rightarrow> Some (Some rval, q0\<lparr>readIdx := r + 1\<rparr>)
           | Suc k \<Rightarrow> try_pop k q0)
        })"

text \<open>Copy \<open>n\<close> slots, starting at an index, into the array of the caller.\<close>

fun copy_slots :: "'v SPMCQueue \<Rightarrow> u64 \<Rightarrow> nat \<Rightarrow> 'v list option" where
  "copy_slots q i 0 = Some []"
| "copy_slots q i (Suc n) = do {
     v \<leftarrow> slot_read q i;
     vs \<leftarrow> copy_slots q (i + 1) n;
     Some (v # vs)
   }"

definition pop_end :: "u64 \<Rightarrow> u64 \<Rightarrow> u64 \<Rightarrow> u64" where
  "pop_end r w howmany = (if r + howmany > w then w else r + howmany)"

text \<open>The result is the number that is returned, the values that were copied, and the queue.\<close>

fun try_pop_many :: "nat \<Rightarrow> 'v SPMCQueue \<Rightarrow> u64 \<Rightarrow> (u64 \<times> 'v list \<times> 'v SPMCQueue) option" where
  "try_pop_many spurious q howmany =
     (case pop_window q of
        (None, q0) \<Rightarrow> None
      | (Some (Inl u), q0) \<Rightarrow> Some (0, [], q0)
      | (Some (Inr (r, w)), q0) \<Rightarrow> do {
          let newReadIdx = pop_end r w howmany;
          vals \<leftarrow> copy_slots q0 r (unat newReadIdx - unat r);
          (case spurious of
             0 \<Rightarrow> Some (newReadIdx - r, vals, q0\<lparr>readIdx := newReadIdx\<rparr>)
           | Suc k \<Rightarrow> try_pop_many k q0 howmany)
        })"

declare try_pop.simps [simp del] try_pop_many.simps [simp del]

section \<open>Indices\<close>

lemma pow2_nat: "(n :: nat) AND (n - 1) = 0 \<Longrightarrow> 0 < n \<Longrightarrow> \<exists>k. n = 2 ^ k"
proof (induction n rule: less_induct)
  case (less n)
  show ?case
  proof (cases "even n")
    case True
    then obtain m where m: "n = 2 * m" by (auto elim: evenE)
    with less.prems have "0 < m" by simp
    moreover from m \<open>0 < m\<close> have "n AND (n - 1) = 2 * (m AND (m - 1))"
      by (subst and_rec) (cases m, simp_all)
    ultimately obtain k where "m = 2 ^ k" using less.IH [of m] less.prems m by auto
    then have "n = 2 ^ Suc k" using m by simp
    then show ?thesis ..
  next
    case False
    then obtain m where m: "n = 2 * m + 1" by (auto elim: oddE)
    then have "n AND (n - 1) = 2 * m" by (subst and_rec) auto
    with less.prems m have "n = 2 ^ 0" by simp
    then show ?thesis ..
  qed
qed

lemma unat_pow2: "k < 64 \<Longrightarrow> unat (2 ^ k :: u64) = 2 ^ k"
proof -
  assume "k < 64"
  then have "(2 :: nat) ^ k < 2 ^ 64" by (rule power_strict_increasing) simp
  moreover have "unat (of_nat (2 ^ k) :: u64) = take_bit 64 (2 ^ k)" by (simp only: unsigned_of_nat) simp
  ultimately show ?thesis by (simp add: take_bit_nat_eq_self \<open>k < 64\<close>)
qed

lemma pow2_word:
  assumes "(c :: u64) AND (c - 1) = 0" "c \<noteq> 0"
  shows "\<exists>k < 64. c = 2 ^ k"
proof -
  have "unat (c AND (c - 1)) = unat c AND unat (c - 1)" by (simp add: unsigned_and_eq)
  moreover have "unat (c - 1) = unat c - 1" using assms(2) by (simp add: unat_minus_one)
  ultimately have "unat c AND (unat c - 1) = 0" using assms(1) by simp
  then obtain k where k: "unat c = 2 ^ k" using pow2_nat [of "unat c"] assms(2) by (auto simp: unat_gt_0)
  have "k < 64"
  proof (rule ccontr)
    assume "\<not> k < 64"
    then have "(2 :: nat) ^ 64 \<le> 2 ^ k" by (intro power_increasing) auto
    then show False using k unsigned_less [of c, where 'a = nat] by simp
  qed
  moreover from this k have "c = 2 ^ k" by (simp add: word_unat_eq_iff unat_pow2)
  ultimately show ?thesis by blast
qed

text \<open>The mask selects the index modulo the capacity.\<close>

definition shape_ok :: "'v SPMCQueue \<Rightarrow> bool" where
  "shape_ok q \<longleftrightarrow> (\<exists>k < 64. capacity q = 2 ^ k) \<and> q_mask q = capacity q - 1 \<and>
     unat (capacity q) \<le> length (slots q)"

lemma masked_index:
  assumes "shape_ok q"
  shows "unat (i AND q_mask q) = unat i mod unat (capacity q)"
proof -
  from assms obtain k where k: "k < 64" "capacity q = 2 ^ k" "q_mask q = 2 ^ k - 1"
    by (auto simp: shape_ok_def)
  have "i AND q_mask q = take_bit k i" by (simp add: k take_bit_eq_mask mask_eq_exp_minus_1)
  then show ?thesis using k by (simp add: unsigned_take_bit_eq take_bit_eq_mod unat_pow2 unat_mod)
qed

lemma cap_pos: "shape_ok q \<Longrightarrow> 0 < unat (capacity q)"
  by (auto simp: shape_ok_def unat_pow2)

lemma index_in_slots: "shape_ok q \<Longrightarrow> unat i mod unat (capacity q) < length (slots q)"
  using mod_less_divisor [OF cap_pos, of q "unat i"] by (auto simp: shape_ok_def)

lemma slot_write_ok: "shape_ok q \<Longrightarrow>
    slot_write q i v = Some (q\<lparr>slots := (slots q)[unat i mod unat (capacity q) := v]\<rparr>)"
  using index_in_slots [of q i] by (simp add: slot_write_def masked_index)

lemma slot_read_ok: "shape_ok q \<Longrightarrow> slot_read q i = Some (slots q ! (unat i mod unat (capacity q)))"
  using index_in_slots [of q i] by (simp add: slot_read_def masked_index)

lemma round_up_aux: "(w :: u64) AND NOT 63 = w - take_bit 6 w"
proof -
  have m: "(63 :: u64) = mask 6" by (simp add: mask_eq_exp_minus_1)
  have "(w AND NOT (mask 6)) AND take_bit 6 w = 0"
    by (rule bit_word_eqI) (auto simp: bit_simps)
  then have "(w AND NOT (mask 6)) + take_bit 6 w = (w AND NOT (mask 6)) OR take_bit 6 w"
    by (rule disjunctive_add_eq_or)
  also have "\<dots> = w" by (rule bit_word_eqI) (auto simp: bit_simps)
  finally show ?thesis unfolding m by (simp add: eq_diff_eq)
qed

lemma round_up_size_64:
  assumes a: "unat (x :: u64) + 63 < 18446744073709551616"
  shows "unat x \<le> unat (round_up_size x 64)"
proof -
  let ?y = "x + 63"
  have y: "unat ?y = unat x + 63" using a by (simp add: unat_word_ariths)
  have t: "unat (take_bit 6 ?y) = unat ?y mod 64" by (simp add: take_bit_eq_mod unat_mod)
  have "unat ?y mod 64 \<le> unat ?y" by (rule mod_less_eq_dividend)
  then have "take_bit 6 ?y \<le> ?y" using t by (simp add: word_le_nat_alt)
  then have "unat (?y AND NOT 63) = unat ?y - unat ?y mod 64" using t by (simp only: round_up_aux unat_sub)
  moreover have "unat ?y mod 64 < 64" by simp
  ultimately have "unat x \<le> unat (?y AND NOT 63)" using y by linarith
  then show ?thesis by (simp add: round_up_size_def add.commute)
qed

text \<open>What the allocator promises: a block of at least the size that was asked for.\<close>

definition alloc_ok :: "(nat \<Rightarrow> 'v list option) \<Rightarrow> bool" where
  "alloc_ok alloc \<longleftrightarrow> (\<forall>n mem. alloc n = Some mem \<longrightarrow> n \<le> SIZEOF_SPMCQUEUE + 8 * length mem)"

lemma create_queue_shape:
  assumes "create_queue alloc cap = Some q" "alloc_ok alloc"
  shows "shape_ok q" "capacity q = cap"
proof -
  from assms(1) obtain mem where c: "cap \<noteq> 0" "cap AND (cap - 1) = 0"
      "\<not> cap > (- 1 - of_nat SIZEOF_SPMCQUEUE) div 8"
    and mem: "alloc (unat (round_up_size (of_nat SIZEOF_SPMCQUEUE + 8 * cap) 64)) = Some mem"
    and q: "q = \<lparr>capacity = cap, q_mask = cap - 1, writeIdx = 0, readIdxCache = 0,
               readIdx = 0, writeIdxCache = 0, slots = mem\<rparr>"
    by (auto simp: create_queue_def split: if_splits option.splits)
  from pow2_word [OF c(2,1)] obtain k where k: "k < 64" "cap = 2 ^ k" by blast
  have "unat ((- 1 - of_nat SIZEOF_SPMCQUEUE) div 8 :: u64) < 2 ^ 61"
    by (simp add: unat_div SIZEOF_SPMCQUEUE_def)
  with c(3) have "(2 :: nat) ^ k < 2 ^ 61" by (simp add: word_less_nat_alt k unat_pow2)
  then have "k \<le> 60" using power_less_imp_less_exp [of "2 :: nat" k 61] by simp
  then have "(2 :: nat) ^ k \<le> 2 ^ 60" by (rule power_increasing) simp
  then have "unat (of_nat SIZEOF_SPMCQUEUE + 8 * cap) = 320 + 8 * unat cap" "unat cap \<le> 2 ^ 60"
    by (simp_all add: k unat_pow2 unat_word_ariths SIZEOF_SPMCQUEUE_def)
  then have "320 + 8 * unat cap \<le> unat (round_up_size (of_nat SIZEOF_SPMCQUEUE + 8 * cap) 64)"
    using round_up_size_64 [of "of_nat SIZEOF_SPMCQUEUE + 8 * cap"] by simp
  also have "\<dots> \<le> 320 + 8 * length mem"
    using assms(2) mem by (auto simp: alloc_ok_def SIZEOF_SPMCQUEUE_def)
  finally have "unat cap \<le> length mem" by simp
  with k q show "shape_ok q" "capacity q = cap" by (auto simp: shape_ok_def)
qed

section \<open>One thread\<close>

definition spmc_ok :: "nat \<Rightarrow> 'v SPMCQueue \<Rightarrow> bool" where
  "spmc_ok n q \<longleftrightarrow> shape_ok q \<and> unat (readIdx q) \<le> unat (writeIdx q) \<and>
     unat (writeIdx q) - unat (readIdx q) \<le> unat (capacity q) \<and>
     unat (readIdxCache q) \<le> unat (readIdx q) \<and> unat (writeIdxCache q) \<le> unat (writeIdx q) \<and>
     unat (writeIdx q) + n < 18446744073709551616"

definition spmc_contents :: "'v SPMCQueue \<Rightarrow> 'v list" where
  "spmc_contents q = map (\<lambda>i. slots q ! (i mod unat (capacity q))) [unat (readIdx q)..<unat (writeIdx q)]"

definition spmc_room :: "'v SPMCQueue \<Rightarrow> bool" where
  "spmc_room q \<longleftrightarrow> unat (writeIdx q) - unat (readIdx q) < unat (capacity q)"

lemma mod_eq_window:
  assumes "i mod c = (w :: nat) mod c" "r \<le> i" "i < w" "w - r < c"
  shows False
proof -
  from assms(1,3) have "c dvd w - i" by (metis mod_eq_dvd_iff_nat less_imp_le_nat)
  then have "c \<le> w - i" using assms(3) by (intro dvd_imp_le) auto
  then show False using assms(2-4) by linarith
qed

lemma size_test:
  assumes "unat r \<le> unat w" "unat w + 1 < 18446744073709551616"
  shows "(w + 1 :: u64) - r \<le> c \<longleftrightarrow> unat w + 1 - unat r \<le> unat c"
proof -
  have "unat (w + 1) = unat w + 1" using assms(2) by (simp add: unat_word_ariths)
  then have "unat (w + 1 - r) = unat w + 1 - unat r" using assms(1) by (simp add: unat_sub word_le_nat_alt)
  then show ?thesis by (simp add: word_le_nat_alt)
qed

text \<open>Writing the slot behind the last one does not disturb the contents.\<close>

lemma contents_write:
  assumes "spmc_ok (Suc n) q" "spmc_room q"
  shows "spmc_contents (q\<lparr>slots := (slots q)[unat (writeIdx q) mod unat (capacity q) := v],
      writeIdx := writeIdx q + 1\<rparr>) = spmc_contents q @ [v]"
proof -
  let ?c = "unat (capacity q)" and ?w = "unat (writeIdx q)" and ?r = "unat (readIdx q)"
  have w1: "unat (writeIdx q + 1) = ?w + 1" using assms(1) by (simp add: spmc_ok_def unat_word_ariths)
  have "(slots q)[?w mod ?c := v] ! (i mod ?c) = slots q ! (i mod ?c)" if "?r \<le> i" "i < ?w" for i
    using mod_eq_window [of i ?c ?w ?r] that assms(2) by (metis nth_list_update_neq spmc_room_def)
  moreover have "(slots q)[?w mod ?c := v] ! (?w mod ?c) = v"
    using assms(1) index_in_slots [of q "writeIdx q"] by (auto simp: spmc_ok_def)
  ultimately show ?thesis using assms(1) by (simp add: spmc_contents_def w1 spmc_ok_def)
qed

lemma try_push_room:
  assumes "spmc_ok (Suc n) q" "spmc_room q"
  shows "\<exists>q'. try_push q v = Some (True, q') \<and> spmc_ok n q' \<and> spmc_contents q' = spmc_contents q @ [v]"
proof -
  have ok: "shape_ok q" "unat (readIdxCache q) \<le> unat (writeIdx q)" "unat (readIdx q) \<le> unat (writeIdx q)"
    "unat (writeIdx q) + 1 < 18446744073709551616"
    using assms(1) by (auto simp: spmc_ok_def)
  have w1: "unat (writeIdx q + 1) = unat (writeIdx q) + 1" using ok(4) by (simp add: unat_word_ariths)
  define rc where "rc = (if writeIdx q + 1 - readIdxCache q \<le> capacity q then readIdxCache q else readIdx q)"
  define q' where "q' = q\<lparr>readIdxCache := rc, slots := (slots q)[unat (writeIdx q) mod unat (capacity q) := v],
    writeIdx := writeIdx q + 1\<rparr>"
  have "writeIdx q + 1 - readIdx q \<le> capacity q"
    using size_test [OF ok(3,4), of "capacity q"] assms(2) ok(3) by (auto simp: spmc_room_def)
  then have "try_push q v = Some (True, q')"
    using slot_write_ok [OF ok(1)] slot_write_ok [of "q\<lparr>readIdxCache := readIdx q\<rparr>"] ok(1)
    by (cases q) (simp add: try_push_def q'_def rc_def Let_def shape_ok_def)
  moreover have "spmc_ok n q'"
    using assms w1 by (auto simp: spmc_ok_def q'_def rc_def shape_ok_def spmc_room_def)
  moreover have "spmc_contents q' = spmc_contents q @ [v]"
    using contents_write [OF assms, of v] by (simp add: spmc_contents_def q'_def)
  ultimately show ?thesis by blast
qed

lemma try_push_full:
  assumes "spmc_ok (Suc n) q" "\<not> spmc_room q"
  shows "\<exists>q'. try_push q v = Some (False, q') \<and> spmc_ok n q' \<and> spmc_contents q' = spmc_contents q"
proof -
  have ok: "unat (readIdxCache q) \<le> unat (readIdx q)" "unat (readIdx q) \<le> unat (writeIdx q)"
    "unat (writeIdx q) + 1 < 18446744073709551616"
    using assms(1) by (auto simp: spmc_ok_def)
  have "\<not> writeIdx q + 1 - readIdx q \<le> capacity q" "\<not> writeIdx q + 1 - readIdxCache q \<le> capacity q"
    using assms(2) ok by (auto simp: size_test spmc_room_def)
  then have "try_push q v = Some (False, q\<lparr>readIdxCache := readIdx q\<rparr>)" by (simp add: try_push_def Let_def)
  then show ?thesis using assms(1) by (auto simp: spmc_ok_def spmc_contents_def shape_ok_def)
qed

lemma pop_window_empty:
  assumes "spmc_ok n q" "spmc_contents q = []"
  shows "\<exists>q'. pop_window q = (Some (Inl ()), q') \<and> spmc_ok n q' \<and> spmc_contents q' = []"
proof -
  have "readIdx q = writeIdx q" using assms by (auto simp: spmc_contents_def spmc_ok_def word_unat_eq_iff)
  then show ?thesis using assms
    by (auto simp: pop_window_def spmc_ok_def spmc_contents_def shape_ok_def word_le_nat_alt)
qed

lemma pop_window_some:
  assumes "spmc_ok n q" "spmc_contents q \<noteq> []"
  shows "\<exists>w q'. pop_window q = (Some (Inr (readIdx q, w)), q') \<and> spmc_ok n q' \<and>
    spmc_contents q' = spmc_contents q \<and> readIdx q' = readIdx q \<and> slots q' = slots q \<and>
    capacity q' = capacity q \<and> writeIdx q' = writeIdx q \<and>
    unat (readIdx q) < unat w \<and> unat w \<le> unat (writeIdx q)"
proof -
  have "unat (readIdx q) < unat (writeIdx q)" using assms by (auto simp: spmc_contents_def)
  then show ?thesis using assms(1)
    by (auto simp: pop_window_def spmc_ok_def spmc_contents_def shape_ok_def word_le_nat_alt word_less_nat_alt
        Let_def)
qed

lemma contents_Cons:
  assumes "spmc_ok n q" "spmc_contents q = v # vs"
  shows "slots q ! (unat (readIdx q) mod unat (capacity q)) = v" "unat (readIdx q + 1) = unat (readIdx q) + 1"
    "spmc_contents (q\<lparr>readIdx := readIdx q + 1\<rparr>) = vs" "spmc_ok n (q\<lparr>readIdx := readIdx q + 1\<rparr>)"
proof -
  have lt: "unat (readIdx q) < unat (writeIdx q)" using assms(2) by (auto simp: spmc_contents_def intro: ccontr)
  show n: "unat (readIdx q + 1) = unat (readIdx q) + 1"
    using lt assms(1) by (simp add: unat_word_ariths spmc_ok_def)
  from assms(2) lt show "slots q ! (unat (readIdx q) mod unat (capacity q)) = v"
      "spmc_contents (q\<lparr>readIdx := readIdx q + 1\<rparr>) = vs"
    by (auto simp: spmc_contents_def n upt_conv_Cons)
  show "spmc_ok n (q\<lparr>readIdx := readIdx q + 1\<rparr>)"
    using assms(1) lt n by (auto simp: spmc_ok_def shape_ok_def)
qed

lemma try_pop_some:
  "spmc_ok n q \<Longrightarrow> spmc_contents q = v # vs \<Longrightarrow>
     \<exists>q'. try_pop spurious q = Some (Some v, q') \<and> spmc_ok n q' \<and> spmc_contents q' = vs"
proof (induction spurious arbitrary: q)
  case 0
  from pop_window_some [OF 0(1)] 0(2) obtain w q0 where
    w: "pop_window q = (Some (Inr (readIdx q, w)), q0)" "spmc_ok n q0" "spmc_contents q0 = v # vs"
       "readIdx q0 = readIdx q" by auto
  from contents_Cons [OF w(2,3)] slot_read_ok [of q0 "readIdx q0"] w show ?case
    by (auto simp: try_pop.simps spmc_ok_def)
next
  case (Suc k)
  from pop_window_some [OF Suc.prems(1)] Suc.prems(2) obtain w q0 where
    w: "pop_window q = (Some (Inr (readIdx q, w)), q0)" "spmc_ok n q0" "spmc_contents q0 = v # vs"
       "readIdx q0 = readIdx q" by auto
  have "slot_read q0 (readIdx q) \<noteq> None" using slot_read_ok [of q0] w(2) by (simp add: spmc_ok_def)
  with Suc.IH [OF w(2,3)] w show ?case by (auto simp: try_pop.simps [of "Suc k"])
qed

lemma try_pop_none:
  assumes "spmc_ok n q" "spmc_contents q = []"
  shows "\<exists>q'. try_pop spurious q = Some (None, q') \<and> spmc_ok n q' \<and> spmc_contents q' = []"
  using pop_window_empty [OF assms] by (auto simp: try_pop.simps)

interpretation spmc: fifo_queue spmc_ok spmc_contents spmc_room try_push "try_pop spurious"
  by unfold_locales
    (erule (1) try_push_room, erule (1) try_push_full, erule (1) try_pop_some, erule (1) try_pop_none,
      simp add: spmc_ok_def)

lemma copy_slots_ok:
  "shape_ok q \<Longrightarrow> unat i + n < 18446744073709551616 \<Longrightarrow>
     copy_slots q i n = Some (map (\<lambda>j. slots q ! (j mod unat (capacity q))) [unat i..<unat i + n])"
proof (induction n arbitrary: i)
  case (Suc n)
  have "unat (i + 1) = unat i + 1" using Suc.prems by (simp add: unat_word_ariths)
  with Suc slot_read_ok [of q i] show ?case by (simp add: upt_conv_Cons del: upt_Suc)
qed simp

lemma pop_end_unat:
  assumes "unat r < unat w" "unat r + unat howmany < 18446744073709551616"
  shows "unat (pop_end r w howmany) = min (unat r + unat howmany) (unat w)"
  using assms by (auto simp: pop_end_def word_less_nat_alt unat_word_ariths)

text \<open>
  A batch is a prefix of the contents: at most \<open>howmany\<close> elements, and at least one when the queue is not
  empty. It may be shorter than it could be, when the cached write index is behind.
\<close>

lemma try_pop_many_ok:
  assumes "0 < unat howmany" "unat (readIdx q) + unat howmany < 18446744073709551616"
  shows "spmc_ok n q \<Longrightarrow> \<exists>k q'. try_pop_many spurious q howmany = Some (of_nat k, take k (spmc_contents q), q') \<and>
    spmc_ok n q' \<and> spmc_contents q' = drop k (spmc_contents q) \<and> k \<le> unat howmany \<and>
    (spmc_contents q \<noteq> [] \<longrightarrow> 0 < k) \<and> k \<le> length (spmc_contents q)"
  using assms(2)
proof (induction spurious arbitrary: q)
  case 0
  show ?case
  proof (cases "spmc_contents q = []")
    case True
    from pop_window_empty [OF 0(1) True] show ?thesis by (auto simp: try_pop_many.simps True)
  next
    case False
    from pop_window_some [OF 0(1) False] obtain w q0 where
      w: "pop_window q = (Some (Inr (readIdx q, w)), q0)" "spmc_ok n q0" "spmc_contents q0 = spmc_contents q"
       "readIdx q0 = readIdx q" "slots q0 = slots q" "capacity q0 = capacity q" "writeIdx q0 = writeIdx q"
       "unat (readIdx q) < unat w" "unat w \<le> unat (writeIdx q)" by blast
    define k where "k = unat (pop_end (readIdx q) w howmany) - unat (readIdx q)"
    have e: "unat (pop_end (readIdx q) w howmany) = unat (readIdx q) + k"
      and k: "0 < k" "k \<le> unat howmany" "unat (readIdx q) + k \<le> unat (writeIdx q)"
      using pop_end_unat [OF w(8) 0(2)] w(8,9) assms(1) by (auto simp: k_def)
    have shape: "shape_ok q0" using w(2) by (simp add: spmc_ok_def)
    have "unat (readIdx q) + k < 18446744073709551616" using k(3) 0(1) by (simp add: spmc_ok_def)
    then have "copy_slots q0 (readIdx q) k = Some (take k (spmc_contents q))"
      using copy_slots_ok [OF shape, of "readIdx q" k] k(3)
      by (simp add: w spmc_contents_def take_map take_upt)
    moreover have "pop_end (readIdx q) w howmany - readIdx q = of_nat k"
      using e by (simp add: word_unat_eq_iff k_def unat_sub word_le_nat_alt unsigned_of_nat take_bit_nat_eq_self)
    ultimately have "try_pop_many 0 q howmany = Some (of_nat k, take k (spmc_contents q),
        q0\<lparr>readIdx := pop_end (readIdx q) w howmany\<rparr>)"
      by (simp add: try_pop_many.simps w(1) e)
    moreover have "spmc_ok n (q0\<lparr>readIdx := pop_end (readIdx q) w howmany\<rparr>)"
      using w(2,4,7) k(3) by (auto simp: spmc_ok_def e shape_ok_def)
    moreover have "spmc_contents (q0\<lparr>readIdx := pop_end (readIdx q) w howmany\<rparr>) = drop k (spmc_contents q)"
      using w(5,6,7) by (simp add: spmc_contents_def e drop_map drop_upt)
    moreover have "k \<le> length (spmc_contents q)" using k(3) by (simp add: spmc_contents_def)
    ultimately show ?thesis using k by blast
  qed
next
  case (Suc j)
  show ?case
  proof (cases "spmc_contents q = []")
    case True
    from pop_window_empty [OF Suc.prems(1) True] show ?thesis by (auto simp: try_pop_many.simps True)
  next
    case False
    from pop_window_some [OF Suc.prems(1) False] obtain w q0 where
      w: "pop_window q = (Some (Inr (readIdx q, w)), q0)" "spmc_ok n q0" "spmc_contents q0 = spmc_contents q"
       "readIdx q0 = readIdx q" "unat (readIdx q) < unat w" "unat w \<le> unat (writeIdx q)" by blast
    have shape: "shape_ok q0" using w(2) by (simp add: spmc_ok_def)
    have "unat (readIdx q) + (unat (pop_end (readIdx q) w howmany) - unat (readIdx q)) < 18446744073709551616"
      using pop_end_unat [OF w(5) Suc.prems(2)] Suc.prems(2) by simp
    from copy_slots_ok [OF shape this] Suc.IH [OF w(2)] Suc.prems(2) w(1,3,4) show ?thesis
      by (simp add: try_pop_many.simps [of "Suc j"])
  qed
qed

end
