(* ===== verification/SPMC_Threads.thy ===== *)
theory SPMC_Threads
  imports SPMC_Queue
begin

text \<open>
  The queue of \<^verbatim>\<open>src/SPMCQueue.c\<close> under concurrency: one producer and any number of consumers
  run the code of \<open>try_push\<close> and \<open>try_pop_many\<close>, one access to a shared variable at a time,
  in any order. \<open>try_pop\<close> is the loop of \<open>try_pop_many\<close> with one element. The compare-and-exchange may fail
  without a reason.

  Two history variables that the code does not have record what has been published and what
  has been taken, in the order of the updates of \<open>writeIdx\<close> and \<open>readIdx\<close>.
\<close>

section \<open>Threads\<close>

datatype 'v producer_pc =
    P_idle
  | P_loaded 'v u64
  | P_reloaded 'v u64
  | P_room 'v u64
  | P_stored 'v u64
  | P_crash

datatype 'v consumer_pc =
    C_idle
  | C_start u64
  | C_loaded u64 u64
  | C_stale u64 u64
  | C_fresh u64 u64 u64
  | C_window u64 u64 u64
  | C_copy u64 u64 u64 u64 "'v list"
  | C_crash

record 'v spmc_threads =
  tq :: "'v SPMCQueue"
  ppc :: "'v producer_pc"
  cpc :: "nat \<Rightarrow> 'v consumer_pc"
  pushed :: "'v list"
  popped :: "'v list"

inductive producer_step :: "'v spmc_threads \<Rightarrow> 'v spmc_threads \<Rightarrow> bool" where
  push_load: "ppc st = P_idle \<Longrightarrow>
    producer_step st (st\<lparr>ppc := P_loaded v (writeIdx (tq st))\<rparr>)"
| push_fast: "ppc st = P_loaded v w \<Longrightarrow> w + 1 - readIdxCache (tq st) \<le> capacity (tq st) \<Longrightarrow>
    producer_step st (st\<lparr>ppc := P_room v w\<rparr>)"
| push_reload: "ppc st = P_loaded v w \<Longrightarrow> \<not> w + 1 - readIdxCache (tq st) \<le> capacity (tq st) \<Longrightarrow>
    producer_step st (st\<lparr>tq := (tq st)\<lparr>readIdxCache := readIdx (tq st)\<rparr>, ppc := P_reloaded v w\<rparr>)"
| push_retry: "ppc st = P_reloaded v w \<Longrightarrow> w + 1 - readIdxCache (tq st) \<le> capacity (tq st) \<Longrightarrow>
    producer_step st (st\<lparr>ppc := P_room v w\<rparr>)"
| push_full: "ppc st = P_reloaded v w \<Longrightarrow> \<not> w + 1 - readIdxCache (tq st) \<le> capacity (tq st) \<Longrightarrow>
    producer_step st (st\<lparr>ppc := P_idle\<rparr>)"
| push_store: "ppc st = P_room v w \<Longrightarrow> slot_write (tq st) w v = Some q' \<Longrightarrow>
    producer_step st (st\<lparr>tq := q', ppc := P_stored v w\<rparr>)"
| push_outside: "ppc st = P_room v w \<Longrightarrow> slot_write (tq st) w v = None \<Longrightarrow>
    producer_step st (st\<lparr>ppc := P_crash\<rparr>)"
| push_publish: "ppc st = P_stored v w \<Longrightarrow>
    producer_step st (st\<lparr>tq := (tq st)\<lparr>writeIdx := w + 1\<rparr>, ppc := P_idle, pushed := pushed st @ [v]\<rparr>)"

definition set_pc :: "nat \<Rightarrow> 'v consumer_pc \<Rightarrow> 'v spmc_threads \<Rightarrow> 'v spmc_threads" where
  "set_pc t pc st = st\<lparr>cpc := (cpc st)(t := pc)\<rparr>"

text \<open>The number of elements asked for, and the indices, stay below \<open>2 ^ 63\<close>.\<close>

inductive consumer_step :: "nat \<Rightarrow> 'v spmc_threads \<Rightarrow> 'v spmc_threads \<Rightarrow> bool" where
  pop_call: "cpc st t = C_idle \<Longrightarrow> 0 < unat howmany \<Longrightarrow> unat howmany < 2 ^ 63 \<Longrightarrow>
    consumer_step t st (set_pc t (C_start howmany) st)"
| pop_load: "cpc st t = C_start n \<Longrightarrow>
    consumer_step t st (set_pc t (C_loaded n (readIdx (tq st))) st)"
| pop_cached: "cpc st t = C_loaded n r \<Longrightarrow> \<not> r \<ge> writeIdxCache (tq st) \<Longrightarrow>
    consumer_step t st (set_pc t (C_window n r (writeIdxCache (tq st))) st)"
| pop_stale: "cpc st t = C_loaded n r \<Longrightarrow> r \<ge> writeIdxCache (tq st) \<Longrightarrow>
    consumer_step t st (set_pc t (C_stale n r) st)"
| pop_reload: "cpc st t = C_stale n r \<Longrightarrow>
    consumer_step t st (set_pc t (C_fresh n r (writeIdx (tq st))) st)"
| pop_empty: "cpc st t = C_fresh n r w \<Longrightarrow> r = w \<Longrightarrow>
    consumer_step t st (set_pc t C_idle (st\<lparr>tq := (tq st)\<lparr>writeIdxCache := w\<rparr>\<rparr>))"
| pop_seen: "cpc st t = C_fresh n r w \<Longrightarrow> r \<noteq> w \<Longrightarrow> r < w \<Longrightarrow>
    consumer_step t st (set_pc t (C_window n r w) (st\<lparr>tq := (tq st)\<lparr>writeIdxCache := w\<rparr>\<rparr>))"
| pop_assert: "cpc st t = C_fresh n r w \<Longrightarrow> r \<noteq> w \<Longrightarrow> \<not> r < w \<Longrightarrow>
    consumer_step t st (set_pc t C_crash (st\<lparr>tq := (tq st)\<lparr>writeIdxCache := w\<rparr>\<rparr>))"
| pop_limit: "cpc st t = C_window n r w \<Longrightarrow>
    consumer_step t st (set_pc t (C_copy n r (pop_end r w n) r []) st)"
| pop_read: "cpc st t = C_copy n r m i vals \<Longrightarrow> i < m \<Longrightarrow> slot_read (tq st) i = Some v \<Longrightarrow>
    consumer_step t st (set_pc t (C_copy n r m (i + 1) (vals @ [v])) st)"
| pop_outside: "cpc st t = C_copy n r m i vals \<Longrightarrow> i < m \<Longrightarrow> slot_read (tq st) i = None \<Longrightarrow>
    consumer_step t st (set_pc t C_crash st)"
| pop_take: "cpc st t = C_copy n r m i vals \<Longrightarrow> \<not> i < m \<Longrightarrow> readIdx (tq st) = r \<Longrightarrow>
    consumer_step t st (set_pc t C_idle
      (st\<lparr>tq := (tq st)\<lparr>readIdx := m\<rparr>, popped := popped st @ vals\<rparr>))"
| pop_again: "cpc st t = C_copy n r m i vals \<Longrightarrow> \<not> i < m \<Longrightarrow>
    consumer_step t st (set_pc t (C_start n) st)"

inductive spmc_reach :: "'v SPMCQueue \<Rightarrow> 'v spmc_threads \<Rightarrow> bool" for q where
  reach_init: "spmc_reach q \<lparr>tq = q, ppc = P_idle, cpc = (\<lambda>t. C_idle), pushed = [], popped = []\<rparr>"
| reach_producer: "spmc_reach q st \<Longrightarrow> producer_step st st' \<Longrightarrow> spmc_reach q st'"
| reach_consumer: "spmc_reach q st \<Longrightarrow> consumer_step t st st' \<Longrightarrow> spmc_reach q st'"

inductive_cases producer_stepE: "producer_step st st'"
inductive_cases consumer_stepE: "consumer_step t st st'"

section \<open>Invariant\<close>

definition index_ok :: "'v spmc_threads \<Rightarrow> bool" where
  "index_ok st \<longleftrightarrow>
     (let q = tq st; R = unat (readIdx q); W = unat (writeIdx q); c = unat (capacity q) in
      shape_ok q \<and> R \<le> W \<and> W - R \<le> c \<and> unat (readIdxCache q) \<le> R \<and> unat (writeIdxCache q) \<le> W \<and>
      W = length (pushed st) \<and> popped st = take R (pushed st) \<and>
      (\<forall>i. R \<le> i \<and> i < W \<longrightarrow> slots q ! (i mod c) = pushed st ! i))"

fun producer_ok :: "'v SPMCQueue \<Rightarrow> 'v producer_pc \<Rightarrow> bool" where
  "producer_ok q P_idle \<longleftrightarrow> True"
| "producer_ok q (P_loaded v w) \<longleftrightarrow> w = writeIdx q"
| "producer_ok q (P_reloaded v w) \<longleftrightarrow> w = writeIdx q"
| "producer_ok q (P_room v w) \<longleftrightarrow> w = writeIdx q \<and> unat w - unat (readIdx q) < unat (capacity q)"
| "producer_ok q (P_stored v w) \<longleftrightarrow> w = writeIdx q \<and> unat w - unat (readIdx q) < unat (capacity q) \<and>
     slots q ! (unat w mod unat (capacity q)) = v"
| "producer_ok q P_crash \<longleftrightarrow> False"

fun consumer_ok :: "nat \<Rightarrow> 'v list \<Rightarrow> 'v consumer_pc \<Rightarrow> bool" where
  "consumer_ok R ps C_idle \<longleftrightarrow> True"
| "consumer_ok R ps (C_start n) \<longleftrightarrow> 0 < unat n \<and> unat n < 2 ^ 63"
| "consumer_ok R ps (C_loaded n r) \<longleftrightarrow> 0 < unat n \<and> unat n < 2 ^ 63 \<and> unat r \<le> R"
| "consumer_ok R ps (C_stale n r) \<longleftrightarrow> 0 < unat n \<and> unat n < 2 ^ 63 \<and> unat r \<le> R"
| "consumer_ok R ps (C_fresh n r w) \<longleftrightarrow> 0 < unat n \<and> unat n < 2 ^ 63 \<and> unat r \<le> R \<and>
     unat r \<le> unat w \<and> unat w \<le> length ps"
| "consumer_ok R ps (C_window n r w) \<longleftrightarrow> 0 < unat n \<and> unat n < 2 ^ 63 \<and> unat r \<le> R \<and>
     unat r < unat w \<and> unat w \<le> length ps"
| "consumer_ok R ps (C_copy n r m i vals) \<longleftrightarrow> 0 < unat n \<and> unat n < 2 ^ 63 \<and> unat r \<le> R \<and>
     unat r < unat m \<and> unat m \<le> length ps \<and> unat r \<le> unat i \<and> unat i \<le> unat m \<and>
     (unat r = R \<longrightarrow> vals = map ((!) ps) [unat r..<unat i])"
| "consumer_ok R ps C_crash \<longleftrightarrow> False"

definition threads_ok :: "'v spmc_threads \<Rightarrow> bool" where
  "threads_ok st \<longleftrightarrow> index_ok st \<and> producer_ok (tq st) (ppc st) \<and>
     (\<forall>t. consumer_ok (unat (readIdx (tq st))) (pushed st) (cpc st t))"

lemma consumer_ok_push: "consumer_ok R ps pc \<Longrightarrow> consumer_ok R (ps @ [v]) pc"
  by (cases pc) (auto simp: nth_append)

lemma consumer_ok_pop: "consumer_ok R ps pc \<Longrightarrow> R < R' \<Longrightarrow> consumer_ok R' ps pc"
  by (cases pc) auto

lemma index_okD:
  assumes "index_ok st"
  shows "shape_ok (tq st)" "unat (readIdx (tq st)) \<le> unat (writeIdx (tq st))"
    "unat (writeIdx (tq st)) - unat (readIdx (tq st)) \<le> unat (capacity (tq st))"
    "unat (readIdxCache (tq st)) \<le> unat (readIdx (tq st))"
    "unat (writeIdxCache (tq st)) \<le> unat (writeIdx (tq st))"
    "unat (writeIdx (tq st)) = length (pushed st)" "popped st = take (unat (readIdx (tq st))) (pushed st)"
    "\<And>i. unat (readIdx (tq st)) \<le> i \<Longrightarrow> i < unat (writeIdx (tq st)) \<Longrightarrow>
       slots (tq st) ! (i mod unat (capacity (tq st))) = pushed st ! i"
  using assms by (auto simp: index_ok_def Let_def)

lemma store_other_slots:
  assumes "unat w - R < c" "R \<le> i" "i < unat (w :: u64)"
  shows "xs[unat w mod c := v] ! (i mod c) = xs ! (i mod c)"
  using mod_eq_window [of i c "unat w" R] assms by (metis nth_list_update_neq)

lemma producer_keeps:
  assumes "producer_step st st'" "threads_ok st" "length (pushed st') < 2 ^ 63"
  shows "threads_ok st'"
proof -
  have ix: "index_ok st" and p: "producer_ok (tq st) (ppc st)"
    and c: "\<And>t. consumer_ok (unat (readIdx (tq st))) (pushed st) (cpc st t)"
    using assms(2) by (auto simp: threads_ok_def)
  note D = index_okD [OF ix]
  let ?W = "unat (writeIdx (tq st))" and ?R = "unat (readIdx (tq st))" and ?c = "unat (capacity (tq st))"
  have room: "?W - ?R < ?c"
    if "writeIdx (tq st) + 1 - readIdxCache (tq st) \<le> capacity (tq st)" "?W + 1 < 18446744073709551616"
    using that size_test [of "readIdxCache (tq st)" "writeIdx (tq st)" "capacity (tq st)"] D(2,4) by auto
  show ?thesis
  using assms(1)
  proof (cases rule: producer_step.cases)
    case (push_load v)
    then show ?thesis using ix c by (auto simp: threads_ok_def index_ok_def)
  next
    case (push_fast v w)
    then show ?thesis using ix c p room assms(3) D(6) by (auto simp: threads_ok_def index_ok_def)
  next
    case (push_reload v w)
    then show ?thesis using ix c p by (auto simp: threads_ok_def index_ok_def Let_def shape_ok_def)
  next
    case (push_retry v w)
    then show ?thesis using ix c p room assms(3) D(6) by (auto simp: threads_ok_def index_ok_def)
  next
    case (push_full v w)
    then show ?thesis using ix c by (auto simp: threads_ok_def index_ok_def)
  next
    case (push_store v w q')
    then have w: "w = writeIdx (tq st)" "?W - ?R < ?c" using p by auto
    have q': "q' = (tq st)\<lparr>slots := (slots (tq st))[?W mod ?c := v]\<rparr>"
      using push_store(3) slot_write_ok [OF D(1)] by (simp add: w)
    have sq: "slots q' = (slots (tq st))[?W mod ?c := v]" by (simp add: q')
    have "slots q' ! (i mod ?c) = pushed st ! i" if "?R \<le> i" "i < ?W" for i
      unfolding sq using store_other_slots [OF w(2) that] D(8) [OF that] by (rule trans)
    moreover have "shape_ok q'" "capacity q' = capacity (tq st)" "readIdx q' = readIdx (tq st)"
      "writeIdx q' = writeIdx (tq st)" "readIdxCache q' = readIdxCache (tq st)"
      "writeIdxCache q' = writeIdxCache (tq st)"
      using D(1) by (auto simp: q' shape_ok_def)
    ultimately have "index_ok st'" using D(2-7) unfolding index_ok_def Let_def push_store(1) by simp
    moreover have "slots q' ! (?W mod ?c) = v" using index_in_slots [OF D(1), of "writeIdx (tq st)"] by (simp add: q')
    ultimately show ?thesis using c w by (simp add: threads_ok_def push_store(1) q')
  next
    case (push_outside v w)
    then show ?thesis using slot_write_ok [OF D(1)] by simp
  next
    case (push_publish v w)
    then have w: "w = writeIdx (tq st)" "?W - ?R < ?c" "slots (tq st) ! (?W mod ?c) = v" using p by auto
    have w1: "unat (writeIdx (tq st) + 1) = ?W + 1"
      using assms(3) D(6) by (simp add: push_publish(1) unat_word_ariths)
    have "index_ok st'" using D(1-8) w
      by (auto simp: push_publish(1) index_ok_def Let_def w1 shape_ok_def nth_append less_Suc_eq)
    then show ?thesis using c by (simp add: threads_ok_def push_publish(1) consumer_ok_push)
  qed
qed

text \<open>A step that only moves the program counter of one consumer.\<close>

lemma set_pc_ok:
  assumes "threads_ok st" "consumer_ok (unat (readIdx (tq st))) (pushed st) pc"
  shows "threads_ok (set_pc t pc st)"
  using assms by (auto simp: threads_ok_def set_pc_def index_ok_def)

lemma cache_ok:
  assumes "threads_ok st" "unat w \<le> length (pushed st)"
  shows "threads_ok (st\<lparr>tq := (tq st)\<lparr>writeIdxCache := w\<rparr>\<rparr>)"
proof -
  have "producer_ok ((tq st)\<lparr>writeIdxCache := w\<rparr>) (ppc st)"
    using assms(1) by (cases "ppc st") (auto simp: threads_ok_def)
  then show ?thesis using assms by (auto simp: threads_ok_def index_ok_def Let_def shape_ok_def)
qed

lemma take_map_nth:
  "r \<le> m \<Longrightarrow> m \<le> length xs \<Longrightarrow> take r xs @ map ((!) xs) [r..<m] = take m xs"
  by (induction m) (auto simp: take_Suc_conv_app_nth le_Suc_eq)

lemma consumer_keeps:
  assumes "consumer_step t st st'" "threads_ok st" "length (pushed st) < 2 ^ 63"
  shows "threads_ok st'"
proof -
  have ix: "index_ok st" and p: "producer_ok (tq st) (ppc st)"
    and c: "\<And>t. consumer_ok (unat (readIdx (tq st))) (pushed st) (cpc st t)"
    using assms(2) by (auto simp: threads_ok_def)
  note D = index_okD [OF ix]
  note ct = c [of t]
  let ?R = "unat (readIdx (tq st))" and ?c = "unat (capacity (tq st))"
  show ?thesis
  using assms(1)
  proof (cases rule: consumer_step.cases)
    case (pop_call n)
    then show ?thesis using set_pc_ok [OF assms(2)] by simp
  next
    case (pop_load n)
    then show ?thesis using set_pc_ok [OF assms(2)] ct by simp
  next
    case (pop_cached n r)
    then show ?thesis using set_pc_ok [OF assms(2)] ct D(5,6) by (simp add: word_le_nat_alt)
  next
    case (pop_stale n r)
    then show ?thesis using set_pc_ok [OF assms(2)] ct by simp
  next
    case (pop_reload n r)
    then show ?thesis using set_pc_ok [OF assms(2)] ct D(2,6) by simp
  next
    case (pop_empty n r w)
    then show ?thesis using set_pc_ok [OF cache_ok [OF assms(2)]] ct by simp
  next
    case (pop_seen n r w)
    then show ?thesis using set_pc_ok [OF cache_ok [OF assms(2)]] ct by (simp add: word_less_nat_alt)
  next
    case (pop_assert n r w)
    then show ?thesis using ct by (auto simp: word_less_nat_alt word_unat_eq_iff)
  next
    case (pop_limit n r w)
    then have r: "unat r < unat w" "unat w \<le> length (pushed st)" "0 < unat n" "unat n < 2 ^ 63" "unat r \<le> ?R"
      using ct by auto
    then have "unat (pop_end r w n) = min (unat r + unat n) (unat w)"
      using assms(3) by (intro pop_end_unat) auto
    then have "consumer_ok ?R (pushed st) (C_copy n r (pop_end r w n) r [])" using r by simp
    then show ?thesis using set_pc_ok [OF assms(2)] pop_limit(1) by blast
  next
    case (pop_read n r m i vals v)
    then have r: "unat i < unat m" "unat m \<le> length (pushed st)" using ct by (auto simp: word_less_nat_alt)
    then have i1: "unat (i + 1) = unat i + 1" using assms(3) by (simp add: unat_word_ariths)
    have v: "v = slots (tq st) ! (unat i mod ?c)" using pop_read(4) slot_read_ok [OF D(1)] by simp
    have "unat r = ?R \<Longrightarrow> v = pushed st ! unat i"
      unfolding v using D(8) [of "unat i"] r ct pop_read(2) D(6) by simp
    then have "consumer_ok ?R (pushed st) (C_copy n r m (i + 1) (vals @ [v]))"
      using ct r pop_read(2) by (auto simp: i1)
    then show ?thesis using set_pc_ok [OF assms(2)] pop_read(1) by blast
  next
    case (pop_outside n r m i vals)
    then show ?thesis using slot_read_ok [OF D(1)] by simp
  next
    case (pop_take n r m i vals)
    then have r: "unat r = ?R" "unat m = unat i" "?R < unat m" "unat m \<le> length (pushed st)"
        "vals = map ((!) (pushed st)) [?R..<unat m]"
      using ct by (auto simp: word_less_nat_alt)
    let ?st = "st\<lparr>tq := (tq st)\<lparr>readIdx := m\<rparr>, popped := popped st @ vals\<rparr>"
    have "take ?R (pushed st) @ vals = take (unat m) (pushed st)"
      using r(3-5) by (simp add: take_map_nth)
    then have "index_ok ?st" using D r(3,4) by (auto simp: index_ok_def Let_def shape_ok_def)
    moreover have "producer_ok (tq ?st) (ppc ?st)"
      using p r(3) by (cases "ppc st") auto
    moreover have "consumer_ok (unat m) (pushed st) (cpc st u)" for u
      using consumer_ok_pop [OF c r(3)] .
    ultimately have "threads_ok ?st" by (simp add: threads_ok_def)
    then show ?thesis using set_pc_ok [of ?st C_idle] pop_take(1) by simp
  next
    case (pop_again n r m i vals)
    then show ?thesis using set_pc_ok [OF assms(2)] ct by simp
  qed
qed

lemma init_ok:
  assumes "create_queue alloc cap = Some q" "alloc_ok alloc"
  shows "threads_ok \<lparr>tq = q, ppc = P_idle, cpc = (\<lambda>t. C_idle), pushed = [], popped = []\<rparr>"
proof -
  have "writeIdx q = 0" "readIdx q = 0" "readIdxCache q = 0" "writeIdxCache q = 0"
    using assms(1) by (auto simp: create_queue_def split: if_splits option.splits)
  then show ?thesis using create_queue_shape(1) [OF assms] by (simp add: threads_ok_def index_ok_def)
qed

lemma consumer_pushed: "consumer_step t st st' \<Longrightarrow> pushed st' = pushed st \<and> capacity (tq st') = capacity (tq st)"
  by (induction rule: consumer_step.induct) (auto simp: set_pc_def)

lemma producer_pushed:
  "producer_step st st' \<Longrightarrow> length (pushed st) \<le> length (pushed st') \<and> capacity (tq st') = capacity (tq st)"
  by (induction rule: producer_step.induct) (auto simp: slot_write_def split: if_splits)

lemma reach_ok:
  assumes "spmc_reach q st" "create_queue alloc cap = Some q" "alloc_ok alloc"
  shows "length (pushed st) < 2 ^ 63 \<Longrightarrow> threads_ok st \<and> capacity (tq st) = cap"
  using assms(1)
proof (induction rule: spmc_reach.induct)
  case reach_init
  then show ?case using init_ok [OF assms(2,3)] create_queue_shape(2) [OF assms(2,3)] by simp
next
  case (reach_producer st st')
  then show ?case using producer_keeps producer_pushed by fastforce
next
  case (reach_consumer st t st')
  then show ?case using consumer_keeps consumer_pushed by metis
qed

section \<open>Properties\<close>

text \<open>
  C9. Under every interleaving of one producer and any number of consumers, the values taken so far are exactly the first ones published, in their
  order: none is lost, none is taken twice and none overtakes another. Never more values than the capacity are in the queue, no assertion fails and no
  access leaves the slots. The accesses to shared memory are sequentially consistent, a consumer asks for at least 1 and fewer than 2^63 values at a
  time, and fewer than 2^63 values are published.
\<close>

theorem spmc_concurrent_fifo:
  assumes "create_queue alloc cap = Some q" and "alloc_ok alloc" and "spmc_reach q st"
    and "length (pushed st) < 2 ^ 63"
  shows "popped st = take (length (popped st)) (pushed st) \<and>
    length (pushed st) - length (popped st) \<le> unat cap \<and>
    ppc st \<noteq> P_crash \<and> (\<forall>t. cpc st t \<noteq> C_crash)"
proof -
  from reach_ok [OF assms(3,1,2,4)] have ok: "threads_ok st" and cap: "capacity (tq st) = cap" by auto
  from ok have ix: "index_ok st" and p: "producer_ok (tq st) (ppc st)"
    and c: "\<And>t. consumer_ok (unat (readIdx (tq st))) (pushed st) (cpc st t)"
    by (auto simp: threads_ok_def)
  note D = index_okD [OF ix]
  have "length (popped st) = unat (readIdx (tq st))" using D(2,6,7) by simp
  moreover have "ppc st \<noteq> P_crash" using p by auto
  moreover have "cpc st t \<noteq> C_crash" for t using c [of t] by auto
  ultimately show ?thesis using D(3,6,7) cap by simp
qed

definition sample_alloc :: "nat \<Rightarrow> nat list option" where
  "sample_alloc n = Some (replicate (n div 8) 0)"

lemma sample_alloc_ok: "alloc_ok sample_alloc"
  by (auto simp: alloc_ok_def sample_alloc_def SIZEOF_SPMCQUEUE_def)

lemma sample_queue: "create_queue sample_alloc 2 = Some (the (create_queue sample_alloc 2))"
  by (simp add: create_queue_def sample_alloc_def SIZEOF_SPMCQUEUE_def)

theorem spmc_concurrent_fifo_witness:
  "\<exists>st. spmc_reach (the (create_queue sample_alloc 2)) st \<and> pushed st = [7] \<and>
     length (pushed st) - length (popped st) \<le> 2"
proof -
  let ?q = "the (create_queue sample_alloc 2)"
  let ?st = "\<lparr>tq = ?q, ppc = P_idle, cpc = (\<lambda>t. C_idle), pushed = [], popped = []\<rparr>"
  note shape = create_queue_shape [OF sample_queue sample_alloc_ok]
  let ?s1 = "?st\<lparr>ppc := P_loaded 7 (writeIdx (tq ?st))\<rparr>"
  let ?s2 = "?s1\<lparr>ppc := P_room 7 (writeIdx ?q)\<rparr>"
  let ?q3 = "?q\<lparr>slots := (slots ?q)[unat (writeIdx ?q) mod unat (capacity ?q) := 7]\<rparr>"
  let ?s3 = "?s2\<lparr>tq := ?q3, ppc := P_stored 7 (writeIdx ?q)\<rparr>"
  let ?s4 = "?s3\<lparr>tq := (tq ?s3)\<lparr>writeIdx := writeIdx ?q + 1\<rparr>, ppc := P_idle, pushed := pushed ?s3 @ [7]\<rparr>"
  have idx: "writeIdx ?q = 0" "readIdxCache ?q = 0"
    by (simp_all add: create_queue_def sample_alloc_def SIZEOF_SPMCQUEUE_def)
  have s1: "producer_step ?st ?s1" by (rule push_load) simp
  have s2: "producer_step ?s1 ?s2" by (rule push_fast) (simp_all add: shape(2) idx)
  have s3: "producer_step ?s2 ?s3" by (rule push_store) (simp_all add: slot_write_ok [OF shape(1)])
  have s4: "producer_step ?s3 ?s4" by (rule push_publish) simp
  note reach = reach_producer [OF reach_producer [OF reach_producer [OF reach_producer [OF reach_init]]]]
  have r: "spmc_reach ?q ?s4" by (rule reach [OF s1 s2 s3 s4])
  have "length (pushed ?s4) - length (popped ?s4) \<le> unat (2 :: u64)"
    using spmc_concurrent_fifo [OF sample_queue sample_alloc_ok r] by simp
  with r show ?thesis by (intro exI [of _ ?s4]) simp
qed

text \<open>
  Used by one thread the queue is a bounded first-in first-out queue: for any sequence of
  pushes and pops, and however often the compare-and-exchange fails for no reason, every call returns and
  the values popped followed by those still queued are the values whose push was
  accepted, in order.
\<close>

lemma spmc_sequential_fifo:
  assumes "create_queue alloc cap = Some q" and "alloc_ok alloc" and "length ops < 2 ^ 64"
  shows "\<exists>accepted out q'. fifo_run try_push (try_pop spurious) q ops = Some (accepted, out, q') \<and>
    out @ spmc_contents q' = accepted"
proof -
  have "writeIdx q = 0" "readIdx q = 0" "readIdxCache q = 0" "writeIdxCache q = 0"
    using assms(1) by (auto simp: create_queue_def split: if_splits option.splits)
  then have "spmc_ok (length ops) q" "spmc_contents q = []"
    using create_queue_shape(1) [OF assms(1,2)] assms(3) by (simp_all add: spmc_ok_def spmc_contents_def)
  then show ?thesis using spmc.run_fifo [of ops q spurious] by auto
qed

lemma spmc_sequential_fifo_example:
  "\<exists>accepted out q'. fifo_run try_push (try_pop 3) (the (create_queue sample_alloc 2))
       [Push 1, Push 2, Push 3, Pop, Push 4, Pop] = Some (accepted, out, q') \<and>
     out @ spmc_contents q' = accepted"
  using spmc_sequential_fifo [OF sample_queue sample_alloc_ok, of "[Push 1, Push 2, Push 3, Pop, Push 4, Pop]" 3]
  by simp

text \<open>
  A batch is a non-empty prefix of the queue, of at most the size asked for; it is removed from the
  queue, and its length is what is returned.
\<close>

lemma spmc_pop_many_prefix:
  assumes "spmc_ok n q" and "0 < unat howmany" and "unat (readIdx q) + unat howmany < 2 ^ 64"
  shows "\<exists>k q'. try_pop_many spurious q howmany = Some (of_nat k, take k (spmc_contents q), q') \<and>
    spmc_ok n q' \<and> spmc_contents q' = drop k (spmc_contents q) \<and> k \<le> unat howmany \<and>
    (spmc_contents q \<noteq> [] \<longrightarrow> 0 < k) \<and> k \<le> length (spmc_contents q)"
  using try_pop_many_ok [OF assms(2) _ assms(1)] assms(3) by simp

lemma spmc_pop_many_prefix_example:
  "\<exists>k q'. try_pop_many 1 (the (create_queue sample_alloc 2)) 5 = Some (of_nat k, [], q') \<and> k = 0"
proof -
  let ?q = "the (create_queue sample_alloc 2)"
  have "writeIdx ?q = 0" "readIdx ?q = 0" "readIdxCache ?q = 0" "writeIdxCache ?q = 0"
    by (simp_all add: create_queue_def sample_alloc_def SIZEOF_SPMCQUEUE_def)
  then have "spmc_ok 0 ?q" "spmc_contents ?q = []" "readIdx ?q = 0"
    using create_queue_shape(1) [OF sample_queue sample_alloc_ok] by (simp_all add: spmc_ok_def spmc_contents_def)
  then show ?thesis using spmc_pop_many_prefix [of 0 ?q 5 1] by auto
qed

text \<open>
  The size of a batch is added to the read index without a check: after one of three
  elements has been taken, a request for \<open>2 ^ 64 - 1\<close> moves the read index back to 0, copies
  nothing and returns \<open>2 ^ 64 - 1\<close>, and the element that was taken is in the queue again.
\<close>

lemma spmc_huge_batch:
  "map_option (\<lambda>(accepted, out, q). (out, map_option (\<lambda>(n, vals, q'). (n, vals, readIdx q'))
       (try_pop_many 0 q (- 1))))
     (fifo_run try_push (try_pop 0) (the (create_queue sample_alloc 4)) [Push 1, Push 2, Push 3, Pop]) =
   Some ([1], Some (- 1, [], 0))"
  by code_simp

end
