(* ===== verification/Rtp_Utils.thy ===== *)
theory Rtp_Utils
  imports RS_Prelude
begin

text \<open>
  The companding functions of \<^verbatim>\<open>python/RtpUtils_mod.c\<close>: 16-bit linear samples to 8-bit mu-law
  and back, one sample at a time and, through tables, for whole buffers.

  \<open>long long\<close> and \<open>int\<close> are \<open>int\<close>; the one operation that can overflow, the negation of the smallest
  \<open>long long\<close>, is the outcome \<open>None\<close>. The linear resampler has its own theory.
\<close>

section \<open>Scalar functions\<close>

definition ULAW_BIAS :: int where
  "ULAW_BIAS = 0x84"

definition ULAW_CLIP :: int where
  "ULAW_CLIP = 32635"

text \<open>The search for the highest bit of the magnitude; the result is the exponent.\<close>

fun ulaw_exponent :: "nat \<Rightarrow> int \<Rightarrow> int \<Rightarrow> nat" where
  "ulaw_exponent 0 msk mag = 0"
| "ulaw_exponent (Suc n) msk mag = (if mag AND msk = 0 then ulaw_exponent n (drop_bit 1 msk) mag else Suc n)"

definition linear2ulaw_scalar :: "int \<Rightarrow> u8 option" where
  "linear2ulaw_scalar sample =
     (let sign = (if sample < 0 then 0x80 else 0) :: int in
      if sample = - (2 ^ 63) then None
      else
        (let mag0 = (if sample < 0 then - sample else sample);
             mag1 = (if mag0 > ULAW_CLIP then ULAW_CLIP else mag0);
             mag = mag1 + ULAW_BIAS;
             exponent = ulaw_exponent 7 0x4000 mag;
             mantissa = drop_bit (exponent + 3) mag AND 0x0F
         in Some (of_int (NOT (sign OR push_bit 4 (int exponent) OR mantissa) AND 0xFF))))"

definition ulaw2linear_scalar :: "u8 \<Rightarrow> int" where
  "ulaw2linear_scalar ulaw0 =
     (let ulaw = uint (NOT ulaw0);
          sign = ulaw AND 0x80;
          exponent = nat (drop_bit 4 ulaw AND 0x07);
          mantissa = ulaw AND 0x0F;
          sample = push_bit exponent (push_bit 3 mantissa + ULAW_BIAS) - ULAW_BIAS
      in if sign \<noteq> 0 then - sample else sample)"

section \<open>Tables and buffers\<close>

text \<open>The tables are filled by loops over all samples and all codes.\<close>

definition pcm16_index :: "int \<Rightarrow> nat" where
  "pcm16_index i = unat (of_int (i + 32768) :: u16)"

fun fill_table :: "(int \<Rightarrow> nat) \<Rightarrow> (int \<Rightarrow> 'v) \<Rightarrow> int list \<Rightarrow> 'v list \<Rightarrow> 'v list" where
  "fill_table ix f [] tab = tab"
| "fill_table ix f (i # is) tab = fill_table ix f is (tab[ix i := f i])"

definition g_pcm16_to_ulaw :: "u8 list" where
  "g_pcm16_to_ulaw = fill_table pcm16_index (\<lambda>i. the (linear2ulaw_scalar i)) [-32768..32767] (replicate 65536 0)"

definition g_ulaw_to_pcm :: "int list" where
  "g_ulaw_to_pcm = fill_table nat (\<lambda>i. ulaw2linear_scalar (of_int i)) [0..255] (replicate 256 0)"

text \<open>A buffer of bytes as samples, on a little-endian machine; an odd length is refused.\<close>

fun pcm16_from_bytes :: "u8 list \<Rightarrow> int list option" where
  "pcm16_from_bytes [] = Some []"
| "pcm16_from_bytes [b] = None"
| "pcm16_from_bytes (lo # hi # bs) =
     map_option ((#) (sint (push_bit 8 (ucast hi) OR ucast lo :: u16))) (pcm16_from_bytes bs)"

definition linear2ulaw :: "int list \<Rightarrow> u8 list option" where
  "linear2ulaw samples = those (map (\<lambda>s. rd g_pcm16_to_ulaw (pcm16_index s)) samples)"

definition ulaw2linear :: "u8 list \<Rightarrow> int list option" where
  "ulaw2linear codes = those (map (\<lambda>c. rd g_ulaw_to_pcm (unat c)) codes)"

definition ulaw2linear_int :: "int \<Rightarrow> int option" where
  "ulaw2linear_int ulaw = rd g_ulaw_to_pcm (unat (of_int (ulaw AND 0xFF) :: u8))"

section \<open>The Python functions\<close>

text \<open>
  A Python value is an integer, an object with a contiguous buffer of items of some size, or something without a
  buffer. Bytes have items of size 1, an \<open>array('h')\<close> has items of size 2. What the allocations return is an argument.
  Without a value the behaviour of the C code is undefined.
\<close>

datatype py_value = Py_int int | Py_buffer nat "u8 list" | Py_other

datatype utils_err = Overflow_error | Type_error string | Value_error string | Memory_error

definition pcm16_from_obj :: "bool \<Rightarrow> py_value \<Rightarrow> utils_err + int list" where
  "pcm16_from_obj malloc_ok obj =
     (case obj of
        Py_buffer itemsize buf \<Rightarrow>
          if itemsize = 2 then
            (case pcm16_from_bytes buf of
               None \<Rightarrow> Inl (Value_error ''PCM16 buffer must be 2-byte aligned'')
             | Some samples \<Rightarrow> Inr samples)
          else if itemsize = 1 then
            (case pcm16_from_bytes buf of
               None \<Rightarrow> Inl (Value_error ''PCM16 byte buffer length must be even'')
             | Some samples \<Rightarrow> if samples \<noteq> [] \<and> \<not> malloc_ok then Inl Memory_error else Inr samples)
          else Inl (Type_error ''expected a PCM16 buffer (itemsize 2) or PCM16 bytes'')
      | _ \<Rightarrow> Inl (Type_error ''a bytes-like object is required''))"

definition fits_long_long :: "int \<Rightarrow> bool" where
  "fits_long_long n \<longleftrightarrow> - (2 ^ 63) \<le> n \<and> n < 2 ^ 63"

definition PyRtpUtils_linear2ulaw :: "bool \<Rightarrow> bool \<Rightarrow> py_value \<Rightarrow> (utils_err + py_value) option" where
  "PyRtpUtils_linear2ulaw malloc_ok out_ok obj =
     (case obj of
        Py_int n \<Rightarrow>
          if \<not> fits_long_long n then Some (Inl Overflow_error)
          else map_option (\<lambda>c. Inr (Py_int (uint c))) (linear2ulaw_scalar n)
      | _ \<Rightarrow>
          (case pcm16_from_obj malloc_ok obj of
             Inl e \<Rightarrow> Some (Inl e)
           | Inr samples \<Rightarrow>
               if \<not> out_ok then Some (Inl Memory_error)
               else map_option (\<lambda>codes. Inr (Py_buffer 1 codes)) (linear2ulaw samples)))"

text \<open>The memory of 16-bit samples on a little-endian machine, which is what an array is made from.\<close>

definition pcm16_bytes :: "int list \<Rightarrow> u8 list" where
  "pcm16_bytes samples = concat (map (\<lambda>s. [ucast (of_int s :: u16), ucast (drop_bit 8 (of_int s :: u16))]) samples)"

definition array_h_from_pcm16 :: "bool \<Rightarrow> int list \<Rightarrow> utils_err + py_value" where
  "array_h_from_pcm16 objects_ok samples =
     (if \<not> objects_ok then Inl Memory_error else Inr (Py_buffer 2 (pcm16_bytes samples)))"

definition PyRtpUtils_ulaw2linear :: "bool \<Rightarrow> bool \<Rightarrow> py_value \<Rightarrow> (utils_err + py_value) option" where
  "PyRtpUtils_ulaw2linear malloc_ok objects_ok obj =
     (case obj of
        Py_int n \<Rightarrow>
          if \<not> fits_long_long n then Some (Inl Overflow_error)
          else map_option (\<lambda>s. Inr (Py_int s)) (ulaw2linear_int n)
      | Py_other \<Rightarrow> Some (Inl (Type_error ''a bytes-like object is required''))
      | Py_buffer itemsize buf \<Rightarrow>
          if itemsize \<noteq> 1 then Some (Inl (Type_error ''ulaw2linear expects bytes-like input''))
          else if buf \<noteq> [] \<and> \<not> malloc_ok then Some (Inl Memory_error)
          else map_option (array_h_from_pcm16 objects_ok) (ulaw2linear buf))"

section \<open>Tables hold the scalar functions\<close>

lemma length_fill_table [simp]: "length (fill_table ix f is tab) = length tab"
  by (induction ix f "is" tab rule: fill_table.induct) auto

lemma fill_table_nth:
  "inj_on ix (set is) \<Longrightarrow> \<forall>i \<in> set is. ix i < length tab \<Longrightarrow> i \<in> set is \<Longrightarrow> fill_table ix f is tab ! ix i = f i"
proof (induction ix f "is" tab rule: fill_table.induct)
  case (2 ix f j js tab)
  have other: "fill_table ix f js tab' ! k = tab' ! k" if "k \<notin> ix ` set js" for tab' k
    using that by (induction ix f js tab' rule: fill_table.induct) auto
  show ?case
  proof (cases "i \<in> set js")
    case True
    with 2 show ?thesis by (simp add: inj_on_def)
  next
    case False
    with 2 have "i = j" by simp
    moreover from this 2(2) False have "ix j \<notin> ix ` set js" by (auto simp: inj_on_def)
    ultimately show ?thesis using 2(3) other by simp
  qed
qed simp

lemma fill_table_upto:
  assumes "inj_on ix {a..b}" "\<And>i. i \<in> {a..b} \<Longrightarrow> ix i < n" "i \<in> {a..b}"
  shows "fill_table ix f [a..b] (replicate n v) ! ix i = f i"
  using fill_table_nth [of ix "[a..b]" "replicate n v" i f] assms by (simp only: set_upto length_replicate) blast

lemma pcm16_index_eq: "- 32768 \<le> i \<Longrightarrow> i \<le> 32767 \<Longrightarrow> pcm16_index i = nat (i + 32768)"
  by (simp add: pcm16_index_def unat_eq_nat_uint uint_word_of_int_eq take_bit_int_eq_self del: of_int_add)

lemma length_tables: "length g_pcm16_to_ulaw = 65536" "length g_ulaw_to_pcm = 256"
  unfolding g_pcm16_to_ulaw_def g_ulaw_to_pcm_def by (simp_all only: length_fill_table length_replicate)

lemma g_pcm16_to_ulaw_nth:
  assumes "- 32768 \<le> i" "i \<le> 32767"
  shows "rd g_pcm16_to_ulaw (pcm16_index i) = linear2ulaw_scalar i"
proof -
  have "g_pcm16_to_ulaw ! pcm16_index i = the (linear2ulaw_scalar i)"
    unfolding g_pcm16_to_ulaw_def using assms
    by (intro fill_table_upto) (auto simp: inj_on_def pcm16_index_eq nat_less_iff)
  moreover have "linear2ulaw_scalar i \<noteq> None"
  proof -
    have "i \<noteq> - (2 ^ 63)" using assms by simp
    then show ?thesis unfolding linear2ulaw_scalar_def Let_def by (simp only: if_False option.distinct) simp
  qed
  ultimately show ?thesis using assms by (auto simp: rd_def length_tables pcm16_index_eq)
qed

lemma g_ulaw_to_pcm_nth: "rd g_ulaw_to_pcm (unat c) = Some (ulaw2linear_scalar c)"
proof -
  have c: "uint c \<in> {0..255}" "unat c < 256"
    using unsigned_less [of c, where 'a = int] unsigned_less [of c, where 'a = nat] by simp_all
  have "g_ulaw_to_pcm ! nat (uint c) = ulaw2linear_scalar (of_int (uint c))"
    unfolding g_ulaw_to_pcm_def
    by (rule fill_table_upto [where ix = nat, OF _ _ c(1)]) (auto simp: inj_on_def)
  then show ?thesis using c(2) by (simp add: rd_def length_tables)
qed

section \<open>Encoding and decoding\<close>

text \<open>All 256 codes, one by one.\<close>

definition code_ok :: "int \<Rightarrow> bool" where
  "code_ok i \<longleftrightarrow> linear2ulaw_scalar (ulaw2linear_scalar (of_int i)) = Some (if i = 127 then 255 else of_int i)"

lemma all_codes_ok: "list_all code_ok [0..255]"
  by code_simp

lemma code_roundtrip:
  "linear2ulaw_scalar (ulaw2linear_scalar c) = Some (if c = 127 then 255 else c)"
proof -
  have "uint c \<in> {0..255}" using unsigned_less [of c, where 'a = int] by simp
  then have "code_ok (uint c)" using all_codes_ok by (simp only: list_all_iff set_upto)
  moreover have "uint c = 127 \<longleftrightarrow> c = 127" by (simp add: word_uint_eq_iff)
  ultimately show ?thesis by (simp add: code_ok_def)
qed

definition ulaw_code :: "int \<Rightarrow> nat \<Rightarrow> int \<Rightarrow> u8" where
  "ulaw_code sign e m = of_int (NOT (sign OR push_bit 4 (int e) OR m) AND 0xFF)"

definition fields_ok :: "int \<Rightarrow> nat \<Rightarrow> int \<Rightarrow> bool" where
  "fields_ok sign e m \<longleftrightarrow> ulaw2linear_scalar (ulaw_code sign e m) =
     (if sign = 0 then 1 else -1) * ((8 * m + 132) * 2 ^ e - 132)"

lemma all_fields_ok: "list_all (\<lambda>sign. list_all (\<lambda>e. list_all (fields_ok sign e) [0..15]) [0..<8]) [0, 128]"
  by code_simp

lemma pos_le_divide_eq_int: "0 < (c :: int) \<Longrightarrow> k \<le> a div c \<Longrightarrow> k * c \<le> a"
proof -
  assume c: "0 < c" and k: "k \<le> a div c"
  then have "k * c \<le> (a div c) * c" by (simp add: mult_right_mono)
  also have "\<dots> = a - a mod c" by (simp add: minus_mod_eq_div_mult)
  also have "\<dots> \<le> a" using c by simp
  finally show ?thesis .
qed

lemma ulaw_exponent_range:
  "128 \<le> mag \<Longrightarrow> mag < 2 ^ (n + 8) \<Longrightarrow>
     ulaw_exponent n (2 ^ (n + 7)) mag \<le> n \<and>
     2 ^ (ulaw_exponent n (2 ^ (n + 7)) mag + 7) \<le> mag \<and> mag < 2 ^ (ulaw_exponent n (2 ^ (n + 7)) mag + 8)"
proof (induction n)
  case 0
  then show ?case by simp
next
  case (Suc n)
  let ?k = "Suc n + 7"
  have d: "(mag :: int) div 2 ^ ?k < 2" "0 \<le> mag div 2 ^ ?k"
  proof -
    have "\<not> 2 \<le> mag div 2 ^ ?k"
    proof
      assume "2 \<le> mag div 2 ^ ?k"
      then have "2 * 2 ^ ?k \<le> mag" by (intro pos_le_divide_eq_int) auto
      moreover have "(2 :: int) ^ (Suc n + 8) = 2 * 2 ^ ?k" by (simp flip: power_Suc)
      ultimately show False using Suc.prems(2) by linarith
    qed
    then show "mag div 2 ^ ?k < 2" by simp
    show "0 \<le> mag div 2 ^ ?k" using Suc.prems(1) by (simp add: pos_imp_zdiv_nonneg_iff)
  qed
  have bit: "mag AND 2 ^ ?k = 0 \<longleftrightarrow> mag < 2 ^ ?k"
  proof -
    have "mag AND 2 ^ ?k = 0 \<longleftrightarrow> even (mag div 2 ^ ?k)"
      by (simp only: and_exp_eq_0_iff_not_bit bit_iff_odd not_not)
    also have "\<dots> \<longleftrightarrow> mag div 2 ^ ?k = 0" using d by auto
    also have "\<dots> \<longleftrightarrow> mag < 2 ^ ?k" using Suc.prems(1) by (simp add: zdiv_eq_0_iff)
    finally show ?thesis .
  qed
  have shift: "drop_bit 1 (2 ^ ?k :: int) = 2 ^ (n + 7)"
    by (simp only: drop_bit_eq_div add_Suc power_Suc) simp
  show ?case
  proof (cases "mag < 2 ^ ?k")
    case True
    then have "mag < 2 ^ (n + 8)" by (simp add: add.commute)
    with Suc.IH [OF Suc.prems(1)] True bit shift show ?thesis by (simp del: power_Suc)
  next
    case False
    with bit Suc.prems(2) show ?thesis by (simp del: power_Suc)
  qed
qed

lemma quantised:
  assumes "132 \<le> mag" "mag \<le> 32767"
  defines "e \<equiv> ulaw_exponent 7 0x4000 mag"
  defines "m \<equiv> drop_bit (e + 3) mag AND 0x0F"
  shows "e \<le> 7" "0 \<le> m" "m \<le> 15" "32 * \<bar>(8 * m + 132) * 2 ^ e - mag\<bar> \<le> mag"
proof -
  have e: "e \<le> 7" "2 ^ (e + 7) \<le> mag" "mag < 2 ^ (e + 8)"
    using ulaw_exponent_range [of mag 7] assms(1,2) by (simp_all add: e_def)
  then show "e \<le> 7" by simp
  have m: "m = mag div 2 ^ (e + 3) mod 16"
  proof -
    have "x AND 15 = x mod 16" for x :: int
      using take_bit_eq_mask [of 4 x] by (simp add: mask_eq_exp_minus_1 take_bit_eq_mod)
    then show ?thesis by (simp add: m_def drop_bit_eq_div)
  qed
  then show "0 \<le> m" "m \<le> 15" by simp_all
  let ?s = "2 ^ (e + 3) :: int"
  define q where "q = mag div ?s"
  define r where "r = mag mod ?s"
  have mag: "mag = q * ?s + r" "0 \<le> r" "r < ?s"
    unfolding q_def r_def by (simp_all only: div_mult_mod_eq pos_mod_sign pos_mod_bound zero_less_power zero_less_numeral)
  define t where "t = (2 :: int) ^ e"
  have st: "?s = 8 * t" "2 ^ (e + 7) = 128 * t" "2 ^ (e + 8) = 256 * t" "0 < t"
    by (simp_all add: t_def power_add)
  have mag': "mag = 8 * (q * t) + r" using mag(1) by (simp add: st)
  have "16 \<le> q"
  proof (rule ccontr)
    assume "\<not> 16 \<le> q"
    then have "(q + 1) * t \<le> 16 * t" using st(4) by (intro mult_right_mono) auto
    then have "q * t + t \<le> 16 * t" by (simp only: distrib_right mult_1_left)
    then show False using mag' mag(3) e(2) st by linarith
  qed
  moreover have "q < 32"
  proof (rule ccontr)
    assume "\<not> q < 32"
    then have "32 * t \<le> q * t" using st(4) by (intro mult_right_mono) auto
    then show False using mag' mag(2) e(3) st by linarith
  qed
  ultimately have "m = q - 16"
    unfolding m q_def [symmetric] by (subst mod_pos_pos_trivial [symmetric, of "q - 16" 16]) (simp_all add: mod_diff_right_eq)
  then have "m * t = q * t - 16 * t" by (simp only: left_diff_distrib)
  moreover have "(8 * m + 132) * 2 ^ e = 8 * (m * t) + 132 * t" by (simp add: t_def algebra_simps)
  ultimately have "(8 * m + 132) * 2 ^ e - mag = 4 * t - r" using mag' by linarith
  moreover have "\<bar>4 * t - r\<bar> \<le> 4 * t" using mag(2,3) st by (intro abs_leI) linarith+
  ultimately have "32 * \<bar>(8 * m + 132) * 2 ^ e - mag\<bar> \<le> 32 * (4 * t)" by (simp only: mult_left_mono)
  also have "32 * (4 * t) \<le> mag" using e(2) st by simp
  finally show "32 * \<bar>(8 * m + 132) * 2 ^ e - mag\<bar> \<le> mag" .
qed

lemma encode_decode:
  assumes "- ULAW_CLIP \<le> s" "s \<le> ULAW_CLIP"
  shows "\<exists>c. linear2ulaw_scalar s = Some c \<and> 32 * \<bar>ulaw2linear_scalar c - s\<bar> \<le> \<bar>s\<bar> + 132"
proof -
  define sign where "sign = (if s < 0 then 0x80 else 0 :: int)"
  define mag where "mag = \<bar>s\<bar> + 132"
  define e where "e = ulaw_exponent 7 0x4000 mag"
  define m where "m = drop_bit (e + 3) mag AND 0x0F"
  have range: "132 \<le> mag" "mag \<le> 32767" using assms by (auto simp: mag_def ULAW_CLIP_def)
  note q = quantised [OF range, folded e_def, folded m_def]
  have ne: "s \<noteq> - (2 ^ 63)" using assms by (simp add: ULAW_CLIP_def)
  have "(if s < 0 then - s else s) = \<bar>s\<bar>" by simp
  moreover have "\<not> \<bar>s\<bar> > ULAW_CLIP" using assms by auto
  ultimately have enc: "linear2ulaw_scalar s = Some (ulaw_code sign e m)"
    unfolding linear2ulaw_scalar_def Let_def ulaw_code_def
    by (simp only: ne if_False ULAW_BIAS_def mag_def e_def m_def sign_def)
  have "fields_ok sign e m"
    using all_fields_ok q(1-3) by (simp only: list_all_iff set_upto set_upt sign_def) auto
  then have "ulaw2linear_scalar (ulaw_code sign e m) = (if s < 0 then -1 else 1) * ((8 * m + 132) * 2 ^ e - 132)"
    by (simp add: fields_ok_def sign_def)
  moreover have "s = (if s < 0 then -1 else 1) * (mag - 132)" by (simp add: mag_def)
  ultimately have "\<bar>ulaw2linear_scalar (ulaw_code sign e m) - s\<bar> = \<bar>(8 * m + 132) * 2 ^ e - mag\<bar>"
    by (cases "s < 0") auto
  with q(4) enc show ?thesis by (simp add: mag_def)
qed

section \<open>Properties\<close>

text \<open>
  C35. Decoding a mu-law code and encoding the sample gives the code back, for every code but the one for
  negative zero, 127, which becomes the one for zero, 255.
\<close>

theorem ulaw_code_roundtrip:
  "linear2ulaw_scalar (ulaw2linear_scalar c) = Some (if c = 127 then 255 else c)"
  by (rule code_roundtrip)

text \<open>
  C36. Encoding a sample within the clipping range and decoding it again changes it by at most one 32nd of its
  biased magnitude.
\<close>

theorem ulaw_quantisation:
  assumes "- ULAW_CLIP \<le> s" and "s \<le> ULAW_CLIP"
  shows "\<exists>c. linear2ulaw_scalar s = Some c \<and> 32 * \<bar>ulaw2linear_scalar c - s\<bar> \<le> \<bar>s\<bar> + 132"
  using encode_decode [OF assms] .

theorem ulaw_quantisation_witness:
  "\<exists>c. linear2ulaw_scalar (-1000) = Some c \<and> 32 * \<bar>ulaw2linear_scalar c - (-1000)\<bar> \<le> 1132"
  using ulaw_quantisation [of "-1000"] by (simp add: ULAW_CLIP_def)

text \<open>
  The table-driven conversions of buffers agree with the scalar functions, sample for sample.
\<close>

lemma ulaw_buffers:
  assumes "\<forall>s \<in> set samples. - 32768 \<le> s \<and> s \<le> 32767"
  shows "linear2ulaw samples = those (map linear2ulaw_scalar samples) \<and>
    ulaw2linear codes = Some (map ulaw2linear_scalar codes)"
proof
  have "map (\<lambda>s. rd g_pcm16_to_ulaw (pcm16_index s)) samples = map linear2ulaw_scalar samples"
    using assms by (intro map_cong) (auto simp: g_pcm16_to_ulaw_nth)
  then show "linear2ulaw samples = those (map linear2ulaw_scalar samples)" by (simp only: linear2ulaw_def)
  show "ulaw2linear codes = Some (map ulaw2linear_scalar codes)"
    by (induction codes) (simp_all add: ulaw2linear_def g_ulaw_to_pcm_nth)
qed

lemma ulaw_buffers_example:
  "linear2ulaw [-32768, 7] = those (map linear2ulaw_scalar [-32768, 7]) \<and>
     ulaw2linear [0, 255] = Some [ulaw2linear_scalar 0, ulaw2linear_scalar 255]"
  using ulaw_buffers [of "[-32768, 7]" "[0, 255]"] by simp

lemma pcm16_bytes_roundtrip:
  "\<forall>s \<in> set samples. - 32768 \<le> s \<and> s \<le> 32767 \<Longrightarrow> pcm16_from_bytes (pcm16_bytes samples) = Some samples"
proof (induction samples)
  case (Cons s samples)
  define w where "w = (of_int s :: u16)"
  have "push_bit 8 (ucast (ucast (drop_bit 8 w) :: u8)) OR ucast (ucast w :: u8) = w"
    by (rule bit_word_eqI) (auto simp: bit_simps)
  moreover have "sint w = s"
    using Cons.prems by (simp add: w_def signed_of_int signed_take_bit_int_eq_self)
  ultimately show ?case using Cons by (simp add: pcm16_bytes_def w_def)
qed (simp add: pcm16_bytes_def)

definition sample_range_ok :: "int \<Rightarrow> bool" where
  "sample_range_ok i \<longleftrightarrow> \<bar>ulaw2linear_scalar (of_int i)\<bar> \<le> 32124"

lemma all_ranges_ok: "list_all sample_range_ok [0..255]"
  by code_simp

lemma ulaw2linear_range: "\<bar>ulaw2linear_scalar c\<bar> \<le> 32124"
proof -
  have "uint c \<in> set [0..255]" using unsigned_less [of c, where 'a = int] by simp
  with all_ranges_ok have "sample_range_ok (uint c)" unfolding list_all_iff by blast
  then show ?thesis by (simp add: sample_range_ok_def)
qed

text \<open>
  The round trip through the Python functions: the bytes that \<open>ulaw2linear\<close> decodes into an array come back from
  \<open>linear2ulaw\<close> of that array, but for the code of negative zero, 127, which comes back as 255.
\<close>

lemma ulaw_python_roundtrip:
  "\<exists>arr. PyRtpUtils_ulaw2linear True True (Py_buffer 1 codes) = Some (Inr arr) \<and>
     PyRtpUtils_linear2ulaw True True arr = Some (Inr (Py_buffer 1 (map (\<lambda>c. if c = 127 then 255 else c) codes)))"
proof -
  let ?samples = "map ulaw2linear_scalar codes"
  have range: "\<forall>s \<in> set ?samples. - 32768 \<le> s \<and> s \<le> 32767"
  proof
    fix s assume "s \<in> set ?samples"
    then have "\<bar>s\<bar> \<le> 32124" using ulaw2linear_range by auto
    then show "- 32768 \<le> s \<and> s \<le> 32767" by linarith
  qed
  note b = ulaw_buffers [OF range, of codes]
  have "those (map linear2ulaw_scalar ?samples) = Some (map (\<lambda>c. if c = 127 then 255 else c) codes)"
    by (induction codes) (simp_all add: code_roundtrip)
  then have "linear2ulaw ?samples = Some (map (\<lambda>c. if c = 127 then 255 else c) codes)" using b by simp
  then have "PyRtpUtils_linear2ulaw True True (Py_buffer 2 (pcm16_bytes ?samples)) =
      Some (Inr (Py_buffer 1 (map (\<lambda>c. if c = 127 then 255 else c) codes)))"
    by (simp add: PyRtpUtils_linear2ulaw_def pcm16_from_obj_def pcm16_bytes_roundtrip [OF range])
  moreover have "PyRtpUtils_ulaw2linear True True (Py_buffer 1 codes) = Some (Inr (Py_buffer 2 (pcm16_bytes ?samples)))"
    using b by (simp add: PyRtpUtils_ulaw2linear_def array_h_from_pcm16_def)
  ultimately show ?thesis by blast
qed

text \<open>
  The smallest \<open>long long\<close>, which the Python function passes on, is negated, which overflows.
\<close>

lemma ulaw_min_overflow: "PyRtpUtils_linear2ulaw malloc_ok out_ok (Py_int (- 9223372036854775808)) = None"
  by (simp add: PyRtpUtils_linear2ulaw_def fits_long_long_def linear2ulaw_scalar_def)

end
