(* ===== verification/Rtp_Sync.thy ===== *)
theory Rtp_Sync
  imports RS_Time
begin

text \<open>
  The synchronisation helpers of \<^verbatim>\<open>src/rtp_sync.c\<close>: a command queue that is a linked list
  through the commands themselves, a waiter on which one thread waits for the status another
  thread reports, and timed waits.

  A command is an address, and the field \<open>next\<close> of all commands is a map from addresses. The
  queue is used with its lock held, so its operations are atomic. The operations of the waiter are steps of two threads;
  \<open>pthread_cond_wait\<close> may return without a reason.
\<close>

section \<open>Command queue\<close>

type_synonym cmd_addr = nat

record cmdq =
  cmd_head :: "cmd_addr option"
  cmd_tail :: "cmd_addr option"
  cmd_next :: "cmd_addr \<Rightarrow> cmd_addr option"

definition rtp_sync_cmdq_push :: "cmdq \<Rightarrow> cmd_addr \<Rightarrow> cmdq" where
  "rtp_sync_cmdq_push q cmd =
     (let q0 = q\<lparr>cmd_next := (cmd_next q)(cmd := None)\<rparr> in
      case cmd_tail q0 of
        Some t \<Rightarrow> q0\<lparr>cmd_next := (cmd_next q0)(t := Some cmd), cmd_tail := Some cmd\<rparr>
      | None \<Rightarrow> q0\<lparr>cmd_head := Some cmd, cmd_tail := Some cmd\<rparr>)"

definition rtp_sync_cmdq_detach_all :: "cmdq \<Rightarrow> cmd_addr option \<times> cmdq" where
  "rtp_sync_cmdq_detach_all q = (cmd_head q, q\<lparr>cmd_head := None, cmd_tail := None\<rparr>)"

text \<open>Following \<open>next\<close> from a detached head, as the worker does; the number bounds the steps.\<close>

fun cmd_chain :: "nat \<Rightarrow> (cmd_addr \<Rightarrow> cmd_addr option) \<Rightarrow> cmd_addr option \<Rightarrow> cmd_addr list option" where
  "cmd_chain fuel nx None = Some []"
| "cmd_chain 0 nx (Some c) = None"
| "cmd_chain (Suc fuel) nx (Some c) = map_option ((#) c) (cmd_chain fuel nx (nx c))"

text \<open>The queue holds these commands, in this order.\<close>

fun linked :: "(cmd_addr \<Rightarrow> cmd_addr option) \<Rightarrow> cmd_addr option \<Rightarrow> cmd_addr list \<Rightarrow> bool" where
  "linked nx p [] \<longleftrightarrow> p = None"
| "linked nx p (c # cs) \<longleftrightarrow> p = Some c \<and> linked nx (nx c) cs"

definition cmdq_holds :: "cmdq \<Rightarrow> cmd_addr list \<Rightarrow> bool" where
  "cmdq_holds q cs \<longleftrightarrow> distinct cs \<and> linked (cmd_next q) (cmd_head q) cs \<and>
     cmd_tail q = (if cs = [] then None else Some (last cs))"

lemma linked_upd: "c \<notin> set cs \<Longrightarrow> linked (nx(c := p)) h cs \<longleftrightarrow> linked nx h cs"
  by (induction cs arbitrary: h) auto

lemma linked_append:
  "linked nx h cs \<Longrightarrow> cs \<noteq> [] \<Longrightarrow> distinct cs \<Longrightarrow> c \<notin> set cs \<Longrightarrow> nx c = None \<Longrightarrow>
     linked (nx(last cs := Some c)) h (cs @ [c])"
proof (induction cs arbitrary: h)
  case (Cons a cs)
  then show ?case
    by (cases "cs = []") (auto simp: linked_upd)
qed simp

lemma push_holds:
  assumes "cmdq_holds q cs" "c \<notin> set cs"
  shows "cmdq_holds (rtp_sync_cmdq_push q c) (cs @ [c])"
proof (cases "cs = []")
  case True
  then show ?thesis using assms by (simp add: cmdq_holds_def rtp_sync_cmdq_push_def)
next
  case False
  let ?nx = "(cmd_next q)(c := None)"
  have "linked ?nx (cmd_head q) cs" using assms by (simp add: cmdq_holds_def linked_upd)
  then have "linked (?nx(last cs := Some c)) (cmd_head q) (cs @ [c])"
    using False assms by (intro linked_append) (auto simp: cmdq_holds_def)
  then show ?thesis using False assms by (simp add: cmdq_holds_def rtp_sync_cmdq_push_def)
qed

lemma chain_linked: "linked nx h cs \<Longrightarrow> length cs \<le> fuel \<Longrightarrow> cmd_chain fuel nx h = Some cs"
proof (induction cs arbitrary: h fuel)
  case (Cons c cs)
  then show ?case by (cases fuel) auto
qed (auto elim: cmd_chain.elims)

lemma detach_holds:
  assumes "cmdq_holds q cs"
  shows "cmdq_holds (snd (rtp_sync_cmdq_detach_all q)) []"
    "cmd_chain (length cs) (cmd_next q) (fst (rtp_sync_cmdq_detach_all q)) = Some cs"
  using assms chain_linked by (auto simp: cmdq_holds_def rtp_sync_cmdq_detach_all_def)

section \<open>Waiter\<close>

record rtp_sync_waiter =
  w_done :: bool
  w_status :: int

definition rtp_sync_waiter_init :: "bool \<Rightarrow> bool \<Rightarrow> rtp_sync_waiter option" where
  "rtp_sync_waiter_init mutex_ok cond_ok =
     (if \<not> mutex_ok then None else if \<not> cond_ok then None
      else Some \<lparr>w_done = False, w_status = 0\<rparr>)"

definition rtp_sync_waiter_reset :: "rtp_sync_waiter \<Rightarrow> rtp_sync_waiter" where
  "rtp_sync_waiter_reset w = w\<lparr>w_done := False, w_status := 0\<rparr>"

definition rtp_sync_waiter_complete :: "rtp_sync_waiter \<Rightarrow> int \<Rightarrow> rtp_sync_waiter" where
  "rtp_sync_waiter_complete w st = w\<lparr>w_status := st, w_done := True\<rparr>"

text \<open>The thread in \<open>rtp_sync_waiter_wait\<close>: it tests \<open>done\<close> with the lock held, sleeps, or has returned.\<close>

datatype wait_pc = W_test | W_asleep | W_returned int

text \<open>
  One step of the waiting thread or of the thread that completes; the last component lists the statuses that were
  reported. \<open>pthread_cond_signal\<close> wakes the sleeping thread.
\<close>

inductive waiter_step ::
    "rtp_sync_waiter \<times> wait_pc \<times> int list \<Rightarrow> rtp_sync_waiter \<times> wait_pc \<times> int list \<Rightarrow> bool" where
  wait_return: "w_done w \<Longrightarrow> waiter_step (w, W_test, sts) (w, W_returned (w_status w), sts)"
| wait_sleep: "\<not> w_done w \<Longrightarrow> waiter_step (w, W_test, sts) (w, W_asleep, sts)"
| wait_spurious: "waiter_step (w, W_asleep, sts) (w, W_test, sts)"
| wait_complete: "waiter_step (w, pc, sts)
    (rtp_sync_waiter_complete w st, (if pc = W_asleep then W_test else pc), sts @ [st])"

inductive waiter_reach :: "rtp_sync_waiter \<Rightarrow> rtp_sync_waiter \<times> wait_pc \<times> int list \<Rightarrow> bool" for w0 where
  waiter_start: "waiter_reach w0 (rtp_sync_waiter_reset w0, W_test, [])"
| waiter_next: "waiter_reach w0 s \<Longrightarrow> waiter_step s s' \<Longrightarrow> waiter_reach w0 s'"

inductive_cases waiter_stepE: "waiter_step s s'"

definition waiter_inv :: "rtp_sync_waiter \<times> wait_pc \<times> int list \<Rightarrow> bool" where
  "waiter_inv s \<longleftrightarrow> (case s of (w, pc, sts) \<Rightarrow>
     (w_done w \<longleftrightarrow> sts \<noteq> []) \<and> (sts \<noteq> [] \<longrightarrow> w_status w = last sts) \<and>
     (case pc of W_test \<Rightarrow> True | W_asleep \<Rightarrow> \<not> w_done w | W_returned st \<Rightarrow> st \<in> set sts))"

lemma waiter_step_inv: "waiter_step s s' \<Longrightarrow> waiter_inv s \<Longrightarrow> waiter_inv s'"
  by (induction rule: waiter_step.induct)
    (auto simp: waiter_inv_def rtp_sync_waiter_complete_def split: wait_pc.splits)

lemma waiter_reach_inv: "waiter_reach w0 s \<Longrightarrow> waiter_inv s"
proof (induction rule: waiter_reach.induct)
  case waiter_start
  then show ?case by (simp add: waiter_inv_def rtp_sync_waiter_reset_def)
next
  case (waiter_next s s')
  then show ?case by (blast intro: waiter_step_inv)
qed

section \<open>Timed waits\<close>

text \<open>The absolute time handed to \<open>pthread_cond_timedwait\<close>.\<close>

definition timedwait_abs_ns :: "u64 \<Rightarrow> timespec" where
  "timedwait_abs_ns abs_ns = Timespec (uint (abs_ns div 1000000000)) (uint (abs_ns mod 1000000000))"

definition rtp_sync_cond_timedwait_abs_ns :: "(timespec \<Rightarrow> int) \<Rightarrow> u64 \<Rightarrow> int" where
  "rtp_sync_cond_timedwait_abs_ns timedwait abs_ns = timedwait (timedwait_abs_ns abs_ns)"

definition timedwait_deadline :: "timespec \<Rightarrow> u64 \<Rightarrow> u64" where
  "timedwait_deadline now wait_ns =
     (let sec = tv_sec now + uint (wait_ns div 1000000000);
          nsec = tv_nsec now + uint (wait_ns mod 1000000000);
          (sec', nsec') = (if nsec \<ge> 1000000000 then (sec + 1, nsec - 1000000000) else (sec, nsec))
      in of_int sec' * 1000000000 + of_int nsec')"

definition rtp_sync_cond_timedwait_ns :: "(timespec \<Rightarrow> int) \<Rightarrow> timespec option \<Rightarrow> u64 \<Rightarrow> int" where
  "rtp_sync_cond_timedwait_ns timedwait clock wait_ns =
     (case clock of
        None \<Rightarrow> -1
      | Some now \<Rightarrow> rtp_sync_cond_timedwait_abs_ns timedwait (timedwait_deadline now wait_ns))"

datatype clock_id = CLOCK_REALTIME | CLOCK_MONOTONIC

text \<open>The results of the calls of the thread library are arguments; the result is the code and the clock.\<close>

definition rtp_sync_cond_init_monotonic :: "bool \<Rightarrow> bool \<Rightarrow> bool \<Rightarrow> int \<times> clock_id" where
  "rtp_sync_cond_init_monotonic attr_ok setclock_ok cond_ok =
     (if \<not> attr_ok then (-1, CLOCK_REALTIME)
      else
        (let clock = (if setclock_ok then CLOCK_MONOTONIC else CLOCK_REALTIME)
         in if \<not> cond_ok then (-1, clock) else (0, clock)))"

lemma uint_ns_split:
  "uint (w div 1000000000 :: u64) = uint w div 1000000000" "uint (w mod 1000000000 :: u64) = uint w mod 1000000000"
  using uint_div [of w 1000000000] uint_mod [of w 1000000000] by simp_all

lemma timedwait_deadline_ns: "timedwait_deadline now wait_ns = of_int (ts_ns now + uint wait_ns)"
proof -
  define q r where "q = uint wait_ns div 1000000000" and "r = uint wait_ns mod 1000000000"
  have "uint wait_ns = q * 1000000000 + r" unfolding q_def r_def by (simp only: div_mult_mod_eq)
  then have "ts_ns now + uint wait_ns = (tv_sec now + q) * 1000000000 + (tv_nsec now + r)"
    by (simp add: ts_ns_def NSEC_IN_SEC_def algebra_simps)
  moreover have "timedwait_deadline now wait_ns = of_int ((tv_sec now + q) * 1000000000 + (tv_nsec now + r))"
    unfolding timedwait_deadline_def uint_ns_split q_def [symmetric] r_def [symmetric] Let_def
    by (simp add: algebra_simps)
  ultimately show ?thesis by (simp only:)
qed

lemma timedwait_abs_ns_inv: "ts_ns (timedwait_abs_ns t) = uint t" "ts_valid (timedwait_abs_ns t)"
  by (simp_all add: timedwait_abs_ns_def ts_ns_def ts_valid_def NSEC_IN_SEC_def uint_ns_split)

section \<open>Properties\<close>

text \<open>
  The command queue is a first-in first-out queue: commands pushed one after the other are
  found in this order behind the head that \<open>detach_all\<close> returns, and the queue is empty afterwards.
\<close>

lemma cmdq_fifo:
  assumes "cmdq_holds q cs" and "distinct (cs @ new)"
  shows "cmdq_holds (fold (\<lambda>c q. rtp_sync_cmdq_push q c) new q) (cs @ new) \<and>
    cmd_chain (length (cs @ new)) (cmd_next (fold (\<lambda>c q. rtp_sync_cmdq_push q c) new q))
      (fst (rtp_sync_cmdq_detach_all (fold (\<lambda>c q. rtp_sync_cmdq_push q c) new q))) = Some (cs @ new) \<and>
    cmdq_holds (snd (rtp_sync_cmdq_detach_all (fold (\<lambda>c q. rtp_sync_cmdq_push q c) new q))) []"
proof -
  have "cmdq_holds (fold (\<lambda>c q. rtp_sync_cmdq_push q c) new q) (cs @ new)"
    using assms
  proof (induction new arbitrary: q cs)
    case (Cons c new)
    then have "cmdq_holds (rtp_sync_cmdq_push q c) (cs @ [c])" by (intro push_holds) auto
    with Cons.IH [of "rtp_sync_cmdq_push q c" "cs @ [c]"] Cons.prems show ?case by simp
  qed simp
  then show ?thesis using detach_holds by blast
qed

lemma cmdq_fifo_example:
  "cmd_chain 3 (cmd_next (fold (\<lambda>c q. rtp_sync_cmdq_push q c) [5, 9, 2]
       \<lparr>cmd_head = None, cmd_tail = None, cmd_next = (\<lambda>a. Some 7)\<rparr>))
     (fst (rtp_sync_cmdq_detach_all (fold (\<lambda>c q. rtp_sync_cmdq_push q c) [5, 9, 2]
       \<lparr>cmd_head = None, cmd_tail = None, cmd_next = (\<lambda>a. Some 7)\<rparr>))) = Some [5, 9, 2]"
proof -
  have "cmdq_holds \<lparr>cmd_head = None, cmd_tail = None, cmd_next = (\<lambda>a. Some 7)\<rparr> []"
    by (simp add: cmdq_holds_def)
  from cmdq_fifo [OF this, of "[5, 9, 2]"] show ?thesis by (simp add: eval_nat_numeral)
qed

text \<open>
  C34. The waiting thread never misses its wake-up: once a status has been reported it is not asleep, whatever the interleaving and the spurious
  wake-ups; and what it returns is a status that was reported. The mutex makes the test of the flag with the falling asleep, and the setting of the
  flag with the signal, one step each.
\<close>

theorem waiter_no_lost_wakeup:
  assumes "waiter_reach w0 (w, pc, sts)"
  shows "(sts \<noteq> [] \<longrightarrow> pc \<noteq> W_asleep) \<and> (\<forall>st. pc = W_returned st \<longrightarrow> st \<in> set sts)"
  using waiter_reach_inv [OF assms] by (auto simp: waiter_inv_def)

theorem waiter_no_lost_wakeup_witness:
  "\<exists>w pc. waiter_reach \<lparr>w_done = True, w_status = 3\<rparr> (w, pc, [12]) \<and> pc \<noteq> W_asleep"
proof -
  let ?old = "\<lparr>w_done = True, w_status = 3\<rparr>" and ?w = "\<lparr>w_done = False, w_status = 0\<rparr>"
  have "waiter_reach ?old (?w, W_test, [])"
    using waiter_start [of ?old] by (simp add: rtp_sync_waiter_reset_def)
  then have "waiter_reach ?old (?w, W_asleep, [])"
    by (rule waiter_next) (simp add: wait_sleep)
  then have r: "waiter_reach ?old (rtp_sync_waiter_complete ?w 12, W_test, [12])"
    using wait_complete [of ?w W_asleep "[]" 12] by (auto intro: waiter_next)
  from waiter_no_lost_wakeup [OF r] r show ?thesis by auto
qed

text \<open>
  A wait for a number of nanoseconds ends at the clock reading plus that number, given to
  the thread library as a normalised time.
\<close>

lemma timedwait_exact:
  assumes "0 \<le> ts_ns now" and "ts_ns now + uint wait_ns < 2 ^ 64"
  shows "\<exists>t. rtp_sync_cond_timedwait_ns timedwait (Some now) wait_ns = timedwait t \<and>
    ts_valid t \<and> ts_ns t = ts_ns now + uint wait_ns"
proof -
  have "uint (of_int (ts_ns now + uint wait_ns) :: u64) = ts_ns now + uint wait_ns"
    using assms by (simp add: uint_word_of_int_eq take_bit_int_eq_self del: of_int_add)
  then show ?thesis
    using timedwait_abs_ns_inv [of "timedwait_deadline now wait_ns"]
    by (auto simp: rtp_sync_cond_timedwait_ns_def rtp_sync_cond_timedwait_abs_ns_def timedwait_deadline_ns
        simp del: of_int_add)
qed

lemma timedwait_exact_example:
  "\<exists>t. rtp_sync_cond_timedwait_ns tv_sec (Some (Timespec 5 900000000)) 200000000 = tv_sec t \<and>
     ts_valid t \<and> ts_ns t = 6100000000"
  using timedwait_exact [of "Timespec 5 900000000" 200000000 tv_sec] by (simp add: ts_ns_def NSEC_IN_SEC_def)

end
