(* ===== verification/Rtp_Proc.thy ===== *)
theory Rtp_Proc
  imports Rtp_Sync
begin

text \<open>
  The scheduler of \<^verbatim>\<open>python/RtpProc_mod.c\<close>: channels with a callback that is called when its deadline
  has passed and says when it wants to be called next.

  A pointer to a channel is its index in the array of channels, and the list that is linked through
  \<open>sched_next\<close> is a HOL list of indices. Everything outside of the scheduler, which is the clock, the Python callbacks
  and \<open>realloc\<close>, is an environment with a state of its own. A reference to a Python object that is given up is recorded. The
  command queue is the list of the commands it holds (\<open>Rtp_Sync\<close>).
\<close>

section \<open>State\<close>

text \<open>What the call of a Python callback gives, and what the scheduler makes of it.\<close>

datatype 'e py_ret = Py_raised 'e | Py_None | Py_long int | Py_object

datatype 'e cb_result = Cb_raise "'e option" | Cb_none | Cb_next u64

record ('cb, 'e, 'w) proc_env =
  env_now :: "'w \<Rightarrow> u64 \<times> 'w"
  env_cmd_now :: "'w \<Rightarrow> u64 \<times> 'w"
  env_call :: "'cb \<Rightarrow> u64 \<Rightarrow> u64 \<Rightarrow> 'w \<Rightarrow> 'e py_ret option \<times> 'w"
  env_OverflowError :: 'e
  env_TypeError :: 'e
  env_realloc :: "nat \<Rightarrow> 'w \<Rightarrow> bool option \<times> 'w"

record ('cb, 'e) proc_channel_state =
  active :: bool
  scheduled :: bool
  ch_id :: u64
  next_run_ns :: u64
  proc_in_cb :: "'cb option"
  cb_exc :: "'e option"

record ('cb, 'e) proc =
  channels :: "('cb, 'e) proc_channel_state list"
  channels_active :: nat
  sched :: "nat list"
  close_exc :: "'e option"
  decrefs :: "'cb list"

datatype 'cb proc_cmd =
    CMD_ADD_CHANNEL u64 'cb
  | CMD_REMOVE_CHANNEL u64 bool
  | CMD_SHUTDOWN

definition channel_zero :: "('cb, 'e) proc_channel_state" where
  "channel_zero = \<lparr>active = False, scheduled = False, ch_id = 0, next_run_ns = 0,
     proc_in_cb = None, cb_exc = None\<rparr>"

definition upd_channel ::
    "('cb, 'e) proc \<Rightarrow> nat \<Rightarrow> (('cb, 'e) proc_channel_state \<Rightarrow> ('cb, 'e) proc_channel_state) \<Rightarrow> ('cb, 'e) proc" where
  "upd_channel p i f = p\<lparr>channels := (channels p)[i := f (channels p ! i)]\<rparr>"

abbreviation chan :: "('cb, 'e) proc \<Rightarrow> nat \<Rightarrow> ('cb, 'e) proc_channel_state" where
  "chan p i \<equiv> channels p ! i"

section \<open>The schedule\<close>

definition unschedule_channel :: "('cb, 'e) proc \<Rightarrow> nat \<Rightarrow> ('cb, 'e) proc" where
  "unschedule_channel p ch =
     (if \<not> scheduled (chan p ch) then p
      else upd_channel (p\<lparr>sched := remove1 ch (sched p)\<rparr>) ch (\<lambda>c. c\<lparr>scheduled := False\<rparr>))"

text \<open>Behind the channels that are due no later.\<close>

definition sched_insert :: "('cb, 'e) proc \<Rightarrow> nat \<Rightarrow> u64 \<Rightarrow> nat list \<Rightarrow> nat list" where
  "sched_insert p ch t xs =
     takeWhile (\<lambda>i. next_run_ns (chan p i) \<le> t) xs @ ch # dropWhile (\<lambda>i. next_run_ns (chan p i) \<le> t) xs"

definition schedule_channel :: "('cb, 'e) proc \<Rightarrow> nat \<Rightarrow> u64 \<Rightarrow> ('cb, 'e) proc" where
  "schedule_channel p ch next_ns =
     (let p0 = (if scheduled (chan p ch) then unschedule_channel p ch else p);
          p1 = upd_channel p0 ch (\<lambda>c. c\<lparr>next_run_ns := next_ns, scheduled := True\<rparr>)
      in p1\<lparr>sched := sched_insert p1 ch next_ns (sched p1)\<rparr>)"

fun rebuild_loop :: "('cb, 'e) proc \<Rightarrow> nat list \<Rightarrow> nat list \<Rightarrow> nat list" where
  "rebuild_loop p [] acc = acc"
| "rebuild_loop p (i # is) acc =
     (if \<not> active (chan p i) \<or> \<not> scheduled (chan p i) then rebuild_loop p is acc
      else rebuild_loop p is (sched_insert p i (next_run_ns (chan p i)) acc))"

definition rebuild_schedule_list :: "('cb, 'e) proc \<Rightarrow> ('cb, 'e) proc" where
  "rebuild_schedule_list p = p\<lparr>sched := rebuild_loop p [0..<length (channels p)] []\<rparr>"

definition pop_due_channel :: "('cb, 'e) proc \<Rightarrow> u64 \<Rightarrow> (nat \<times> ('cb, 'e) proc) option" where
  "pop_due_channel p now_ns =
     (case sched p of
        [] \<Rightarrow> None
      | ch # rest \<Rightarrow>
          if next_run_ns (chan p ch) > now_ns then None
          else Some (ch, upd_channel (p\<lparr>sched := rest\<rparr>) ch (\<lambda>c. c\<lparr>scheduled := False\<rparr>)))"

section \<open>Channels\<close>

definition release_channel_state :: "('cb, 'e) proc \<Rightarrow> nat \<Rightarrow> ('cb, 'e) proc" where
  "release_channel_state p ch =
     (if \<not> active (chan p ch) then p
      else
        (let p1 = unschedule_channel p ch;
             p2 = (case proc_in_cb (chan p1 ch) of None \<Rightarrow> p1 | Some cb \<Rightarrow> p1\<lparr>decrefs := decrefs p1 @ [cb]\<rparr>)
         in upd_channel p2 ch (\<lambda>c. c\<lparr>cb_exc := None, proc_in_cb := None, ch_id := 0, active := False,
              next_run_ns := 0\<rparr>)))"

definition clear_channels :: "('cb, 'e) proc \<Rightarrow> ('cb, 'e) proc" where
  "clear_channels p =
     (fold (\<lambda>i p. release_channel_state p i) [0..<length (channels p)] p)
       \<lparr>channels := [], channels_active := 0, sched := []\<rparr>"

definition ensure_channel_capacity ::
    "('cb, 'e, 'w) proc_env \<Rightarrow> ('cb, 'e) proc \<Rightarrow> nat \<Rightarrow> 'w \<Rightarrow> (int \<times> ('cb, 'e) proc) \<times> 'w" where
  "ensure_channel_capacity env p need w =
     (let cap = length (channels p) in
      if need \<le> cap then ((0, p), w)
      else case grow_cap (if cap = 0 then 4 else cap) need of
             None \<Rightarrow> ((-1, p), w)
           | Some new_cap \<Rightarrow>
               (case env_realloc env new_cap w of
                  (None, w') \<Rightarrow> ((-1, p), w')
                | (Some moved, w') \<Rightarrow>
                    (let p1 = p\<lparr>channels := channels p @ replicate (new_cap - cap) channel_zero\<rparr>
                     in ((0, if moved \<and> sched p1 \<noteq> [] then rebuild_schedule_list p1 else p1), w'))))"

definition first_free :: "('cb, 'e) proc \<Rightarrow> nat option" where
  "first_free p = find (\<lambda>i. \<not> active (chan p i)) [0..<length (channels p)]"

definition alloc_channel_slot ::
    "('cb, 'e, 'w) proc_env \<Rightarrow> ('cb, 'e) proc \<Rightarrow> 'w \<Rightarrow> (nat option \<times> ('cb, 'e) proc) \<times> 'w" where
  "alloc_channel_slot env p w =
     (case first_free p of
        Some i \<Rightarrow> ((Some i, p), w)
      | None \<Rightarrow>
          (let old_cap = length (channels p)
           in case ensure_channel_capacity env p (if old_cap = 0 then 4 else old_cap * 2) w of
                ((rc, p1), w') \<Rightarrow> ((if rc \<noteq> 0 then None else Some old_cap, p1), w')))"

definition find_channel_index :: "('cb, 'e) proc \<Rightarrow> u64 \<Rightarrow> nat option" where
  "find_channel_index p id' = find (\<lambda>i. active (chan p i) \<and> ch_id (chan p i) = id') [0..<length (channels p)]"

text \<open>The exception of the callback is handed to the caller.\<close>

definition remove_channel :: "('cb, 'e) proc \<Rightarrow> u64 \<Rightarrow> (bool \<times> 'e option) \<times> ('cb, 'e) proc" where
  "remove_channel p id' =
     (case find_channel_index p id' of
        None \<Rightarrow> ((False, None), p)
      | Some ch \<Rightarrow>
          (let p1 = upd_channel p ch (\<lambda>c. c\<lparr>cb_exc := None\<rparr>);
               p2 = release_channel_state p1 ch
           in ((True, cb_exc (chan p ch)),
               p2\<lparr>channels_active := (if channels_active p2 > 0 then channels_active p2 - 1 else 0)\<rparr>)))"

section \<open>Commands\<close>

text \<open>
  The callback gets the time and the deadline; no outcome of the call means that there was no memory for these
  arguments. \<open>PyLong_AsUnsignedLongLong\<close> raises an error for a result that is not an integer or does not fit.
\<close>

definition invoke_proc_callback ::
    "('cb, 'e, 'w) proc_env \<Rightarrow> 'cb \<Rightarrow> u64 \<Rightarrow> u64 \<Rightarrow> 'w \<Rightarrow> 'e cb_result \<times> 'w" where
  "invoke_proc_callback env cb now_ns deadline_ns w =
     (case env_call env cb now_ns deadline_ns w of (out, w') \<Rightarrow>
        (case out of
           None \<Rightarrow> Cb_raise None
         | Some (Py_raised e) \<Rightarrow> Cb_raise (Some e)
         | Some Py_None \<Rightarrow> Cb_none
         | Some (Py_long n) \<Rightarrow>
             if n < 0 \<or> n \<ge> 2 ^ 64 then Cb_raise (Some (env_OverflowError env)) else Cb_next (word_of_int n)
         | Some Py_object \<Rightarrow> Cb_raise (Some (env_TypeError env)), w'))"

definition channel_set_callback_exception :: "('cb, 'e) proc \<Rightarrow> nat \<Rightarrow> 'e \<Rightarrow> ('cb, 'e) proc" where
  "channel_set_callback_exception p ch e = upd_channel p ch (\<lambda>c. c\<lparr>cb_exc := Some e\<rparr>)"

text \<open>A new channel: its callback is called at once, with the deadline 0.\<close>

definition add_channel ::
    "('cb, 'e, 'w) proc_env \<Rightarrow> ('cb, 'e) proc \<Rightarrow> u64 \<Rightarrow> 'cb \<Rightarrow> 'w \<Rightarrow> (bool \<times> ('cb, 'e) proc) \<times> 'w" where
  "add_channel env p0 id' cb w0 =
     (case alloc_channel_slot env p0 w0 of
        ((None, p), w) \<Rightarrow> ((False, p\<lparr>decrefs := decrefs p @ [cb]\<rparr>), w)
      | ((Some slot, p), w) \<Rightarrow>
          (let p1 = (upd_channel p slot (\<lambda>c. c\<lparr>active := True, scheduled := False, ch_id := id',
                  next_run_ns := 0, proc_in_cb := Some cb\<rparr>))\<lparr>channels_active := channels_active p + 1\<rparr>;
               (now_ns, w1) = env_now env w;
               (res, w2) = invoke_proc_callback env cb now_ns 0 w1
           in case res of
                Cb_raise (Some e) \<Rightarrow> ((True, channel_set_callback_exception p1 slot e), w2)
              | Cb_raise None \<Rightarrow> ((True, p1), w2)
              | Cb_none \<Rightarrow> ((True, p1), w2)
              | Cb_next next_ns \<Rightarrow>
                  ((True, schedule_channel p1 slot (if next_ns < now_ns then now_ns else next_ns)), w2)))"

text \<open>
  The outcome of a command is the status its waiter gets; the second component says that a
  shutdown was seen.
\<close>

fun process_commands ::
    "('cb, 'e, 'w) proc_env \<Rightarrow> ('cb, 'e) proc \<Rightarrow> 'cb proc_cmd list \<Rightarrow> 'w \<Rightarrow>
     (int list \<times> bool \<times> ('cb, 'e) proc) \<times> 'w" where
  "process_commands env p [] w = (([], False, p), w)"
| "process_commands env p (CMD_ADD_CHANNEL id' cb # cmds) w =
     (case add_channel env p id' cb w of
        ((ok, p1), w1) \<Rightarrow>
          (case process_commands env p1 cmds w1 of
             ((sts, down, p2), w2) \<Rightarrow> (((if ok then 0 else ENOMEM) # sts, down, p2), w2)))"
| "process_commands env p (CMD_REMOVE_CHANNEL id' waits # cmds) w =
     (case remove_channel p id' of
        ((found, exc), p0) \<Rightarrow>
          (let p1 = (if waits \<and> exc \<noteq> None then p0\<lparr>close_exc := exc\<rparr> else p0)
           in case process_commands env p1 cmds w of
                ((sts, down, p2), w2) \<Rightarrow> ((0 # sts, down, p2), w2)))"
| "process_commands env p (CMD_SHUTDOWN # cmds) w =
     (case process_commands env p cmds w of
        ((sts, down, p2), w2) \<Rightarrow> ((0 # sts, True, p2), w2))"

section \<open>The worker\<close>

text \<open>
  The loop over the channels that are due, with the calls of the callbacks it makes: the index, the time
  and the deadline. It ends when no channel is due; \<open>None\<close> is a loop that is still running when the fuel is used up.
\<close>

fun due_loop ::
    "nat \<Rightarrow> ('cb, 'e, 'w) proc_env \<Rightarrow> ('cb, 'e) proc \<Rightarrow> u64 \<Rightarrow> 'w \<Rightarrow>
     (((nat \<times> u64 \<times> u64) list \<times> ('cb, 'e) proc) \<times> 'w) option" where
  "due_loop fuel env p now_ns w =
     (case pop_due_channel p now_ns of
        None \<Rightarrow> Some (([], p), w)
      | Some (ch, p1) \<Rightarrow>
          (case fuel of
             0 \<Rightarrow> None
           | Suc n \<Rightarrow>
               (case (if active (chan p1 ch) then proc_in_cb (chan p1 ch) else None) of
                  None \<Rightarrow> due_loop n env p1 now_ns w
                | Some cb \<Rightarrow>
                    (let deadline_ns = next_run_ns (chan p1 ch);
                         (res, w1) = invoke_proc_callback env cb now_ns deadline_ns w;
                         p2 = (case res of
                                 Cb_next next_ns \<Rightarrow>
                                   if active (chan p1 ch) then schedule_channel p1 ch next_ns else p1
                               | Cb_none \<Rightarrow> p1
                               | Cb_raise (Some e) \<Rightarrow> channel_set_callback_exception p1 ch e
                               | Cb_raise None \<Rightarrow> p1);
                         (now', w2) = env_now env w1
                     in map_option (\<lambda>((calls, p3), w3). (((ch, now_ns, deadline_ns) # calls, p3), w3))
                          (due_loop n env p2 now' w2)))))"

declare due_loop.simps [simp del]

text \<open>What the worker does after the due channels: wait for a command, with or without a limit, or go on.\<close>

datatype worker_next = Wait_forever | Go_on | Wait_until u64

definition monotonic_deadline_to_cmd_clock ::
    "clock_id \<Rightarrow> u64 \<Rightarrow> u64 \<Rightarrow> u64 \<Rightarrow> u64" where
  "monotonic_deadline_to_cmd_clock clock cmd_now deadline now_ns =
     (if clock = CLOCK_MONOTONIC then (if deadline \<le> now_ns then now_ns else deadline)
      else if deadline \<le> now_ns then cmd_now
      else
        (let wait_ns = deadline - now_ns
         in if (- 1) - cmd_now < wait_ns then - 1 else cmd_now + wait_ns))"

definition worker_wait :: "clock_id \<Rightarrow> u64 \<Rightarrow> ('cb, 'e) proc \<Rightarrow> u64 \<Rightarrow> worker_next" where
  "worker_wait clock cmd_now p now_ns =
     (case sched p of
        [] \<Rightarrow> Wait_forever
      | ch # rest \<Rightarrow>
          if next_run_ns (chan p ch) \<le> now_ns then Go_on
          else Wait_until (monotonic_deadline_to_cmd_clock clock cmd_now (next_run_ns (chan p ch)) now_ns))"

text \<open>The references to callbacks that a list of commands holds; they are given up when the commands are freed.\<close>

fun cmd_cbs :: "'cb proc_cmd list \<Rightarrow> 'cb list" where
  "cmd_cbs [] = []"
| "cmd_cbs (CMD_ADD_CHANNEL id' cb # cmds) = cb # cmd_cbs cmds"
| "cmd_cbs (CMD_REMOVE_CHANNEL id' waits # cmds) = cmd_cbs cmds"
| "cmd_cbs (CMD_SHUTDOWN # cmds) = cmd_cbs cmds"

definition free_command_list :: "('cb, 'e) proc \<Rightarrow> 'cb proc_cmd list \<Rightarrow> ('cb, 'e) proc" where
  "free_command_list p cmds = p\<lparr>decrefs := decrefs p @ cmd_cbs cmds\<rparr>"

text \<open>
  One pass of the worker that saw no shutdown, behind \<open>process_commands\<close>: the due channels, and the wait it decides on.
\<close>

definition worker_pass ::
    "nat \<Rightarrow> ('cb, 'e, 'w) proc_env \<Rightarrow> clock_id \<Rightarrow> ('cb, 'e) proc \<Rightarrow> 'w \<Rightarrow>
     (((nat \<times> u64 \<times> u64) list \<times> worker_next \<times> ('cb, 'e) proc) \<times> 'w) option" where
  "worker_pass fuel env clock p w =
     (let (now_ns, w1) = env_now env w in
      case due_loop fuel env p now_ns w1 of
        None \<Rightarrow> None
      | Some ((calls, p2), w2) \<Rightarrow>
          if sched p2 = [] then Some ((calls, Wait_forever, p2), w2)
          else
            (let (now_ns, w3) = env_now env w2;
                 (cmd_now, w4) = env_cmd_now env w3
             in Some ((calls, worker_wait clock cmd_now p2 now_ns, p2), w4)))"

text \<open>
  The worker. The list holds what the command queue had each time it was detached, so an empty list of
  commands stands for a wait that ended with its time limit; \<open>None\<close> is a worker that has not seen a shutdown or is still in
  the loop over the due channels.
\<close>

fun rtp_proc_worker ::
    "nat \<Rightarrow> ('cb, 'e, 'w) proc_env \<Rightarrow> clock_id \<Rightarrow> ('cb, 'e) proc \<Rightarrow> 'cb proc_cmd list list \<Rightarrow> 'w \<Rightarrow>
     ((int list list \<times> ('cb, 'e) proc) \<times> 'w) option" where
  "rtp_proc_worker fuel env clock p [] w = None"
| "rtp_proc_worker fuel env clock p (cmds # rest) w =
     (case process_commands env p cmds w of
        ((sts, shutdown_seen, p1), w1) \<Rightarrow>
          if shutdown_seen then
            Some (([sts], free_command_list (clear_channels p1) (concat (take 1 rest))), w1)
          else
            (case worker_pass fuel env clock p1 w1 of
               None \<Rightarrow> None
             | Some ((calls, wait, p2), w2) \<Rightarrow>
                 map_option (\<lambda>((stss, p3), w3). ((sts # stss, p3), w3)) (rtp_proc_worker fuel env clock p2 rest w2)))"

section \<open>Invariant\<close>

definition sched_ok :: "('cb, 'e) proc \<Rightarrow> bool" where
  "sched_ok p \<longleftrightarrow> distinct (sched p) \<and>
     set (sched p) = {i. i < length (channels p) \<and> scheduled (chan p i)} \<and>
     sorted (map (\<lambda>i. next_run_ns (chan p i)) (sched p))"

definition chans_ok :: "('cb, 'e) proc \<Rightarrow> bool" where
  "chans_ok p \<longleftrightarrow> (\<forall>i < length (channels p). (scheduled (chan p i) \<longrightarrow> active (chan p i)) \<and>
       (active (chan p i) \<longleftrightarrow> proc_in_cb (chan p i) \<noteq> None)) \<and>
     channels_active p = length (filter active (channels p))"

definition proc_inv :: "('cb, 'e) proc \<Rightarrow> bool" where
  "proc_inv p \<longleftrightarrow> sched_ok p \<and> chans_ok p"

lemma upd_channel_simps [sched_simps]:
  "length (channels (upd_channel p i f)) = length (channels p)"
  "sched (upd_channel p i f) = sched p" "channels_active (upd_channel p i f) = channels_active p"
  "close_exc (upd_channel p i f) = close_exc p" "decrefs (upd_channel p i f) = decrefs p"
  "channels (upd_channel p i f) = (channels p)[i := f (chan p i)]"
  by (simp_all add: upd_channel_def)

lemma chan_upd_same [sched_simps]: "i < length (channels p) \<Longrightarrow> chan (upd_channel p i f) i = f (chan p i)"
  by (simp add: upd_channel_def)

lemma chan_upd_other [sched_simps]: "i \<noteq> j \<Longrightarrow> chan (upd_channel p i f) j = chan p j"
  by (simp add: upd_channel_def)

lemma chan_upd: "chan (upd_channel p i f) j = (if j = i \<and> i < length (channels p) then f (chan p i) else chan p j)"
  by (cases "i < length (channels p)") (auto simp: upd_channel_def nth_list_update list_update_beyond)

lemma count_active_upd:
  assumes "i < length xs" "active c = active (xs ! i)"
  shows "length (filter active (xs[i := c])) = length (filter active xs)"
  using assms
proof (induction xs arbitrary: i)
  case (Cons x xs)
  then show ?case by (cases i) auto
qed simp

lemma count_active_on:
  assumes "i < length xs" "\<not> active (xs ! i)" "active c"
  shows "length (filter active (xs[i := c])) = length (filter active xs) + 1"
  using assms
proof (induction xs arbitrary: i)
  case (Cons x xs)
  then show ?case by (cases i) auto
qed simp

lemma count_active_off:
  assumes "i < length xs" "active (xs ! i)" "\<not> active c"
  shows "length (filter active xs) = length (filter active (xs[i := c])) + 1"
  using assms
proof (induction xs arbitrary: i)
  case (Cons x xs)
  then show ?case by (cases i) auto
qed simp

text \<open>Changes of a channel that the schedule does not see.\<close>

lemma sched_ok_upd:
  assumes "sched_ok p" "\<And>c. scheduled (f c) = scheduled c" "\<And>c. next_run_ns (f c) = next_run_ns c"
  shows "sched_ok (upd_channel p i f)"
proof -
  have "scheduled (chan (upd_channel p i f) j) = scheduled (chan p j)"
    "next_run_ns (chan (upd_channel p i f) j) = next_run_ns (chan p j)" for j
    by (simp_all add: chan_upd assms(2,3))
  then show ?thesis using assms(1) by (simp add: sched_ok_def sched_simps(1,2))
qed

lemma chans_ok_upd:
  assumes "chans_ok p" "i < length (channels p)" "scheduled (f (chan p i)) \<longrightarrow> active (f (chan p i))"
    and "active (f (chan p i)) = active (chan p i)" "proc_in_cb (f (chan p i)) = proc_in_cb (chan p i)"
  shows "chans_ok (upd_channel p i f)"
proof -
  have "length (filter active (channels (upd_channel p i f))) = length (filter active (channels p))"
    using count_active_upd [OF assms(2)] assms(4) by (simp add: sched_simps)
  moreover have "(scheduled (chan (upd_channel p i f) j) \<longrightarrow> active (chan (upd_channel p i f) j)) \<and>
      (active (chan (upd_channel p i f) j) \<longleftrightarrow> proc_in_cb (chan (upd_channel p i f) j) \<noteq> None)"
    if "j < length (channels p)" for j
    using assms that by (cases "i = j") (auto simp: chans_ok_def chan_upd_same chan_upd_other)
  ultimately show ?thesis using assms(1) by (simp add: chans_ok_def sched_simps(1,3))
qed

lemma chans_ok_sched: "chans_ok (p\<lparr>sched := xs\<rparr>) \<longleftrightarrow> chans_ok p"
  by (simp add: chans_ok_def)

lemma unschedule_ok:
  assumes "proc_inv p" "i < length (channels p)"
  shows "proc_inv (unschedule_channel p i)" "\<not> scheduled (chan (unschedule_channel p i) i)"
proof -
  have s: "sched_ok p" and c: "chans_ok p" using assms(1) by (auto simp: proc_inv_def)
  show "\<not> scheduled (chan (unschedule_channel p i) i)"
    using assms(2) by (simp add: unschedule_channel_def upd_channel_def)
  show "proc_inv (unschedule_channel p i)"
  proof (cases "scheduled (chan p i)")
    case True
    let ?p = "upd_channel (p\<lparr>sched := remove1 i (sched p)\<rparr>) i (\<lambda>c. c\<lparr>scheduled := False\<rparr>)"
    have eq: "unschedule_channel p i = ?p" using True by (simp add: unschedule_channel_def)
    have ch: "chan ?p j = (if j = i then (chan p i)\<lparr>scheduled := False\<rparr> else chan p j)" for j
      using assms(2) by (simp add: chan_upd)
    have "sched_ok ?p"
    proof -
      have "next_run_ns (chan ?p j) = next_run_ns (chan p j)" for j by (simp add: ch)
      then have "sorted (map (\<lambda>i. next_run_ns (chan ?p i)) (sched ?p))"
        using s by (simp add: sched_ok_def upd_channel_simps(2) sorted_map_remove1)
      moreover have "set (sched ?p) = set (sched p) - {i}" "distinct (sched ?p)"
        using s by (simp_all add: sched_ok_def upd_channel_simps(2) set_remove1_eq)
      moreover have "{j. j < length (channels ?p) \<and> scheduled (chan ?p j)} =
          {j. j < length (channels p) \<and> scheduled (chan p j)} - {i}"
        by (auto simp: ch upd_channel_simps(1))
      ultimately show ?thesis using s by (simp add: sched_ok_def)
    qed
    moreover have "chans_ok ?p"
      using chans_ok_upd [of "p\<lparr>sched := remove1 i (sched p)\<rparr>" i] c assms(2) by (simp add: chans_ok_sched)
    ultimately show ?thesis by (simp add: eq proc_inv_def)
  next
    case False
    then show ?thesis using assms(1) by (simp add: unschedule_channel_def)
  qed
qed

lemma sorted_insert_after:
  fixes k :: "'a \<Rightarrow> 'b :: linorder"
  assumes "sorted (map k xs)" "k c = t"
  shows "sorted (map k (takeWhile (\<lambda>i. k i \<le> t) xs @ c # dropWhile (\<lambda>i. k i \<le> t) xs))"
  using assms
proof (induction xs)
  case (Cons x xs)
  have in_xs: "y \<in> set (takeWhile P xs) \<or> y \<in> set (dropWhile P xs) \<Longrightarrow> y \<in> set xs" for y P
    by (auto dest: set_takeWhileD set_dropWhileD)
  show ?case
  proof (cases "k x \<le> t")
    case True
    with Cons in_xs show ?thesis by (auto simp: sorted_append)
  next
    case False
    with Cons show ?thesis by auto
  qed
qed simp

lemma sched_insert_facts:
  "set (sched_insert p c t xs) = insert c (set xs)"
  "distinct xs \<Longrightarrow> c \<notin> set xs \<Longrightarrow> distinct (sched_insert p c t xs)"
  "sorted (map (\<lambda>i. next_run_ns (chan p i)) xs) \<Longrightarrow> next_run_ns (chan p c) = t \<Longrightarrow>
     sorted (map (\<lambda>i. next_run_ns (chan p i)) (sched_insert p c t xs))"
proof -
  let ?P = "\<lambda>i. next_run_ns (chan p i) \<le> t"
  have xs: "xs = takeWhile ?P xs @ dropWhile ?P xs" by simp
  show "set (sched_insert p c t xs) = insert c (set xs)"
    unfolding sched_insert_def by (subst (3) xs) (simp only: set_append, auto)
  show "distinct (sched_insert p c t xs)" if "distinct xs" "c \<notin> set xs"
    using that unfolding sched_insert_def
    by (subst (asm) xs, subst (asm) (2) xs) (auto simp only: distinct_append set_append distinct.simps list.set)
  show "sorted (map (\<lambda>i. next_run_ns (chan p i)) (sched_insert p c t xs))"
    if "sorted (map (\<lambda>i. next_run_ns (chan p i)) xs)" "next_run_ns (chan p c) = t"
    unfolding sched_insert_def using that by (rule sorted_insert_after)
qed

lemma schedule_ok:
  assumes "proc_inv p" "i < length (channels p)" "active (chan p i)"
  shows "proc_inv (schedule_channel p i t)"
proof -
  define p0 where "p0 = (if scheduled (chan p i) then unschedule_channel p i else p)"
  define p1 where "p1 = upd_channel p0 i (\<lambda>c. c\<lparr>next_run_ns := t, scheduled := True\<rparr>)"
  have eq: "schedule_channel p i t = p1\<lparr>sched := sched_insert p1 i t (sched p1)\<rparr>"
    by (simp add: schedule_channel_def p0_def p1_def Let_def)
  have p0: "proc_inv p0" "\<not> scheduled (chan p0 i)" "length (channels p0) = length (channels p)" "active (chan p0 i)"
    using unschedule_ok [OF assms(1,2)] assms
    by (auto simp: p0_def unschedule_channel_def upd_channel_def)
  have s0: "sched_ok p0" and c0: "chans_ok p0" using p0(1) by (auto simp: proc_inv_def)
  have i0: "i < length (channels p0)" using assms(2) p0(3) by simp
  have ch: "chan p1 j = (if j = i then (chan p0 i)\<lparr>next_run_ns := t, scheduled := True\<rparr> else chan p0 j)" for j
    using i0 by (simp add: p1_def chan_upd)
  have sch: "sched p1 = sched p0" "length (channels p1) = length (channels p0)"
    by (simp_all add: p1_def upd_channel_simps)
  have notin: "i \<notin> set (sched p0)" using s0 p0(2) by (simp add: sched_ok_def)
  have "sorted (map (\<lambda>j. next_run_ns (chan p1 j)) (sched p0))"
  proof -
    have "map (\<lambda>j. next_run_ns (chan p1 j)) (sched p0) = map (\<lambda>j. next_run_ns (chan p0 j)) (sched p0)"
      using notin by (intro map_cong) (auto simp: ch)
    then show ?thesis using s0 by (simp only: sched_ok_def)
  qed
  then have "sorted (map (\<lambda>j. next_run_ns (chan p1 j)) (sched_insert p1 i t (sched p0)))"
    by (rule sched_insert_facts(3)) (simp add: ch)
  moreover have "distinct (sched_insert p1 i t (sched p0))"
    using s0 notin by (intro sched_insert_facts(2)) (simp_all add: sched_ok_def)
  moreover have "insert i (set (sched p0)) = {j. j < length (channels p1) \<and> scheduled (chan p1 j)}"
    using s0 i0 by (auto simp: sched_ok_def ch sch)
  ultimately have "sched_ok (schedule_channel p i t)"
    by (simp add: eq sched_ok_def sch sched_insert_facts(1))
  moreover have "chans_ok (schedule_channel p i t)"
    unfolding eq chans_ok_sched p1_def using c0 i0 p0(4) by (intro chans_ok_upd) auto
  ultimately show ?thesis by (simp add: proc_inv_def)
qed

lemma pop_due_ok:
  assumes "proc_inv p" "pop_due_channel p now = Some (i, p')"
  shows "proc_inv p'" "i < length (channels p)" "scheduled (chan p i)" "active (chan p i)"
    "next_run_ns (chan p i) \<le> now" "sched p = i # sched p'" "length (channels p') = length (channels p)"
    "chan p' j = (if j = i then (chan p i)\<lparr>scheduled := False\<rparr> else chan p j)"
    "channels_active p' = channels_active p" "decrefs p' = decrefs p" "close_exc p' = close_exc p"
proof -
  have s: "sched_ok p" and c: "chans_ok p" using assms(1) by (auto simp: proc_inv_def)
  from assms(2) obtain rest where r: "sched p = i # rest" "next_run_ns (chan p i) \<le> now"
    "p' = upd_channel (p\<lparr>sched := rest\<rparr>) i (\<lambda>c. c\<lparr>scheduled := False\<rparr>)"
    by (auto simp: pop_due_channel_def split: list.splits if_splits)
  then have "i \<in> set (sched p)" by simp
  then show i: "i < length (channels p)" and sc: "scheduled (chan p i)"
    using s by (simp_all add: sched_ok_def)
  then show ac: "active (chan p i)" using c by (simp add: chans_ok_def)
  show "next_run_ns (chan p i) \<le> now" by (rule r(2))
  show "sched p = i # sched p'" "length (channels p') = length (channels p)"
    "channels_active p' = channels_active p" "decrefs p' = decrefs p" "close_exc p' = close_exc p"
    by (simp_all add: r upd_channel_simps)
  have ch: "chan p' j = (if j = i then (chan p i)\<lparr>scheduled := False\<rparr> else chan p j)" for j
    using i by (simp add: r(3) chan_upd)
  then show "chan p' j = (if j = i then (chan p i)\<lparr>scheduled := False\<rparr> else chan p j)" .
  have "next_run_ns (chan p' j) = next_run_ns (chan p j)" for j by (simp add: ch)
  moreover have "set rest = {j. j < length (channels p) \<and> scheduled (chan p j)} - {i}"
    using s by (auto simp: sched_ok_def r(1))
  ultimately have "sched_ok p'"
    using s by (auto simp: sched_ok_def r upd_channel_simps ch)
  moreover have "chans_ok p'"
    unfolding r(3) using c i ac by (intro chans_ok_upd) (simp_all add: chans_ok_sched)
  ultimately show "proc_inv p'" by (simp add: proc_inv_def)
qed

lemma unschedule_chan:
  "i < length (channels p) \<Longrightarrow>
     chan (unschedule_channel p i) j = (if j = i then (chan p i)\<lparr>scheduled := False\<rparr> else chan p j)"
  by (simp add: unschedule_channel_def chan_upd)

lemma unschedule_simps:
  "length (channels (unschedule_channel p i)) = length (channels p)"
  "channels_active (unschedule_channel p i) = channels_active p"
  "decrefs (unschedule_channel p i) = decrefs p" "close_exc (unschedule_channel p i) = close_exc p"
  by (simp_all add: unschedule_channel_def upd_channel_simps)

text \<open>Removing an active channel: its reference is given up, the others stay as they are.\<close>

lemma release_ok:
  assumes "proc_inv p" "i < length (channels p)" "active (chan p i)"
  shows "proc_inv ((release_channel_state p i)\<lparr>channels_active := channels_active p - 1\<rparr>)"
    "\<not> active (chan (release_channel_state p i) i)" "j \<noteq> i \<Longrightarrow> chan (release_channel_state p i) j = chan p j"
    "decrefs (release_channel_state p i) = decrefs p @ [the (proc_in_cb (chan p i))]"
    "length (channels (release_channel_state p i)) = length (channels p)"
    "channels_active (release_channel_state p i) = channels_active p" "0 < channels_active p"
    "close_exc (release_channel_state p i) = close_exc p"
proof -
  let ?p1 = "unschedule_channel p i"
  let ?f = "\<lambda>c. c\<lparr>cb_exc := None, proc_in_cb := None, ch_id := 0, active := False, next_run_ns := 0\<rparr>"
  have c: "chans_ok p" using assms(1) by (simp add: proc_inv_def)
  then obtain cb where cb: "proc_in_cb (chan p i) = Some cb" using assms(2,3) by (auto simp: chans_ok_def)
  define p2 where "p2 = ?p1\<lparr>decrefs := decrefs ?p1 @ [cb]\<rparr>"
  have eq: "release_channel_state p i = upd_channel p2 i ?f"
    using assms(2,3) cb by (simp add: release_channel_state_def Let_def unschedule_chan p2_def)
  have len: "length (channels p2) = length (channels p)" by (simp add: p2_def unschedule_simps)
  have ch2: "chan p2 j = (if j = i then (chan p i)\<lparr>scheduled := False\<rparr> else chan p j)" for j
    using unschedule_chan [OF assms(2)] by (simp add: p2_def)
  have ch: "chan (upd_channel p2 i ?f) j = (if j = i then ?f ((chan p i)\<lparr>scheduled := False\<rparr>) else chan p j)" for j
    using assms(2) by (simp add: chan_upd len ch2)
  show "\<not> active (chan (release_channel_state p i) i)" by (simp add: eq ch)
  show "j \<noteq> i \<Longrightarrow> chan (release_channel_state p i) j = chan p j" by (simp add: eq ch)
  show "decrefs (release_channel_state p i) = decrefs p @ [the (proc_in_cb (chan p i))]"
    "length (channels (release_channel_state p i)) = length (channels p)"
    "channels_active (release_channel_state p i) = channels_active p"
    "close_exc (release_channel_state p i) = close_exc p"
    by (simp_all add: eq upd_channel_simps p2_def unschedule_simps cb)
  have count: "length (filter active (channels p)) = length (filter active (channels (upd_channel p2 i ?f))) + 1"
  proof -
    have "length (filter active (channels p2)) = length (filter active (channels p))"
      unfolding p2_def unschedule_channel_def
      using count_active_upd [OF assms(2)] by (simp add: upd_channel_simps)
    then show ?thesis
      using count_active_off [of i "channels p2" "?f (chan p2 i)"] assms(2,3)
      by (simp add: upd_channel_simps len ch2)
  qed
  then show "0 < channels_active p" using c by (simp add: chans_ok_def)
  have s1: "sched_ok ?p1" "i \<notin> set (sched ?p1)"
    using unschedule_ok [OF assms(1,2)] by (auto simp: proc_inv_def sched_ok_def)
  let ?q = "(release_channel_state p i)\<lparr>channels_active := channels_active p - 1\<rparr>"
  have sq: "sched ?q = sched ?p1" "length (channels ?q) = length (channels p)"
    by (simp_all add: eq upd_channel_simps p2_def unschedule_simps)
  have chq: "chan ?q j = (if j = i then ?f ((chan p i)\<lparr>scheduled := False\<rparr>) else chan p j)" for j
    using ch by (simp add: eq)
  have "map (\<lambda>j. next_run_ns (chan ?q j)) (sched ?p1) = map (\<lambda>j. next_run_ns (chan ?p1 j)) (sched ?p1)"
    using s1(2) by (intro map_cong) (auto simp: eq ch unschedule_chan [OF assms(2)])
  then have "sorted (map (\<lambda>j. next_run_ns (chan ?q j)) (sched ?q))"
    using s1(1) by (simp only: sched_ok_def sq)
  moreover have "{j. j < length (channels ?p1) \<and> scheduled (chan ?p1 j)} = {j. j < length (channels ?q) \<and> scheduled (chan ?q j)}"
    unfolding sq(2) chq unschedule_chan [OF assms(2)] unschedule_simps by auto
  ultimately have "sched_ok ?q" using s1(1) by (simp only: sched_ok_def sq)
  moreover have "chans_ok ?q"
  proof -
    have "channels ?q = channels (upd_channel p2 i ?f)" by (simp add: eq)
    then have "channels_active ?q = length (filter active (channels ?q))"
      using count c by (simp add: chans_ok_def)
    moreover have "(scheduled (chan ?q j) \<longrightarrow> active (chan ?q j)) \<and> (active (chan ?q j) \<longleftrightarrow> proc_in_cb (chan ?q j) \<noteq> None)"
      if "j < length (channels p)" for j
      using c that unfolding chq by (auto simp: chans_ok_def)
    ultimately show ?thesis by (simp only: chans_ok_def sq) blast
  qed
  ultimately show "proc_inv ?q" by (simp only: proc_inv_def)
qed

section \<open>References to callbacks\<close>

definition live :: "('cb, 'e) proc_channel_state list \<Rightarrow> 'cb multiset" where
  "live xs = mset (map (\<lambda>c. the (proc_in_cb c)) (filter active xs))"

lemma live_upd:
  "i < length xs \<Longrightarrow> active c = active (xs ! i) \<Longrightarrow> proc_in_cb c = proc_in_cb (xs ! i) \<Longrightarrow> live (xs[i := c]) = live xs"
  "i < length xs \<Longrightarrow> \<not> active (xs ! i) \<Longrightarrow> active c \<Longrightarrow> live (xs[i := c]) = add_mset (the (proc_in_cb c)) (live xs)"
  "i < length xs \<Longrightarrow> active (xs ! i) \<Longrightarrow> \<not> active c \<Longrightarrow> live xs = add_mset (the (proc_in_cb (xs ! i))) (live (xs[i := c]))"
  by (induction xs arbitrary: i; case_tac i; auto simp: live_def)+

text \<open>All references the scheduler has had: those it has given up and those of its channels.\<close>

definition refs :: "('cb, 'e) proc \<Rightarrow> 'cb multiset" where
  "refs p = mset (decrefs p) + live (channels p)"

lemma refs_upd_same:
  assumes "i < length (channels p)" "active (f (chan p i)) = active (chan p i)"
    "proc_in_cb (f (chan p i)) = proc_in_cb (chan p i)"
  shows "refs (upd_channel p i f) = refs p"
  using assms by (simp add: refs_def upd_channel_simps live_upd(1))

lemma refs_unschedule: "i < length (channels p) \<Longrightarrow> refs (unschedule_channel p i) = refs p"
  by (simp add: unschedule_channel_def refs_upd_same) (simp add: refs_def)

lemma refs_sched [simp]: "refs (p\<lparr>sched := xs\<rparr>) = refs p" "refs (p\<lparr>channels_active := n\<rparr>) = refs p"
    "refs (p\<lparr>close_exc := e\<rparr>) = refs p"
  by (simp_all add: refs_def)

lemma refs_schedule:
  assumes "i < length (channels p)"
  shows "refs (schedule_channel p i t) = refs p"
proof -
  define p0 where "p0 = (if scheduled (chan p i) then unschedule_channel p i else p)"
  have "refs p0 = refs p" "i < length (channels p0)"
    using assms refs_unschedule by (auto simp: p0_def unschedule_simps)
  then show ?thesis
    by (simp add: schedule_channel_def Let_def p0_def [symmetric] refs_upd_same)
qed

lemma refs_release:
  assumes "proc_inv p" "i < length (channels p)" "active (chan p i)"
  shows "refs (release_channel_state p i) = refs p"
proof -
  note r = release_ok [OF assms]
  have "channels (release_channel_state p i) = (channels p)[i := chan (release_channel_state p i) i]"
  proof (rule nth_equalityI)
    show "length (channels (release_channel_state p i)) = length ((channels p)[i := chan (release_channel_state p i) i])"
      using r(5) by simp
    show "chan (release_channel_state p i) j = (channels p)[i := chan (release_channel_state p i) i] ! j"
      if "j < length (channels (release_channel_state p i))" for j
      using that r(3,5) assms(2) by (cases "j = i") simp_all
  qed
  moreover have "live (channels p) = add_mset (the (proc_in_cb (chan p i)))
      (live ((channels p)[i := chan (release_channel_state p i) i]))"
    using assms(2,3) r(2) by (rule live_upd(3))
  ultimately show ?thesis using r(4) by (simp add: refs_def)
qed

section \<open>Growing the array\<close>

lemma rebuild_loop_facts:
  assumes "distinct (is @ acc)" "sorted (map (\<lambda>i. next_run_ns (chan p i)) acc)"
  shows "distinct (rebuild_loop p is acc)" "sorted (map (\<lambda>i. next_run_ns (chan p i)) (rebuild_loop p is acc))"
    "set (rebuild_loop p is acc) = set acc \<union> {i \<in> set is. active (chan p i) \<and> scheduled (chan p i)}"
proof -
  have "distinct (rebuild_loop p is acc) \<and> sorted (map (\<lambda>i. next_run_ns (chan p i)) (rebuild_loop p is acc)) \<and>
    set (rebuild_loop p is acc) = set acc \<union> {i \<in> set is. active (chan p i) \<and> scheduled (chan p i)}"
    using assms
  proof (induction p "is" acc rule: rebuild_loop.induct)
    case (1 p acc)
    then show ?case by simp
  next
    case (2 p i "is" acc)
    show ?case
    proof (cases "active (chan p i) \<and> scheduled (chan p i)")
      case False
      then have "distinct (is @ acc)" using 2(3) by simp
      then have "distinct (rebuild_loop p is acc) \<and> sorted (map (\<lambda>i. next_run_ns (chan p i)) (rebuild_loop p is acc)) \<and>
        set (rebuild_loop p is acc) = set acc \<union> {i \<in> set is. active (chan p i) \<and> scheduled (chan p i)}"
        using 2(1) 2(4) False by blast
      then show ?thesis using False by auto
    next
      case True
      let ?acc = "sched_insert p i (next_run_ns (chan p i)) acc"
      have "distinct (is @ ?acc)"
        using 2(3) sched_insert_facts(2) [of acc i p] by (auto simp: sched_insert_facts(1))
      moreover have "sorted (map (\<lambda>i. next_run_ns (chan p i)) ?acc)"
        using 2(4) by (intro sched_insert_facts(3)) auto
      ultimately have "distinct (rebuild_loop p is ?acc) \<and>
        sorted (map (\<lambda>i. next_run_ns (chan p i)) (rebuild_loop p is ?acc)) \<and>
        set (rebuild_loop p is ?acc) = set ?acc \<union> {i \<in> set is. active (chan p i) \<and> scheduled (chan p i)}"
        using 2(2) True by blast
      then show ?thesis using True by (auto simp: sched_insert_facts(1))
    qed
  qed
  then show "distinct (rebuild_loop p is acc)" "sorted (map (\<lambda>i. next_run_ns (chan p i)) (rebuild_loop p is acc))"
    "set (rebuild_loop p is acc) = set acc \<union> {i \<in> set is. active (chan p i) \<and> scheduled (chan p i)}" by auto
qed

lemma rebuild_ok:
  assumes "chans_ok p"
  shows "proc_inv (rebuild_schedule_list p)"
proof -
  note f = rebuild_loop_facts [of "[0..<length (channels p)]" "[]" p]
  have "set (rebuild_loop p [0..<length (channels p)] []) = {i. i < length (channels p) \<and> scheduled (chan p i)}"
    using assms f(3) by (auto simp: chans_ok_def)
  then have "sched_ok (rebuild_schedule_list p)"
    using f(1,2) by (simp add: sched_ok_def rebuild_schedule_list_def)
  then show ?thesis using assms by (simp add: proc_inv_def rebuild_schedule_list_def chans_ok_sched)
qed

lemma rebuild_simps:
  "channels (rebuild_schedule_list p) = channels p" "decrefs (rebuild_schedule_list p) = decrefs p"
  by (simp_all add: rebuild_schedule_list_def)

definition grown :: "('cb, 'e) proc \<Rightarrow> ('cb, 'e) proc \<Rightarrow> bool" where
  "grown p p' \<longleftrightarrow> proc_inv p' \<and> refs p' = refs p \<and>
     (\<exists>k. channels p' = channels p @ replicate k channel_zero)"

lemma live_zero [simp]: "live (xs @ replicate k channel_zero) = live xs"
  by (simp add: live_def channel_zero_def)

lemma more_slots_ok:
  assumes "proc_inv p"
  shows "proc_inv (p\<lparr>channels := channels p @ replicate k channel_zero\<rparr>)"
proof -
  define xs where "xs = channels p @ replicate k channel_zero"
  have s: "sched_ok p" and c: "chans_ok p" using assms by (auto simp: proc_inv_def)
  have old: "xs ! i = chan p i" if "i < length (channels p)" for i
    using that by (simp add: xs_def nth_append)
  have new: "xs ! i = channel_zero" if "\<not> i < length (channels p)" "i < length xs" for i
    using that by (simp add: xs_def nth_append)
  have zero: "\<not> scheduled channel_zero" "\<not> active channel_zero" "proc_in_cb channel_zero = None"
    by (simp_all add: channel_zero_def)
  have len: "length (channels p) \<le> length xs" by (simp add: xs_def)
  have keys: "map (\<lambda>i. next_run_ns (xs ! i)) (sched p) = map (\<lambda>i. next_run_ns (chan p i)) (sched p)"
    using s by (intro map_cong) (auto simp: sched_ok_def old)
  have set: "{i. i < length xs \<and> scheduled (xs ! i)} = {i. i < length (channels p) \<and> scheduled (chan p i)}"
  proof (rule Collect_cong)
    fix i
    show "(i < length xs \<and> scheduled (xs ! i)) = (i < length (channels p) \<and> scheduled (chan p i))"
      using old [of i] new [of i] len zero by (cases "i < length (channels p)") auto
  qed
  have e: "channels (p\<lparr>channels := xs\<rparr>) = xs" "sched (p\<lparr>channels := xs\<rparr>) = sched p"
    "channels_active (p\<lparr>channels := xs\<rparr>) = channels_active p" by simp_all
  have "sched_ok (p\<lparr>channels := xs\<rparr>)"
    using s unfolding sched_ok_def e set keys .
  moreover have "length (filter active xs) = length (filter active (channels p))"
    by (simp add: xs_def zero)
  moreover have "(scheduled (xs ! i) \<longrightarrow> active (xs ! i)) \<and> (active (xs ! i) \<longleftrightarrow> proc_in_cb (xs ! i) \<noteq> None)"
    if "i < length xs" for i
  proof (cases "i < length (channels p)")
    case True
    then show ?thesis using c unfolding old [OF True] chans_ok_def by blast
  next
    case False
    then show ?thesis unfolding new [OF False that] using zero by blast
  qed
  ultimately show ?thesis using c unfolding proc_inv_def chans_ok_def xs_def [symmetric] e by metis
qed

lemma ensure_capacity_ok:
  assumes "proc_inv p" "ensure_channel_capacity env p need w = ((rc, p'), w')"
  shows "grown p p'" "rc = 0 \<Longrightarrow> need \<le> length (channels p')"
proof -
  have refl: "grown p p" using assms(1) by (auto simp: grown_def intro: exI [of _ 0])
  have ext: "grown p (p\<lparr>channels := channels p @ replicate k channel_zero\<rparr>)" for k
    using more_slots_ok [OF assms(1)] by (auto simp: grown_def refs_def)
  have ext': "grown p (rebuild_schedule_list (p\<lparr>channels := channels p @ replicate k channel_zero\<rparr>))" for k
  proof -
    have "chans_ok (p\<lparr>channels := channels p @ replicate k channel_zero\<rparr>)"
      using more_slots_ok [OF assms(1)] by (simp add: proc_inv_def)
    from rebuild_ok [OF this] show ?thesis by (auto simp: grown_def rebuild_simps refs_def)
  qed
  from assms(2) refl ext ext' show "grown p p'"
    by (auto simp: ensure_channel_capacity_def Let_def split: if_splits option.splits prod.splits)
  show "need \<le> length (channels p')" if "rc = 0"
    using assms(2) that
    by (auto simp: ensure_channel_capacity_def Let_def rebuild_simps dest: grow_cap_ge
        split: if_splits option.splits prod.splits)
qed

section \<open>Commands keep the invariant\<close>

lemma grown_refl: "proc_inv p \<Longrightarrow> grown p p"
  by (auto simp: grown_def intro: exI [of _ 0])

lemma first_free_Some: "first_free p = Some i \<Longrightarrow> i < length (channels p) \<and> \<not> active (chan p i)"
  by (auto simp: first_free_def find_Some_iff)

lemma find_channel_Some:
  "find_channel_index p id' = Some i \<Longrightarrow> i < length (channels p) \<and> active (chan p i) \<and> ch_id (chan p i) = id'"
  by (auto simp: find_channel_index_def find_Some_iff)

lemma find_channel_None:
  "find_channel_index p id' = None \<Longrightarrow> \<not> (\<exists>i < length (channels p). active (chan p i) \<and> ch_id (chan p i) = id')"
  by (auto simp: find_channel_index_def find_None_iff)

text \<open>A change of a channel that neither the schedule nor the references depend on.\<close>

lemma quiet_upd_ok:
  assumes "proc_inv p" "i < length (channels p)" "\<And>c. scheduled (f c) = scheduled c"
    and "\<And>c. next_run_ns (f c) = next_run_ns c" "\<And>c. active (f c) = active c" "\<And>c. proc_in_cb (f c) = proc_in_cb c"
  shows "proc_inv (upd_channel p i f)" "refs (upd_channel p i f) = refs p"
proof -
  have "scheduled (chan p i) \<longrightarrow> active (chan p i)" using assms(1,2) by (simp add: proc_inv_def chans_ok_def)
  then show "proc_inv (upd_channel p i f)"
    using assms unfolding proc_inv_def by (intro conjI sched_ok_upd chans_ok_upd) auto
  show "refs (upd_channel p i f) = refs p" using assms(2,5,6) by (intro refs_upd_same) auto
qed

lemma alloc_slot_ok:
  assumes "proc_inv p" "alloc_channel_slot env p w = ((slot, p'), w')"
  shows "grown p p'" "slot = Some i \<Longrightarrow> i < length (channels p') \<and> \<not> active (chan p' i)"
proof -
  show "grown p p'"
    using assms grown_refl ensure_capacity_ok(1) [OF assms(1)]
    by (auto simp: alloc_channel_slot_def Let_def split: option.splits prod.splits if_splits)
  assume i: "slot = Some i"
  show "i < length (channels p') \<and> \<not> active (chan p' i)"
  proof (cases "first_free p")
    case (Some j)
    then show ?thesis using assms(2) i first_free_Some [OF Some] by (auto simp: alloc_channel_slot_def)
  next
    case None
    let ?n = "length (channels p)"
    from None assms(2) i have e: "ensure_channel_capacity env p (if ?n = 0 then 4 else ?n * 2) w = ((0, p'), w')" "i = ?n"
      by (auto simp: alloc_channel_slot_def Let_def split: prod.splits if_splits)
    from ensure_capacity_ok [OF assms(1) e(1)] obtain k where
      k: "channels p' = channels p @ replicate k channel_zero" and b: "(if ?n = 0 then 4 else ?n * 2) \<le> length (channels p')"
      by (auto simp: grown_def)
    have lt: "?n < length (channels p')"
    proof (cases "?n = 0")
      case True
      then show ?thesis using b by (cases "channels p'") simp_all
    next
      case False
      then show ?thesis using b by (simp only: if_False)
    qed
    then show ?thesis unfolding e(2) k by (simp add: nth_append channel_zero_def)
  qed
qed

lemma remove_channel_ok:
  assumes "proc_inv p" "remove_channel p id' = ((found, exc), p')"
  shows "proc_inv p'" "refs p' = refs p"
    "found \<longleftrightarrow> (\<exists>i < length (channels p). active (chan p i) \<and> ch_id (chan p i) = id')"
proof -
  have "proc_inv p' \<and> refs p' = refs p \<and>
    (found \<longleftrightarrow> (\<exists>i < length (channels p). active (chan p i) \<and> ch_id (chan p i) = id'))"
  proof (cases "find_channel_index p id'")
    case None
    then show ?thesis using assms find_channel_None [OF None] by (auto simp: remove_channel_def)
  next
    case (Some i)
    then have i: "i < length (channels p)" "active (chan p i)" "ch_id (chan p i) = id'"
      using find_channel_Some by auto
    define p1 where "p1 = upd_channel p i (\<lambda>c. c\<lparr>cb_exc := None\<rparr>)"
    have len: "i < length (channels p1)" using i(1) by (simp add: p1_def upd_channel_simps)
    have act: "active (chan p1 i)" using i by (simp add: p1_def chan_upd)
    have inv1: "proc_inv p1" and refs1: "refs p1 = refs p"
      unfolding p1_def using assms(1) i(1) by (auto intro!: quiet_upd_ok)
    note r = release_ok [OF inv1 len act]
    have "p' = (release_channel_state p1 i)\<lparr>channels_active := channels_active p1 - 1\<rparr>" and f: "found"
      using assms(2) Some r(6,7) by (auto simp: remove_channel_def p1_def Let_def)
    then have "proc_inv p'" "refs p' = refs p"
      using r(1) refs_release [OF inv1 len act] refs1 by simp_all
    with f i show ?thesis by blast
  qed
  then show "proc_inv p'" "refs p' = refs p"
    "found \<longleftrightarrow> (\<exists>i < length (channels p). active (chan p i) \<and> ch_id (chan p i) = id')" by auto
qed

lemma new_channel_ok:
  fixes p :: "('cb, 'e) proc" and id' :: u64 and cb :: 'cb
  assumes "proc_inv p" "i < length (channels p)" "\<not> active (chan p i)"
  defines "p1 \<equiv> (upd_channel p i (\<lambda>c. c\<lparr>active := True, scheduled := False, ch_id := id',
                  next_run_ns := 0, proc_in_cb := Some cb\<rparr>))\<lparr>channels_active := channels_active p + 1\<rparr>"
  shows "proc_inv p1" "refs p1 = add_mset cb (refs p)" "active (chan p1 i)" "length (channels p1) = length (channels p)"
proof -
  let ?f = "\<lambda>c. c\<lparr>active := True, scheduled := False, ch_id := id', next_run_ns := 0, proc_in_cb := Some cb\<rparr>"
  have s: "sched_ok p" and c: "chans_ok p" using assms(1) by (auto simp: proc_inv_def)
  have ns: "\<not> scheduled (chan p i)" using c assms(2,3) by (auto simp: chans_ok_def)
  have ch: "chan p1 j = (if j = i then ?f (chan p i) else chan p j)" for j
    using assms(2) chan_upd [of p i ?f j] by (simp add: p1_def)
  have e: "sched p1 = sched p" "channels p1 = (channels p)[i := ?f (chan p i)]"
      "channels_active p1 = channels_active p + 1" "decrefs p1 = decrefs p"
    by (simp_all add: p1_def upd_channel_simps)
  then show "length (channels p1) = length (channels p)" by simp
  have "map (\<lambda>j. next_run_ns (chan p1 j)) (sched p) = map (\<lambda>j. next_run_ns (chan p j)) (sched p)"
    using s ns by (intro map_cong) (auto simp: ch sched_ok_def)
  moreover have "{j. j < length (channels p1) \<and> scheduled (chan p1 j)} = {j. j < length (channels p) \<and> scheduled (chan p j)}"
    using ns unfolding ch by (auto simp: e(2))
  ultimately have "sched_ok p1" using s by (simp only: sched_ok_def e(1))
  moreover have "chans_ok p1"
  proof -
    have "length (filter active (channels p1)) = length (filter active (channels p)) + 1"
      using count_active_on [OF assms(2,3), of "?f (chan p i)"] by (simp add: e(2))
    moreover have "(scheduled (chan p1 j) \<longrightarrow> active (chan p1 j)) \<and> (active (chan p1 j) \<longleftrightarrow> proc_in_cb (chan p1 j) \<noteq> None)"
      if "j < length (channels p)" for j
      using c that unfolding ch by (auto simp: chans_ok_def)
    ultimately show ?thesis using c e(3) \<open>length (channels p1) = length (channels p)\<close>
      unfolding chans_ok_def by simp
  qed
  ultimately show "proc_inv p1" by (simp add: proc_inv_def)
  show "refs p1 = add_mset cb (refs p)"
    using live_upd(2) [OF assms(2,3), of "?f (chan p i)"] by (simp add: refs_def e)
  show "active (chan p1 i)" by (simp add: ch)
qed

lemma set_exception_ok:
  assumes "proc_inv p" "i < length (channels p)"
  shows "proc_inv (channel_set_callback_exception p i e)" "refs (channel_set_callback_exception p i e) = refs p"
  unfolding channel_set_callback_exception_def using assms by (auto intro!: quiet_upd_ok)

lemma add_channel_ok:
  assumes "proc_inv p" "add_channel env p id' cb w = ((ok, p'), w')"
  shows "proc_inv p' \<and> refs p' = add_mset cb (refs p)"
proof -
  obtain slot p0 w0 where a: "alloc_channel_slot env p w = ((slot, p0), w0)"
    by (metis prod.collapse)
  note g = alloc_slot_ok [OF assms(1) a]
  then have p0: "proc_inv p0" "refs p0 = refs p" by (auto simp: grown_def)
  show ?thesis
  proof (cases slot)
    case None
    then have p': "p' = p0\<lparr>decrefs := decrefs p0 @ [cb]\<rparr>" using assms(2) a by (auto simp: add_channel_def)
    have "sched_ok p'" "chans_ok p'" using p0(1) by (auto simp: p' proc_inv_def sched_ok_def chans_ok_def)
    moreover have "refs p' = add_mset cb (refs p0)" by (simp add: p' refs_def)
    ultimately show ?thesis using p0(2) by (simp add: proc_inv_def)
  next
    case (Some i)
    from g(2) [OF Some] have i: "i < length (channels p0)" "\<not> active (chan p0 i)" by auto
    define p1 where "p1 = (upd_channel p0 i (\<lambda>c. c\<lparr>active := True, scheduled := False, ch_id := id',
                  next_run_ns := 0, proc_in_cb := Some cb\<rparr>))\<lparr>channels_active := channels_active p0 + 1\<rparr>"
    note n = new_channel_ok [OF p0(1) i, where id' = id' and cb = cb, folded p1_def]
    have i1: "i < length (channels p1)" using i n(4) by simp
    obtain now w1 where nw: "env_now env w0 = (now, w1)" by (cases "env_now env w0")
    obtain res w2 where cl: "invoke_proc_callback env cb now 0 w1 = (res, w2)" by (cases "invoke_proc_callback env cb now 0 w1")
    have "p' = p1 \<or> (\<exists>e. p' = channel_set_callback_exception p1 i e) \<or> (\<exists>t. p' = schedule_channel p1 i t)"
      using assms(2) unfolding add_channel_def a Some prod.case option.case nw cl Let_def p1_def [symmetric]
      by (auto split: cb_result.splits option.splits)
    then show ?thesis
      using n(1-3) set_exception_ok [OF n(1) i1] schedule_ok [OF n(1) i1 n(3)] refs_schedule [OF i1] p0(2) by auto
  qed
qed

lemma close_exc_ok [simp]: "proc_inv (p\<lparr>close_exc := e\<rparr>) \<longleftrightarrow> proc_inv p"
  by (simp add: proc_inv_def sched_ok_def chans_ok_def)

lemma process_commands_ok:
  "proc_inv p \<Longrightarrow> process_commands env p cmds w = ((sts, down, p'), w') \<Longrightarrow>
     proc_inv p' \<and> refs p' = refs p + mset (cmd_cbs cmds) \<and> length sts = length cmds \<and>
     (down \<longleftrightarrow> CMD_SHUTDOWN \<in> set cmds)"
proof (induction cmds arbitrary: p w sts down p' w')
  case Nil
  then show ?case by simp
next
  case (Cons cmd cmds)
  show ?case
  proof (cases cmd)
    case (CMD_ADD_CHANNEL id' cb)
    obtain ok p1 w1 where a: "add_channel env p id' cb w = ((ok, p1), w1)" by (metis prod.collapse)
    obtain sts1 down1 p2 w2 where r: "process_commands env p1 cmds w1 = ((sts1, down1, p2), w2)" by (metis prod.collapse)
    have "sts = (if ok then 0 else ENOMEM) # sts1" "down = down1" "p' = p2"
      using Cons.prems(2) a r by (auto simp: CMD_ADD_CHANNEL)
    then show ?thesis
      using Cons.IH [OF _ r] add_channel_ok [OF Cons.prems(1) a] by (simp add: CMD_ADD_CHANNEL)
  next
    case (CMD_REMOVE_CHANNEL id' waits)
    obtain found exc p0 where a: "remove_channel p id' = ((found, exc), p0)" by (metis prod.collapse)
    let ?p1 = "if waits \<and> exc \<noteq> None then p0\<lparr>close_exc := exc\<rparr> else p0"
    obtain sts1 down1 p2 w2 where r: "process_commands env ?p1 cmds w = ((sts1, down1, p2), w2)" by (metis prod.collapse)
    have "sts = 0 # sts1" "down = down1" "p' = p2"
      using Cons.prems(2) a r by (auto simp: CMD_REMOVE_CHANNEL Let_def)
    moreover have "proc_inv ?p1" "refs ?p1 = refs p"
      using remove_channel_ok(1,2) [OF Cons.prems(1) a] by auto
    ultimately show ?thesis using Cons.IH [OF _ r] by (simp add: CMD_REMOVE_CHANNEL)
  next
    case CMD_SHUTDOWN
    obtain sts1 down1 p2 w2 where r: "process_commands env p cmds w = ((sts1, down1, p2), w2)" by (metis prod.collapse)
    then show ?thesis using Cons.IH [OF Cons.prems(1) r] Cons.prems(2) by (auto simp: CMD_SHUTDOWN)
  qed
qed

section \<open>Shutdown\<close>

text \<open>The destructor gives up the references of all channels.\<close>

lemma release_count_ok:
  assumes "proc_inv p" "i < length (channels p)"
  shows "\<exists>n. proc_inv ((release_channel_state p i)\<lparr>channels_active := n\<rparr>)"
    "refs (release_channel_state p i) = refs p" "length (channels (release_channel_state p i)) = length (channels p)"
    "\<not> active (chan (release_channel_state p i) i)"
    "j \<noteq> i \<Longrightarrow> chan (release_channel_state p i) j = chan p j"
proof -
  show "\<exists>n. proc_inv ((release_channel_state p i)\<lparr>channels_active := n\<rparr>)"
    using assms release_ok(1) [OF assms] by (cases "active (chan p i)") (auto simp: release_channel_state_def intro: exI [of _ "channels_active p"])
  show "refs (release_channel_state p i) = refs p" "length (channels (release_channel_state p i)) = length (channels p)"
    "\<not> active (chan (release_channel_state p i) i)" "j \<noteq> i \<Longrightarrow> chan (release_channel_state p i) j = chan p j"
    using refs_release [OF assms] release_ok [OF assms] by (cases "active (chan p i)"; simp add: release_channel_state_def)+
qed

lemma release_active_count: "release_channel_state (p\<lparr>channels_active := n\<rparr>) i = (release_channel_state p i)\<lparr>channels_active := n\<rparr>"
  by (simp add: release_channel_state_def unschedule_channel_def upd_channel_def Let_def split: option.splits)

lemma release_all_ok:
  assumes "proc_inv (p\<lparr>channels_active := n\<rparr>)" "m \<le> length (channels p)"
    and q: "q = fold (\<lambda>i p. release_channel_state p i) [0..<m] p"
  shows "(\<exists>k. proc_inv (q\<lparr>channels_active := k\<rparr>)) \<and> refs q = refs p \<and> length (channels q) = length (channels p) \<and>
    (\<forall>i < m. \<not> active (chan q i))"
  using assms(2) q
proof (induction m arbitrary: q)
  case 0
  then show ?case using assms(1) by auto
next
  case (Suc m)
  define r where "r = fold (\<lambda>i p. release_channel_state p i) [0..<m] p"
  from Suc.IH [OF _ r_def] Suc.prems(1) obtain k where
    r: "proc_inv (r\<lparr>channels_active := k\<rparr>)" "refs r = refs p" "length (channels r) = length (channels p)"
      "\<forall>i < m. \<not> active (chan r i)" by auto
  have q: "q = release_channel_state r m" using Suc.prems(2) by (simp add: r_def)
  note x = release_count_ok [OF r(1), of m, unfolded release_active_count]
  have "\<not> active (chan q i)" if "i < Suc m" for i
    using that r(4) x(4) x(5) [of i] Suc.prems(1) r(3) by (cases "i = m") (auto simp: q)
  then show ?case using x r(2,3) Suc.prems(1) by (auto simp: q)
qed

lemma clear_channels_ok:
  assumes "proc_inv p"
  shows "mset (decrefs (clear_channels p)) = refs p" "proc_inv (clear_channels p)"
proof -
  define q where "q = fold (\<lambda>i p. release_channel_state p i) [0..<length (channels p)] p"
  have "proc_inv (p\<lparr>channels_active := channels_active p\<rparr>)" using assms by simp
  from release_all_ok [OF this _ q_def] have q: "refs q = refs p" "\<forall>i < length (channels q). \<not> active (chan q i)" by auto
  then have "filter active (channels q) = []" by (auto simp: filter_empty_conv in_set_conv_nth)
  then show "mset (decrefs (clear_channels p)) = refs p"
    using q(1) by (simp add: clear_channels_def q_def [symmetric] refs_def live_def)
  show "proc_inv (clear_channels p)"
    by (simp add: clear_channels_def proc_inv_def sched_ok_def chans_ok_def)
qed

section \<open>The loop over due channels\<close>

definition due_count :: "('cb, 'e) proc \<Rightarrow> u64 \<Rightarrow> nat" where
  "due_count p T = length (filter (\<lambda>i. next_run_ns (chan p i) \<le> T) (sched p))"

lemma due_count_sched_insert:
  "length (filter P (sched_insert p c t xs)) = length (filter P xs) + (if P c then 1 else 0)"
proof -
  let ?Q = "\<lambda>i. next_run_ns (chan p i) \<le> t"
  have "length (filter P xs) = length (filter P (takeWhile ?Q xs @ dropWhile ?Q xs))" by simp
  then show ?thesis unfolding sched_insert_def filter_append length_append by simp
qed

lemma due_count_pop:
  assumes "proc_inv p" "pop_due_channel p now = Some (i, p')" "now \<le> T"
  shows "due_count p T = Suc (due_count p' T)"
proof -
  note d = pop_due_ok [OF assms(1,2)]
  have "next_run_ns (chan p' j) = next_run_ns (chan p j)" for j using d(8) [of j] by simp
  moreover have "next_run_ns (chan p i) \<le> T" using d(5) assms(3) by simp
  ultimately show ?thesis by (simp add: due_count_def d(6))
qed

lemma due_count_schedule:
  assumes "proc_inv p" "i < length (channels p)" "\<not> scheduled (chan p i)" "T < t"
  shows "due_count (schedule_channel p i t) T = due_count p T"
proof -
  define p1 where "p1 = upd_channel p i (\<lambda>c. c\<lparr>next_run_ns := t, scheduled := True\<rparr>)"
  have ch: "chan p1 j = (if j = i then (chan p i)\<lparr>next_run_ns := t, scheduled := True\<rparr> else chan p j)" for j
    using assms(2) by (simp add: p1_def chan_upd)
  have eq: "schedule_channel p i t = p1\<lparr>sched := sched_insert p1 i t (sched p)\<rparr>"
    using assms(3) by (simp add: schedule_channel_def p1_def Let_def upd_channel_simps)
  have notin: "i \<notin> set (sched p)" using assms(1,3) by (simp add: proc_inv_def sched_ok_def)
  have "filter (\<lambda>j. next_run_ns (chan p1 j) \<le> T) (sched p) = filter (\<lambda>j. next_run_ns (chan p j) \<le> T) (sched p)"
    using notin by (intro filter_cong) (auto simp: ch)
  moreover have "\<not> next_run_ns (chan p1 i) \<le> T" using assms(4) by (simp add: ch)
  ultimately show ?thesis by (simp add: due_count_def eq due_count_sched_insert)
qed

lemma due_count_exception: "due_count (channel_set_callback_exception p i e) T = due_count p T"
proof -
  let ?p = "channel_set_callback_exception p i e"
  have "next_run_ns (chan ?p j) = next_run_ns (chan p j)" for j
    by (simp add: channel_set_callback_exception_def chan_upd)
  then show ?thesis by (simp add: due_count_def) (simp add: channel_set_callback_exception_def upd_channel_simps)
qed

text \<open>What a callback's answer does to the scheduler.\<close>

definition after_call :: "('cb, 'e) proc \<Rightarrow> nat \<Rightarrow> 'e cb_result \<Rightarrow> ('cb, 'e) proc" where
  "after_call p ch res = (case res of
       Cb_next next_ns \<Rightarrow> if active (chan p ch) then schedule_channel p ch next_ns else p
     | Cb_none \<Rightarrow> p
     | Cb_raise (Some e) \<Rightarrow> channel_set_callback_exception p ch e
     | Cb_raise None \<Rightarrow> p)"

lemma after_call_ok:
  assumes "proc_inv p" "i < length (channels p)" "\<not> scheduled (chan p i)"
  shows "proc_inv (after_call p i res)" "refs (after_call p i res) = refs p"
    "(\<And>t. res = Cb_next t \<Longrightarrow> T < t) \<Longrightarrow> due_count (after_call p i res) T = due_count p T"
  using assms schedule_ok [OF assms(1,2)] refs_schedule [OF assms(2)] set_exception_ok [OF assms(1,2)]
    due_count_schedule [OF assms]
  by (auto simp: after_call_def due_count_exception split: cb_result.splits option.splits)

lemma due_loop_step:
  assumes "proc_inv p" "pop_due_channel p now = Some (i, p1)"
  shows "\<exists>cb. proc_in_cb (chan p i) = Some cb \<and>
    due_loop (Suc n) env p now w =
      (let (res, w1) = invoke_proc_callback env cb now (next_run_ns (chan p i)) w;
           (now', w2) = env_now env w1
       in map_option (\<lambda>((calls, p3), w3). (((i, now, next_run_ns (chan p i)) # calls, p3), w3))
            (due_loop n env (after_call p1 i res) now' w2))"
proof -
  note d = pop_due_ok [OF assms]
  obtain cb where cb: "proc_in_cb (chan p i) = Some cb"
    using assms(1) d(2,4) by (auto simp: proc_inv_def chans_ok_def)
  have c1: "chan p1 i = (chan p i)\<lparr>scheduled := False\<rparr>" using d(8) [of i] by simp
  show ?thesis
    using d(4) cb
    by (subst due_loop.simps) (simp add: assms(2) c1 after_call_def Let_def split: prod.splits)
qed

lemma due_loop_ok:
  "proc_inv p \<Longrightarrow> due_loop fuel env p now w = Some ((calls, p'), w') \<Longrightarrow>
     proc_inv p' \<and> refs p' = refs p \<and> (\<forall>(i, t, d) \<in> set calls. d \<le> t)"
proof (induction fuel arbitrary: p now w calls p' w')
  case 0
  then show ?case by (subst (asm) due_loop.simps) (auto split: option.splits prod.splits)
next
  case (Suc n)
  show ?case
  proof (cases "pop_due_channel p now")
    case None
    then show ?thesis using Suc.prems by (simp add: due_loop.simps [of "Suc n"])
  next
    case (Some ip)
    obtain i p1 where ip: "ip = (i, p1)" by (cases ip)
    note d = pop_due_ok [OF Suc.prems(1) Some [unfolded ip]]
    from due_loop_step [OF Suc.prems(1) Some [unfolded ip], of n env w] obtain cb where
      st: "due_loop (Suc n) env p now w =
      (let (res, w1) = invoke_proc_callback env cb now (next_run_ns (chan p i)) w;
           (now', w2) = env_now env w1
       in map_option (\<lambda>((calls, p3), w3). (((i, now, next_run_ns (chan p i)) # calls, p3), w3))
            (due_loop n env (after_call p1 i res) now' w2))" by blast
    obtain res w1 where cl: "invoke_proc_callback env cb now (next_run_ns (chan p i)) w = (res, w1)" by fastforce
    obtain now' w2 where nw: "env_now env w1 = (now', w2)" by fastforce
    from Suc.prems(2) st cl nw obtain calls1 where
      r: "due_loop n env (after_call p1 i res) now' w2 = Some ((calls1, p'), w')"
      and calls: "calls = (i, now, next_run_ns (chan p i)) # calls1" by auto
    have i1: "i < length (channels p1)" "\<not> scheduled (chan p1 i)" using d(2,7) d(8) [of i] by auto
    note a = after_call_ok(1,2) [OF d(1) i1, of res]
    from Suc.IH [OF a(1) r] a(2) have "proc_inv p'" "refs p' = refs p1" "\<forall>(i, t, d) \<in> set calls1. d \<le> t" by auto
    moreover have "refs p1 = refs p"
    proof -
      have "p1 = upd_channel (p\<lparr>sched := sched p1\<rparr>) i (\<lambda>c. c\<lparr>scheduled := False\<rparr>)"
        using Some d(6) by (auto simp: ip pop_due_channel_def upd_channel_def split: if_splits)
      then show ?thesis
        using d(2) refs_upd_same [of i "p\<lparr>sched := sched p1\<rparr>" "\<lambda>c. c\<lparr>scheduled := False\<rparr>"] by simp
    qed
    ultimately show ?thesis using d(5) calls by auto
  qed
qed

text \<open>
  During the next calls the clock does not pass \<open>T\<close>, and the callbacks ask for times after \<open>T\<close>.
\<close>

fun calm :: "nat \<Rightarrow> ('cb, 'e, 'w) proc_env \<Rightarrow> u64 \<Rightarrow> 'w \<Rightarrow> bool" where
  "calm 0 env T w \<longleftrightarrow> True"
| "calm (Suc n) env T w \<longleftrightarrow>
     (\<forall>cb t d. case invoke_proc_callback env cb t d w of (res, w1) \<Rightarrow>
        (\<forall>s. res = Cb_next s \<longrightarrow> T < s) \<and> fst (env_now env w1) \<le> T \<and> calm n env T (snd (env_now env w1)))"

lemma calm_call:
  "calm (Suc n) env T w \<Longrightarrow> case invoke_proc_callback env cb t d w of (res, w1) \<Rightarrow>
     (\<forall>s. res = Cb_next s \<longrightarrow> T < s) \<and> fst (env_now env w1) \<le> T \<and> calm n env T (snd (env_now env w1))"
  by (simp del: split_paired_All)

lemma due_loop_ends:
  "proc_inv p \<Longrightarrow> now \<le> T \<Longrightarrow> calm fuel env T w \<Longrightarrow> due_count p T \<le> fuel \<Longrightarrow> due_loop fuel env p now w \<noteq> None"
proof (induction fuel arbitrary: p now w)
  case 0
  then have "pop_due_channel p now = None" using due_count_pop [of p now _ _ T] by (cases "pop_due_channel p now") auto
  then show ?case by (simp add: due_loop.simps)
next
  case (Suc n)
  show ?case
  proof (cases "pop_due_channel p now")
    case None
    then show ?thesis by (simp add: due_loop.simps)
  next
    case (Some ip)
    obtain i p1 where ip: "ip = (i, p1)" by (cases ip)
    note d = pop_due_ok [OF Suc.prems(1) Some [unfolded ip]]
    from due_loop_step [OF Suc.prems(1) Some [unfolded ip], of n env w] obtain cb where
      st: "due_loop (Suc n) env p now w =
      (let (res, w1) = invoke_proc_callback env cb now (next_run_ns (chan p i)) w;
           (now', w2) = env_now env w1
       in map_option (\<lambda>((calls, p3), w3). (((i, now, next_run_ns (chan p i)) # calls, p3), w3))
            (due_loop n env (after_call p1 i res) now' w2))" by blast
    obtain res w1 where cl: "invoke_proc_callback env cb now (next_run_ns (chan p i)) w = (res, w1)" by fastforce
    obtain now' w2 where nw: "env_now env w1 = (now', w2)" by fastforce
    have i1: "i < length (channels p1)" "\<not> scheduled (chan p1 i)" using d(2,7) d(8) [of i] by auto
    from Suc.prems(3) have c: "\<forall>s. res = Cb_next s \<longrightarrow> T < s" "now' \<le> T" "calm n env T w2"
      using calm_call [of n env T w cb now "next_run_ns (chan p i)"] by (auto simp: cl nw)
    have "due_count (after_call p1 i res) T = due_count p1 T"
      using c(1) by (intro after_call_ok(3) [OF d(1) i1]) simp
    then have "due_count (after_call p1 i res) T \<le> n"
      using due_count_pop [OF Suc.prems(1) Some [unfolded ip] Suc.prems(2)] Suc.prems(4) by simp
    then have "due_loop n env (after_call p1 i res) now' w2 \<noteq> None"
      using Suc.IH after_call_ok(1) [OF d(1) i1] c(2,3) by blast
    then show ?thesis using st cl nw by auto
  qed
qed

section \<open>Properties\<close>

definition proc_empty :: "('cb, 'e) proc" where
  "proc_empty = \<lparr>channels = [], channels_active = 0, sched = [], close_exc = None, decrefs = []\<rparr>"

lemma proc_empty_ok: "proc_inv proc_empty" "refs proc_empty = {#}"
  by (simp_all add: proc_empty_def proc_inv_def sched_ok_def chans_ok_def refs_def live_def)

text \<open>
  An environment for examples: the clock is the state, it ticks when it is read and stops at 1000, and every
  callback asks for the time 2000.
\<close>

definition tick_env :: "(nat, nat, u64) proc_env" where
  "tick_env = \<lparr>env_now = (\<lambda>w. (min w 1000, w + 1)), env_cmd_now = (\<lambda>w. (w, w)),
     env_call = (\<lambda>cb t d w. (Some (Py_long 2000), w)), env_OverflowError = 1, env_TypeError = 2,
     env_realloc = (\<lambda>n w. (Some True, w))\<rparr>"

definition two_adds :: "nat proc_cmd list" where
  "two_adds = [CMD_ADD_CHANNEL 1 7, CMD_ADD_CHANNEL 2 8]"

lemma tick_env_calm: "1000 \<le> T \<Longrightarrow> T < 2000 \<Longrightarrow> calm n tick_env T w"
  by (induction n arbitrary: w) (auto simp: tick_env_def min_def invoke_proc_callback_def)

definition two_channels :: "(nat, nat) proc" where
  "two_channels = \<lparr>channels = [\<lparr>active = True, scheduled = True, ch_id = 1, next_run_ns = 2000, proc_in_cb = Some 7, cb_exc = None\<rparr>,
       \<lparr>active = True, scheduled = True, ch_id = 2, next_run_ns = 2000, proc_in_cb = Some 8, cb_exc = None\<rparr>,
       channel_zero, channel_zero],
     channels_active = 2, sched = [0, 1], close_exc = None, decrefs = []\<rparr>"

lemma two_adds_run: "process_commands tick_env proc_empty two_adds 5 = (([0, 0], False, two_channels), 7)"
proof -
  have g: "grow_cap 4 4 = Some 4" by (simp add: grow_cap.simps)
  have r: "replicate 4 x = [x, x, x, x]" for x :: "(nat, nat) proc_channel_state" by (simp add: eval_nat_numeral)
  have u: "[0..<4] = [0, 1, 2, 3]" by (simp add: upt_rec)
  show ?thesis
    by (simp add: two_adds_def add_channel_def alloc_channel_slot_def first_free_def ensure_channel_capacity_def
        proc_empty_def tick_env_def invoke_proc_callback_def g r u upd_channel_def schedule_channel_def sched_insert_def
        channel_zero_def two_channels_def Let_def)
qed

lemmas two_adds_ok = process_commands_ok [OF proc_empty_ok(1) two_adds_run]

text \<open>
  C29. Whatever commands the worker processes and whatever the callbacks, the clock and \<open>realloc\<close> do, the
  schedule holds exactly the scheduled channels, once each, ordered by their deadlines, only active channels are scheduled, and
  the number of active channels is right. Every command gets a status.
\<close>

theorem proc_commands_keep_schedule:
  assumes "proc_inv p" and "process_commands env p cmds w = ((sts, down, p'), w')"
  shows "distinct (sched p') \<and> set (sched p') = {i. i < length (channels p') \<and> scheduled (chan p' i)} \<and>
    sorted (map (\<lambda>i. next_run_ns (chan p' i)) (sched p')) \<and>
    (\<forall>i < length (channels p'). scheduled (chan p' i) \<longrightarrow> active (chan p' i)) \<and>
    channels_active p' = length (filter active (channels p')) \<and> length sts = length cmds"
  using process_commands_ok [OF assms] by (auto simp: proc_inv_def sched_ok_def chans_ok_def)

theorem proc_commands_keep_schedule_witness:
  "\<exists>p'. process_commands tick_env proc_empty two_adds 5 = (([0, 0], False, p'), 7) \<and> set (sched p') = {0, 1} \<and>
     sorted (map (\<lambda>i. next_run_ns (chan p' i)) (sched p')) \<and> channels_active p' = length (filter active (channels p'))"
  using proc_commands_keep_schedule [OF proc_empty_ok(1) two_adds_run] two_adds_run
  by (intro exI [of _ two_channels] conjI) (auto simp: two_channels_def)

text \<open>
  The channel that is taken to run is due, and no scheduled channel has an earlier deadline; nothing is taken
  only if no scheduled channel is due.
\<close>

lemma proc_earliest_first:
  assumes "proc_inv p"
  shows "case pop_due_channel p now of
      None \<Rightarrow> \<forall>i < length (channels p). scheduled (chan p i) \<longrightarrow> now < next_run_ns (chan p i)
    | Some (ch, p') \<Rightarrow> next_run_ns (chan p ch) \<le> now \<and> \<not> scheduled (chan p' ch) \<and>
        (\<forall>i < length (channels p). scheduled (chan p i) \<longrightarrow> next_run_ns (chan p ch) \<le> next_run_ns (chan p i))"
proof -
  have s: "sched_ok p" using assms by (simp add: proc_inv_def)
  then have mem: "i < length (channels p) \<Longrightarrow> scheduled (chan p i) \<Longrightarrow> i \<in> set (sched p)" for i
    by (simp add: sched_ok_def)
  show ?thesis
  proof (cases "sched p")
    case Nil
    then show ?thesis using mem by (auto simp: pop_due_channel_def)
  next
    case (Cons ch rest)
    then have first: "i \<in> set (sched p) \<Longrightarrow> next_run_ns (chan p ch) \<le> next_run_ns (chan p i)" for i
      using s by (auto simp: sched_ok_def)
    show ?thesis
    proof (cases "next_run_ns (chan p ch) > now")
      case True
      then have "pop_due_channel p now = None" using Cons by (simp add: pop_due_channel_def)
      then show ?thesis using first mem True by (auto intro: less_le_trans)
    next
      case False
      then obtain p' where pop: "pop_due_channel p now = Some (ch, p')" using Cons by (simp add: pop_due_channel_def)
      note d = pop_due_ok [OF assms pop]
      show ?thesis using d(5) d(8) [of ch] first mem by (simp add: pop)
    qed
  qed
qed

lemma proc_earliest_first_example:
  "\<exists>p :: (nat, nat) proc. proc_inv p \<and> pop_due_channel p 2000 \<noteq> None \<and>
     (\<forall>ch p'. pop_due_channel p 2000 = Some (ch, p') \<longrightarrow> next_run_ns (chan p ch) \<le> 2000)"
proof (intro exI conjI allI impI)
  let ?p = two_channels
  show i: "proc_inv ?p" using two_adds_ok by blast
  show "pop_due_channel ?p 2000 \<noteq> None" by (simp add: pop_due_channel_def two_channels_def)
  fix ch p'
  assume "pop_due_channel ?p 2000 = Some (ch, p')"
  then show "next_run_ns (chan ?p ch) \<le> 2000" using proc_earliest_first [OF i, of 2000] by simp
qed

text \<open>
  The loop over the due channels ends: if the clock does not pass a time \<open>T\<close> while the loop makes its
  next calls and the callbacks ask for deadlines after \<open>T\<close>, each scheduled channel is called at most once. No callback is called
  before its deadline.
\<close>

lemma proc_due_loop_ends:
  assumes "proc_inv p" and "now \<le> T" and "calm (length (sched p)) env T w"
  shows "\<exists>calls p' w'. due_loop (length (sched p)) env p now w = Some ((calls, p'), w') \<and>
    proc_inv p' \<and> (\<forall>(i, t, d) \<in> set calls. d \<le> t)"
proof -
  have "due_count p T \<le> length (sched p)" by (simp add: due_count_def)
  then have "due_loop (length (sched p)) env p now w \<noteq> None"
    using assms by (intro due_loop_ends) auto
  then obtain calls p' w' where r: "due_loop (length (sched p)) env p now w = Some ((calls, p'), w')" by auto
  from due_loop_ok [OF assms(1) r] r show ?thesis by blast
qed

lemma proc_due_loop_ends_example:
  "\<exists>p. proc_inv p \<and> sched p = [0, 1] \<and>
     (\<exists>calls p' w'. due_loop 2 tick_env p 900 5 = Some ((calls, p'), w') \<and> proc_inv p')"
proof (rule exI [of _ two_channels], intro conjI)
  let ?p = two_channels
  show i: "proc_inv ?p" using two_adds_ok by blast
  show s: "sched ?p = [0, 1]" by (simp add: two_channels_def)
  have l: "length (sched ?p) = 2" by (simp add: s)
  show "\<exists>calls p' w'. due_loop 2 tick_env ?p 900 5 = Some ((calls, p'), w') \<and> proc_inv p'"
    using proc_due_loop_ends [OF i, of 900 1000 tick_env 5, unfolded l] by (auto simp: tick_env_calm)
qed

lemma sched_le_refs:
  assumes "proc_inv p"
  shows "length (sched p) \<le> size (refs p)"
proof -
  have s: "distinct (sched p)" "set (sched p) = {i. i < length (channels p) \<and> scheduled (chan p i)}"
    using assms by (auto simp: proc_inv_def sched_ok_def)
  have "set (sched p) \<subseteq> {i. i < length (channels p) \<and> active (chan p i)}"
    using assms s(2) by (auto simp: proc_inv_def chans_ok_def)
  then have "card (set (sched p)) \<le> length (filter active (channels p))"
    unfolding length_filter_conv_card by (intro card_mono) auto
  then show ?thesis using s(1) by (simp add: distinct_card refs_def live_def size_mset del: mset_filter mset_map)
qed

lemma worker_pass_ok:
  assumes "proc_inv p" and "size (refs p) \<le> fuel"
    and "\<exists>T. fst (env_now env w) \<le> T \<and> calm fuel env T (snd (env_now env w))"
  shows "\<exists>calls wait p' w'. worker_pass fuel env clock p w = Some ((calls, wait, p'), w') \<and>
    proc_inv p' \<and> refs p' = refs p"
proof -
  obtain now w1 where n: "env_now env w = (now, w1)" by fastforce
  from assms(3) n obtain T where T: "now \<le> T" "calm fuel env T w1" by auto
  have "due_count p T \<le> length (sched p)" by (simp add: due_count_def)
  then have "due_loop fuel env p now w1 \<noteq> None"
    using sched_le_refs [OF assms(1)] assms(1,2) T by (intro due_loop_ends) auto
  then obtain calls p' w' where r: "due_loop fuel env p now w1 = Some ((calls, p'), w')" by auto
  from due_loop_ok [OF assms(1) r] r show ?thesis
    by (auto simp: worker_pass_def n split: prod.splits)
qed

lemma cmd_cbs_append: "cmd_cbs (xs @ ys) = cmd_cbs xs @ cmd_cbs ys"
  by (induction xs rule: cmd_cbs.induct) auto

lemma clear_channels_empty: "channels (clear_channels p) = []"
  by (simp add: clear_channels_def)

lemma worker_ok:
  assumes prompt: "\<And>w. \<exists>T. fst (env_now env w) \<le> T \<and> calm fuel env T (snd (env_now env w))"
    and "CMD_SHUTDOWN \<in> set final"
  shows "proc_inv p \<Longrightarrow> \<forall>cmds \<in> set pre. CMD_SHUTDOWN \<notin> set cmds \<Longrightarrow>
    size (refs p) + length (cmd_cbs (concat pre)) \<le> fuel \<Longrightarrow>
    \<exists>stss p' w'. rtp_proc_worker fuel env clock p (pre @ final # rest) w = Some ((stss, p'), w') \<and>
      map length stss = map length (pre @ [final]) \<and> channels p' = [] \<and>
      mset (decrefs p') = refs p + mset (cmd_cbs (concat (pre @ [final] @ take 1 rest)))"
proof (induction pre arbitrary: p w)
  case Nil
  obtain sts down p1 w1 where pc: "process_commands env p final w = ((sts, down, p1), w1)" by (metis prod.exhaust)
  note k = process_commands_ok [OF Nil.prems(1) pc]
  then have "mset (decrefs (clear_channels p1)) = refs p1" using clear_channels_ok(1) by blast
  then show ?case using k assms(2)
    by (simp add: pc free_command_list_def clear_channels_empty cmd_cbs_append)
next
  case (Cons cmds pre)
  obtain sts down p1 w1 where pc: "process_commands env p cmds w = ((sts, down, p1), w1)" by (metis prod.exhaust)
  note k = process_commands_ok [OF Cons.prems(1) pc]
  then have "size (refs p1) \<le> fuel" using Cons.prems(3) by (simp add: cmd_cbs_append)
  from worker_pass_ok [OF _ this prompt, of clock w1] k obtain calls wait p2 w2
    where wp: "worker_pass fuel env clock p1 w1 = Some ((calls, wait, p2), w2)" "proc_inv p2" "refs p2 = refs p1" by blast
  have "size (refs p2) + length (cmd_cbs (concat pre)) \<le> fuel"
    using Cons.prems(3) k wp(3) by (simp add: cmd_cbs_append)
  from Cons.IH [OF wp(2) _ this, of w2] Cons.prems(2) obtain stss p' w' where
    "rtp_proc_worker fuel env clock p2 (pre @ final # rest) w2 = Some ((stss, p'), w')"
    "map length stss = map length (pre @ [final])" "channels p' = []"
    "mset (decrefs p') = refs p2 + mset (cmd_cbs (concat (pre @ [final] @ take 1 rest)))" by auto
  then show ?case using k wp Cons.prems(2) by (simp add: pc cmd_cbs_append)
qed

text \<open>
  C13. The worker ends and leaks nothing. If the callbacks always ask for times that the clock does not reach
  while the due channels run, then the worker, started with no channels, returns once it has processed the batch
  with the shutdown. Every command got a status, no channel is left, and every reference to a callback that came with a
  command has been given up exactly once.
\<close>

theorem proc_worker_releases:
  assumes "\<And>w. \<exists>T. fst (env_now env w) \<le> T \<and> calm (length (cmd_cbs (concat pre))) env T (snd (env_now env w))"
    and "\<forall>cmds \<in> set pre. CMD_SHUTDOWN \<notin> set cmds" and "CMD_SHUTDOWN \<in> set final"
  shows "\<exists>stss p' w'. rtp_proc_worker (length (cmd_cbs (concat pre))) env clock proc_empty (pre @ final # rest) w =
      Some ((stss, p'), w') \<and>
    map length stss = map length (pre @ [final]) \<and> channels p' = [] \<and>
    mset (decrefs p') = mset (cmd_cbs (concat (pre @ [final] @ take 1 rest)))"
  using worker_ok [OF assms(1,3) proc_empty_ok(1) assms(2), of clock rest w] by (simp add: proc_empty_ok)

theorem proc_worker_releases_witness:
  "\<exists>stss p' w'. rtp_proc_worker 2 tick_env CLOCK_MONOTONIC proc_empty [two_adds, [CMD_SHUTDOWN]] 5 = Some ((stss, p'), w') \<and>
     mset (decrefs p') = {#7, 8#}"
proof -
  have l: "length (cmd_cbs (concat [two_adds])) = 2" by (simp add: two_adds_def)
  have c: "\<exists>T. fst (env_now tick_env w) \<le> T \<and> calm 2 tick_env T (snd (env_now tick_env w))" for w
    by (rule exI [of _ 1000]) (simp add: tick_env_calm, simp add: tick_env_def)
  have "\<forall>cmds \<in> set [two_adds]. CMD_SHUTDOWN \<notin> set cmds" "CMD_SHUTDOWN \<in> set [CMD_SHUTDOWN :: nat proc_cmd]"
    by (simp_all add: two_adds_def)
  from proc_worker_releases [where pre = "[two_adds]" and env = tick_env, unfolded l, OF c this,
      of CLOCK_MONOTONIC "[]" 5]
  have "\<exists>stss p' w'. rtp_proc_worker 2 tick_env CLOCK_MONOTONIC proc_empty ([two_adds] @ [[CMD_SHUTDOWN]]) 5 = Some ((stss, p'), w') \<and>
     mset (decrefs p') = mset (cmd_cbs (concat ([two_adds] @ [[CMD_SHUTDOWN]])))" by auto
  then show ?thesis by (simp add: two_adds_def)
qed

text \<open>
  A deadline on the monotonic clock is moved to the clock of the condition variable: never before
  the present, exactly by the remaining time, and saturating at the end of the range.
\<close>

lemma proc_deadline_conversion:
  "uint (monotonic_deadline_to_cmd_clock CLOCK_REALTIME cmd_now deadline now) =
     min (2 ^ 64 - 1) (uint cmd_now + max 0 (uint deadline - uint now)) \<and>
   monotonic_deadline_to_cmd_clock CLOCK_MONOTONIC cmd_now deadline now = max deadline now"
proof
  have c: "uint cmd_now < 2 ^ 64" using unsigned_less [of cmd_now, where 'a = int] by simp
  show "uint (monotonic_deadline_to_cmd_clock CLOCK_REALTIME cmd_now deadline now) =
     min (2 ^ 64 - 1) (uint cmd_now + max 0 (uint deadline - uint now))"
  proof (cases "deadline \<le> now")
    case True
    then show ?thesis using c by (simp add: monotonic_deadline_to_cmd_clock_def word_le_def)
  next
    case False
    then have w: "uint (deadline - now) = uint deadline - uint now"
      by (simp add: uint_sub_if' word_le_def)
    have m: "uint (- 1 - cmd_now) = 2 ^ 64 - 1 - uint cmd_now"
      using c by (simp add: uint_sub_if' unsigned_minus_1_eq_mask mask_eq_exp_minus_1)
    show ?thesis
    proof (cases "(- 1) - cmd_now < deadline - now")
      case True
      then show ?thesis using False w m
        by (simp add: monotonic_deadline_to_cmd_clock_def Let_def word_less_def word_le_def
            unsigned_minus_1_eq_mask mask_eq_exp_minus_1)
    next
      case lim: False
      then have "uint cmd_now + uint (deadline - now) < 2 ^ 64" using w m by (simp add: word_less_def)
      then have "uint (cmd_now + (deadline - now)) = uint cmd_now + uint (deadline - now)"
        by (simp add: uint_plus_if')
      then show ?thesis using False lim w m
        by (simp add: monotonic_deadline_to_cmd_clock_def Let_def word_less_def word_le_def)
    qed
  qed
  show "monotonic_deadline_to_cmd_clock CLOCK_MONOTONIC cmd_now deadline now = max deadline now"
    by (simp add: monotonic_deadline_to_cmd_clock_def max_def)
qed

end
