(* ===== verification/Rtp_Proc_Api.thy ===== *)
theory Rtp_Proc_Api
  imports Rtp_Proc
begin

text \<open>
  The Python side of \<^verbatim>\<open>python/RtpProc_mod.c\<close>: the singleton \<open>RtpProc\<close> with its command queue and
  its one waiter for synchronous commands, the channel objects, and how their methods and the worker thread run together.

  A method runs with the interpreter lock held, so it is atomic except where it blocks: it is one definition up to
  \<open>rtp_sync_waiter_wait\<close> or \<open>pthread_join\<close> and another one from there on. The worker detaches the queue, processes one command at
  a time, and then goes through the loop over the due channels one channel at a time; it detaches the queue again only when that loop has
  ended. A method can be called from a callback on the worker; one that blocks there stops the worker. What the calls of the C and the
  Python library return is part of the arguments.
\<close>

section \<open>State\<close>

datatype 'e py_err =
    RuntimeError string
  | RuntimeStatus string int
  | MemoryError
  | TypeError string
  | ArgumentError
  | ChannelProcError 'e

text \<open>What the library calls made by one method return, in their order.\<close>

record lib_env =
  lib_object :: bool
  lib_calloc :: bool
  lib_lock_acquire :: bool
  lib_reset :: bool
  lib_lock_enqueue :: bool
  lib_lock_release :: bool

record ('cb, 'e) py_proc =
  worker_running :: bool
  mutex_inited :: bool
  cond_inited :: bool
  cmd_waiter_inited :: bool
  cmd_waiter_busy :: bool
  shutdown_queued :: bool
  accepting_commands :: bool
  next_channel_id :: u64
  cmd_cv_clock :: clock_id
  cmd_waiter :: rtp_sync_waiter
  cmd_list :: "'cb proc_cmd list"
  wstate :: "('cb, 'e) proc"

record proc_channel =
  proc_obj :: bool
  obj_id :: u64
  closed :: bool

text \<open>Only \<open>CMD_SHUTDOWN\<close> and the command of a channel that is deallocated have no waiter.\<close>

fun has_waiter :: "'cb proc_cmd \<Rightarrow> bool" where
  "has_waiter (CMD_ADD_CHANNEL id' cb) = True"
| "has_waiter (CMD_REMOVE_CHANNEL id' waits) = waits"
| "has_waiter CMD_SHUTDOWN = False"

section \<open>The command queue and the waiter\<close>

definition free_command :: "('cb, 'e) py_proc \<Rightarrow> 'cb proc_cmd \<Rightarrow> ('cb, 'e) py_proc" where
  "free_command p cmd = p\<lparr>wstate := free_command_list (wstate p) [cmd]\<rparr>"

definition proc_waiter_release :: "bool \<Rightarrow> ('cb, 'e) py_proc \<Rightarrow> ('cb, 'e) py_proc" where
  "proc_waiter_release lock_ok p =
     (if \<not> mutex_inited p then p else if lock_ok then p\<lparr>cmd_waiter_busy := False\<rparr> else p)"

definition proc_waiter_acquire ::
    "lib_env \<Rightarrow> ('cb, 'e) py_proc \<Rightarrow> 'e py_err option \<times> ('cb, 'e) py_proc" where
  "proc_waiter_acquire le p =
     (if \<not> cmd_waiter_inited p then (Some (RuntimeError ''RtpProc waiter is not initialized''), p)
      else if \<not> lib_lock_acquire le then (Some (RuntimeError ''failed to lock command queue''), p)
      else if cmd_waiter_busy p then
        (Some (RuntimeError ''another synchronous command is already in progress''), p)
      else
        (let p1 = p\<lparr>cmd_waiter_busy := True\<rparr>
         in if \<not> lib_reset le then
              (Some (RuntimeError ''failed to reset command waiter''), proc_waiter_release (lib_lock_release le) p1)
            else (None, p1\<lparr>cmd_waiter := rtp_sync_waiter_reset (cmd_waiter p1)\<rparr>)))"

definition enqueue_command ::
    "lib_env \<Rightarrow> bool \<Rightarrow> ('cb, 'e) py_proc \<Rightarrow> 'cb proc_cmd \<Rightarrow> (int \<times> 'e py_err option) \<times> ('cb, 'e) py_proc" where
  "enqueue_command le with_error p cmd =
     (let fail = (\<lambda>m. ((-1, if with_error then Some (RuntimeError m) else None), free_command p cmd))
      in if \<not> mutex_inited p \<or> \<not> cond_inited p then fail ''RtpProc is not initialized''
         else if \<not> lib_lock_enqueue le then fail ''failed to lock command queue''
         else if \<not> accepting_commands p then fail ''RtpProc is shutting down''
         else ((0, None), p\<lparr>cmd_list := cmd_list p @ [cmd]\<rparr>))"

definition detach_commands :: "bool \<Rightarrow> ('cb, 'e) py_proc \<Rightarrow> 'cb proc_cmd list \<times> ('cb, 'e) py_proc" where
  "detach_commands lock_ok p =
     (if \<not> mutex_inited p then ([], p) else if \<not> lock_ok then ([], p)
      else (cmd_list p, p\<lparr>cmd_list := []\<rparr>))"

section \<open>Methods of a channel\<close>

datatype 'e close_result = Close_raises "'e py_err" | Close_fails | Close_done | Close_waits

definition is_runtime_error :: "'e py_err \<Rightarrow> bool" where
  "is_runtime_error e = (case e of RuntimeError m \<Rightarrow> True | RuntimeStatus m n \<Rightarrow> True | ChannelProcError x \<Rightarrow> True
     | MemoryError \<Rightarrow> False | TypeError m \<Rightarrow> False | ArgumentError \<Rightarrow> False)"

text \<open>\<open>proc_pop_close_exception\<close> and \<open>raise_channel_proc_error_from\<close>.\<close>

definition proc_pop_close_exception :: "('cb, 'e) py_proc \<Rightarrow> 'e option \<times> ('cb, 'e) py_proc" where
  "proc_pop_close_exception p = (close_exc (wstate p), p\<lparr>wstate := (wstate p)\<lparr>close_exc := None\<rparr>\<rparr>)"

definition raise_channel_proc_error_from :: "lib_env \<Rightarrow> 'e \<Rightarrow> 'e py_err" where
  "raise_channel_proc_error_from le e = (if lib_object le then ChannelProcError e else MemoryError)"

definition close_finish ::
    "lib_env \<Rightarrow> bool \<Rightarrow> proc_channel \<Rightarrow> ('cb, 'e) py_proc \<Rightarrow> 'e close_result \<times> proc_channel \<times> ('cb, 'e) py_proc" where
  "close_finish le with_error ch p =
     (if with_error then
        (case proc_pop_close_exception p of
           (Some e, p1) \<Rightarrow> (Close_raises (raise_channel_proc_error_from le e), ch\<lparr>closed := True\<rparr>, p1)
         | (None, p1) \<Rightarrow> (Close_done, ch\<lparr>closed := True\<rparr>, p1))
      else (Close_done, ch\<lparr>closed := True\<rparr>, p))"

definition rtp_proc_channel_close_internal ::
    "lib_env \<Rightarrow> bool \<Rightarrow> proc_channel \<Rightarrow> ('cb, 'e) py_proc \<Rightarrow> 'e close_result \<times> proc_channel \<times> ('cb, 'e) py_proc" where
  "rtp_proc_channel_close_internal le with_error ch p =
     (if closed ch then
        ((if with_error then Close_raises (RuntimeError ''channel is already closed'') else Close_done), ch, p)
      else if \<not> proc_obj ch then (Close_done, ch\<lparr>closed := True\<rparr>, p)
      else if \<not> lib_calloc le then ((if with_error then Close_raises MemoryError else Close_fails), ch, p)
      else
        (let cmd = CMD_REMOVE_CHANNEL (obj_id ch) with_error
         in if with_error then
              (case proc_waiter_acquire le (snd (proc_pop_close_exception p)) of
                 (Some e, p1) \<Rightarrow> (Close_raises e, ch, free_command p1 cmd)
               | (None, p1) \<Rightarrow>
                   (case enqueue_command le True p1 cmd of
                      ((rc, err), p2) \<Rightarrow>
                        if rc \<noteq> 0 then
                          (let p3 = proc_waiter_release (lib_lock_release le) p2
                           in case err of
                                Some e \<Rightarrow> if \<not> is_runtime_error e then (Close_raises e, ch, p3) else close_finish le True ch p3
                              | None \<Rightarrow> close_finish le True ch p3)
                        else (Close_waits, ch, p2)))
            else close_finish le False ch (snd (enqueue_command le False p cmd))))"

text \<open>What follows the wait.\<close>

definition channel_close_return ::
    "lib_env \<Rightarrow> int \<Rightarrow> proc_channel \<Rightarrow> ('cb, 'e) py_proc \<Rightarrow> 'e close_result \<times> proc_channel \<times> ('cb, 'e) py_proc" where
  "channel_close_return le cmd_status ch p =
     (let p1 = proc_waiter_release (lib_lock_release le) p
      in if cmd_status \<noteq> 0 then
           (Close_raises (RuntimeStatus ''failed to remove channel from worker'' cmd_status), ch, p1)
         else close_finish le True ch p1)"

definition PyRtpProcChannel_dealloc :: "lib_env \<Rightarrow> proc_channel \<Rightarrow> ('cb, 'e) py_proc \<Rightarrow> ('cb, 'e) py_proc" where
  "PyRtpProcChannel_dealloc le ch p = snd (snd (rtp_proc_channel_close_internal le False ch p))"

section \<open>Methods of \<open>RtpProc\<close>\<close>

datatype 'e create_result = Create_raises "'e py_err" | Create_waits proc_channel | Create_done proc_channel

text \<open>The argument is the object that was passed and whether it can be called.\<close>

definition PyRtpProc_create_channel ::
    "lib_env \<Rightarrow> ('cb \<times> bool) option \<Rightarrow> ('cb, 'e) py_proc \<Rightarrow> 'e create_result \<times> ('cb, 'e) py_proc" where
  "PyRtpProc_create_channel le arg p =
     (case arg of
        None \<Rightarrow> (Create_raises ArgumentError, p)
      | Some (proc_in, callable) \<Rightarrow>
          if \<not> callable then (Create_raises (TypeError ''proc_in must be callable''), p)
          else if \<not> lib_object le then (Create_raises MemoryError, p)
          else
            (let ch = \<lparr>proc_obj = True, obj_id = next_channel_id p, closed = False\<rparr>;
                 p1 = p\<lparr>next_channel_id := next_channel_id p + 1\<rparr>
             in if \<not> lib_calloc le then (Create_raises MemoryError, PyRtpProcChannel_dealloc le ch p1)
                else
                  (let cmd = CMD_ADD_CHANNEL (obj_id ch) proc_in
                   in case proc_waiter_acquire le p1 of
                        (Some e, p2) \<Rightarrow> (Create_raises e, free_command p2 cmd)
                      | (None, p2) \<Rightarrow>
                          (case enqueue_command le True p2 cmd of
                             ((rc, err), p3) \<Rightarrow>
                               if rc \<noteq> 0 then
                                 (Create_raises (case err of Some e \<Rightarrow> e
                                    | None \<Rightarrow> RuntimeError ''failed to enqueue add-channel command''),
                                  proc_waiter_release (lib_lock_release le) p3)
                               else (Create_waits ch, p3)))))"

definition create_channel_return ::
    "lib_env \<Rightarrow> int \<Rightarrow> proc_channel \<Rightarrow> ('cb, 'e) py_proc \<Rightarrow> 'e create_result \<times> ('cb, 'e) py_proc" where
  "create_channel_return le cmd_status ch p =
     ((if cmd_status \<noteq> 0 then
         Create_raises (if cmd_status = ENOMEM then MemoryError
           else RuntimeStatus ''failed to add channel to worker'' cmd_status)
       else Create_done ch), proc_waiter_release (lib_lock_release le) p)"

datatype 'e shutdown_result = Shutdown_raises "'e py_err" | Shutdown_joins | Shutdown_done

definition rtp_proc_shutdown_internal ::
    "lib_env \<Rightarrow> ('cb, 'e) py_proc \<Rightarrow> 'e shutdown_result \<times> ('cb, 'e) py_proc" where
  "rtp_proc_shutdown_internal le p =
     (if \<not> worker_running p then (Shutdown_done, p)
      else if \<not> lib_lock_enqueue le then (Shutdown_raises (RuntimeError ''failed to lock command queue''), p)
      else if \<not> shutdown_queued p then
        if \<not> lib_calloc le then (Shutdown_raises MemoryError, p)
        else (Shutdown_joins, p\<lparr>cmd_list := cmd_list p @ [CMD_SHUTDOWN], shutdown_queued := True,
          accepting_commands := False\<rparr>)
      else (Shutdown_joins, p))"

definition shutdown_return :: "('cb, 'e) py_proc \<Rightarrow> ('cb, 'e) py_proc" where
  "shutdown_return p = p\<lparr>worker_running := False\<rparr>"

text \<open>The argument is the singleton, if there is one.\<close>

definition PyRtpProc_new :: "('cb, 'e) py_proc option \<Rightarrow> ('cb, 'e) py_proc" where
  "PyRtpProc_new singleton =
     (case singleton of
        Some p \<Rightarrow> p
      | None \<Rightarrow> \<lparr>worker_running = False, mutex_inited = False, cond_inited = False, cmd_waiter_inited = False,
          cmd_waiter_busy = False, shutdown_queued = False, accepting_commands = True, next_channel_id = 1,
          cmd_cv_clock = CLOCK_REALTIME, cmd_waiter = \<lparr>w_done = False, w_status = 0\<rparr>, cmd_list = [],
          wstate = proc_empty\<rparr>)"

record init_env =
  no_args :: bool
  mutex_ok :: bool
  attr_ok :: bool
  setclock_ok :: bool
  cond_ok :: bool
  waiter_mutex_ok :: bool
  waiter_cond_ok :: bool
  thread_ok :: bool

definition PyRtpProc_init :: "init_env \<Rightarrow> ('cb, 'e) py_proc \<Rightarrow> int \<times> ('cb, 'e) py_proc" where
  "PyRtpProc_init ie p =
     (let inited = (worker_running p \<or> mutex_inited p \<or> cond_inited p \<or> cmd_waiter_inited p)
      in if inited \<and> no_args ie then (0, p)
         else if \<not> no_args ie then (-1, p)
         else if inited then (0, p)
         else if \<not> mutex_ok ie then (-1, p)
         else
           (let p1 = p\<lparr>mutex_inited := True\<rparr>;
                (rc, clock) = rtp_sync_cond_init_monotonic (attr_ok ie) (setclock_ok ie) (cond_ok ie);
                p2 = p1\<lparr>cmd_cv_clock := clock\<rparr>
            in if rc \<noteq> 0 then (-1, p2\<lparr>mutex_inited := False\<rparr>)
               else
                 (let p3 = p2\<lparr>cond_inited := True\<rparr>
                  in case rtp_sync_waiter_init (waiter_mutex_ok ie) (waiter_cond_ok ie) of
                       None \<Rightarrow> (-1, p3\<lparr>cond_inited := False, mutex_inited := False\<rparr>)
                     | Some w \<Rightarrow>
                         (let p4 = p3\<lparr>cmd_waiter := w, cmd_waiter_inited := True, cmd_waiter_busy := False\<rparr>
                          in if \<not> thread_ok ie then
                               (-1, p4\<lparr>cmd_waiter_inited := False, cond_inited := False, mutex_inited := False\<rparr>)
                             else (0, p4\<lparr>worker_running := True, accepting_commands := True, shutdown_queued := False\<rparr>)))))"

text \<open>The destructor, behind the shutdown that ends the worker.\<close>

definition PyRtpProc_dealloc :: "bool \<Rightarrow> ('cb, 'e) py_proc \<Rightarrow> ('cb, 'e) py_proc" where
  "PyRtpProc_dealloc lock_ok p =
     (let (cmds, p1) = (if mutex_inited p then detach_commands lock_ok p else ([], p));
          w = clear_channels (free_command_list (wstate p1) cmds)
      in p1\<lparr>wstate := w\<lparr>close_exc := None\<rparr>, cmd_waiter_inited := False, cond_inited := False, mutex_inited := False\<rparr>)"

section \<open>The methods and the worker together\<close>

text \<open>
  A thread that is blocked in \<open>rtp_sync_waiter_wait\<close>, with the channel it creates or closes. The system also counts the
  threads in \<open>pthread_join\<close>, has the commands that the worker has detached and not yet processed, the objects of the
  channels, and two lists that only grow: the commands that were processed with their statuses and the callbacks that a reference was
  taken to.

  The worker is about to detach the queue (or asleep in front of it), works off what it has detached, or is in the loop over the due
  channels with the time it has read. The flag says that a callback on the worker is blocked in a method.
\<close>

datatype 'cb caller = Creating proc_channel 'cb | Closing nat u64

datatype worker_phase = At_commands | In_batch | In_due u64

record ('cb, 'e, 'w) proc_sys =
  py :: "('cb, 'e) py_proc"
  objs :: "proc_channel list"
  callers :: "'cb caller list"
  joiners :: nat
  batch :: "'cb proc_cmd list"
  shutdown_seen :: bool
  exited :: bool
  world :: 'w
  cmd_log :: "('cb proc_cmd \<times> int) list"
  increfs :: "'cb list"
  phase :: worker_phase
  in_callback :: bool

datatype 'cb proc_act =
    Create lib_env "('cb \<times> bool) option"
  | Create_return lib_env
  | Close lib_env nat
  | Close_return lib_env
  | Drop lib_env nat
  | Shutdown lib_env
  | Join_return
  | Worker_detach
  | Worker_command
  | Worker_clock
  | Worker_due
  | Worker_exit
  | Callback "'cb proc_act"

datatype 'e proc_out = Nothing | Blocks | Returns | Raises "'e py_err"

definition close_out :: "'e close_result \<Rightarrow> 'e proc_out" where
  "close_out r = (case r of Close_raises e \<Rightarrow> Raises e | Close_fails \<Rightarrow> Nothing | Close_done \<Rightarrow> Returns | Close_waits \<Rightarrow> Blocks)"

text \<open>
  One round of the loop over the due channels, with the time for the next round; no time is the end of the loop.
\<close>

definition due_step ::
    "('cb, 'e, 'w) proc_env \<Rightarrow> ('cb, 'e) proc \<Rightarrow> u64 \<Rightarrow> 'w \<Rightarrow> (u64 option \<times> ('cb, 'e) proc) \<times> 'w" where
  "due_step env p now_ns w =
     (case pop_due_channel p now_ns of
        None \<Rightarrow> ((None, p), w)
      | Some (ch, p1) \<Rightarrow>
          (case (if active (chan p1 ch) then proc_in_cb (chan p1 ch) else None) of
             None \<Rightarrow> ((Some now_ns, p1), w)
           | Some cb \<Rightarrow>
               (let (res, w1) = invoke_proc_callback env cb now_ns (next_run_ns (chan p1 ch)) w;
                    (now', w2) = env_now env w1
                in ((Some now', after_call p1 ch res), w2))))"

text \<open>The worker runs a callback when it adds a channel and when a channel is due.\<close>

definition calls_back :: "('cb, 'e, 'w) proc_sys \<Rightarrow> bool" where
  "calls_back s = (case phase s of
       At_commands \<Rightarrow> False
     | In_batch \<Rightarrow> (case batch s of CMD_ADD_CHANNEL id' cb # rest \<Rightarrow> True | _ \<Rightarrow> False)
     | In_due now_ns \<Rightarrow> (case pop_due_channel (wstate (py s)) now_ns of None \<Rightarrow> False | Some x \<Rightarrow> True))"

fun callback_method :: "'cb proc_act \<Rightarrow> bool" where
  "callback_method (Create le arg) = True"
| "callback_method (Close le h) = True"
| "callback_method (Drop le h) = True"
| "callback_method a = False"

definition blocks :: "'e proc_out \<Rightarrow> bool" where
  "blocks out = (case out of Blocks \<Rightarrow> True | _ \<Rightarrow> False)"

text \<open>
  One step; \<open>None\<close> is a step that is not possible. A reference to the callable is taken when there is a command to
  put it into.
\<close>

fun proc_step ::
    "('cb, 'e, 'w) proc_env \<Rightarrow> ('cb, 'e, 'w) proc_sys \<Rightarrow> 'cb proc_act \<Rightarrow> ('e proc_out \<times> ('cb, 'e, 'w) proc_sys) option" where
  "proc_step env s (Create le arg) =
     (case PyRtpProc_create_channel le arg (py s) of (r, p) \<Rightarrow>
        (let s1 = s\<lparr>py := p, increfs := increfs s @ (case arg of None \<Rightarrow> []
               | Some (cb, callable) \<Rightarrow> if callable \<and> lib_object le \<and> lib_calloc le then [cb] else [])\<rparr>
         in case r of
              Create_raises e \<Rightarrow> Some (Raises e, s1)
            | Create_waits ch \<Rightarrow> Some (Blocks, s1\<lparr>callers := callers s @ [Creating ch (fst (the arg))]\<rparr>)
            | Create_done ch \<Rightarrow> Some (Returns, s1)))"
| "proc_step env s (Create_return le) =
     (case callers s of
        Creating ch cb # rest \<Rightarrow>
          if \<not> w_done (cmd_waiter (py s)) then None
          else
            (case create_channel_return le (w_status (cmd_waiter (py s))) ch (py s) of (r, p) \<Rightarrow>
               (case r of
                  Create_raises e \<Rightarrow> Some (Raises e, s\<lparr>py := p, callers := rest, in_callback := False\<rparr>)
                | Create_waits ch' \<Rightarrow> None
                | Create_done ch' \<Rightarrow> Some (Returns, s\<lparr>py := p, callers := rest, objs := objs s @ [ch'], in_callback := False\<rparr>)))
      | _ \<Rightarrow> None)"
| "proc_step env s (Close le h) =
     (if h < length (objs s) then
        (case rtp_proc_channel_close_internal le True (objs s ! h) (py s) of (r, ch, p) \<Rightarrow>
           Some (close_out r, s\<lparr>py := p, objs := (objs s)[h := ch],
             callers := callers s @ (if r = Close_waits then [Closing h (obj_id ch)] else [])\<rparr>))
      else None)"
| "proc_step env s (Close_return le) =
     (case callers s of
        Closing h id' # rest \<Rightarrow>
          if \<not> w_done (cmd_waiter (py s)) then None
          else
            (case channel_close_return le (w_status (cmd_waiter (py s))) (objs s ! h) (py s) of (r, ch, p) \<Rightarrow>
               Some (close_out r, s\<lparr>py := p, callers := rest, objs := (objs s)[h := ch], in_callback := False\<rparr>))
      | _ \<Rightarrow> None)"
| "proc_step env s (Drop le h) =
     (if h < length (objs s) then
        Some (Nothing, s\<lparr>py := PyRtpProcChannel_dealloc le (objs s ! h) (py s),
          objs := (objs s)[h := (objs s ! h)\<lparr>closed := True, proc_obj := False\<rparr>]\<rparr>)
      else None)"
| "proc_step env s (Shutdown le) =
     (case rtp_proc_shutdown_internal le (py s) of (r, p) \<Rightarrow>
        (case r of
           Shutdown_raises e \<Rightarrow> Some (Raises e, s\<lparr>py := p\<rparr>)
         | Shutdown_joins \<Rightarrow> Some (Blocks, s\<lparr>py := p, joiners := joiners s + 1\<rparr>)
         | Shutdown_done \<Rightarrow> Some (Returns, s\<lparr>py := p\<rparr>)))"
| "proc_step env s Join_return =
     (if exited s \<and> joiners s > 0 then Some (Returns, s\<lparr>py := shutdown_return (py s), joiners := joiners s - 1\<rparr>) else None)"
| "proc_step env s Worker_detach =
     (if exited s \<or> in_callback s \<or> phase s \<noteq> At_commands then None
      else (case detach_commands True (py s) of (cmds, p) \<Rightarrow> Some (Nothing, s\<lparr>py := p, batch := cmds, phase := In_batch\<rparr>)))"
| "proc_step env s Worker_command =
     (case batch s of
        [] \<Rightarrow> None
      | cmd # rest \<Rightarrow>
          if exited s \<or> in_callback s \<or> phase s \<noteq> In_batch then None
          else
            (case process_commands env (wstate (py s)) [cmd] (world s) of
               ((sts, down, p), w) \<Rightarrow>
                 Some (Nothing, s\<lparr>py := (py s)\<lparr>wstate := p,
                     cmd_waiter := (if has_waiter cmd then rtp_sync_waiter_complete (cmd_waiter (py s)) (hd sts)
                       else cmd_waiter (py s))\<rparr>,
                   batch := rest, shutdown_seen := (shutdown_seen s \<or> down), world := w,
                   cmd_log := cmd_log s @ [(cmd, hd sts)]\<rparr>)))"
| "proc_step env s Worker_clock =
     (if exited s \<or> in_callback s \<or> shutdown_seen s \<or> phase s \<noteq> In_batch \<or> batch s \<noteq> [] then None
      else (case env_now env (world s) of (now_ns, w) \<Rightarrow> Some (Nothing, s\<lparr>phase := In_due now_ns, world := w\<rparr>)))"
| "proc_step env s Worker_due =
     (case phase s of
        In_due now_ns \<Rightarrow>
          if exited s \<or> in_callback s then None
          else
            (case due_step env (wstate (py s)) now_ns (world s) of
               ((Some now', p), w) \<Rightarrow> Some (Nothing, s\<lparr>py := (py s)\<lparr>wstate := p\<rparr>, phase := In_due now', world := w\<rparr>)
             | ((None, p), w) \<Rightarrow>
                 Some (Nothing, s\<lparr>py := (py s)\<lparr>wstate := p\<rparr>, phase := At_commands,
                   world := (if sched p = [] then w else snd (env_cmd_now env (snd (env_now env w))))\<rparr>))
      | _ \<Rightarrow> None)"
| "proc_step env s Worker_exit =
     (if exited s \<or> in_callback s \<or> \<not> shutdown_seen s \<or> phase s \<noteq> In_batch \<or> batch s \<noteq> [] then None
      else
        (case detach_commands True ((py s)\<lparr>wstate := clear_channels (wstate (py s))\<rparr>) of (cmds, p) \<Rightarrow>
           Some (Nothing, s\<lparr>py := p\<lparr>wstate := free_command_list (wstate p) cmds\<rparr>, exited := True\<rparr>)))"
| "proc_step env s (Callback a) =
     (if exited s \<or> in_callback s \<or> \<not> calls_back s \<or> \<not> callback_method a then None
      else
        (case proc_step env s a of
           None \<Rightarrow> None
         | Some (out, s') \<Rightarrow> Some (out, s'\<lparr>in_callback := blocks out\<rparr>)))"

section \<open>Invariant\<close>

fun caller_cmd :: "'cb caller \<Rightarrow> 'cb proc_cmd" where
  "caller_cmd (Creating ch cb) = CMD_ADD_CHANNEL (obj_id ch) cb"
| "caller_cmd (Closing h id') = CMD_REMOVE_CHANNEL id' True"

text \<open>The commands that were enqueued and not yet processed, and those of them that somebody waits for.\<close>

definition queued :: "('cb, 'e, 'w) proc_sys \<Rightarrow> 'cb proc_cmd list" where
  "queued s = batch s @ cmd_list (py s)"

definition pending :: "('cb, 'e, 'w) proc_sys \<Rightarrow> 'cb proc_cmd list" where
  "pending s = filter has_waiter (queued s)"

definition served :: "('cb, 'e, 'w) proc_sys \<Rightarrow> bool" where
  "served s \<longleftrightarrow> (case callers s of
      [] \<Rightarrow> \<not> cmd_waiter_busy (py s) \<and> pending s = []
    | [c] \<Rightarrow> cmd_waiter_busy (py s) \<and>
        (if w_done (cmd_waiter (py s))
         then pending s = [] \<and> (caller_cmd c, w_status (cmd_waiter (py s))) \<in> set (cmd_log s)
         else pending s = [caller_cmd c])
    | _ \<Rightarrow> False)"

definition shut_ok :: "('cb, 'e, 'w) proc_sys \<Rightarrow> bool" where
  "shut_ok s \<longleftrightarrow> (shutdown_queued (py s) \<longrightarrow> \<not> accepting_commands (py s)) \<and>
     (shutdown_queued (py s) \<longleftrightarrow> shutdown_seen s \<or> CMD_SHUTDOWN \<in> set (queued s)) \<and>
     (shutdown_seen s \<or> CMD_SHUTDOWN \<in> set (batch s) \<longrightarrow> cmd_list (py s) = []) \<and>
     (exited s \<longrightarrow> shutdown_seen s \<and> batch s = []) \<and> (joiners s > 0 \<longrightarrow> shutdown_queued (py s)) \<and>
     (phase s \<noteq> In_batch \<longrightarrow> batch s = [] \<and> \<not> shutdown_seen s) \<and> \<not> in_callback s"

definition mem_ok :: "('cb, 'e, 'w) proc_sys \<Rightarrow> bool" where
  "mem_ok s \<longleftrightarrow> proc_inv (wstate (py s)) \<and>
     refs (wstate (py s)) + mset (cmd_cbs (queued s)) = mset (increfs s) \<and>
     (exited s \<longrightarrow> channels (wstate (py s)) = [])"

definition sys_inv :: "('cb, 'e, 'w) proc_sys \<Rightarrow> bool" where
  "sys_inv s \<longleftrightarrow> mutex_inited (py s) \<and> cond_inited (py s) \<and> cmd_waiter_inited (py s) \<and>
     served s \<and> shut_ok s \<and> mem_ok s"

text \<open>
  A call that is over at once changes only the next number, the pending exception, the references given up and,
  when nobody waits, the waiter.
\<close>

definition quiet :: "'cb list \<Rightarrow> ('cb, 'e) py_proc \<Rightarrow> ('cb, 'e) py_proc \<Rightarrow> bool" where
  "quiet cbs p p' \<longleftrightarrow> (\<exists>n w e. p' = p\<lparr>next_channel_id := n, cmd_waiter := w,
     wstate := (wstate p)\<lparr>close_exc := e, decrefs := decrefs (wstate p) @ cbs\<rparr>\<rparr> \<and>
     (cmd_waiter_busy p \<longrightarrow> w = cmd_waiter p))"

lemma quietI:
  "p' = p\<lparr>next_channel_id := n, cmd_waiter := w, wstate := (wstate p)\<lparr>close_exc := e, decrefs := decrefs (wstate p) @ cbs\<rparr>\<rparr> \<Longrightarrow>
     (cmd_waiter_busy p \<Longrightarrow> w = cmd_waiter p) \<Longrightarrow> quiet cbs p p'"
  by (auto simp: quiet_def)

lemma quiet_next_id: "quiet [] p (p\<lparr>next_channel_id := n\<rparr>)"
  by (rule quietI [where n = n and w = "cmd_waiter p" and e = "close_exc (wstate p)"]) simp_all

lemma quiet_refl: "quiet [] p p"
  using quiet_next_id [of p "next_channel_id p"] by simp

lemma quiet_pop: "quiet [] p (snd (proc_pop_close_exception p))"
  by (rule quietI [where n = "next_channel_id p" and w = "cmd_waiter p" and e = None])
    (simp_all add: proc_pop_close_exception_def)

lemma proc_inv_decrefs [simp]: "proc_inv (p\<lparr>decrefs := d\<rparr>) \<longleftrightarrow> proc_inv p"
  by (simp add: proc_inv_def sched_ok_def chans_ok_def)

lemma refs_decrefs [simp]: "refs (p\<lparr>decrefs := decrefs p @ xs\<rparr>) = refs p + mset xs"
  by (simp add: refs_def)

lemma refs_close_exc [simp]: "refs (p\<lparr>close_exc := e\<rparr>) = refs p"
  by (simp add: refs_def)

lemma refs_quiet: "refs (p\<lparr>close_exc := e, decrefs := decrefs p @ xs\<rparr>) = refs p + mset xs"
  by (simp add: refs_def)

lemma served_idle: "served s \<Longrightarrow> \<not> cmd_waiter_busy (py s) \<Longrightarrow> callers s = [] \<and> pending s = []"
  by (auto simp: served_def split: list.splits)

lemma served_cong:
  assumes "pending s' = pending s" "callers s' = callers s" "cmd_waiter_busy (py s') = cmd_waiter_busy (py s)"
    "cmd_waiter (py s') = cmd_waiter (py s)" "cmd_log s' = cmd_log s"
  shows "served s' = served s"
  unfolding served_def assms by (rule refl)

lemma quiet_sys:
  assumes "sys_inv s" "quiet cbs (py s) p'"
  shows "sys_inv (s\<lparr>py := p', increfs := increfs s @ cbs, objs := os\<rparr>)" (is "sys_inv ?s")
proof -
  obtain n w e where p': "p' = (py s)\<lparr>next_channel_id := n, cmd_waiter := w,
      wstate := (wstate (py s))\<lparr>close_exc := e, decrefs := decrefs (wstate (py s)) @ cbs\<rparr>\<rparr>"
    and w: "cmd_waiter_busy (py s) \<longrightarrow> w = cmd_waiter (py s)" using assms(2) by (auto simp: quiet_def)
  have q: "queued ?s = queued s" by (simp add: queued_def p')
  have "served ?s"
  proof (cases "cmd_waiter_busy (py s)")
    case True
    then have "served ?s = served s" using q w by (intro served_cong) (simp_all add: pending_def p')
    then show ?thesis using assms(1) by (simp add: sys_inv_def)
  next
    case False
    then have "callers s = []" "pending s = []" using served_idle [of s] assms(1) by (auto simp: sys_inv_def)
    then show ?thesis using False q by (simp add: served_def pending_def p')
  qed
  moreover have "shut_ok ?s"
  proof -
    have "shut_ok s" using assms(1) by (simp add: sys_inv_def)
    then show ?thesis unfolding shut_ok_def q by (simp add: p') blast
  qed
  moreover have "mem_ok ?s"
  proof -
    have "refs (wstate (py s)) + mset (cmd_cbs (queued s)) = mset (increfs s)" "proc_inv (wstate (py s))"
      "exited s \<longrightarrow> channels (wstate (py s)) = []" using assms(1) by (auto simp: sys_inv_def mem_ok_def)
    then show ?thesis using q by (simp add: mem_ok_def p' refs_quiet add_ac)
  qed
  ultimately show ?thesis using assms(1) by (simp add: sys_inv_def p')
qed

lemma release_idle: "\<not> cmd_waiter_busy p \<Longrightarrow> p\<lparr>cmd_waiter_busy := False\<rparr> = p"
  by (cases p) simp

lemma acquire_cases:
  assumes "mutex_inited p" "cmd_waiter_inited p" "lib_lock_release le"
  shows "(\<exists>e. proc_waiter_acquire le p = (Some e, p)) \<or>
    (\<not> cmd_waiter_busy p \<and>
     proc_waiter_acquire le p = (None, p\<lparr>cmd_waiter_busy := True, cmd_waiter := rtp_sync_waiter_reset (cmd_waiter p)\<rparr>))"
  using assms by (simp add: proc_waiter_acquire_def proc_waiter_release_def Let_def release_idle)

lemma enqueue_cases:
  assumes "mutex_inited p" "cond_inited p"
  shows "(\<exists>m. enqueue_command le b p cmd = ((-1, if b then Some (RuntimeError m) else None), free_command p cmd)) \<or>
    (accepting_commands p \<and> enqueue_command le b p cmd = ((0, None), p\<lparr>cmd_list := cmd_list p @ [cmd]\<rparr>))"
  using assms by (simp add: enqueue_command_def Let_def)

text \<open>A method either is over at once, or it takes the waiter and enqueues its command.\<close>

definition takes_waiter :: "'cb proc_cmd \<Rightarrow> ('cb, 'e) py_proc \<Rightarrow> ('cb, 'e) py_proc \<Rightarrow> bool" where
  "takes_waiter cmd p p' \<longleftrightarrow> accepting_commands p \<and> \<not> cmd_waiter_busy p \<and>
     (\<exists>n e. p' = p\<lparr>next_channel_id := n, cmd_waiter_busy := True, cmd_waiter := rtp_sync_waiter_reset (cmd_waiter p),
        cmd_list := cmd_list p @ [cmd], wstate := (wstate p)\<lparr>close_exc := e\<rparr>\<rparr>)"

definition new_refs :: "lib_env \<Rightarrow> ('cb \<times> bool) option \<Rightarrow> 'cb list" where
  "new_refs le arg = (case arg of None \<Rightarrow> []
     | Some (cb, callable) \<Rightarrow> if callable \<and> lib_object le \<and> lib_calloc le then [cb] else [])"

lemmas call_defs = free_command_def free_command_list_def proc_waiter_release_def proc_pop_close_exception_def

lemma create_cases:
  assumes "mutex_inited p" "cond_inited p" "cmd_waiter_inited p" "lib_lock_release le"
  shows "case PyRtpProc_create_channel le arg p of
      (Create_raises e, p') \<Rightarrow> quiet (new_refs le arg) p p'
    | (Create_waits ch, p') \<Rightarrow>
        (\<exists>cb. arg = Some (cb, True) \<and> new_refs le arg = [cb] \<and> takes_waiter (CMD_ADD_CHANNEL (obj_id ch) cb) p p')
    | (Create_done ch, p') \<Rightarrow> False"
proof (cases "\<exists>cb. arg = Some (cb, True) \<and> lib_object le \<and> lib_calloc le")
  case False
  then show ?thesis
    by (auto simp: PyRtpProc_create_channel_def new_refs_def PyRtpProcChannel_dealloc_def rtp_proc_channel_close_internal_def
        Let_def split: option.splits intro: quiet_refl quiet_next_id)
next
  case True
  then obtain cb where arg: "arg = Some (cb, True)" "lib_object le" "lib_calloc le" by blast
  define p1 where "p1 = p\<lparr>next_channel_id := next_channel_id p + 1\<rparr>"
  define ch where "ch = \<lparr>proc_obj = True, obj_id = next_channel_id p, closed = False\<rparr>"
  define cmd where "cmd = CMD_ADD_CHANNEL (obj_id ch) cb"
  have p1: "mutex_inited p1" "cond_inited p1" "cmd_waiter_inited p1" using assms by (simp_all add: p1_def)
  have eq: "PyRtpProc_create_channel le arg p = (case proc_waiter_acquire le p1 of
      (Some e, p2) \<Rightarrow> (Create_raises e, free_command p2 cmd)
    | (None, p2) \<Rightarrow>
        (case enqueue_command le True p2 cmd of ((rc, err), p3) \<Rightarrow>
           if rc \<noteq> 0 then
             (Create_raises (case err of Some e \<Rightarrow> e | None \<Rightarrow> RuntimeError ''failed to enqueue add-channel command''),
              proc_waiter_release (lib_lock_release le) p3)
           else (Create_waits ch, p3)))"
    using arg by (simp add: PyRtpProc_create_channel_def p1_def [symmetric] ch_def [symmetric] cmd_def [symmetric])
  let ?p2 = "p1\<lparr>cmd_waiter_busy := True, cmd_waiter := rtp_sync_waiter_reset (cmd_waiter p1)\<rparr>"
  have refs: "new_refs le arg = [cb]" using arg by (simp add: new_refs_def)
  from acquire_cases [OF p1(1,3) assms(4)] show ?thesis
  proof (elim disjE exE conjE)
    fix e assume "proc_waiter_acquire le p1 = (Some e, p1)"
    then show ?thesis unfolding eq refs
      by (auto simp: call_defs cmd_def p1_def intro!: quietI [where w = "cmd_waiter p" and e = "close_exc (wstate p)"])
  next
    assume idle: "\<not> cmd_waiter_busy p1" and acq: "proc_waiter_acquire le p1 = (None, ?p2)"
    have "mutex_inited ?p2" "cond_inited ?p2" using p1 by simp_all
    from enqueue_cases [OF this, where le = le and b = True and cmd = cmd] show ?thesis
    proof (elim disjE exE conjE)
      fix m assume "enqueue_command le True ?p2 cmd = ((-1, if True then Some (RuntimeError m) else None), free_command ?p2 cmd)"
      then show ?thesis using idle assms unfolding eq refs acq
        by (auto simp: call_defs cmd_def p1_def release_idle
            intro!: quietI [where w = "rtp_sync_waiter_reset (cmd_waiter p)" and e = "close_exc (wstate p)"])
    next
      assume "accepting_commands ?p2" "enqueue_command le True ?p2 cmd = ((0, None), ?p2\<lparr>cmd_list := cmd_list ?p2 @ [cmd]\<rparr>)"
      then show ?thesis using idle arg unfolding eq refs acq
        by (auto simp: takes_waiter_def cmd_def p1_def ch_def intro!: exI [of _ "next_channel_id p + 1"] exI [of _ "close_exc (wstate p)"])
    qed
  qed
qed

lemma close_finish_quiet:
  "fst (close_finish le b ch p) \<noteq> Close_waits" "quiet [] p (snd (snd (close_finish le b ch p)))"
  using quiet_pop [of p] quiet_refl [of p] by (auto simp: close_finish_def split: prod.splits option.splits)

lemma quiet_trans:
  assumes "quiet xs p q" "quiet ys q r"
  shows "quiet (xs @ ys) p r"
proof -
  from assms(1) obtain n w e where q: "q = p\<lparr>next_channel_id := n, cmd_waiter := w,
      wstate := (wstate p)\<lparr>close_exc := e, decrefs := decrefs (wstate p) @ xs\<rparr>\<rparr>"
    "cmd_waiter_busy p \<longrightarrow> w = cmd_waiter p" by (auto simp: quiet_def)
  from assms(2) obtain n' w' e' where r: "r = q\<lparr>next_channel_id := n', cmd_waiter := w',
      wstate := (wstate q)\<lparr>close_exc := e', decrefs := decrefs (wstate q) @ ys\<rparr>\<rparr>"
    "cmd_waiter_busy q \<longrightarrow> w' = cmd_waiter q" by (auto simp: quiet_def)
  show ?thesis using q(2) r(2) by (intro quietI [where n = n' and w = w' and e = e']) (simp_all add: r(1) q(1))
qed

lemma close_cases:
  assumes "mutex_inited p" "cond_inited p" "cmd_waiter_inited p" "lib_lock_release le"
  shows "case rtp_proc_channel_close_internal le True ch p of (r, ch', p') \<Rightarrow>
    if r = Close_waits then ch' = ch \<and> takes_waiter (CMD_REMOVE_CHANNEL (obj_id ch) True) p p' else quiet [] p p'"
proof (cases "\<not> closed ch \<and> proc_obj ch \<and> lib_calloc le")
  case False
  then show ?thesis by (auto simp: rtp_proc_channel_close_internal_def quiet_refl)
next
  case True
  define p1 where "p1 = p\<lparr>wstate := (wstate p)\<lparr>close_exc := None\<rparr>\<rparr>"
  define cmd :: "'a proc_cmd" where "cmd = CMD_REMOVE_CHANNEL (obj_id ch) True"
  have p1: "mutex_inited p1" "cond_inited p1" "cmd_waiter_inited p1" using assms by (simp_all add: p1_def)
  have q1: "quiet [] p p1" using quiet_pop [of p] by (simp add: p1_def proc_pop_close_exception_def)
  let ?p2 = "p1\<lparr>cmd_waiter_busy := True, cmd_waiter := rtp_sync_waiter_reset (cmd_waiter p1)\<rparr>"
  from acquire_cases [OF p1(1,3) assms(4)] show ?thesis
  proof (elim disjE exE conjE)
    fix e assume acq: "proc_waiter_acquire le p1 = (Some e, p1)"
    have "free_command p1 cmd = p1" by (simp add: call_defs cmd_def)
    then show ?thesis using True acq q1
      by (simp add: rtp_proc_channel_close_internal_def p1_def cmd_def proc_pop_close_exception_def Let_def)
  next
    assume idle: "\<not> cmd_waiter_busy p1" and acq: "proc_waiter_acquire le p1 = (None, ?p2)"
    have "mutex_inited ?p2" "cond_inited ?p2" using p1 by simp_all
    from enqueue_cases [OF this, where le = le and b = True and cmd = cmd] show ?thesis
    proof (elim disjE exE conjE)
      let ?p3 = "p1\<lparr>cmd_waiter := rtp_sync_waiter_reset (cmd_waiter p1)\<rparr>"
      fix m assume enq: "enqueue_command le True ?p2 cmd = ((-1, if True then Some (RuntimeError m) else None), free_command ?p2 cmd)"
      have rel: "proc_waiter_release (lib_lock_release le) (free_command ?p2 cmd) = ?p3"
        using idle p1 assms by (simp add: call_defs cmd_def release_idle)
      have "quiet [] p1 ?p3" using idle
        by (intro quietI [where n = "next_channel_id p1" and e = "close_exc (wstate p1)"]) simp_all
      from quiet_trans [OF q1 this] have q3: "quiet [] p ?p3" by simp
      have eq: "rtp_proc_channel_close_internal le True ch p = close_finish le True ch ?p3"
        using True acq enq rel
        by (simp add: rtp_proc_channel_close_internal_def p1_def cmd_def proc_pop_close_exception_def Let_def is_runtime_error_def)
      show ?thesis unfolding eq
        using close_finish_quiet [where le = le and b = True and ch = ch and p = ?p3] quiet_trans [OF q3, of "[]"] by (auto split: prod.splits)
    next
      assume "accepting_commands ?p2" "enqueue_command le True ?p2 cmd = ((0, None), ?p2\<lparr>cmd_list := cmd_list ?p2 @ [cmd]\<rparr>)"
      then show ?thesis using idle True acq
        by (auto simp: rtp_proc_channel_close_internal_def takes_waiter_def p1_def cmd_def proc_pop_close_exception_def Let_def
            intro!: exI [of _ "next_channel_id p"] exI [of _ None])
    qed
  qed
qed

lemma dealloc_cases:
  assumes "mutex_inited p" "cond_inited p"
  shows "PyRtpProcChannel_dealloc le ch p = p \<or>
    (accepting_commands p \<and> PyRtpProcChannel_dealloc le ch p = p\<lparr>cmd_list := cmd_list p @ [CMD_REMOVE_CHANNEL (obj_id ch) False]\<rparr>)"
proof -
  have "free_command p (CMD_REMOVE_CHANNEL (obj_id ch) False) = p" by (simp add: call_defs)
  then show ?thesis
    using enqueue_cases [OF assms, where le = le and b = False and cmd = "CMD_REMOVE_CHANNEL (obj_id ch) False"]
    by (auto simp: PyRtpProcChannel_dealloc_def rtp_proc_channel_close_internal_def close_finish_def Let_def)
qed

section \<open>Every step keeps the invariant\<close>

text \<open>
  The steps that are considered: the mutex works when the waiter is given back, and no callback calls a method that blocks.
\<close>

fun release_ok :: "'cb proc_act \<Rightarrow> bool" where
  "release_ok (Create le arg) = lib_lock_release le"
| "release_ok (Create_return le) = lib_lock_release le"
| "release_ok (Close le h) = lib_lock_release le"
| "release_ok (Close_return le) = lib_lock_release le"
| "release_ok (Callback a) = release_ok a"
| "release_ok a = True"

fun stays_free :: "('cb, 'e, 'w) proc_env \<Rightarrow> ('cb, 'e, 'w) proc_sys \<Rightarrow> 'cb proc_act \<Rightarrow> bool" where
  "stays_free env s (Callback a) = (case proc_step env s a of None \<Rightarrow> False | Some (out, s') \<Rightarrow> \<not> blocks out)"
| "stays_free env s a = True"

definition proc_adm :: "('cb, 'e, 'w) proc_env \<Rightarrow> ('cb, 'e, 'w) proc_sys \<Rightarrow> 'cb proc_act \<Rightarrow> bool" where
  "proc_adm env s a \<longleftrightarrow> (case proc_step env s a of None \<Rightarrow> False | Some x \<Rightarrow> True) \<and> release_ok a \<and> stays_free env s a"

lemma waiter_sys:
  assumes "sys_inv s" "takes_waiter (caller_cmd c) (py s) p'"
  shows "sys_inv (s\<lparr>py := p', callers := callers s @ [c], increfs := increfs s @ cmd_cbs [caller_cmd c], objs := os\<rparr>)" (is "sys_inv ?s")
proof -
  have w: "has_waiter (caller_cmd c)" "caller_cmd c \<noteq> CMD_SHUTDOWN" by (cases c; simp)+
  from assms served_idle [of s] have i: "callers s = []" "pending s = []"
    by (auto simp: takes_waiter_def sys_inv_def)
  have acc: "\<not> shutdown_queued (py s)" using assms by (auto simp: takes_waiter_def sys_inv_def shut_ok_def)
  obtain n e where p': "p' = (py s)\<lparr>next_channel_id := n, cmd_waiter_busy := True, cmd_waiter := rtp_sync_waiter_reset (cmd_waiter (py s)),
      cmd_list := cmd_list (py s) @ [caller_cmd c], wstate := (wstate (py s))\<lparr>close_exc := e\<rparr>\<rparr>"
    using assms(2) by (auto simp: takes_waiter_def)
  have q: "queued ?s = queued s @ [caller_cmd c]" by (simp add: queued_def p')
  have "pending ?s = [caller_cmd c]" using q i(2) w(1) by (simp add: pending_def)
  then have "served ?s" using i(1) by (simp add: served_def p' rtp_sync_waiter_reset_def)
  moreover have "shut_ok ?s"
  proof -
    have "shut_ok s" using assms(1) by (simp add: sys_inv_def)
    then show ?thesis using acc w(2) unfolding shut_ok_def q by (auto simp: p' queued_def)
  qed
  moreover have "mem_ok ?s"
  proof -
    have "refs (wstate (py s)) + mset (cmd_cbs (queued s)) = mset (increfs s)" "proc_inv (wstate (py s))"
      "exited s \<longrightarrow> channels (wstate (py s)) = []" using assms(1) by (auto simp: sys_inv_def mem_ok_def)
    then show ?thesis using q by (simp add: mem_ok_def p' cmd_cbs_append add.assoc [symmetric])
  qed
  ultimately show ?thesis using assms(1) by (simp add: sys_inv_def p')
qed

lemma step_create:
  assumes "sys_inv s" "lib_lock_release le" "proc_step env s (Create le arg) = Some (out, s')"
  shows "sys_inv s'"
proof -
  obtain r p where r: "PyRtpProc_create_channel le arg (py s) = (r, p)" by fastforce
  have c: "case (r, p) of
      (Create_raises e, p') \<Rightarrow> quiet (new_refs le arg) (py s) p'
    | (Create_waits ch, p') \<Rightarrow>
        (\<exists>cb. arg = Some (cb, True) \<and> new_refs le arg = [cb] \<and> takes_waiter (CMD_ADD_CHANNEL (obj_id ch) cb) (py s) p')
    | (Create_done ch, p') \<Rightarrow> False"
    using create_cases [of "py s" le arg] assms(1,2) unfolding r by (simp add: sys_inv_def)
  show ?thesis
  proof (cases r)
    case (Create_raises e)
    then have "s' = s\<lparr>py := p, increfs := increfs s @ new_refs le arg, objs := objs s\<rparr>"
      using assms(3) by (auto simp: r Let_def new_refs_def)
    then show ?thesis using quiet_sys [OF assms(1), of "new_refs le arg" p "objs s"] c Create_raises by simp
  next
    case (Create_waits ch)
    with c obtain cb where cb: "arg = Some (cb, True)" "new_refs le arg = [cb]"
      "takes_waiter (caller_cmd (Creating ch cb)) (py s) p" by auto
    then have "s' = s\<lparr>py := p, callers := callers s @ [Creating ch cb], increfs := increfs s @ [cb], objs := objs s\<rparr>"
      using assms(3) [unfolded cb(1)] Create_waits r [unfolded cb(1)] by (auto simp: Let_def new_refs_def)
    then show ?thesis using waiter_sys [OF assms(1) cb(3), of "objs s"] by simp
  qed (use c in simp)
qed

lemma step_close:
  assumes "sys_inv s" "lib_lock_release le" "proc_step env s (Close le h) = Some (out, s')"
  shows "sys_inv s'"
proof -
  obtain r ch p where r: "rtp_proc_channel_close_internal le True (objs s ! h) (py s) = (r, ch, p)" by (metis prod.exhaust)
  have c: "if r = Close_waits then ch = objs s ! h \<and> takes_waiter (CMD_REMOVE_CHANNEL (obj_id (objs s ! h)) True) (py s) p
      else quiet [] (py s) p"
    using close_cases [of "py s" le "objs s ! h"] assms(1,2) unfolding r by (simp add: sys_inv_def)
  show ?thesis
  proof (cases "r = Close_waits")
    case True
    then show ?thesis
      using waiter_sys [OF assms(1), of "Closing h (obj_id ch)" p "(objs s)[h := ch]"] c assms(3)
      by (simp add: r split: if_splits)
  next
    case False
    then show ?thesis using quiet_sys [OF assms(1), of "[]" p "(objs s)[h := ch]"] c assms(3)
      by (simp add: r split: if_splits)
  qed
qed

text \<open>The call that was waited for is over.\<close>

lemma return_sys:
  assumes "sys_inv s" "callers s = c # rest" "w_done (cmd_waiter (py s))"
  shows "sys_inv (s\<lparr>py := (py s)\<lparr>cmd_waiter_busy := False\<rparr>, callers := rest, in_callback := False\<rparr>)"
  using assms by (auto simp: sys_inv_def served_def shut_ok_def mem_ok_def pending_def queued_def split: list.splits)

lemma sys_inv_objs [simp]: "sys_inv (s\<lparr>objs := os\<rparr>) \<longleftrightarrow> sys_inv s"
  by (simp add: sys_inv_def served_def shut_ok_def mem_ok_def pending_def queued_def split: list.splits)

lemma step_create_return:
  assumes "sys_inv s" "lib_lock_release le" "proc_step env s (Create_return le) = Some (out, s')"
  shows "sys_inv s'"
proof -
  from assms(3) obtain ch cb rest where c: "callers s = Creating ch cb # rest" "w_done (cmd_waiter (py s))"
    by (auto split: list.splits caller.splits if_splits)
  have "mutex_inited (py s)" using assms(1) by (simp add: sys_inv_def)
  then have "s' = s\<lparr>py := (py s)\<lparr>cmd_waiter_busy := False\<rparr>, callers := rest, in_callback := False\<rparr> \<or>
      s' = s\<lparr>py := (py s)\<lparr>cmd_waiter_busy := False\<rparr>, callers := rest, in_callback := False, objs := objs s @ [ch]\<rparr>"
    using assms(2,3) c by (auto simp: create_channel_return_def proc_waiter_release_def split: if_splits)
  then show ?thesis using return_sys [OF assms(1) c] by auto
qed

lemma step_close_return:
  assumes "sys_inv s" "lib_lock_release le" "proc_step env s (Close_return le) = Some (out, s')"
  shows "sys_inv s'"
proof -
  from assms(3) obtain h i rest where c: "callers s = Closing h i # rest" "w_done (cmd_waiter (py s))"
    by (auto split: list.splits caller.splits if_splits)
  let ?p1 = "(py s)\<lparr>cmd_waiter_busy := False\<rparr>" and ?s1 = "s\<lparr>py := (py s)\<lparr>cmd_waiter_busy := False\<rparr>, callers := rest, in_callback := False\<rparr>"
  obtain r ch p where r: "channel_close_return le (w_status (cmd_waiter (py s))) (objs s ! h) (py s) = (r, ch, p)"
    by (metis prod.exhaust)
  have "proc_waiter_release (lib_lock_release le) (py s) = ?p1"
    using assms(1,2) by (simp add: sys_inv_def proc_waiter_release_def)
  then have "quiet [] ?p1 p"
    using r close_finish_quiet(2) [where le = le and b = True and ch = "objs s ! h" and p = ?p1] quiet_refl
    by (auto simp: channel_close_return_def Let_def split: if_splits)
  then have "sys_inv (?s1\<lparr>py := p, increfs := increfs ?s1 @ [], objs := (objs s)[h := ch]\<rparr>)"
    using return_sys [OF assms(1) c] by (intro quiet_sys) simp_all
  moreover have "s' = ?s1\<lparr>py := p, increfs := increfs ?s1 @ [], objs := (objs s)[h := ch]\<rparr>"
    using assms(3) c r by (auto split: prod.splits)
  ultimately show ?thesis by (simp only:)
qed

lemma step_drop:
  assumes "sys_inv s" "proc_step env s (Drop le h) = Some (out, s')"
  shows "sys_inv s'"
proof -
  let ?p = "PyRtpProcChannel_dealloc le (objs s ! h) (py s)"
  have s': "s' = s\<lparr>py := ?p, objs := (objs s)[h := (objs s ! h)\<lparr>closed := True, proc_obj := False\<rparr>]\<rparr>"
    using assms(2) by (auto split: if_splits)
  have "mutex_inited (py s)" "cond_inited (py s)" using assms(1) by (auto simp: sys_inv_def)
  from dealloc_cases [OF this, of le "objs s ! h"] have "sys_inv (s\<lparr>py := ?p\<rparr>)"
  proof (elim disjE conjE)
    assume "accepting_commands (py s)"
      "?p = (py s)\<lparr>cmd_list := cmd_list (py s) @ [CMD_REMOVE_CHANNEL (obj_id (objs s ! h)) False]\<rparr>"
    then show ?thesis using assms(1)
      by (auto simp: sys_inv_def served_def shut_ok_def mem_ok_def pending_def queued_def cmd_cbs_append split: list.splits)
  qed (use assms(1) in simp)
  then show ?thesis unfolding s' using sys_inv_objs [where s = "s\<lparr>py := ?p\<rparr>"] by simp
qed


lemma shutdown_cases:
  assumes "rtp_proc_shutdown_internal le p = (r, p')"
  shows "p' = p \<and> (r = Shutdown_joins \<longrightarrow> shutdown_queued p) \<or>
    \<not> shutdown_queued p \<and> r = Shutdown_joins \<and>
    p' = p\<lparr>cmd_list := cmd_list p @ [CMD_SHUTDOWN], shutdown_queued := True, accepting_commands := False\<rparr>"
  using assms unfolding rtp_proc_shutdown_internal_def by (simp split: if_splits) blast+

lemma join_sys:
  assumes "sys_inv s" "shutdown_queued (py s)"
  shows "sys_inv (s\<lparr>joiners := n\<rparr>)"
proof -
  let ?s = "s\<lparr>joiners := n\<rparr>"
  have q: "queued ?s = queued s" by (simp add: queued_def)
  then have "served ?s = served s" by (intro served_cong) (simp_all add: pending_def)
  moreover have "shut_ok ?s" using assms q by (simp add: sys_inv_def shut_ok_def)
  moreover have "mem_ok ?s" using assms(1) q by (simp add: sys_inv_def mem_ok_def)
  ultimately show ?thesis using assms(1) by (simp add: sys_inv_def)
qed

lemma queue_shutdown_sys:
  assumes "sys_inv s" "\<not> shutdown_queued (py s)"
  shows "sys_inv (s\<lparr>py := (py s)\<lparr>cmd_list := cmd_list (py s) @ [CMD_SHUTDOWN], shutdown_queued := True,
    accepting_commands := False\<rparr>\<rparr>)" (is "sys_inv ?s")
proof -
  have q: "queued ?s = queued s @ [CMD_SHUTDOWN]" by (simp add: queued_def)
  then have "served ?s = served s" by (intro served_cong) (simp_all add: pending_def)
  moreover have "shut_ok ?s" using assms by (auto simp: sys_inv_def shut_ok_def queued_def)
  moreover have "mem_ok ?s" using assms(1) q by (simp add: sys_inv_def mem_ok_def cmd_cbs_append)
  ultimately show ?thesis using assms(1) by (simp add: sys_inv_def)
qed

lemma step_shutdown:
  assumes "sys_inv s" "proc_step env s (Shutdown le) = Some (out, s')"
  shows "sys_inv s'"
proof -
  obtain r p' where r: "rtp_proc_shutdown_internal le (py s) = (r, p')" by fastforce
  from shutdown_cases [OF r] show ?thesis
  proof (elim disjE conjE)
    assume "p' = py s" "r = Shutdown_joins \<longrightarrow> shutdown_queued (py s)"
    then show ?thesis using assms r join_sys [OF assms(1)] by (cases r) auto
  next
    let ?p = "(py s)\<lparr>cmd_list := cmd_list (py s) @ [CMD_SHUTDOWN], shutdown_queued := True, accepting_commands := False\<rparr>"
    assume nq: "\<not> shutdown_queued (py s)" and j: "r = Shutdown_joins" "p' = ?p"
    have "s' = s\<lparr>py := ?p, joiners := joiners s + 1\<rparr>" using assms(2) r j by simp
    then show ?thesis using join_sys [OF queue_shutdown_sys [OF assms(1) nq]] by simp
  qed
qed

lemma step_join_return:
  assumes "sys_inv s" "proc_step env s Join_return = Some (out, s')"
  shows "sys_inv s'"
proof -
  let ?s = "s\<lparr>py := shutdown_return (py s)\<rparr>"
  have q: "queued ?s = queued s" by (simp add: queued_def shutdown_return_def)
  then have "served ?s = served s" by (intro served_cong) (simp_all add: pending_def shutdown_return_def)
  moreover have "shut_ok ?s" using assms(1) by (auto simp: sys_inv_def shut_ok_def shutdown_return_def queued_def)
  moreover have "mem_ok ?s" using assms(1) q by (simp add: sys_inv_def mem_ok_def shutdown_return_def)
  ultimately have "sys_inv ?s" using assms(1) by (simp add: sys_inv_def shutdown_return_def)
  moreover have "s' = ?s\<lparr>joiners := joiners s - 1\<rparr>" "exited s" using assms(2) by (auto split: if_splits)
  moreover from this(2) have "shutdown_queued (py ?s)" using assms(1) by (simp add: sys_inv_def shut_ok_def shutdown_return_def)
  ultimately show ?thesis using join_sys by blast
qed

lemma step_detach:
  assumes "sys_inv s" "proc_step env s Worker_detach = Some (out, s')"
  shows "sys_inv s'"
proof -
  have d: "\<not> exited s" "phase s = At_commands" using assms(2) by (auto split: if_splits)
  moreover from this have "\<not> shutdown_seen s" "batch s = []" using assms(1) by (auto simp: sys_inv_def shut_ok_def)
  ultimately have d: "\<not> exited s" "\<not> shutdown_seen s" "batch s = []" "phase s = At_commands" by simp_all
  then have s': "s' = s\<lparr>py := (py s)\<lparr>cmd_list := []\<rparr>, batch := cmd_list (py s), phase := In_batch\<rparr>"
    using assms by (auto simp: detach_commands_def sys_inv_def shut_ok_def)
  then have q: "queued s' = queued s" using d by (simp add: queued_def)
  then have "served s' = served s" by (intro served_cong) (simp_all add: pending_def s')
  moreover have "shut_ok s'" using assms(1) q d by (auto simp: s' sys_inv_def shut_ok_def)
  moreover have "mem_ok s'" using assms(1) q d by (simp add: s' sys_inv_def mem_ok_def)
  ultimately show ?thesis using assms(1) by (simp add: sys_inv_def s')
qed

lemma step_command:
  assumes "sys_inv s" "proc_step env s Worker_command = Some (out, s')"
  shows "sys_inv s'"
proof -
  from assms(2) obtain cmd rest where b: "batch s = cmd # rest" "\<not> exited s" "phase s = In_batch" "\<not> in_callback s"
    by (auto split: list.splits if_splits)
  obtain sts down p w where pc: "process_commands env (wstate (py s)) [cmd] (world s) = ((sts, down, p), w)"
    by (metis prod.exhaust)
  from assms(1) have "proc_inv (wstate (py s))" by (simp add: sys_inv_def mem_ok_def)
  from process_commands_ok [OF this pc] obtain st where k: "proc_inv p" "refs p = refs (wstate (py s)) + mset (cmd_cbs [cmd])"
    "sts = [st]" "down \<longleftrightarrow> cmd = CMD_SHUTDOWN" by (auto simp: length_Suc_conv)
  let ?w = "if has_waiter cmd then rtp_sync_waiter_complete (cmd_waiter (py s)) st else cmd_waiter (py s)"
  have s': "s' = s\<lparr>py := (py s)\<lparr>wstate := p, cmd_waiter := ?w\<rparr>, batch := rest, shutdown_seen := (shutdown_seen s \<or> down),
      world := w, cmd_log := cmd_log s @ [(cmd, st)]\<rparr>"
    using assms(2) b pc k(3) by (cases "has_waiter cmd") auto
  have q: "queued s = cmd # queued s'" by (simp add: s' b queued_def)
  have "served s'"
  proof (cases "has_waiter cmd")
    case True
    then have "pending s = cmd # pending s'" using q by (simp add: pending_def)
    then show ?thesis using True assms(1)
      by (auto simp: s' sys_inv_def served_def rtp_sync_waiter_complete_def split: list.splits if_splits)
  next
    case False
    then have "pending s = pending s'" using q by (simp add: pending_def)
    then show ?thesis using False assms(1) by (auto simp: s' sys_inv_def served_def split: list.splits if_splits)
  qed
  moreover have "shut_ok s'" using assms(1) b k(4) by (auto simp: s' sys_inv_def shut_ok_def queued_def)
  moreover have "mem_ok s'"
  proof -
    have "cmd_cbs (queued s) = cmd_cbs [cmd] @ cmd_cbs (queued s')" using cmd_cbs_append [of "[cmd]" "queued s'"] q by simp
    then have "mset (cmd_cbs (queued s)) = mset (cmd_cbs [cmd]) + mset (cmd_cbs (queued s'))" by simp
    moreover have "wstate (py s') = p" "increfs s' = increfs s" "exited s' = exited s" by (simp_all add: s')
    ultimately show ?thesis using assms(1) b(2) k(1,2) by (simp add: sys_inv_def mem_ok_def add.assoc)
  qed
  ultimately show ?thesis using assms(1) by (simp add: sys_inv_def s')
qed

lemma refs_pop:
  assumes "proc_inv p" "pop_due_channel p now = Some (i, p1)"
  shows "refs p1 = refs p"
proof -
  note d = pop_due_ok [OF assms]
  have "p1 = upd_channel (p\<lparr>sched := sched p1\<rparr>) i (\<lambda>c. c\<lparr>scheduled := False\<rparr>)"
    using assms(2) d(6) by (auto simp: pop_due_channel_def upd_channel_def split: if_splits)
  then show ?thesis
    using d(2) refs_upd_same [of i "p\<lparr>sched := sched p1\<rparr>" "\<lambda>c. c\<lparr>scheduled := False\<rparr>"] by simp
qed

lemma due_step_keeps:
  assumes "proc_inv p" "due_step env p now w = ((next, p'), w')"
  shows "proc_inv p' \<and> refs p' = refs p"
proof (cases "pop_due_channel p now")
  case None
  then show ?thesis using assms by (simp add: due_step_def)
next
  case (Some ip)
  obtain i p1 where ip: "ip = (i, p1)" by (cases ip)
  note d = pop_due_ok [OF assms(1) Some [unfolded ip]]
  have i1: "i < length (channels p1)" "\<not> scheduled (chan p1 i)" using d(2,7) d(8) [of i] by auto
  have "p' = p1 \<or> (\<exists>res. p' = after_call p1 i res)"
    using assms(2) by (auto simp: due_step_def Some ip Let_def split: option.splits prod.splits if_splits)
  then have "proc_inv p' \<and> refs p' = refs p1" using d(1) after_call_ok(1,2) [OF d(1) i1] by auto
  then show ?thesis using refs_pop [OF assms(1) Some [unfolded ip]] by simp
qed

text \<open>The rounds are the loop of the scheduler, cut into steps.\<close>

lemma due_loop_rounds:
  "map_option (\<lambda>((calls, p'), w'). (p', w')) (due_loop (Suc n) env p now w) =
     (case due_step env p now w of
        ((None, p1), w1) \<Rightarrow> Some (p1, w1)
      | ((Some now', p1), w1) \<Rightarrow> map_option (\<lambda>((calls, p'), w'). (p', w')) (due_loop n env p1 now' w1))"
proof (cases "pop_due_channel p now")
  case None
  then show ?thesis by (simp add: due_loop.simps due_step_def)
next
  case (Some ip)
  obtain i p1 where ip: "ip = (i, p1)" by (cases ip)
  show ?thesis
  proof (cases "if active (chan p1 i) then proc_in_cb (chan p1 i) else None")
    case None
    then show ?thesis using Some ip by (simp add: due_loop.simps [of "Suc n"] due_step_def)
  next
    case (Some cb)
    obtain res w1 where c: "invoke_proc_callback env cb now (next_run_ns (chan p1 i)) w = (res, w1)" by fastforce
    obtain now' w2 where n: "env_now env w1 = (now', w2)" by fastforce
    have "due_loop (Suc n) env p now w = map_option (\<lambda>((calls, p3), w3). (((i, now, next_run_ns (chan p1 i)) # calls, p3), w3))
        (due_loop n env (after_call p1 i res) now' w2)"
      using \<open>pop_due_channel p now = Some ip\<close> ip Some c n by (simp add: due_loop.simps [of "Suc n"] after_call_def)
    moreover have "due_step env p now w = ((Some now', after_call p1 i res), w2)"
      using \<open>pop_due_channel p now = Some ip\<close> ip Some c n by (simp add: due_step_def)
    ultimately show ?thesis by (cases "due_loop n env (after_call p1 i res) now' w2") (auto split: prod.splits)
  qed
qed

lemma worker_sys:
  assumes "sys_inv s" "\<not> exited s" "proc_inv p" "refs p = refs (wstate (py s))" "ph \<noteq> In_batch \<longrightarrow> batch s = [] \<and> \<not> shutdown_seen s"
  shows "sys_inv (s\<lparr>py := (py s)\<lparr>wstate := p\<rparr>, phase := ph, world := w\<rparr>)"
proof -
  let ?s = "s\<lparr>py := (py s)\<lparr>wstate := p\<rparr>, phase := ph, world := w\<rparr>"
  have q: "queued ?s = queued s" by (simp add: queued_def)
  have "served ?s = served s" by (intro served_cong) (simp_all add: pending_def q)
  moreover have "shut_ok ?s" using assms(1,5) q by (auto simp: sys_inv_def shut_ok_def)
  moreover have "mem_ok ?s" using assms q by (simp add: sys_inv_def mem_ok_def)
  ultimately show ?thesis using assms(1) by (simp add: sys_inv_def)
qed

lemma step_clock:
  assumes "sys_inv s" "proc_step env s Worker_clock = Some (out, s')"
  shows "sys_inv s'"
proof -
  obtain now w where n: "env_now env (world s) = (now, w)" by fastforce
  from assms(2) have g: "\<not> exited s" "batch s = []" "\<not> shutdown_seen s" by (auto split: if_splits)
  have "proc_inv (wstate (py s))" using assms(1) by (simp add: sys_inv_def mem_ok_def)
  from worker_sys [OF assms(1) g(1) this, of "In_due now" w] show ?thesis
    using assms(2) g n by (auto split: if_splits)
qed

lemma step_due:
  assumes "sys_inv s" "proc_step env s Worker_due = Some (out, s')"
  shows "sys_inv s'"
proof -
  from assms(2) obtain now where ph: "phase s = In_due now" "\<not> exited s" "\<not> in_callback s"
    by (auto split: worker_phase.splits if_splits)
  obtain nxt p w where d: "due_step env (wstate (py s)) now (world s) = ((nxt, p), w)" by (metis prod.exhaust)
  have "proc_inv (wstate (py s))" using assms(1) by (simp add: sys_inv_def mem_ok_def)
  note k = due_step_keeps [OF this d]
  have i: "batch s = []" "\<not> shutdown_seen s" using assms(1) ph by (auto simp: sys_inv_def shut_ok_def)
  show ?thesis using assms(2) ph d k i worker_sys [OF assms(1) ph(2), of p] by (cases nxt) auto
qed

lemma refs_cleared: "proc_inv p \<Longrightarrow> refs (clear_channels p) = refs p"
  using clear_channels_ok(1) [of p] by (simp add: refs_def [of "clear_channels p"] clear_channels_empty live_def)

lemma step_exit:
  assumes "sys_inv s" "proc_step env s Worker_exit = Some (out, s')"
  shows "sys_inv s'"
proof -
  have i: "mutex_inited (py s)" "proc_inv (wstate (py s))" using assms(1) by (auto simp: sys_inv_def mem_ok_def)
  from assms(2) have d: "\<not> exited s" "shutdown_seen s" "batch s = []" "\<not> in_callback s" "phase s = In_batch" by (auto split: if_splits)
  then have "cmd_list (py s) = []" using assms(1) by (simp add: sys_inv_def shut_ok_def)
  then have s': "s' = s\<lparr>py := (py s)\<lparr>cmd_list := [], wstate := clear_channels (wstate (py s))\<rparr>, exited := True\<rparr>"
    using assms(2) d i by (auto simp: detach_commands_def free_command_list_def)
  show ?thesis using assms(1) d i \<open>cmd_list (py s) = []\<close>
    by (auto simp: s' sys_inv_def served_def shut_ok_def mem_ok_def pending_def queued_def clear_channels_empty
        refs_cleared clear_channels_ok(2) split: list.splits)
qed

lemmas proc_steps = step_create step_create_return step_close step_close_return step_drop step_shutdown step_join_return
  step_detach step_command step_clock step_due step_exit

lemma sys_inv_free: "sys_inv s \<Longrightarrow> sys_inv (s\<lparr>in_callback := False\<rparr>)"
proof -
  assume i: "sys_inv s"
  then have "s\<lparr>in_callback := False\<rparr> = s" by (cases s) (simp add: sys_inv_def shut_ok_def)
  with i show ?thesis by simp
qed

lemma step_callback:
  assumes "sys_inv s" "proc_adm env s (Callback a)" "proc_step env s (Callback a) = Some (out, s')"
  shows "sys_inv s'"
proof -
  from assms(2,3) obtain s1 where a: "callback_method a" "proc_step env s a = Some (out, s1)" "\<not> blocks out" "release_ok a"
    and s': "s' = s1\<lparr>in_callback := False\<rparr>"
    by (auto simp: proc_adm_def simp del: proc_step.simps(1-11) split: option.splits if_splits)
  have "sys_inv s1" using assms(1) a
    by (cases a) (auto simp del: proc_step.simps elim: step_create step_close step_drop)
  then show ?thesis unfolding s' by (rule sys_inv_free)
qed

interpretation psys: invariant_machine "proc_step env" "proc_adm env" sys_inv
proof
  fix s :: "('a, 'b, 'c) proc_sys" and a
  assume "sys_inv s" "proc_adm env s a"
  then show "proc_step env s a \<noteq> None" by (auto simp: proc_adm_def simp del: proc_step.simps split: option.splits)
next
  fix s s' :: "('a, 'b, 'c) proc_sys" and a out
  assume a: "sys_inv s" "proc_adm env s a" and st: "proc_step env s a = Some (out, s')"
  then show "sys_inv s'"
  proof (cases a)
    case (Callback b)
    then show ?thesis using step_callback a st by blast
  qed (auto simp: proc_adm_def simp del: proc_step.simps elim: proc_steps)
qed

section \<open>Properties\<close>

text \<open>A singleton that has just been created and initialised, with no channels.\<close>

definition proc_start :: "init_env \<Rightarrow> 'w \<Rightarrow> ('cb, 'e, 'w) proc_sys option" where
  "proc_start ie w =
     (case PyRtpProc_init ie (PyRtpProc_new None) of (rc, p) \<Rightarrow>
        if rc = 0 then Some \<lparr>py = p, objs = [], callers = [], joiners = 0, batch = [], shutdown_seen = False,
          exited = False, world = w, cmd_log = [], increfs = [], phase = At_commands, in_callback = False\<rparr>
        else None)"

lemma init_cases:
  assumes "PyRtpProc_init ie (PyRtpProc_new None) = (0, p)"
  shows "mutex_inited p" "cond_inited p" "cmd_waiter_inited p" "\<not> cmd_waiter_busy p" "\<not> shutdown_queued p" "cmd_list p = []"
    "wstate p = proc_empty" "worker_running p"
  using assms
  by (auto simp: PyRtpProc_init_def PyRtpProc_new_def Let_def rtp_sync_waiter_init_def rtp_sync_cond_init_monotonic_def
      split: if_splits prod.splits)

lemma proc_start_ok:
  assumes "proc_start ie w = Some s"
  shows "sys_inv s"
proof -
  obtain p where p: "PyRtpProc_init ie (PyRtpProc_new None) = (0, p)"
    and s: "s = \<lparr>py = p, objs = [], callers = [], joiners = 0, batch = [], shutdown_seen = False,
          exited = False, world = w, cmd_log = [], increfs = [], phase = At_commands, in_callback = False\<rparr>"
    using assms by (auto simp: proc_start_def split: prod.splits if_splits)
  show ?thesis using init_cases [OF p] proc_empty_ok
    by (simp add: s sys_inv_def served_def shut_ok_def mem_ok_def pending_def queued_def)
qed

text \<open>Left to itself, the worker processes what it has detached.\<close>

lemma command_step:
  assumes "batch s = cmd # rest" "\<not> exited s" "phase s = In_batch" "\<not> in_callback s"
  shows "\<exists>s1. proc_step env s Worker_command = Some (Nothing, s1) \<and> batch s1 = rest \<and> \<not> exited s1 \<and>
    phase s1 = In_batch \<and> callers s1 = callers s \<and> cmd_list (py s1) = cmd_list (py s) \<and> increfs s1 = increfs s"
proof -
  obtain sts down p w where "process_commands env (wstate (py s)) [cmd] (world s) = ((sts, down, p), w)"
    by (metis prod.exhaust)
  then show ?thesis using assms by (simp split del: if_split)
qed

lemma sys_inv_not_in_callback: "sys_inv s \<Longrightarrow> \<not> in_callback s"
  by (simp add: sys_inv_def shut_ok_def)

lemma drain_batch:
  "sys_inv s \<Longrightarrow> \<not> exited s \<Longrightarrow> phase s = In_batch \<Longrightarrow>
   \<exists>outs s'. run_steps (proc_step env) s (replicate (length (batch s)) Worker_command) = Some (outs, s') \<and>
     batch s' = [] \<and> \<not> exited s' \<and> phase s' = In_batch \<and> callers s' = callers s \<and> cmd_list (py s') = cmd_list (py s) \<and>
     increfs s' = increfs s \<and> sys_inv s'"
proof (induction "batch s" arbitrary: s)
  case Nil
  then show ?case by simp
next
  case (Cons cmd rest)
  from command_step [OF Cons.hyps(2) [symmetric] Cons.prems(2,3) sys_inv_not_in_callback [OF Cons.prems(1)], of env] obtain s1 where
    s1: "proc_step env s Worker_command = Some (Nothing, s1)" "batch s1 = rest" "\<not> exited s1" "phase s1 = In_batch"
    "callers s1 = callers s" "cmd_list (py s1) = cmd_list (py s)" "increfs s1 = increfs s" by blast
  from Cons.hyps(1) [of s1] s1 step_command [OF Cons.prems(1) s1(1)] obtain outs s' where
    "run_steps (proc_step env) s1 (replicate (length rest) Worker_command) = Some (outs, s')"
    "batch s' = []" "\<not> exited s'" "phase s' = In_batch" "callers s' = callers s" "cmd_list (py s') = cmd_list (py s)"
    "increfs s' = increfs s" "sys_inv s'" by auto
  then show ?case using s1(1) Cons.hyps(2) [symmetric] by (auto simp del: proc_step.simps)
qed

text \<open>It leaves the loop over the due channels if the loop ends.\<close>

lemma drain_due:
  "sys_inv s \<Longrightarrow> \<not> exited s \<Longrightarrow> phase s = In_due now \<Longrightarrow> due_loop fuel env (wstate (py s)) now (world s) \<noteq> None \<Longrightarrow>
   \<exists>n outs s'. run_steps (proc_step env) s (replicate n Worker_due) = Some (outs, s') \<and> phase s' = At_commands \<and>
     \<not> exited s' \<and> callers s' = callers s \<and> increfs s' = increfs s \<and> sys_inv s'"
proof (induction fuel arbitrary: s now)
  case (Suc n)
  obtain nxt p w where d: "due_step env (wstate (py s)) now (world s) = ((nxt, p), w)" by (metis prod.exhaust)
  obtain s1 where s1: "proc_step env s Worker_due = Some (Nothing, s1)" "\<not> exited s1" "callers s1 = callers s" "increfs s1 = increfs s"
    "wstate (py s1) = p" "case nxt of None \<Rightarrow> phase s1 = At_commands | Some now' \<Rightarrow> phase s1 = In_due now' \<and> world s1 = w"
    using Suc.prems(1-3) d by (cases nxt) (auto dest: sys_inv_not_in_callback)
  note i1 = step_due [OF Suc.prems(1) s1(1)]
  show ?case
  proof (cases nxt)
    case None
    have "run_steps (proc_step env) s (replicate 1 Worker_due) = Some ([Nothing], s1)" using s1(1) by (simp del: proc_step.simps)
    then show ?thesis using None s1 i1 by (intro exI [of _ 1]) auto
  next
    case (Some now')
    have "map_option (\<lambda>((calls, p'), w'). (p', w')) (due_loop (Suc n) env (wstate (py s)) now (world s)) \<noteq> None" using Suc.prems(4) by simp
    then have "due_loop n env (wstate (py s1)) now' (world s1) \<noteq> None" unfolding due_loop_rounds d using Some s1 by simp
    moreover have "phase s1 = In_due now'" using Some s1 by simp
    ultimately obtain m outs s' where "run_steps (proc_step env) s1 (replicate m Worker_due) = Some (outs, s')" "phase s' = At_commands"
      "\<not> exited s'" "callers s' = callers s1" "increfs s' = increfs s1" "sys_inv s'" using Suc.IH [OF i1 s1(2)] by blast
    then show ?thesis using s1 by (intro exI [of _ "Suc m"]) (auto simp del: proc_step.simps)
  qed
next
  case 0
  then have p: "pop_due_channel (wstate (py s)) now = None" by (auto simp: due_loop.simps split: option.splits)
  then obtain s1 where s1: "proc_step env s Worker_due = Some (Nothing, s1)" "phase s1 = At_commands" "\<not> exited s1"
    "callers s1 = callers s" "increfs s1 = increfs s"
    using 0 by (auto simp: due_step_def dest: sys_inv_not_in_callback)
  moreover from this have "run_steps (proc_step env) s (replicate 1 Worker_due) = Some ([Nothing], s1)" by (simp del: proc_step.simps)
  ultimately show ?case using step_due [OF 0(1) s1(1)] by (intro exI [of _ 1]) auto
qed

text \<open>
  The loop ends if the callbacks are prompt: while as many of them as there are channels are called, the clock stays below the times they
  ask for.
\<close>

definition prompt_callbacks :: "nat \<Rightarrow> ('cb, 'e, 'w) proc_env \<Rightarrow> bool" where
  "prompt_callbacks n env \<longleftrightarrow> (\<forall>w. \<exists>T. fst (env_now env w) \<le> T \<and> calm n env T (snd (env_now env w)))"

lemma prompt_loop_ends:
  assumes "prompt_callbacks n env" "proc_inv p" "size (refs p) \<le> n"
  shows "due_loop (Suc n) env p now w \<noteq> None"
proof -
  obtain nxt p1 w2 where d: "due_step env p now w = ((nxt, p1), w2)" by (metis prod.exhaust)
  have "due_loop n env p1 now' w2 \<noteq> None" if nxt: "nxt = Some now'" for now'
  proof -
    note k = due_step_keeps [OF assms(2) d]
    obtain ip where pop: "pop_due_channel p now = Some ip" using d nxt by (auto simp: due_step_def split: option.splits)
    obtain i q where ip: "ip = (i, q)" by (cases ip)
    note o = pop_due_ok [OF assms(2) pop [unfolded ip]]
    obtain cb where "proc_in_cb (chan q i) = Some cb" "active (chan q i)"
      using assms(2) o(2,4) o(8) [of i] by (auto simp: proc_inv_def chans_ok_def)
    then obtain w1 where "env_now env w1 = (now', w2)"
      using d nxt pop ip by (auto simp: due_step_def Let_def split: prod.splits)
    then obtain T where T: "now' \<le> T" "calm n env T w2" using assms(1) unfolding prompt_callbacks_def by (metis fst_conv snd_conv)
    have "due_count p1 T \<le> length (sched p1)" by (simp add: due_count_def)
    also have "\<dots> \<le> n" using sched_le_refs k assms(3) by force
    finally show ?thesis using due_loop_ends [OF _ T] k by blast
  qed
  then have "map_option (\<lambda>((calls, p'), w'). (p', w')) (due_loop (Suc n) env p now w) \<noteq> None"
    unfolding due_loop_rounds d by (auto split: option.splits)
  then show ?thesis by auto
qed

text \<open>So a waiting caller is served, wherever the worker is.\<close>

definition worker_acts :: "'cb proc_act set" where
  "worker_acts = {Worker_detach, Worker_command, Worker_clock, Worker_due}"

definition gets_served :: "('cb, 'e, 'w) proc_env \<Rightarrow> ('cb, 'e, 'w) proc_sys \<Rightarrow> bool" where
  "gets_served env s \<longleftrightarrow> (\<exists>acts outs s'. set acts \<subseteq> worker_acts \<and>
     run_steps (proc_step env) s acts = Some (outs, s') \<and> callers s' = callers s \<and> w_done (cmd_waiter (py s')))"

lemma gets_served_run:
  assumes "run_steps (proc_step env) s acts = Some (outs, s1)" "set acts \<subseteq> worker_acts" "callers s1 = callers s" "gets_served env s1"
  shows "gets_served env s"
proof -
  from assms(4) obtain acts' outs' s' where r: "set acts' \<subseteq> worker_acts" "run_steps (proc_step env) s1 acts' = Some (outs', s')"
    "callers s' = callers s1" "w_done (cmd_waiter (py s'))" by (auto simp: gets_served_def)
  have "run_steps (proc_step env) s (acts @ acts') = Some (outs @ outs', s')" by (rule run_steps_append [OF assms(1) r(2)])
  moreover have "set (acts @ acts') \<subseteq> worker_acts" "callers s' = callers s" using r(1,3) assms(2,3) by auto
  ultimately show ?thesis using r(4) unfolding gets_served_def by blast
qed

lemma served_when_empty:
  assumes "sys_inv s" "callers s = [c]" "queued s = []"
  shows "gets_served env s"
proof -
  have "w_done (cmd_waiter (py s))" using assms by (auto simp: sys_inv_def served_def pending_def split: if_splits)
  then show ?thesis unfolding gets_served_def by (intro exI [of _ "[]"]) simp
qed

lemma served_from_commands:
  assumes "sys_inv s" "callers s = [c]" "\<not> exited s" "phase s = At_commands"
  shows "gets_served env s"
proof -
  let ?t = "s\<lparr>py := (py s)\<lparr>cmd_list := []\<rparr>, batch := cmd_list (py s), phase := In_batch\<rparr>"
  have "mutex_inited (py s)" using assms(1) by (simp add: sys_inv_def)
  then have t: "proc_step env s Worker_detach = Some (Nothing, ?t)"
    using assms(3,4) sys_inv_not_in_callback [OF assms(1)] by (simp add: detach_commands_def)
  from drain_batch [OF step_detach [OF assms(1) t], of env] assms(2,3) obtain outs s2 where
    e: "run_steps (proc_step env) ?t (replicate (length (cmd_list (py s))) Worker_command) = Some (outs, s2)"
    "batch s2 = []" "callers s2 = [c]" "cmd_list (py s2) = []" "sys_inv s2" by auto
  have "gets_served env s2" using e by (intro served_when_empty [OF e(5,3)]) (simp add: queued_def)
  moreover have r: "run_steps (proc_step env) s (Worker_detach # replicate (length (cmd_list (py s))) Worker_command) = Some (Nothing # outs, s2)"
    using t e(1) by (simp del: proc_step.simps)
  ultimately show ?thesis using e(3) assms(2) gets_served_run [OF r] by (simp add: worker_acts_def set_replicate_conv_if del: proc_step.simps)
qed

lemma served_from_due:
  assumes "sys_inv s" "callers s = [c]" "\<not> exited s" "phase s = In_due now" "prompt_callbacks n env" "length (increfs s) \<le> n"
  shows "gets_served env s"
proof -
  have "proc_inv (wstate (py s))" "refs (wstate (py s)) + mset (cmd_cbs (queued s)) = mset (increfs s)"
    using assms(1) by (auto simp: sys_inv_def mem_ok_def)
  moreover from this(2) have "size (refs (wstate (py s))) \<le> length (increfs s)"
    by (metis size_union size_mset le_add1)
  ultimately have "due_loop (Suc n) env (wstate (py s)) now (world s) \<noteq> None" using prompt_loop_ends [OF assms(5)] assms(6) by simp
  from drain_due [OF assms(1,3,4) this] obtain m outs s1 where
    r: "run_steps (proc_step env) s (replicate m Worker_due) = Some (outs, s1)" and e: "phase s1 = At_commands" "\<not> exited s1"
    "callers s1 = callers s" "sys_inv s1" by blast
  then have "gets_served env s1" using served_from_commands [of s1 c env] assms(2) by simp
  then show ?thesis using e(3) gets_served_run [OF r] by (simp add: worker_acts_def set_replicate_conv_if)
qed

lemma served_from_batch:
  assumes "sys_inv s" "callers s = [c]" "\<not> exited s" "phase s = In_batch" "prompt_callbacks n env" "length (increfs s) \<le> n"
  shows "gets_served env s"
proof -
  from drain_batch [OF assms(1,3,4), of env] obtain o1 s1 where
    d: "run_steps (proc_step env) s (replicate (length (batch s)) Worker_command) = Some (o1, s1)"
    "batch s1 = []" "\<not> exited s1" "phase s1 = In_batch" "callers s1 = callers s" "increfs s1 = increfs s" "sys_inv s1" by auto
  have "gets_served env s1"
  proof (cases "cmd_list (py s1) = []")
    case True
    then show ?thesis using d assms(2) by (intro served_when_empty) (simp_all add: queued_def)
  next
    case False
    obtain now w where n: "env_now env (world s1) = (now, w)" by fastforce
    let ?t = "s1\<lparr>phase := In_due now, world := w\<rparr>"
    have "\<not> shutdown_seen s1" using d(7) False by (auto simp: sys_inv_def shut_ok_def)
    then have t: "proc_step env s1 Worker_clock = Some (Nothing, ?t)" using d n sys_inv_not_in_callback [OF d(7)] by simp
    have "gets_served env ?t" using served_from_due [OF step_clock [OF d(7) t], of c now n env] assms(2,5,6) d(3,5,6) by simp
    moreover have r: "run_steps (proc_step env) s1 [Worker_clock] = Some ([Nothing], ?t)" using t by (simp del: proc_step.simps)
    ultimately show ?thesis using gets_served_run [OF r] by (simp add: worker_acts_def)
  qed
  then show ?thesis using d(5) gets_served_run [OF d(1)] by (simp add: worker_acts_def set_replicate_conv_if)
qed

lemma caller_progress:
  assumes "sys_inv s" "callers s = [c]" "\<not> exited s" "prompt_callbacks n env" "length (increfs s) \<le> n"
  shows "gets_served env s"
  using served_from_commands served_from_due served_from_batch assms by (cases "phase s") blast+

text \<open>The references that were taken are not more than the calls of \<open>create_channel\<close>.\<close>

fun creates :: "'cb proc_act \<Rightarrow> bool" where
  "creates (Create le arg) = True"
| "creates (Callback a) = creates a"
| "creates a = False"

lemma increfs_step:
  "proc_step env s a = Some (out, s') \<Longrightarrow> length (increfs s') \<le> length (increfs s) + (if creates a then 1 else 0)"
  by (induction a arbitrary: out s')
    (auto simp: Let_def split: option.split_asm prod.split_asm create_result.split_asm list.split_asm caller.split_asm if_split_asm
      shutdown_result.split_asm worker_phase.split_asm)

lemma increfs_run:
  "run_steps (proc_step env) s acts = Some (outs, s') \<Longrightarrow> length (increfs s') \<le> length (increfs s) + length (filter creates acts)"
proof (induction acts arbitrary: s outs)
  case (Cons a acts)
  then obtain out s1 outs1 where "proc_step env s a = Some (out, s1)" "run_steps (proc_step env) s1 acts = Some (outs1, s')"
    by (auto simp del: proc_step.simps split: option.splits)
  then show ?case using Cons.IH increfs_step [of env s a out s1] by fastforce
qed simp

text \<open>Callbacks for examples: 9 raises an exception of that name, the others do not ask to be called again.\<close>

definition plain_env :: "(nat, nat, unit) proc_env" where
  "plain_env = \<lparr>env_now = (\<lambda>w. (5, w)), env_cmd_now = (\<lambda>w. (5, w)),
     env_call = (\<lambda>cb t d w. (Some (if cb = 9 then Py_raised 9 else Py_None), w)),
     env_OverflowError = 1, env_TypeError = 2, env_realloc = (\<lambda>n w. (Some True, w))\<rparr>"

definition lib_ok :: lib_env where
  "lib_ok = \<lparr>lib_object = True, lib_calloc = True, lib_lock_acquire = True, lib_reset = True, lib_lock_enqueue = True,
     lib_lock_release = True\<rparr>"

definition init_ok :: init_env where
  "init_ok = \<lparr>no_args = True, mutex_ok = True, attr_ok = True, setclock_ok = True, cond_ok = True, waiter_mutex_ok = True,
     waiter_cond_ok = True, thread_ok = True\<rparr>"

text \<open>A call with what the worker does about it: it takes the command, goes through the due channels and is back at the queue.\<close>

definition add_acts :: "nat \<Rightarrow> nat proc_act list" where
  "add_acts cb = [Create lib_ok (Some (cb, True)), Worker_detach, Worker_command, Create_return lib_ok, Worker_clock, Worker_due]"

definition close_acts :: "nat \<Rightarrow> nat proc_act list" where
  "close_acts h = [Close lib_ok h, Worker_detach, Worker_command]"

lemma plain_env_prompt: "prompt_callbacks n plain_env"
proof -
  have "calm n plain_env 5 w" for w
    by (induction n arbitrary: w) (simp_all add: plain_env_def invoke_proc_callback_def)
  then show ?thesis unfolding prompt_callbacks_def by (intro allI exI [of _ 5]) (simp, simp add: plain_env_def)
qed

lemma proc_start_init_ok: "proc_start init_ok w = Some (the (proc_start init_ok w))"
  by (simp add: proc_start_def PyRtpProc_init_def PyRtpProc_new_def init_ok_def rtp_sync_waiter_init_def rtp_sync_cond_init_monotonic_def)

text \<open>
  C14. No caller of a synchronous method is stranded, and none gets the answer to another one's command. Provided that no callback calls a
  method that blocks, that the mutex works, and that callbacks are prompt (while as many of them are called as channels were created, the
  clock does not pass the times they ask to be called again), in every state that the methods and the worker can reach in any interleaving at most one
  thread waits; either it has a status, which is the one of its own command, or its command is queued, the worker is still running, and the
  worker alone, wherever it is in its loop, gets to the point where the status is there. This includes commands enqueued before a shutdown.
\<close>

theorem proc_caller_served:
  assumes "proc_start ie w = Some s0" and "admissible_run (proc_step env) (proc_adm env) s0 acts"
    and "prompt_callbacks (length (filter creates acts)) env"
  shows "\<exists>outs s. run_steps (proc_step env) s0 acts = Some (outs, s) \<and> length (callers s) \<le> 1 \<and>
    (\<forall>c \<in> set (callers s).
       if w_done (cmd_waiter (py s)) then (caller_cmd c, w_status (cmd_waiter (py s))) \<in> set (cmd_log s)
       else caller_cmd c \<in> set (queued s) \<and> \<not> exited s \<and>
         (\<exists>acts' outs' s'. set acts' \<subseteq> {Worker_detach, Worker_command, Worker_clock, Worker_due} \<and>
            run_steps (proc_step env) s acts' = Some (outs', s') \<and> callers s' = callers s \<and> w_done (cmd_waiter (py s'))))"
proof -
  from psys.run_ok [OF proc_start_ok [OF assms(1)] assms(2)] obtain outs s
    where r: "run_steps (proc_step env) s0 acts = Some (outs, s)" and inv: "sys_inv s" by blast
  have "increfs s0 = []" using assms(1) by (auto simp: proc_start_def split: prod.splits if_splits)
  then have n: "length (increfs s) \<le> length (filter creates acts)" using increfs_run [OF r] by simp
  show ?thesis
  proof (cases "callers s")
    case Nil
    then show ?thesis using r by auto
  next
    case (Cons c rest)
    then have c: "callers s = [c]" using inv by (auto simp: sys_inv_def served_def split: list.splits)
    show ?thesis
    proof (cases "w_done (cmd_waiter (py s))")
      case True
      then show ?thesis using r c inv by (auto simp: sys_inv_def served_def)
    next
      case False
      then have p: "pending s = [caller_cmd c]" using inv c by (simp add: sys_inv_def served_def)
      then have q: "caller_cmd c \<in> set (queued s)"
        using filter_set [of has_waiter "queued s"] by (auto simp: pending_def)
      then have "\<not> exited s" using inv by (auto simp: sys_inv_def shut_ok_def queued_def)
      with caller_progress [OF inv c this assms(3) n] q r c False show ?thesis by (auto simp: gets_served_def worker_acts_def)
    qed
  qed
qed

theorem proc_caller_served_witness:
  "\<exists>outs s. run_steps (proc_step plain_env) (the (proc_start init_ok ()))
       (add_acts 7 @ [Worker_detach, Worker_clock, Create lib_ok (Some (8, True)), Shutdown lib_ok]) = Some (outs, s) \<and>
     callers s = [Creating \<lparr>proc_obj = True, obj_id = 2, closed = False\<rparr> 8] \<and> \<not> w_done (cmd_waiter (py s)) \<and> phase s = In_due 5 \<and>
     (\<exists>acts' outs' s'. run_steps (proc_step plain_env) s acts' = Some (outs', s') \<and> w_done (cmd_waiter (py s')))"
proof -
  let ?s = "the (proc_start init_ok ()) :: (nat, nat, unit) proc_sys"
    and ?acts = "add_acts 7 @ [Worker_detach, Worker_clock, Create lib_ok (Some (8, True)), Shutdown lib_ok]"
  have a: "admissible_run (proc_step plain_env) (proc_adm plain_env) ?s ?acts" by code_simp
  from proc_caller_served [OF proc_start_init_ok a plain_env_prompt]
  obtain outs s where r: "run_steps (proc_step plain_env) ?s ?acts = Some (outs, s)"
    and c: "\<forall>c \<in> set (callers s). if w_done (cmd_waiter (py s)) then (caller_cmd c, w_status (cmd_waiter (py s))) \<in> set (cmd_log s)
       else caller_cmd c \<in> set (queued s) \<and> \<not> exited s \<and>
         (\<exists>acts' outs' s'. set acts' \<subseteq> {Worker_detach, Worker_command, Worker_clock, Worker_due} \<and>
            run_steps (proc_step plain_env) s acts' = Some (outs', s') \<and> callers s' = callers s \<and> w_done (cmd_waiter (py s')))"
    by blast
  have "map_option (\<lambda>(outs, s). (callers s, w_done (cmd_waiter (py s)), phase s)) (run_steps (proc_step plain_env) ?s ?acts) =
      Some ([Creating \<lparr>proc_obj = True, obj_id = 2, closed = False\<rparr> 8], False, In_due 5)" by code_simp
  with r have e: "callers s = [Creating \<lparr>proc_obj = True, obj_id = 2, closed = False\<rparr> 8]" "\<not> w_done (cmd_waiter (py s))" "phase s = In_due 5" by auto
  with c r show ?thesis by auto
qed

text \<open>
  C15. The references to callables balance: once the worker has ended, every reference that the method \<open>create_channel\<close> took has been
  given up exactly once, whether the channel was added, refused, closed or still open. The conditions are that the mutex works when the waiter is
  given back and that no callback calls a method that blocks.
\<close>

theorem proc_refs_balance:
  assumes "proc_start ie w = Some s0" and "admissible_run (proc_step env) (proc_adm env) s0 acts"
    and "run_steps (proc_step env) s0 acts = Some (outs, s)" and "exited s"
  shows "mset (decrefs (wstate (py s))) = mset (increfs s)"
proof -
  from psys.run_ok [OF proc_start_ok [OF assms(1)] assms(2)] assms(3) have inv: "sys_inv s" by auto
  then have "queued s = []" using assms(4) by (auto simp: sys_inv_def shut_ok_def queued_def)
  then show ?thesis using inv assms(4) by (auto simp: sys_inv_def mem_ok_def refs_def live_def)
qed

theorem proc_refs_balance_witness:
  "\<exists>outs s. run_steps (proc_step plain_env) (the (proc_start init_ok ()))
       (add_acts 8 @ [Shutdown lib_ok, Worker_detach, Worker_command, Worker_exit, Create lib_ok (Some (7, True))]) = Some (outs, s) \<and>
     increfs s = [8, 7] \<and> mset (decrefs (wstate (py s))) = {#8, 7#}"
proof -
  let ?s = "the (proc_start init_ok ()) :: (nat, nat, unit) proc_sys"
    and ?acts = "add_acts 8 @ [Shutdown lib_ok, Worker_detach, Worker_command, Worker_exit, Create lib_ok (Some (7, True))]"
  have a: "admissible_run (proc_step plain_env) (proc_adm plain_env) ?s ?acts" by code_simp
  have "map_option (\<lambda>(outs, s). (exited s, increfs s)) (run_steps (proc_step plain_env) ?s ?acts) = Some (True, [8, 7])"
    by code_simp
  then obtain outs s where r: "run_steps (proc_step plain_env) ?s ?acts = Some (outs, s)" "exited s" "increfs s = [8, 7]" by auto
  from proc_refs_balance [OF proc_start_init_ok a r(1,2)] r show ?thesis by auto
qed

text \<open>
  The exception of a callback can get lost. A callback that failed is reported by \<open>close\<close> of its channel
  as \<open>ChannelProcError\<close>. But \<open>close\<close> of another channel clears the exception before it finds that the waiter is
  taken; when this happens between the worker's answer and the return of the first \<open>close\<close>, the first call returns normally.
\<close>

lemma proc_close_exception_lost:
  "map_option (last \<circ> fst) (run_steps (proc_step plain_env) (the (proc_start init_ok ()))
      (add_acts 9 @ add_acts 8 @ close_acts 0 @ [Close_return lib_ok])) = Some (Raises (ChannelProcError 9)) \<and>
   map_option (last \<circ> fst) (run_steps (proc_step plain_env) (the (proc_start init_ok ()))
      (add_acts 9 @ add_acts 8 @ close_acts 0 @ [Close lib_ok 1, Close_return lib_ok])) = Some Returns"
  by (rule conjI; code_simp)

text \<open>
  Two threads can end up in \<open>pthread_join\<close> for the same worker: a second \<open>shutdown\<close> that is called while the
  first one waits sees the worker running and joins it as well.
\<close>

lemma proc_double_join:
  "map_option (\<lambda>(outs, s). (outs, joiners s)) (run_steps (proc_step plain_env) (the (proc_start init_ok ()))
      [Shutdown lib_ok, Shutdown lib_ok]) = Some ([Blocks, Blocks], 2)"
  by code_simp

text \<open>
  Both conditions of the callers' progress are needed. A callback that keeps asking for a time that has come keeps the worker in its loop
  over the due channels: the worker goes round and round there, it never looks at the queue, and a caller that waits is not served.
\<close>

definition busy_env :: "(nat, nat, unit) proc_env" where
  "busy_env = plain_env\<lparr>env_call := (\<lambda>cb t d w. (Some (Py_long 5), w))\<rparr>"

definition busy_sys :: "(nat, nat, unit) proc_sys" where
  "busy_sys = snd (the (run_steps (proc_step busy_env) (the (proc_start init_ok ()))
     [Create lib_ok (Some (7, True)), Worker_detach, Worker_command, Create_return lib_ok, Worker_clock, Create lib_ok (Some (8, True))]))"

lemma proc_busy_callback_starves:
  assumes "set acts \<subseteq> {Worker_detach, Worker_command, Worker_clock, Worker_due, Worker_exit}"
    and "run_steps (proc_step busy_env) busy_sys acts = Some (outs, s)"
  shows "callers s \<noteq> [] \<and> \<not> w_done (cmd_waiter (py s))"
proof -
  have d: "proc_step busy_env busy_sys Worker_due = Some (Nothing, busy_sys)" by code_simp
  have n: "proc_step busy_env busy_sys a = None" if "a \<in> {Worker_detach, Worker_command, Worker_clock, Worker_exit}" for a
  proof -
    have "phase busy_sys = In_due 5" "batch busy_sys = []" by code_simp+
    then show ?thesis using that by auto
  qed
  have "s = busy_sys" using assms
  proof (induction acts arbitrary: outs)
    case (Cons a acts)
    then have "a = Worker_due" using n [of a] by (auto simp del: proc_step.simps split: option.splits)
    then show ?case using Cons d by (auto simp del: proc_step.simps split: option.splits)
  qed simp
  moreover have "callers busy_sys \<noteq> [] \<and> \<not> w_done (cmd_waiter (py busy_sys))" by code_simp
  ultimately show ?thesis by simp
qed

text \<open>
  And a method that blocks, called from a callback, stops the worker for good: the worker waits for itself.
\<close>

lemma proc_callback_create_blocks:
  "map_option (\<lambda>(outs, s). (last outs, in_callback s, callers s \<noteq> [], w_done (cmd_waiter (py s))))
     (run_steps (proc_step busy_env) (the (proc_start init_ok ()))
       [Create lib_ok (Some (7, True)), Worker_detach, Worker_command, Create_return lib_ok, Worker_clock,
        Callback (Create lib_ok (Some (8, True)))]) = Some (Blocks, True, True, False)"
  by code_simp

lemma proc_callback_blocked:
  "in_callback s \<Longrightarrow> a \<in> {Worker_detach, Worker_command, Worker_clock, Worker_due, Worker_exit} \<Longrightarrow> proc_step env s a = None"
  by (auto split: list.splits worker_phase.splits)

end

