(* ===== verification/Rtp_Server.thy ===== *)
theory Rtp_Server
  imports SPMC_Queue Rtp_Sync
begin

text \<open>
  The worker of \<^verbatim>\<open>python/RtpServer_mod.c\<close>: the registry of channels, the cache of descriptors to poll, the
  queues of outgoing packets, and the tick.

  A channel object is an address in a heap; it has a reference count and is freed when the count drops to zero.
  \<open>None\<close> is an access to a freed object or a failing assertion. What leaves the process is recorded: packets sent,
  packets handed to a callback, descriptors closed, and references given up. An outgoing queue is the queue of
  \<open>SPMC_Queue\<close>.
\<close>

section \<open>State\<close>

type_synonym chan_addr = nat
type_synonym packet = "u8 list"

record ('cb, 'a) rtp_channel =
  ob_refcnt :: nat
  ch_closed :: bool
  py_has_target :: bool
  ch_fd :: int
  has_target :: bool
  target_addr :: 'a
  pkt_in_cb :: 'cb
  out_q :: "packet SPMCQueue"
  local_addr :: "'a option"

datatype ('cb, 'a) io =
    Io_send int packet 'a
  | Io_deliver 'cb packet 'a u64
  | Io_free packet
  | Io_close int
  | Io_decref 'cb

record ('cb, 'a) server =
  chans :: "chan_addr option list"
  chans_active :: nat
  pollfds :: "(int \<times> chan_addr) list"
  pollfds_cap :: nat
  pollfds_dirty :: bool
  heap :: "chan_addr \<Rightarrow> ('cb, 'a) rtp_channel option"
  io_log :: "('cb, 'a) io list"

datatype 'a server_cmd =
    CMD_ADD_CHANNEL chan_addr
  | CMD_REMOVE_CHANNEL chan_addr bool
  | CMD_SET_TARGET chan_addr 'a
  | CMD_DROP_CHANNELS
  | CMD_STOP_WORKER

record ('cb, 'a, 'w) server_env =
  env_realloc :: "nat \<Rightarrow> 'w \<Rightarrow> bool \<times> 'w"
  env_poll :: "int list \<Rightarrow> 'w \<Rightarrow> bool list \<times> 'w"
  env_recvfrom :: "int \<Rightarrow> 'w \<Rightarrow> (packet \<times> 'a) option \<times> 'w"
  env_now :: "'w \<Rightarrow> u64 \<times> 'w"

section \<open>Channels\<close>

text \<open>
  Taking everything out of a queue; the number bounds the iterations.
\<close>

fun drain_queue :: "nat \<Rightarrow> ('q \<Rightarrow> ('v option \<times> 'q) option) \<Rightarrow> 'q \<Rightarrow> ('v list \<times> 'q) option" where
  "drain_queue fuel pop q =
     (case pop q of
        None \<Rightarrow> None
      | Some (None, q1) \<Rightarrow> Some ([], q1)
      | Some (Some v, q1) \<Rightarrow>
          (case fuel of
             0 \<Rightarrow> None
           | Suc n \<Rightarrow> map_option (\<lambda>(vs, q2). (v # vs, q2)) (drain_queue n pop q1)))"

declare drain_queue.simps [simp del]

definition free_send_queue :: "packet SPMCQueue \<Rightarrow> packet list option" where
  "free_send_queue q = map_option fst (drain_queue (unat (capacity q)) (try_pop 0) q)"

text \<open>What \<open>rtp_channel_cleanup\<close> does: the descriptor, the queued packets, the callback.\<close>

definition rtp_channel_cleanup :: "('cb, 'a) rtp_channel \<Rightarrow> ('cb, 'a) io list option" where
  "rtp_channel_cleanup ch =
     (if ch_fd ch < 0 then None
      else map_option (\<lambda>items. Io_close (ch_fd ch) # map Io_free items @ [Io_decref (pkt_in_cb ch)])
        (free_send_queue (out_q ch)))"

text \<open>
  \<open>Py_DECREF\<close> of a channel object. The destructor closes a channel that is still open, which only sets the
  flag when the server accepts no commands any more; an open channel of a server that does is referenced by the worker, so
  that case has no value here.
\<close>

definition rtp_channel_state_unref :: "bool \<Rightarrow> ('cb, 'a) server \<Rightarrow> chan_addr \<Rightarrow> ('cb, 'a) server option" where
  "rtp_channel_state_unref accepting s h =
     (case heap s h of
        None \<Rightarrow> None
      | Some ch \<Rightarrow>
          if ob_refcnt ch = 0 then None
          else if ob_refcnt ch > 1 then Some (s\<lparr>heap := (heap s)(h \<mapsto> ch\<lparr>ob_refcnt := ob_refcnt ch - 1\<rparr>)\<rparr>)
          else if \<not> ch_closed ch \<and> accepting then None
          else map_option (\<lambda>ios. s\<lparr>heap := (heap s)(h := None), io_log := io_log s @ ios\<rparr>) (rtp_channel_cleanup ch))"

fun unref_all :: "bool \<Rightarrow> ('cb, 'a) server \<Rightarrow> chan_addr option list \<Rightarrow> ('cb, 'a) server option" where
  "unref_all accepting s [] = Some s"
| "unref_all accepting s (None # hs) = unref_all accepting s hs"
| "unref_all accepting s (Some h # hs) =
     (case rtp_channel_state_unref accepting s h of None \<Rightarrow> None | Some s1 \<Rightarrow> unref_all accepting s1 hs)"

definition clear_channels :: "bool \<Rightarrow> ('cb, 'a) server \<Rightarrow> ('cb, 'a) server option" where
  "clear_channels accepting s =
     map_option (\<lambda>s1. s1\<lparr>chans := [], chans_active := 0\<rparr>) (unref_all accepting s (chans s))"

definition ensure_channel_capacity ::
    "('cb, 'a, 'w) server_env \<Rightarrow> ('cb, 'a) server \<Rightarrow> nat \<Rightarrow> 'w \<Rightarrow> (int \<times> ('cb, 'a) server) \<times> 'w" where
  "ensure_channel_capacity env s need w =
     (let cap = length (chans s) in
      if need \<le> cap then ((0, s), w)
      else case grow_cap (if cap = 0 then 4 else cap) need of
             None \<Rightarrow> ((-1, s), w)
           | Some new_cap \<Rightarrow>
               (case env_realloc env new_cap w of
                  (False, w') \<Rightarrow> ((-1, s), w')
                | (True, w') \<Rightarrow>
                    ((0, s\<lparr>chans := chans s @ replicate (new_cap - cap) None, pollfds_dirty := True\<rparr>), w')))"

definition first_free :: "chan_addr option list \<Rightarrow> nat option" where
  "first_free xs = find (\<lambda>i. xs ! i = None) [0..<length xs]"

definition alloc_channel_slot ::
    "('cb, 'a, 'w) server_env \<Rightarrow> ('cb, 'a) server \<Rightarrow> 'w \<Rightarrow> (nat option \<times> ('cb, 'a) server) \<times> 'w" where
  "alloc_channel_slot env s w =
     (case first_free (chans s) of
        Some i \<Rightarrow> ((Some i, s), w)
      | None \<Rightarrow>
          (let old_cap = length (chans s) in
           if old_cap > SIZE_MAX div 2 then ((None, s), w)
           else case ensure_channel_capacity env s (if old_cap = 0 then 4 else old_cap * 2) w of
                  ((rc, s1), w') \<Rightarrow> ((if rc \<noteq> 0 then None else Some old_cap, s1), w')))"

lemma alloc_channel_slot_code [code]:
  "alloc_channel_slot env s w =
     (case first_free (chans s) of
        Some i \<Rightarrow> ((Some i, s), w)
      | None \<Rightarrow>
          (let old_cap = length (chans s) in
           if 9223372036854775807 < int old_cap then ((None, s), w)
           else case ensure_channel_capacity env s (if old_cap = 0 then 4 else old_cap * 2) w of
                  ((rc, s1), w') \<Rightarrow> ((if rc \<noteq> 0 then None else Some old_cap, s1), w')))"
  by (simp only: alloc_channel_slot_def SIZE_MAX_half)

definition find_channel_index :: "('cb, 'a) server \<Rightarrow> chan_addr \<Rightarrow> nat option" where
  "find_channel_index s h = find (\<lambda>i. chans s ! i = Some h) [0..<length (chans s)]"

definition remove_channel :: "('cb, 'a) server \<Rightarrow> chan_addr \<Rightarrow> bool \<times> ('cb, 'a) server" where
  "remove_channel s h =
     (case find_channel_index s h of
        None \<Rightarrow> (False, s)
      | Some i \<Rightarrow> (True, s\<lparr>chans := (chans s)[i := None],
          chans_active := (if chans_active s > 0 then chans_active s - 1 else chans_active s)\<rparr>))"

section \<open>Descriptors to poll\<close>

definition clear_poll_cache :: "('cb, 'a) server \<Rightarrow> ('cb, 'a) server" where
  "clear_poll_cache s = s\<lparr>pollfds := [], pollfds_cap := 0, pollfds_dirty := False\<rparr>"

text \<open>The loop that fills the two arrays.\<close>

fun poll_entries ::
    "(chan_addr \<Rightarrow> ('cb, 'a) rtp_channel option) \<Rightarrow> chan_addr option list \<Rightarrow> (int \<times> chan_addr) list option" where
  "poll_entries hp [] = Some []"
| "poll_entries hp (None # hs) = poll_entries hp hs"
| "poll_entries hp (Some h # hs) =
     (case hp h of None \<Rightarrow> None | Some ch \<Rightarrow> map_option ((#) (ch_fd ch, h)) (poll_entries hp hs))"

text \<open>The two arrays are enlarged one after the other.\<close>

definition grow_poll_cache :: "('cb, 'a, 'w) server_env \<Rightarrow> ('cb, 'a) server \<Rightarrow> nat \<Rightarrow> 'w \<Rightarrow> bool \<times> 'w" where
  "grow_poll_cache env s need w =
     (if need > pollfds_cap s then
        (case env_realloc env need w of
           (False, w1) \<Rightarrow> (False, w1)
         | (True, w1) \<Rightarrow> env_realloc env need w1)
      else (True, w))"

definition refresh_poll_cache ::
    "('cb, 'a, 'w) server_env \<Rightarrow> ('cb, 'a) server \<Rightarrow> 'w \<Rightarrow> ((int \<times> ('cb, 'a) server) \<times> 'w) option" where
  "refresh_poll_cache env s w =
     (if \<not> pollfds_dirty s then Some ((0, s), w)
      else
        (let need = chans_active s in
         if need = 0 then Some ((0, s\<lparr>pollfds := [], pollfds_dirty := False\<rparr>), w)
         else
           (let (ok, w2) = grow_poll_cache env s need w;
                cap = (if need > pollfds_cap s then need else pollfds_cap s)
            in if \<not> ok then Some ((-1, s), w2)
               else
                 (case poll_entries (heap s) (chans s) of
                    None \<Rightarrow> None
                  | Some fds \<Rightarrow>
                      if length fds > cap then None
                      else Some ((0, s\<lparr>pollfds := fds, pollfds_cap := cap, pollfds_dirty := False\<rparr>), w2)))))"

text \<open>Everything that can be read from a channel; the number bounds the datagrams.\<close>

fun receive_for_channel ::
    "nat \<Rightarrow> ('cb, 'a, 'w) server_env \<Rightarrow> ('cb, 'a) rtp_channel \<Rightarrow> u64 \<Rightarrow> 'w \<Rightarrow> (('cb, 'a) io list \<times> 'w) option" where
  "receive_for_channel fuel env ch rtime w =
     (if ch_fd ch < 0 then None
      else
        (case env_recvfrom env (ch_fd ch) w of
           (None, w1) \<Rightarrow> Some ([], w1)
         | (Some (pkt, peer), w1) \<Rightarrow>
             (case fuel of
                0 \<Rightarrow> None
              | Suc n \<Rightarrow>
                  map_option (\<lambda>(ios, w2). (Io_deliver (pkt_in_cb ch) pkt peer rtime # ios, w2))
                    (receive_for_channel n env ch rtime w1))))"

declare receive_for_channel.simps [simp del]

fun receive_ready ::
    "nat \<Rightarrow> ('cb, 'a, 'w) server_env \<Rightarrow> ('cb, 'a) server \<Rightarrow> (int \<times> chan_addr) list \<Rightarrow> bool list \<Rightarrow> u64 \<Rightarrow> 'w \<Rightarrow>
     (('cb, 'a) io list \<times> 'w) option" where
  "receive_ready fuel env s ((fd, h) # fds) (rdy # ready) rtime w =
     (if \<not> rdy then receive_ready fuel env s fds ready rtime w
      else
        (case heap s h of
           None \<Rightarrow> None
         | Some ch \<Rightarrow>
             (case receive_for_channel fuel env ch rtime w of
                None \<Rightarrow> None
              | Some (ios, w1) \<Rightarrow>
                  map_option (\<lambda>(ios', w2). (ios @ ios', w2)) (receive_ready fuel env s fds ready rtime w1))))"
| "receive_ready fuel env s fds ready rtime w = Some ([], w)"

definition poll_inputs ::
    "nat \<Rightarrow> ('cb, 'a, 'w) server_env \<Rightarrow> ('cb, 'a) server \<Rightarrow> 'w \<Rightarrow> (('cb, 'a) server \<times> 'w) option" where
  "poll_inputs fuel env s w =
     (if pollfds s = [] then Some (s, w)
      else
        (case env_poll env (map fst (pollfds s)) w of (ready, w1) \<Rightarrow>
           if \<not> list_ex id ready then Some (s, w1)
           else
             (case env_now env w1 of (rtime, w2) \<Rightarrow>
                map_option (\<lambda>(ios, w3). (s\<lparr>io_log := io_log s @ ios\<rparr>, w3))
                  (receive_ready fuel env s (pollfds s) ready rtime w2))))"

section \<open>Outgoing packets\<close>

definition drain_channel :: "('cb, 'a) rtp_channel \<Rightarrow> (('cb, 'a) io list \<times> ('cb, 'a) rtp_channel) option" where
  "drain_channel ch =
     (case drain_queue (unat (capacity (out_q ch))) (try_pop 0) (out_q ch) of
        None \<Rightarrow> None
      | Some (items, q) \<Rightarrow>
          Some (concat (map (\<lambda>item. (if has_target ch then [Io_send (ch_fd ch) item (target_addr ch)] else []) @ [Io_free item]) items),
            ch\<lparr>out_q := q\<rparr>))"

fun drain_outputs :: "('cb, 'a) server \<Rightarrow> chan_addr option list \<Rightarrow> ('cb, 'a) server option" where
  "drain_outputs s [] = Some s"
| "drain_outputs s (None # hs) = drain_outputs s hs"
| "drain_outputs s (Some h # hs) =
     (case heap s h of
        None \<Rightarrow> None
      | Some ch \<Rightarrow>
          (case drain_channel ch of
             None \<Rightarrow> None
           | Some (ios, ch') \<Rightarrow> drain_outputs (s\<lparr>heap := (heap s)(h \<mapsto> ch'), io_log := io_log s @ ios\<rparr>) hs))"

section \<open>Commands\<close>

text \<open>
  One command: the status that its waiter gets, whether it stops the worker, and the channel that the command still refers to, which is
  given up when the command is freed. \<open>accepting\<close> is the flag of the server at this time.
\<close>

fun process_command ::
    "('cb, 'a, 'w) server_env \<Rightarrow> bool \<Rightarrow> ('cb, 'a) server \<Rightarrow> 'a server_cmd \<Rightarrow> 'w \<Rightarrow>
     ((int \<times> bool \<times> chan_addr option \<times> ('cb, 'a) server) \<times> 'w) option" where
  "process_command env accepting s (CMD_ADD_CHANNEL h) w =
     (case alloc_channel_slot env s w of
        ((Some slot, s1), w1) \<Rightarrow>
          if chans s1 ! slot \<noteq> None then None
          else Some ((0, False, None, s1\<lparr>chans := (chans s1)[slot := Some h], chans_active := chans_active s1 + 1,
            pollfds_dirty := True\<rparr>), w1)
      | ((None, s1), w1) \<Rightarrow> Some ((ENOMEM, False, Some h, s1), w1))"
| "process_command env accepting s (CMD_REMOVE_CHANNEL h waits) w =
     (case remove_channel s h of (removed, s1) \<Rightarrow>
        Some ((0, False, None, (if removed then s1\<lparr>pollfds_dirty := True\<rparr> else s1)), w))"
| "process_command env accepting s (CMD_SET_TARGET h addr) w =
     (case find_channel_index s h of
        None \<Rightarrow> Some ((ENOENT, False, None, s), w)
      | Some i \<Rightarrow>
          (case heap s h of
             None \<Rightarrow> None
           | Some ch \<Rightarrow>
               Some ((0, False, None, s\<lparr>heap := (heap s)(h \<mapsto> ch\<lparr>target_addr := addr, has_target := True\<rparr>)\<rparr>), w)))"
| "process_command env accepting s CMD_DROP_CHANNELS w =
     map_option (\<lambda>s1. ((0, False, None, clear_poll_cache s1), w)) (clear_channels accepting s)"
| "process_command env accepting s CMD_STOP_WORKER w =
     map_option (\<lambda>s1. ((0, True, None, clear_poll_cache s1), w)) (clear_channels accepting s)"

section \<open>The tick\<close>

text \<open>The loop that skips the ticks that were missed; a tick of length 0, which the constructor rules out, would not end.\<close>

function tick_loop :: "u64 \<Rightarrow> u64 \<Rightarrow> u64 \<Rightarrow> u64 option" where
  "tick_loop tick_ns now_ns next_tick_ns =
     (if next_tick_ns \<le> now_ns then
        if - 1 - next_tick_ns < tick_ns then Some now_ns
        else if tick_ns = 0 then None
        else tick_loop tick_ns now_ns (next_tick_ns + tick_ns)
      else Some next_tick_ns)"
  by pat_completeness auto
termination
proof (relation "measure (\<lambda>(tick, now, next). 2 ^ 64 - unat next)", simp)
  fix tick now nxt :: u64
  assume "\<not> - 1 - nxt < tick" "tick \<noteq> 0"
  then have t: "unat tick \<le> unat (- 1 - nxt)" "0 < unat tick" by (simp_all add: word_less_nat_alt unat_gt_0)
  have "unat nxt < 18446744073709551616" using unsigned_less [of nxt, where 'a = nat] by simp
  with t have "unat nxt + unat tick < 2 ^ 64" by (simp add: unat_complement_u64)
  then have "unat (nxt + tick) = unat nxt + unat tick" by (simp add: unat_word_ariths)
  with t \<open>unat nxt + unat tick < 2 ^ 64\<close> show "((tick, now, nxt + tick), tick, now, nxt) \<in> measure (\<lambda>(tick, now, next). 2 ^ 64 - unat next)"
    by simp
qed

declare tick_loop.simps [simp del]

definition next_tick :: "u64 \<Rightarrow> u64 \<Rightarrow> u64 \<Rightarrow> u64 option" where
  "next_tick tick_ns now_ns next_tick_ns =
     (if - 1 - next_tick_ns < tick_ns then Some now_ns
      else tick_loop tick_ns now_ns (next_tick_ns + tick_ns))"

definition PyRtpServer_tick_ns :: "u32 \<Rightarrow> u64 option" where
  "PyRtpServer_tick_ns tick_hz =
     (if tick_hz = 0 then None
      else (let t = 1000000000 div ucast tick_hz in Some (if t = 0 then 1 else t)))"

section \<open>One pass of the worker\<close>

text \<open>
  What the worker does behind \<open>process_commands\<close>, and how it waits afterwards: for a command, for a command or until a time, or
  not at all.
\<close>

datatype server_wait = Wait_forever | Wait_until u64 | No_wait

definition worker_pass ::
    "nat \<Rightarrow> ('cb, 'a, 'w) server_env \<Rightarrow> u64 \<Rightarrow> ('cb, 'a) server \<Rightarrow> u64 \<Rightarrow> 'w \<Rightarrow>
     ((server_wait \<times> u64 \<times> ('cb, 'a) server) \<times> 'w) option" where
  "worker_pass fuel env tick_ns s next_tick_ns w =
     (case refresh_poll_cache env s w of
        None \<Rightarrow> None
      | Some ((rc, s1), w1) \<Rightarrow>
          if pollfds s1 = [] then Some ((Wait_forever, 0, s1), w1)
          else if rc \<noteq> 0 then Some ((No_wait, next_tick_ns, s1), w1)
          else
            (case env_now env w1 of (now_ns, w2) \<Rightarrow>
               (let next = (if next_tick_ns = 0 then now_ns else next_tick_ns) in
                if now_ns < next then Some ((Wait_until next, next, s1), w2)
                else
                  (case poll_inputs fuel env s1 w2 of
                     None \<Rightarrow> None
                   | Some (s2, w3) \<Rightarrow>
                       (case drain_outputs s2 (chans s2) of
                          None \<Rightarrow> None
                        | Some s3 \<Rightarrow>
                            map_option (\<lambda>t. ((No_wait, t, s3), w3)) (next_tick tick_ns now_ns next))))))"

section \<open>Draining a queue\<close>

context fifo_queue
begin

lemma drain_all:
  "ok n q \<Longrightarrow> length (contents q) \<le> fuel \<Longrightarrow>
     \<exists>q'. drain_queue fuel pop q = Some (contents q, q') \<and> ok n q' \<and> contents q' = []"
proof (induction fuel arbitrary: q)
  case 0
  then have e: "contents q = []" by simp
  from pop_none [OF 0(1) e] e show ?case by (auto simp: drain_queue.simps)
next
  case (Suc k)
  show ?case
  proof (cases "contents q")
    case Nil
    from pop_none [OF Suc.prems(1) Nil] Nil show ?thesis by (auto simp: drain_queue.simps)
  next
    case (Cons v vs)
    from pop_some [OF Suc.prems(1) Cons] obtain q1 where
      p: "pop q = Some (Some v, q1)" "ok n q1" "contents q1 = vs" by blast
    from Suc.IH [OF p(2)] Suc.prems(2) Cons p show ?thesis by (auto simp: drain_queue.simps [of "Suc k"])
  qed
qed

end

lemma spmc_contents_length: "spmc_ok n q \<Longrightarrow> length (spmc_contents q) \<le> unat (capacity q)"
  by (simp add: spmc_ok_def spmc_contents_def)

lemma drain_spmc:
  assumes "spmc_ok n q"
  shows "\<exists>q'. drain_queue (unat (capacity q)) (try_pop k) q = Some (spmc_contents q, q') \<and> spmc_ok n q' \<and> spmc_contents q' = []"
  using spmc.drain_all [OF assms spmc_contents_length [OF assms]] by blast

section \<open>The registry\<close>

definition members :: "chan_addr option list \<Rightarrow> chan_addr list" where
  "members xs = map the (filter (\<lambda>x. x \<noteq> None) xs)"

lemma members_simps [simp]:
  "members [] = []" "members (None # xs) = members xs" "members (Some h # xs) = h # members xs"
  "members (xs @ ys) = members xs @ members ys" "members (replicate n None) = []"
  by (simp_all add: members_def)

lemma in_members: "h \<in> set (members xs) \<longleftrightarrow> Some h \<in> set xs"
  by (induction xs) (auto simp: members_def split: option.splits)

definition chan_ok :: "nat \<Rightarrow> ('cb, 'a) rtp_channel \<Rightarrow> bool" where
  "chan_ok n ch \<longleftrightarrow> 0 \<le> ch_fd ch \<and> spmc_ok n (out_q ch)"

text \<open>
  The worker's data: registered channels are alive, each is registered once, the number is right, and the
  descriptors to poll are those of the registered channels unless a refresh is due. The bound says how many more packets may be queued before the
  indices of a queue run out.
\<close>

definition server_ok :: "nat \<Rightarrow> ('cb, 'a) server \<Rightarrow> bool" where
  "server_ok n s \<longleftrightarrow> distinct (members (chans s)) \<and> chans_active s = length (members (chans s)) \<and>
     (\<forall>h ch. heap s h = Some ch \<longrightarrow> chan_ok n ch) \<and>
     (\<forall>h \<in> set (members (chans s)). heap s h \<noteq> None) \<and>
     length (pollfds s) \<le> pollfds_cap s \<and>
     (\<not> pollfds_dirty s \<longrightarrow> pollfds s = map (\<lambda>h. (ch_fd (the (heap s h)), h)) (members (chans s)))"

lemma server_okD:
  assumes "server_ok n s"
  shows "distinct (members (chans s))" "chans_active s = length (members (chans s))"
    "\<And>h ch. heap s h = Some ch \<Longrightarrow> chan_ok n ch" "\<And>h. h \<in> set (members (chans s)) \<Longrightarrow> heap s h \<noteq> None"
    "length (pollfds s) \<le> pollfds_cap s"
    "\<not> pollfds_dirty s \<Longrightarrow> pollfds s = map (\<lambda>h. (ch_fd (the (heap s h)), h)) (members (chans s))"
  using assms by (auto simp: server_ok_def)

subsection \<open>Outgoing packets\<close>

text \<open>What a channel's queue turns into when it is drained.\<close>

definition drained_io :: "('cb, 'a) rtp_channel \<Rightarrow> ('cb, 'a) io list" where
  "drained_io ch = concat (map (\<lambda>pkt. if has_target ch then [Io_send (ch_fd ch) pkt (target_addr ch), Io_free pkt] else [Io_free pkt])
     (spmc_contents (out_q ch)))"

lemma drain_channel_ok:
  assumes "chan_ok n ch"
  shows "\<exists>q. drain_channel ch = Some (drained_io ch, ch\<lparr>out_q := q\<rparr>) \<and> spmc_ok n q \<and> spmc_contents q = []"
proof -
  have io: "(\<lambda>item. (if has_target ch then [Io_send (ch_fd ch) item (target_addr ch)] else []) @ [Io_free item]) =
      (\<lambda>pkt. if has_target ch then [Io_send (ch_fd ch) pkt (target_addr ch), Io_free pkt] else [Io_free pkt])" by auto
  from drain_spmc [of n "out_q ch" 0] assms show ?thesis
    by (auto simp: chan_ok_def drain_channel_def drained_io_def io)
qed

definition emptied :: "nat \<Rightarrow> ('cb, 'a) rtp_channel option \<Rightarrow> ('cb, 'a) rtp_channel option \<Rightarrow> bool" where
  "emptied n c c' \<longleftrightarrow> (\<exists>ch q. c = Some ch \<and> c' = Some (ch\<lparr>out_q := q\<rparr>) \<and> spmc_ok n q \<and> spmc_contents q = [])"

lemma drain_outputs_ok:
  "(\<forall>h \<in> set (members hs). \<exists>ch. heap s h = Some ch \<and> chan_ok n ch) \<Longrightarrow> distinct (members hs) \<Longrightarrow>
   \<exists>hp. drain_outputs s hs = Some (s\<lparr>heap := hp, io_log := io_log s @ concat (map (\<lambda>h. drained_io (the (heap s h))) (members hs))\<rparr>) \<and>
     (\<forall>h. if h \<in> set (members hs) then emptied n (heap s h) (hp h) else hp h = heap s h)"
proof (induction s hs rule: drain_outputs.induct)
  case (1 s)
  show ?case by (intro exI [of _ "heap s"]) simp
next
  case (2 s hs)
  then show ?case by simp
next
  case (3 s h hs)
  from "3.prems" obtain ch where ch: "heap s h = Some ch" "chan_ok n ch" by auto
  from drain_channel_ok [OF ch(2)] obtain q where
    q: "drain_channel ch = Some (drained_io ch, ch\<lparr>out_q := q\<rparr>)" "spmc_ok n q" "spmc_contents q = []" by blast
  let ?s = "s\<lparr>heap := (heap s)(h \<mapsto> ch\<lparr>out_q := q\<rparr>), io_log := io_log s @ drained_io ch\<rparr>"
  have "\<forall>h' \<in> set (members hs). \<exists>c. heap ?s h' = Some c \<and> chan_ok n c"
    using "3.prems" by (auto simp: ch)
  moreover have d: "distinct (members hs)" "h \<notin> set (members hs)" using "3.prems"(2) by auto
  ultimately obtain hp where hp: "drain_outputs ?s hs = Some (?s\<lparr>heap := hp,
      io_log := io_log ?s @ concat (map (\<lambda>h. drained_io (the (heap ?s h))) (members hs))\<rparr>)"
    "\<And>h'. if h' \<in> set (members hs) then emptied n (heap ?s h') (hp h') else hp h' = heap ?s h'"
    using "3.IH" [OF ch(1) q(1)] by auto
  have same: "map (\<lambda>h. drained_io (the (heap ?s h))) (members hs) = map (\<lambda>h. drained_io (the (heap s h))) (members hs)"
    using d(2) by (intro map_cong) auto
  have eq: "drain_outputs s (Some h # hs) = drain_outputs ?s hs" using ch(1) q(1) by simp
  have "drain_outputs s (Some h # hs) = Some (s\<lparr>heap := hp,
      io_log := io_log s @ concat (map (\<lambda>h. drained_io (the (heap s h))) (members (Some h # hs)))\<rparr>)"
    unfolding eq hp(1) same by (simp add: ch(1))
  moreover have "if h' \<in> set (members (Some h # hs)) then emptied n (heap s h') (hp h') else hp h' = heap s h'" for h'
    using hp(2) [of h'] d(2) q(2,3) ch(1) by (cases "h' = h") (auto simp: emptied_def split: if_splits)
  ultimately show ?case by blast
qed

subsection \<open>Commands\<close>

lemma drain_server_ok:
  assumes "server_ok n s"
  shows "\<exists>s'. drain_outputs s (chans s) = Some s' \<and> server_ok n s' \<and> chans s' = chans s \<and>
    io_log s' = io_log s @ concat (map (\<lambda>h. drained_io (the (heap s h))) (members (chans s))) \<and>
    (\<forall>h. if h \<in> set (members (chans s)) then emptied n (heap s h) (heap s' h) else heap s' h = heap s h)"
proof -
  note k = server_okD [OF assms]
  have "\<forall>h \<in> set (members (chans s)). \<exists>ch. heap s h = Some ch \<and> chan_ok n ch" using k(3,4) by fastforce
  from drain_outputs_ok [OF this k(1)] obtain hp where
    d: "drain_outputs s (chans s) = Some (s\<lparr>heap := hp, io_log := io_log s @ concat (map (\<lambda>h. drained_io (the (heap s h))) (members (chans s)))\<rparr>)"
    "\<And>h. if h \<in> set (members (chans s)) then emptied n (heap s h) (hp h) else hp h = heap s h" by blast
  have fd: "map (\<lambda>h. (ch_fd (the (hp h)), h)) (members (chans s)) = map (\<lambda>h. (ch_fd (the (heap s h)), h)) (members (chans s))"
  proof (intro map_cong refl)
    fix h assume "h \<in> set (members (chans s))"
    then show "(ch_fd (the (hp h)), h) = (ch_fd (the (heap s h)), h)" using d(2) [of h] by (auto simp: emptied_def)
  qed
  have "chan_ok n ch" if "hp h = Some ch" for h ch
    using d(2) [of h] that k(3) [of h] by (auto simp: emptied_def chan_ok_def split: if_splits)
  moreover have "hp h \<noteq> None" if "h \<in> set (members (chans s))" for h
    using d(2) [of h] that by (auto simp: emptied_def)
  ultimately have ok: "server_ok n (s\<lparr>heap := hp, io_log := io_log s @ concat (map (\<lambda>h. drained_io (the (heap s h))) (members (chans s)))\<rparr>)"
    using k(1,2,5,6) by (simp add: server_ok_def fd)
  from d(2) have "\<forall>h. if h \<in> set (members (chans s)) then emptied n (heap s h) (hp h) else hp h = heap s h" by blast
  then show ?thesis unfolding d(1) using ok by simp
qed

text \<open>More room: empty slots at the end, and then a refresh of the poll cache is due.\<close>

definition more_slots :: "('cb, 'a) server \<Rightarrow> ('cb, 'a) server \<Rightarrow> bool" where
  "more_slots s s1 \<longleftrightarrow> (\<exists>k. s1 = s\<lparr>chans := chans s @ replicate k None, pollfds_dirty := pollfds_dirty s1\<rparr> \<and>
     (pollfds_dirty s \<longrightarrow> pollfds_dirty s1) \<and> (\<not> pollfds_dirty s1 \<longrightarrow> k = 0))"

lemma more_slots_refl: "more_slots s s"
  unfolding more_slots_def by (rule exI [of _ 0]) simp

lemma more_slotsD:
  "more_slots s s1 \<Longrightarrow> \<exists>k d. s1 = s\<lparr>chans := chans s @ replicate k None, pollfds_dirty := d\<rparr> \<and>
     (pollfds_dirty s \<longrightarrow> d) \<and> (\<not> d \<longrightarrow> k = 0)"
  unfolding more_slots_def by blast

lemma grow_slots:
  assumes "ensure_channel_capacity env s need w = ((rc, s1), w1)"
  shows "more_slots s s1 \<and> (rc = 0 \<longrightarrow> need \<le> length (chans s1))"
proof (cases "need \<le> length (chans s)")
  case True
  then show ?thesis using assms more_slots_refl by (auto simp: ensure_channel_capacity_def Let_def)
next
  case False
  show ?thesis
  proof (cases "grow_cap (if length (chans s) = 0 then 4 else length (chans s)) need")
    case None
    then show ?thesis using False assms more_slots_refl by (auto simp: ensure_channel_capacity_def Let_def)
  next
    case (Some c)
    from grow_cap_ge [OF Some] have c: "need \<le> c" "length (chans s) \<le> c" by (auto split: if_splits)
    obtain ok w' where r: "env_realloc env c w = (ok, w')" by fastforce
    show ?thesis
    proof (cases ok)
      case True
      then have "s1 = s\<lparr>chans := chans s @ replicate (c - length (chans s)) None, pollfds_dirty := True\<rparr>"
        using False assms Some r by (auto simp: ensure_channel_capacity_def Let_def)
      then show ?thesis using c unfolding more_slots_def by auto
    next
      case no: False
      then have "s1 = s" "rc = - 1" using False assms Some r by (auto simp: ensure_channel_capacity_def Let_def)
      then show ?thesis using more_slots_refl by auto
    qed
  qed
qed

lemma srv_first_free_Some: "first_free xs = Some i \<Longrightarrow> i < length xs \<and> xs ! i = None"
  by (auto simp: first_free_def find_Some_iff)

lemma alloc_slot_cases:
  assumes "alloc_channel_slot env s w = ((slot, s1), w1)"
  shows "more_slots s s1 \<and> (\<forall>i. slot = Some i \<longrightarrow> i < length (chans s1) \<and> chans s1 ! i = None)"
proof (cases "first_free (chans s)")
  case (Some i)
  then have "s1 = s" "slot = Some i" using assms by (auto simp: alloc_channel_slot_def)
  then show ?thesis using srv_first_free_Some [OF Some] more_slots_refl by auto
next
  case None
  let ?n = "length (chans s)"
  show ?thesis
  proof (cases "?n > SIZE_MAX div 2")
    case True
    then show ?thesis using None assms more_slots_refl by (auto simp: alloc_channel_slot_def Let_def)
  next
    case False
    obtain rc s2 w2 where e: "ensure_channel_capacity env s (if ?n = 0 then 4 else ?n * 2) w = ((rc, s2), w2)" by (metis prod.exhaust)
    have r: "s1 = s2" "slot = (if rc \<noteq> 0 then None else Some ?n)"
      using False None assms e by (auto simp: alloc_channel_slot_def Let_def)
    note g = grow_slots [OF e]
    from more_slotsD [OF conjunct1 [OF g]] obtain k d
      where k: "s2 = s\<lparr>chans := chans s @ replicate k None, pollfds_dirty := d\<rparr>" by blast
    have "i < length (chans s2) \<and> chans s2 ! i = None" if "slot = Some i" for i
    proof -
      have "rc = 0" "i = ?n" using that r(2) by (auto split: if_splits)
      moreover have "length (chans s2) = ?n + k" by (simp add: k)
      ultimately have "(if ?n = 0 then 4 else ?n * 2) \<le> ?n + k" using conjunct2 [OF g] by (simp only: simp_thms)
      then have "0 < k" by (intro gr0I notI) (simp split: if_splits)
      then show ?thesis using \<open>i = ?n\<close> by (simp add: k nth_append)
    qed
    then show ?thesis using g by (simp add: r(1))
  qed
qed

lemma members_update:
  assumes "i < length xs" "xs ! i = None"
  shows "mset (members (xs[i := Some h])) = add_mset h (mset (members xs))"
proof -
  have "xs = take i xs @ None # drop (Suc i) xs" using assms by (metis id_take_nth_drop)
  moreover have "xs[i := Some h] = take i xs @ Some h # drop (Suc i) xs" using assms(1) by (simp add: upd_conv_take_nth_drop)
  ultimately show ?thesis by (metis (no_types, lifting) members_simps(2,3,4) mset_append mset.simps(2) union_mset_add_mset_right)
qed

lemma members_remove:
  assumes "i < length xs" "xs ! i = Some h"
  shows "mset (members xs) = add_mset h (mset (members (xs[i := None])))"
proof -
  have "xs = take i xs @ Some h # drop (Suc i) xs" using assms by (metis id_take_nth_drop)
  moreover have "xs[i := None] = take i xs @ None # drop (Suc i) xs" using assms(1) by (simp add: upd_conv_take_nth_drop)
  ultimately show ?thesis by (metis (no_types, lifting) members_simps(2,3,4) mset_append mset.simps(2) union_mset_add_mset_right)
qed

lemma distinct_mset_add: "mset xs = add_mset h (mset ys) \<Longrightarrow> distinct xs \<longleftrightarrow> h \<notin> set ys \<and> distinct ys"
  by (metis distinct.simps(2) mset.simps(2) mset_eq_imp_distinct_iff)

lemma srv_more_slots_ok:
  assumes "server_ok n s" "more_slots s s1"
  shows "server_ok n s1"
proof -
  from assms(2) obtain k d where s1: "s1 = s\<lparr>chans := chans s @ replicate k None, pollfds_dirty := d\<rparr>"
    and d: "pollfds_dirty s \<longrightarrow> d" "\<not> d \<longrightarrow> k = 0" using more_slotsD by blast
  from assms(1) d show ?thesis by (auto simp: s1 server_ok_def)
qed

lemma add_member_ok:
  assumes "server_ok n s" "i < length (chans s)" "chans s ! i = None" "h \<notin> set (members (chans s))" "heap s h \<noteq> None"
  shows "server_ok n (s\<lparr>chans := (chans s)[i := Some h], chans_active := chans_active s + 1, pollfds_dirty := True\<rparr>)"
proof -
  note m = members_update [OF assms(2,3), of h]
  then have "set (members ((chans s)[i := Some h])) = insert h (set (members (chans s)))"
    "length (members ((chans s)[i := Some h])) = Suc (length (members (chans s)))"
    using mset_eq_setD size_mset by (metis list.set(2) mset.simps(2), metis size_mset size_add_mset)
  then show ?thesis using assms distinct_mset_add [OF m] by (auto simp: server_ok_def)
qed

lemma srv_find_channel_Some: "find_channel_index s h = Some i \<Longrightarrow> i < length (chans s) \<and> chans s ! i = Some h"
  by (auto simp: find_channel_index_def find_Some_iff)

lemma srv_find_channel_None: "find_channel_index s h = None \<longleftrightarrow> h \<notin> set (members (chans s))"
proof -
  have "find_channel_index s h = None \<longleftrightarrow> (\<forall>i < length (chans s). chans s ! i \<noteq> Some h)"
    by (auto simp: find_channel_index_def find_None_iff)
  then show ?thesis unfolding in_members by (metis in_set_conv_nth)
qed

lemma remove_member_ok:
  assumes "server_ok n s" "remove_channel s h = (removed, s1)"
  shows "removed \<longleftrightarrow> h \<in> set (members (chans s))" "heap s1 = heap s" "io_log s1 = io_log s"
    "\<not> removed \<Longrightarrow> s1 = s"
    "removed \<Longrightarrow> mset (members (chans s)) = add_mset h (mset (members (chans s1)))"
    "server_ok n (if removed then s1\<lparr>pollfds_dirty := True\<rparr> else s1)"
proof -
  have "(removed \<longleftrightarrow> h \<in> set (members (chans s))) \<and> heap s1 = heap s \<and> io_log s1 = io_log s \<and> (\<not> removed \<longrightarrow> s1 = s) \<and>
    (removed \<longrightarrow> mset (members (chans s)) = add_mset h (mset (members (chans s1)))) \<and>
    server_ok n (if removed then s1\<lparr>pollfds_dirty := True\<rparr> else s1)"
  proof (cases "find_channel_index s h")
    case None
    then have "removed = False" "s1 = s" using assms(2) by (auto simp: remove_channel_def)
    then show ?thesis using assms(1) None srv_find_channel_None [of s h] by simp
  next
    case (Some i)
    note m = members_remove [OF conjunct1 [OF srv_find_channel_Some [OF Some]] conjunct2 [OF srv_find_channel_Some [OF Some]]]
    have len: "length (members (chans s)) = Suc (length (members ((chans s)[i := None])))"
      using m by (metis size_mset size_add_mset)
    have st: "set (members (chans s)) = insert h (set (members ((chans s)[i := None])))"
      using m by (metis list.set(2) mset.simps(2) mset_eq_setD)
    have s1: "removed" "s1 = s\<lparr>chans := (chans s)[i := None], chans_active := length (members ((chans s)[i := None]))\<rparr>"
      using assms Some len by (auto simp: remove_channel_def server_ok_def)
    have "server_ok n (s1\<lparr>pollfds_dirty := True\<rparr>)"
      using assms(1) distinct_mset_add [OF m] st by (auto simp: s1 server_ok_def)
    then show ?thesis using s1 m st by auto
  qed
  then show "removed \<longleftrightarrow> h \<in> set (members (chans s))" "heap s1 = heap s" "io_log s1 = io_log s"
    "\<not> removed \<Longrightarrow> s1 = s"
    "removed \<Longrightarrow> mset (members (chans s)) = add_mset h (mset (members (chans s1)))"
    "server_ok n (if removed then s1\<lparr>pollfds_dirty := True\<rparr> else s1)" by auto
qed

subsection \<open>References\<close>

text \<open>The references to a channel that the worker holds through the registry.\<close>

lemma spmc_freed: "spmc_ok n q \<Longrightarrow> free_send_queue q = Some (spmc_contents q)"
  using drain_spmc [of n q 0] by (auto simp: free_send_queue_def)

lemma cleanup_ok:
  "chan_ok n ch \<Longrightarrow> rtp_channel_cleanup ch =
     Some (Io_close (ch_fd ch) # map Io_free (spmc_contents (out_q ch)) @ [Io_decref (pkt_in_cb ch)])"
  using spmc_freed [of n "out_q ch"] by (simp add: chan_ok_def rtp_channel_cleanup_def)

text \<open>Giving up a reference: either the count goes down by one, or the object is cleaned up and gone.\<close>

lemma unref_ok:
  assumes "heap s h = Some ch" "chan_ok n ch" "0 < ob_refcnt ch" "ob_refcnt ch = 1 \<Longrightarrow> ch_closed ch \<or> \<not> accepting"
  shows "rtp_channel_state_unref accepting s h =
    Some (if ob_refcnt ch = 1
      then s\<lparr>heap := (heap s)(h := None), io_log := io_log s @ Io_close (ch_fd ch) # map Io_free (spmc_contents (out_q ch)) @ [Io_decref (pkt_in_cb ch)]\<rparr>
      else s\<lparr>heap := (heap s)(h \<mapsto> ch\<lparr>ob_refcnt := ob_refcnt ch - 1\<rparr>)\<rparr>)"
proof (cases "ob_refcnt ch = 1")
  case True
  then show ?thesis using assms cleanup_ok [OF assms(2)] by (auto simp: rtp_channel_state_unref_def)
next
  case False
  then have "1 < ob_refcnt ch" using assms(3) by simp
  then show ?thesis using assms(1) by (simp add: rtp_channel_state_unref_def)
qed

subsection \<open>A pass of the worker\<close>

lemma poll_entries_ok:
  "(\<forall>h \<in> set (members hs). hp h \<noteq> None) \<Longrightarrow> poll_entries hp hs = Some (map (\<lambda>h. (ch_fd (the (hp h)), h)) (members hs))"
  by (induction hp hs rule: poll_entries.induct) auto

lemma refresh_ok:
  assumes "server_ok n s"
  shows "\<exists>rc s1 w1. refresh_poll_cache env s w = Some ((rc, s1), w1) \<and> server_ok n s1 \<and>
    chans s1 = chans s \<and> heap s1 = heap s \<and> io_log s1 = io_log s \<and> (rc = 0 \<longrightarrow> \<not> pollfds_dirty s1)"
proof (cases "pollfds_dirty s \<and> chans_active s \<noteq> 0")
  case False
  then show ?thesis using assms by (auto simp: refresh_poll_cache_def server_ok_def)
next
  case True
  note k = server_okD [OF assms]
  obtain ok w2 where r: "grow_poll_cache env s (chans_active s) w = (ok, w2)" by fastforce
  have p: "poll_entries (heap s) (chans s) = Some (map (\<lambda>h. (ch_fd (the (heap s h)), h)) (members (chans s)))"
    using k(4) by (intro poll_entries_ok) auto
  let ?cap = "if chans_active s > pollfds_cap s then chans_active s else pollfds_cap s"
  let ?s = "s\<lparr>pollfds := map (\<lambda>h. (ch_fd (the (heap s h)), h)) (members (chans s)), pollfds_cap := ?cap, pollfds_dirty := False\<rparr>"
  have "refresh_poll_cache env s w = Some (if \<not> ok then ((-1, s), w2) else ((0, ?s), w2))"
    using True r p k(2) by (simp add: refresh_poll_cache_def Let_def)
  moreover have "server_ok n ?s" using assms k(2) by (auto simp: server_ok_def)
  ultimately show ?thesis using assms by (cases ok) auto
qed

text \<open>The peers do not send faster than the worker reads: after that many datagrams a descriptor has nothing left.\<close>

fun recv_ends :: "nat \<Rightarrow> ('cb, 'a, 'w) server_env \<Rightarrow> int \<Rightarrow> 'w \<Rightarrow> bool" where
  "recv_ends n env fd w =
     (case env_recvfrom env fd w of
        (None, w1) \<Rightarrow> True
      | (Some pkt, w1) \<Rightarrow> (case n of 0 \<Rightarrow> False | Suc m \<Rightarrow> recv_ends m env fd w1))"

declare recv_ends.simps [simp del]

lemma receive_ok:
  "0 \<le> ch_fd ch \<Longrightarrow> recv_ends fuel env (ch_fd ch) w \<Longrightarrow> \<exists>ios w1. receive_for_channel fuel env ch rtime w = Some (ios, w1)"
proof (induction fuel arbitrary: w)
  case 0
  then show ?case
    by (auto simp: receive_for_channel.simps recv_ends.simps split: prod.splits option.splits)
next
  case (Suc m)
  obtain r w1 where r: "env_recvfrom env (ch_fd ch) w = (r, w1)" by fastforce
  show ?case
  proof (cases r)
    case None
    then show ?thesis using Suc.prems r by (simp add: receive_for_channel.simps)
  next
    case (Some pkt)
    then have "recv_ends m env (ch_fd ch) w1" using Suc.prems(2) r by (simp add: recv_ends.simps [of "Suc m"])
    from Suc.IH [OF Suc.prems(1) this] Some r Suc.prems(1) show ?thesis
      by (cases pkt) (auto simp: receive_for_channel.simps [of "Suc m"])
  qed
qed

lemma receive_ready_ok:
  "(\<forall>(fd, h) \<in> set fds. \<exists>ch. heap s h = Some ch \<and> 0 \<le> ch_fd ch) \<Longrightarrow> (\<forall>fd w. recv_ends fuel env fd w) \<Longrightarrow>
     \<exists>ios w1. receive_ready fuel env s fds ready rtime w = Some (ios, w1)"
proof (induction fds arbitrary: ready w)
  case Nil
  then show ?case by simp
next
  case (Cons p fds)
  obtain fd h where p: "p = (fd, h)" by fastforce
  have IH: "\<exists>ios w1. receive_ready fuel env s fds ready' rtime w' = Some (ios, w1)" for ready' w'
    using Cons.IH Cons.prems by simp
  have alive: "\<exists>ch. heap s h = Some ch \<and> 0 \<le> ch_fd ch" using Cons.prems(1) p by simp
  note ends = Cons.prems(2)
  show ?case
  proof (cases ready)
    case Nil
    then show ?thesis by simp
  next
    case (Cons rdy ready')
    obtain ch where ch: "heap s h = Some ch" "0 \<le> ch_fd ch" using alive by blast
    have "recv_ends fuel env (ch_fd ch) w" using ends by blast
    from receive_ok [OF ch(2) this] obtain ios w1 where
      r: "receive_for_channel fuel env ch rtime w = Some (ios, w1)" by blast
    from IH [of ready' w1] obtain ios2 w2 where "receive_ready fuel env s fds ready' rtime w1 = Some (ios2, w2)" by blast
    then show ?thesis using IH [of ready' w] Cons p ch(1) r by simp
  qed
qed

lemma poll_inputs_ok:
  assumes "server_ok n s" "\<not> pollfds_dirty s" "\<forall>fd w. recv_ends fuel env fd w"
  shows "\<exists>ios w1. poll_inputs fuel env s w = Some (s\<lparr>io_log := io_log s @ ios\<rparr>, w1)"
proof -
  note k = server_okD [OF assms(1)]
  have a: "\<forall>(fd, h) \<in> set (pollfds s). \<exists>ch. heap s h = Some ch \<and> 0 \<le> ch_fd ch"
    using k(3,4) k(6) [OF assms(2)] by (fastforce simp: chan_ok_def)
  obtain ready w1 where p: "env_poll env (map fst (pollfds s)) w = (ready, w1)" by fastforce
  obtain rtime w2 where t: "env_now env w1 = (rtime, w2)" by fastforce
  from receive_ready_ok [OF a assms(3)] obtain ios w3 where
    r: "receive_ready fuel env s (pollfds s) ready rtime w2 = Some (ios, w3)" by blast
  show ?thesis
  proof (cases "pollfds s = [] \<or> \<not> list_ex id ready")
    case True
    then have "\<exists>w1. poll_inputs fuel env s w = Some (s, w1)" using p by (auto simp: poll_inputs_def)
    then show ?thesis by (intro exI [of _ "[]"]) simp
  next
    case False
    then show ?thesis using p t r by (auto simp: poll_inputs_def)
  qed
qed

lemma tick_no_wrap:
  fixes x t :: u64
  assumes "\<not> - 1 - x < t"
  shows "unat (x + t) = unat x + unat t"
proof -
  have "unat t \<le> 18446744073709551615 - unat x" using assms by (simp add: word_less_nat_alt unat_complement_u64)
  then show ?thesis using unsigned_less [of x, where 'a = nat] by (simp add: unat_word_ariths)
qed

lemma tick_loop_total: "0 < tick \<Longrightarrow> \<exists>r. tick_loop tick now x = Some r"
  by (induction tick now x rule: tick_loop.induct) (subst tick_loop.simps, auto)

lemma tick_loop_ok:
  "0 < tick \<Longrightarrow> unat now + unat tick < 18446744073709551616 \<Longrightarrow> unat x \<le> unat now + unat tick \<Longrightarrow>
     \<exists>r. tick_loop tick now x = Some r \<and> now < r \<and> unat r \<le> unat now + unat tick \<and> unat x \<le> unat r \<and>
       unat tick dvd unat r - unat x"
proof (induction tick now x rule: tick_loop.induct)
  case (1 tick now x)
  show ?case
  proof (cases "x \<le> now")
    case False
    then show ?thesis using "1.prems" by (subst tick_loop.simps) auto
  next
    case True
    then have "unat x + unat tick < 18446744073709551616" using "1.prems"(2) by (simp add: word_le_nat_alt)
    then have nw: "\<not> - 1 - x < tick" by (simp add: word_less_nat_alt unat_complement_u64)
    have "tick \<noteq> 0" using "1.prems"(1) by auto
    note add = tick_no_wrap [OF nw]
    have "unat (x + tick) \<le> unat now + unat tick" using True add by (simp add: word_le_nat_alt)
    from "1.IH" [OF True nw \<open>tick \<noteq> 0\<close> "1.prems"(1,2) this] obtain r where
      r: "tick_loop tick now (x + tick) = Some r" "now < r" "unat r \<le> unat now + unat tick" "unat (x + tick) \<le> unat r"
      "unat tick dvd unat r - unat (x + tick)" by blast
    have "unat r - unat x = (unat r - unat (x + tick)) + unat tick" using r(4) add by simp
    then have "unat tick dvd unat r - unat x" using r(5) by simp
    moreover have "tick_loop tick now x = Some r" using True nw \<open>tick \<noteq> 0\<close> r(1) by (subst tick_loop.simps) simp
    ultimately show ?thesis using r add by auto
  qed
qed

lemma next_tick_total: "0 < tick \<Longrightarrow> \<exists>r. next_tick tick now x = Some r"
  using tick_loop_total by (simp add: next_tick_def)

lemma srv_worker_pass_ok:
  assumes "server_ok n s" "0 < tick" "\<forall>fd w. recv_ends fuel env fd w"
  shows "\<exists>wait t s' w'. worker_pass fuel env tick s nt w = Some ((wait, t, s'), w') \<and> server_ok n s' \<and> chans s' = chans s \<and>
    (\<forall>h. heap s' h = heap s h \<or> emptied n (heap s h) (heap s' h))"
proof -
  from refresh_ok [OF assms(1), of env w] obtain rc s1 w1 where r: "refresh_poll_cache env s w = Some ((rc, s1), w1)"
    "server_ok n s1" "chans s1 = chans s" "heap s1 = heap s" "rc = 0 \<longrightarrow> \<not> pollfds_dirty s1" by blast
  obtain now w2 where t: "env_now env w1 = (now, w2)" by fastforce
  let ?next = "if nt = 0 then now else nt"
  show ?thesis
  proof (cases "pollfds s1 = [] \<or> rc \<noteq> 0 \<or> now < ?next")
    case True
    then show ?thesis using r t by (auto simp: worker_pass_def Let_def)
  next
    case False
    from poll_inputs_ok [OF r(2) _ assms(3)] False r(5) obtain ios w3 where
      p: "poll_inputs fuel env s1 w2 = Some (s1\<lparr>io_log := io_log s1 @ ios\<rparr>, w3)" by blast
    let ?s2 = "s1\<lparr>io_log := io_log s1 @ ios\<rparr>"
    have "server_ok n ?s2" using r(2) by (simp add: server_ok_def)
    from drain_server_ok [OF this] obtain s3 where d: "drain_outputs ?s2 (chans ?s2) = Some s3" "server_ok n s3"
      "chans s3 = chans ?s2" "\<And>h. if h \<in> set (members (chans ?s2)) then emptied n (heap ?s2 h) (heap s3 h) else heap s3 h = heap ?s2 h"
      by blast
    from next_tick_total [OF assms(2)] obtain v where "next_tick tick now ?next = Some v" by blast
    then have "worker_pass fuel env tick s nt w = Some ((No_wait, v, s3), w3)"
      using False r(1) t p d(1) by (simp add: worker_pass_def Let_def del: drain_outputs.simps cong: if_cong)
    moreover have "heap s3 h = heap s h \<or> emptied n (heap s h) (heap s3 h)" for h
      using d(4) [of h] r(4) by (auto split: if_splits)
    ultimately show ?thesis using d(2,3) r(3) by auto
  qed
qed

section \<open>Properties\<close>

text \<open>A server for examples: one channel, with a target and two packets in its queue of two.\<close>

definition sample_channel :: "(nat, nat) rtp_channel" where
  "sample_channel = \<lparr>ob_refcnt = 2, ch_closed = False, py_has_target = True, ch_fd = 5, has_target = True, target_addr = 9,
     pkt_in_cb = 7, out_q = \<lparr>capacity = 2, q_mask = 1, writeIdx = 2, readIdxCache = 0, readIdx = 0, writeIdxCache = 0,
       slots = [[1], [2, 3]]\<rparr>, local_addr = Some 3\<rparr>"

definition sample_server :: "(nat, nat) server" where
  "sample_server = \<lparr>chans = [None, Some 40, None, None], chans_active = 1, pollfds = [], pollfds_cap = 0, pollfds_dirty = True,
     heap = [40 \<mapsto> sample_channel], io_log = []\<rparr>"

definition sample_env :: "(nat, nat, unit) server_env" where
  "sample_env = \<lparr>env_realloc = (\<lambda>n w. (True, w)), env_poll = (\<lambda>fds w. (map (\<lambda>fd. True) fds, w)),
     env_recvfrom = (\<lambda>fd w. (None, w)), env_now = (\<lambda>w. (50, w))\<rparr>"

lemma sample_server_ok: "server_ok 8 sample_server"
proof -
  have "\<exists>k < 64. (2 :: u64) = 2 ^ k" by (rule exI [of _ 1]) simp
  then show ?thesis
    by (auto simp: server_ok_def sample_server_def sample_channel_def chan_ok_def spmc_ok_def shape_ok_def)
qed

text \<open>
  C26. A pass of the worker is safe and ends: as long as the registered channels are alive and each socket runs out of datagrams within the bound that
  is given, whenever it is read, the pass touches no freed channel, runs into no assertion and ends with the registry and the poll cache in order; it
  changes nothing of a channel but to empty its queue.
\<close>

theorem server_pass_safe:
  assumes "server_ok n s" and "0 < tick" and "\<forall>fd w. recv_ends fuel env fd w"
  shows "\<exists>wait t s' w'. worker_pass fuel env tick s nt w = Some ((wait, t, s'), w') \<and> server_ok n s' \<and> chans s' = chans s \<and>
    (\<forall>h. heap s' h = heap s h \<or> emptied n (heap s h) (heap s' h))"
  using srv_worker_pass_ok [OF assms] .

theorem server_pass_safe_witness:
  "\<exists>wait t s' w'. worker_pass 0 sample_env 5 sample_server 0 () = Some ((wait, t, s'), w') \<and> server_ok 8 s'"
proof -
  have "\<forall>fd w. recv_ends 0 sample_env fd w" by (simp add: recv_ends.simps sample_env_def)
  from server_pass_safe [OF sample_server_ok _ this, of 5 0 "()"] show ?thesis by auto
qed

text \<open>
  C27. The output queues are drained in order: for each registered channel, every queued packet is taken
  once, in the order in which it was queued, sent to the channel's target through its own descriptor, or dropped when there is no
  target, and then freed. Afterwards the queues are empty and the registry is unchanged.
\<close>

theorem server_drain_fifo:
  assumes "server_ok n s"
  shows "\<exists>s'. drain_outputs s (chans s) = Some s' \<and> chans s' = chans s \<and>
    io_log s' = io_log s @ concat (map (\<lambda>h. drained_io (the (heap s h))) (members (chans s))) \<and>
    (\<forall>h \<in> set (members (chans s)). spmc_contents (out_q (the (heap s' h))) = [])"
proof -
  from drain_server_ok [OF assms] obtain s' where d: "drain_outputs s (chans s) = Some s'" "chans s' = chans s"
    "io_log s' = io_log s @ concat (map (\<lambda>h. drained_io (the (heap s h))) (members (chans s)))"
    "\<And>h. if h \<in> set (members (chans s)) then emptied n (heap s h) (heap s' h) else heap s' h = heap s h" by blast
  have "spmc_contents (out_q (the (heap s' h))) = []" if "h \<in> set (members (chans s))" for h
    using d(4) [of h] that by (auto simp: emptied_def)
  then show ?thesis using d(1,2,3) by auto
qed

theorem server_drain_fifo_witness:
  "\<exists>s'. drain_outputs sample_server [None, Some 40, None, None] = Some s' \<and>
     io_log s' = [Io_send 5 [1] 9, Io_free [1], Io_send 5 [2, 3] 9, Io_free [2, 3]]"
proof -
  from server_drain_fifo [OF sample_server_ok] obtain s' where d: "drain_outputs sample_server (chans sample_server) = Some s'"
    "io_log s' = io_log sample_server @ concat (map (\<lambda>h. drained_io (the (heap sample_server h))) (members (chans sample_server)))"
    by blast
  have "chans sample_server = [None, Some 40, None, None]" by (simp add: sample_server_def)
  moreover have "io_log s' = [Io_send 5 [1] 9, Io_free [1], Io_send 5 [2, 3] 9, Io_free [2, 3]]"
    unfolding d(2) by (simp add: sample_server_def sample_channel_def drained_io_def spmc_contents_def upt_rec)
  ultimately show ?thesis using d(1) by metis
qed

text \<open>
  C28. The tick keeps its phase: whatever the delay, as long as the clock is more than a period below 2^64 nanoseconds, the next tick lies after the
  present, at most one period later, and a whole number of periods after the tick that was due.
\<close>

theorem server_tick_phase:
  assumes "0 < tick" and "due \<le> now" and "unat now + unat tick < 18446744073709551616"
  shows "\<exists>r. next_tick tick now due = Some r \<and> now < r \<and> unat r \<le> unat now + unat tick \<and>
    unat tick dvd unat r - unat due"
proof -
  have "unat due + unat tick < 18446744073709551616" using assms(2,3) by (simp add: word_le_nat_alt)
  then have nw: "\<not> - 1 - due < tick" by (simp add: word_less_nat_alt unat_complement_u64)
  note add = tick_no_wrap [OF nw]
  have "unat (due + tick) \<le> unat now + unat tick" using assms(2) add by (simp add: word_le_nat_alt)
  from tick_loop_ok [OF assms(1,3) this] obtain r where r: "tick_loop tick now (due + tick) = Some r" "now < r"
    "unat r \<le> unat now + unat tick" "unat (due + tick) \<le> unat r" "unat tick dvd unat r - unat (due + tick)" by blast
  have "unat r - unat due = (unat r - unat (due + tick)) + unat tick" using r(4) add by simp
  then have "unat tick dvd unat r - unat due" using r(5) by simp
  then show ?thesis using r nw by (auto simp: next_tick_def)
qed

theorem server_tick_phase_witness: "\<exists>r. next_tick 5 23 10 = Some r \<and> 23 < r \<and> unat r \<le> 28 \<and> 5 dvd unat r - 10"
  using server_tick_phase [of 5 10 23] by simp

end
