(* ===== verification/Rtp_Server_Api.thy ===== *)
theory Rtp_Server_Api
  imports Rtp_Server
begin

text \<open>
  The Python side of \<^verbatim>\<open>python/RtpServer_mod.c\<close>: addresses and sockets, the methods of the server and of its channels, and
  how they run together with the worker.

  A method runs with the interpreter lock held, so it is atomic except where it blocks: it is one definition up to
  \<open>rtp_sync_waiter_wait\<close> or \<open>pthread_join\<close> and another one from there on. What the library calls of a method return is an argument; a
  \<open>pthread\<close> mutex that was initialised can be locked. \<open>None\<close> is a failing assertion or an access to a freed channel.
\<close>

section \<open>Addresses and sockets\<close>

definition AF_UNSPEC :: int where
  "AF_UNSPEC = 0"

definition AF_INET :: int where
  "AF_INET = 2"

definition AF_INET6 :: int where
  "AF_INET6 = 10"

datatype srv_err =
    RuntimeError string
  | RuntimeStatus string int
  | MemoryError
  | TypeError string
  | ValueError string
  | OverflowError
  | UnicodeError
  | OSError
  | GaiError int
  | RtpQueueFullError
  | ArgumentError

text \<open>The Python value for a family: \<open>None\<close>, an integer, a string (if it has a form in UTF-8), something else.\<close>

datatype py_arg = Arg_none | Arg_int int | Arg_str "string option" | Arg_other

text \<open>What a C function sees of a string: the part before the first null character.\<close>

definition c_string :: "string \<Rightarrow> string" where
  "c_string s = takeWhile (\<lambda>c. c \<noteq> CHR 0x00) s"

definition parse_bind_family :: "py_arg \<Rightarrow> srv_err + int" where
  "parse_bind_family obj =
     (case obj of
        Arg_none \<Rightarrow> Inr AF_UNSPEC
      | Arg_int value \<Rightarrow>
          if \<not> (- (2 ^ 63) \<le> value \<and> value < 2 ^ 63) then Inl OverflowError
          else if value = 0 \<or> value = AF_UNSPEC then Inr AF_UNSPEC
          else if value = 4 \<or> value = AF_INET then Inr AF_INET
          else if value = 6 \<or> value = AF_INET6 then Inr AF_INET6
          else Inl (ValueError ''bind_family must be one of: 0, 4, 6, AF_UNSPEC, AF_INET, AF_INET6'')
      | Arg_str None \<Rightarrow> Inl UnicodeError
      | Arg_str (Some name) \<Rightarrow>
          if c_string name \<in> {''auto'', ''unspec'', ''any''} then Inr AF_UNSPEC
          else if c_string name \<in> {''ipv4'', ''inet'', ''af_inet''} then Inr AF_INET
          else if c_string name \<in> {''ipv6'', ''inet6'', ''af_inet6''} then Inr AF_INET6
          else Inl (ValueError ''bind_family string must be one of: auto, ipv4, ipv6'')
      | Arg_other \<Rightarrow> Inl (TypeError ''bind_family must be an int, str, or None''))"

text \<open>A socket address: host and port of version 4 and 6, in host byte order, or another family.\<close>

datatype sockaddr = Sockaddr_in u32 u16 | Sockaddr_in6 "u8 list" u16 | Sockaddr_other int

fun sa_family :: "sockaddr \<Rightarrow> int" where
  "sa_family (Sockaddr_in host port) = AF_INET"
| "sa_family (Sockaddr_in6 host port) = AF_INET6"
| "sa_family (Sockaddr_other family) = family"

text \<open>\<open>ntop\<close> is \<open>inet_ntop\<close>; the flag says whether the tuple can be allocated.\<close>

fun sockaddr_to_tuple :: "(sockaddr \<Rightarrow> string option) \<Rightarrow> bool \<Rightarrow> sockaddr \<Rightarrow> (string \<times> int) option" where
  "sockaddr_to_tuple ntop ok (Sockaddr_in host port) =
     (case ntop (Sockaddr_in host port) of None \<Rightarrow> None
      | Some name \<Rightarrow> if ok then Some (name, uint port) else None)"
| "sockaddr_to_tuple ntop ok (Sockaddr_in6 host port) =
     (case ntop (Sockaddr_in6 host port) of None \<Rightarrow> None
      | Some name \<Rightarrow> if ok then Some (name, uint port) else None)"
| "sockaddr_to_tuple ntop ok (Sockaddr_other family) = (if ok then Some ([], 0) else None)"

text \<open>
  \<open>getaddrinfo\<close> gets the host, the port, the flag \<open>AI_PASSIVE\<close> and the family, and returns a code and a list of entries: their
  family, the length of their address and the address.
\<close>

type_synonym getaddrinfo = "string option \<Rightarrow> int \<Rightarrow> bool \<Rightarrow> int \<Rightarrow> int \<times> (int \<times> nat \<times> sockaddr) list"

definition SIZEOF_SOCKADDR_STORAGE :: nat where
  "SIZEOF_SOCKADDR_STORAGE = 128"

fun first_udp_addr :: "(int \<times> nat \<times> sockaddr) list \<Rightarrow> (sockaddr \<times> int) option" where
  "first_udp_addr [] = None"
| "first_udp_addr ((ai_family, ai_addrlen, ai_addr) # ais) =
     (if ai_family \<noteq> AF_INET \<and> ai_family \<noteq> AF_INET6 then first_udp_addr ais
      else if ai_addrlen > SIZEOF_SOCKADDR_STORAGE then first_udp_addr ais
      else Some (ai_addr, ai_family))"

definition resolve_udp_addr ::
    "getaddrinfo \<Rightarrow> string \<Rightarrow> int \<Rightarrow> bool \<Rightarrow> int \<Rightarrow> srv_err + sockaddr \<times> int" where
  "resolve_udp_addr gai host port passive family_hint =
     (if port < 0 \<or> port > 65535 then Inl (ValueError ''port must be in range 0..65535'')
      else
        (let ai_family = (if family_hint = AF_INET \<or> family_hint = AF_INET6 then family_hint else AF_UNSPEC);
             (gai_rc, res) = gai (if host \<noteq> [] then Some host else None) port passive ai_family
         in if gai_rc \<noteq> 0 \<or> res = [] then Inl (GaiError gai_rc)
            else case first_udp_addr res of None \<Rightarrow> Inl OSError | Some r \<Rightarrow> Inr r))"

text \<open>What the system calls for one socket return: the descriptor, the next three calls, the local address.\<close>

record sock_env =
  so_socket :: int
  so_nonblock :: bool
  so_bind :: bool
  so_getsockname :: "sockaddr option"

text \<open>The descriptor with its local address, and the descriptors closed on the way.\<close>

definition build_udp_socket :: "sock_env \<Rightarrow> (int \<times> sockaddr) option \<times> int list" where
  "build_udp_socket so =
     (let fd = so_socket so in
      if fd < 0 then (None, [])
      else if \<not> so_nonblock so then (None, [fd])
      else if \<not> so_bind so then (None, [fd])
      else case so_getsockname so of None \<Rightarrow> (None, [fd]) | Some addr \<Rightarrow> (Some (fd, addr), []))"

definition close_fd :: "int \<Rightarrow> int list" where
  "close_fd fd = (if fd \<ge> 0 then [fd] else [])"

section \<open>State\<close>

record 'cb py_server =
  worker_running :: bool
  server_inited :: bool
  cmd_waiter_busy :: bool
  shutdown_queued :: bool
  accepting_commands :: bool
  tick_ns :: u64
  cmd_cv_clock :: clock_id
  cmd_waiter :: rtp_sync_waiter
  cmd_list :: "sockaddr server_cmd list"
  srv :: "('cb, sockaddr) server"

text \<open>
  What the library calls made by one method return: the address of a new object, \<open>calloc\<close> of a command or item,
  \<open>rtp_sync_waiter_reset\<close>, the allocation of a queue, the system calls for a socket, and \<open>getaddrinfo\<close>.
\<close>

record srv_lib =
  lib_object :: "chan_addr option"
  lib_calloc :: bool
  lib_reset :: bool
  lib_queue :: bool
  lib_socket :: sock_env
  lib_gai :: getaddrinfo

definition queue_memory :: "bool \<Rightarrow> nat \<Rightarrow> packet list option" where
  "queue_memory ok n = (if ok then Some (replicate ((n - SIZEOF_SPMCQUEUE + 7) div 8) []) else None)"

section \<open>The command queue, the waiter and references\<close>

definition server_waiter_release :: "'cb py_server \<Rightarrow> 'cb py_server" where
  "server_waiter_release p = p\<lparr>cmd_waiter_busy := False\<rparr>"

definition server_waiter_acquire :: "srv_lib \<Rightarrow> 'cb py_server \<Rightarrow> srv_err option \<times> 'cb py_server" where
  "server_waiter_acquire le p =
     (if \<not> server_inited p then (Some (RuntimeError ''RtpServer is not initialized''), p)
      else if cmd_waiter_busy p then
        (Some (RuntimeError ''another synchronous command is already in progress''), p)
      else
        (let p1 = p\<lparr>cmd_waiter_busy := True\<rparr>
         in if \<not> lib_reset le then
              (Some (RuntimeError ''failed to reset command waiter''), server_waiter_release p1)
            else (None, p1\<lparr>cmd_waiter := rtp_sync_waiter_reset (cmd_waiter p1)\<rparr>)))"

definition enqueue_command :: "'cb py_server \<Rightarrow> sockaddr server_cmd \<Rightarrow> srv_err option \<times> 'cb py_server" where
  "enqueue_command p cmd =
     (if \<not> server_inited p then (Some (RuntimeError ''RtpServer is not initialized''), p)
      else if \<not> accepting_commands p then (Some (RuntimeError ''RtpServer is shutting down''), p)
      else (None, p\<lparr>cmd_list := cmd_list p @ [cmd]\<rparr>))"

definition detach_commands :: "'cb py_server \<Rightarrow> sockaddr server_cmd list \<times> 'cb py_server" where
  "detach_commands p = (cmd_list p, p\<lparr>cmd_list := []\<rparr>)"

text \<open>References to a channel object.\<close>

definition chan_decref :: "'cb py_server \<Rightarrow> chan_addr \<Rightarrow> 'cb py_server option" where
  "chan_decref p h = map_option (\<lambda>sv. p\<lparr>srv := sv\<rparr>) (rtp_channel_state_unref (accepting_commands p) (srv p) h)"

definition chan_put :: "'cb py_server \<Rightarrow> chan_addr \<Rightarrow> ('cb, sockaddr) rtp_channel \<Rightarrow> 'cb py_server" where
  "chan_put p h ch = p\<lparr>srv := (srv p)\<lparr>heap := (heap (srv p))(h \<mapsto> ch)\<rparr>\<rparr>"

definition chan_get :: "'cb py_server \<Rightarrow> chan_addr \<Rightarrow> ('cb, sockaddr) rtp_channel option" where
  "chan_get p h = heap (srv p) h"

definition chan_close :: "'cb py_server \<Rightarrow> chan_addr \<Rightarrow> 'cb py_server option" where
  "chan_close p h = map_option (\<lambda>ch. chan_put p h (ch\<lparr>ch_closed := True\<rparr>)) (chan_get p h)"

definition log_closed :: "'cb py_server \<Rightarrow> int list \<Rightarrow> 'cb py_server" where
  "log_closed p fds = p\<lparr>srv := (srv p)\<lparr>io_log := io_log (srv p) @ map Io_close fds\<rparr>\<rparr>"

fun free_command :: "'cb py_server \<Rightarrow> sockaddr server_cmd \<Rightarrow> 'cb py_server option" where
  "free_command p (CMD_ADD_CHANNEL h) = chan_decref p h"
| "free_command p cmd = Some p"

fun free_command_list :: "'cb py_server \<Rightarrow> sockaddr server_cmd list \<Rightarrow> 'cb py_server option" where
  "free_command_list p [] = Some p"
| "free_command_list p (cmd # cmds) =
     (case free_command p cmd of None \<Rightarrow> None | Some p1 \<Rightarrow> free_command_list p1 cmds)"

section \<open>Methods of a channel\<close>

text \<open>
  How a method ends: with an exception, with an error code and no exception, blocked, or normally.
\<close>

datatype srv_result = Raised srv_err | Failed | Waiting | Finished

definition is_runtime_error :: "srv_err \<Rightarrow> bool" where
  "is_runtime_error e = (case e of RuntimeError m \<Rightarrow> True | RuntimeStatus m n \<Rightarrow> True | _ \<Rightarrow> False)"

text \<open>
  \<open>rtp_channel_close_internal\<close> up to the wait. It waits for the worker unless it runs on the worker's thread, in a callback, or
  the waiter is taken and no error is wanted.
\<close>

definition rtp_channel_close_internal ::
    "srv_lib \<Rightarrow> bool \<Rightarrow> bool \<Rightarrow> chan_addr \<Rightarrow> 'cb py_server \<Rightarrow> (srv_result \<times> 'cb py_server) option" where
  "rtp_channel_close_internal le with_error on_worker h p =
     (case chan_get p h of
        None \<Rightarrow> None
      | Some ch \<Rightarrow>
          if ch_closed ch then
            Some (if with_error then Raised (RuntimeError ''channel is already closed'') else Finished, p)
          else if \<not> worker_running p then None
          else if \<not> accepting_commands p then
            map_option (Pair (if with_error then Raised (RuntimeError ''Server has been shutdown'') else Finished)) (chan_close p h)
          else if \<not> lib_calloc le then Some (if with_error then Raised MemoryError else Failed, p)
          else
            (let (err, p1) = (if on_worker then (None, p) else server_waiter_acquire le p);
                 waits = (\<not> on_worker \<and> err = None)
             in if err \<noteq> None \<and> with_error then Some (Raised (the err), p1)
                else
                  (case enqueue_command p1 (CMD_REMOVE_CHANNEL h waits) of
                     (Some e, p2) \<Rightarrow>
                       (let p3 = (if waits then server_waiter_release p2 else p2)
                        in if with_error \<and> \<not> is_runtime_error e then Some (Raised e, p3)
                           else map_option (Pair Finished) (chan_close p3 h))
                   | (None, p2) \<Rightarrow> if waits then Some (Waiting, p2) else map_option (Pair Finished) (chan_close p2 h))))"

definition channel_close_return ::
    "bool \<Rightarrow> int \<Rightarrow> chan_addr \<Rightarrow> 'cb py_server \<Rightarrow> (srv_result \<times> 'cb py_server) option" where
  "channel_close_return with_error cmd_status h p =
     (let p1 = server_waiter_release p
      in if cmd_status \<noteq> 0 \<and> with_error then
           Some (Raised (RuntimeStatus ''failed to remove channel from worker'' cmd_status), p1)
         else case chan_decref p1 h of None \<Rightarrow> None | Some p2 \<Rightarrow> map_option (Pair Finished) (chan_close p2 h))"

text \<open>The arguments of \<open>set_target\<close>, if they are a string and an integer.\<close>

definition PyRtpChannel_set_target ::
    "srv_lib \<Rightarrow> (string \<times> int) option \<Rightarrow> chan_addr \<Rightarrow> 'cb py_server \<Rightarrow> (srv_result \<times> sockaddr option \<times> 'cb py_server) option" where
  "PyRtpChannel_set_target le arg h p =
     (case arg of
        None \<Rightarrow> Some (Raised ArgumentError, None, p)
      | Some (host, port) \<Rightarrow>
          (case chan_get p h of
             None \<Rightarrow> None
           | Some ch \<Rightarrow>
               if ch_closed ch then Some (Raised (RuntimeError ''channel is closed''), None, p)
               else if \<not> accepting_commands p then Some (Raised (RuntimeError ''RtpServer is shutting down''), None, p)
               else
                 (case resolve_udp_addr (lib_gai le) host port False
                     (case local_addr ch of None \<Rightarrow> AF_UNSPEC | Some addr \<Rightarrow> sa_family addr) of
                    Inl e \<Rightarrow> Some (Raised e, None, p)
                  | Inr (target, family) \<Rightarrow>
                      if \<not> lib_calloc le then Some (Raised MemoryError, None, p)
                      else
                        (case server_waiter_acquire le p of
                           (Some e, p1) \<Rightarrow> Some (Raised e, None, p1)
                         | (None, p1) \<Rightarrow>
                             (case enqueue_command p1 (CMD_SET_TARGET h target) of
                                (Some e, p2) \<Rightarrow> Some (Raised e, None, server_waiter_release p2)
                              | (None, p2) \<Rightarrow> Some (Waiting, Some target, p2))))))"

definition set_target_return :: "int \<Rightarrow> chan_addr \<Rightarrow> 'cb py_server \<Rightarrow> (srv_result \<times> 'cb py_server) option" where
  "set_target_return cmd_status h p =
     (let p1 = server_waiter_release p
      in if cmd_status \<noteq> 0 then
           Some (Raised (if cmd_status = ENOENT then RuntimeError ''channel is no longer present''
             else RuntimeStatus ''failed to set target on worker'' cmd_status), p1)
         else map_option (\<lambda>ch. (Finished, chan_put p1 h (ch\<lparr>py_has_target := True\<rparr>))) (chan_get p1 h))"

text \<open>The argument of \<open>send_pkt\<close>: bytes, or an object that is converted to bytes, which can fail.\<close>

datatype py_data = Data_bytes packet | Data_other "srv_err + packet"

definition bytes_from_obj :: "py_data \<Rightarrow> srv_err + packet" where
  "bytes_from_obj obj = (case obj of Data_bytes data \<Rightarrow> Inr data | Data_other r \<Rightarrow> r)"

definition free_send_item :: "'cb py_server \<Rightarrow> packet \<Rightarrow> 'cb py_server" where
  "free_send_item p item = p\<lparr>srv := (srv p)\<lparr>io_log := io_log (srv p) @ [Io_free item]\<rparr>\<rparr>"

definition PyRtpChannel_send_pkt ::
    "srv_lib \<Rightarrow> py_data option \<Rightarrow> chan_addr \<Rightarrow> 'cb py_server \<Rightarrow> (srv_result \<times> 'cb py_server) option" where
  "PyRtpChannel_send_pkt le arg h p =
     (case arg of
        None \<Rightarrow> Some (Raised ArgumentError, p)
      | Some data_obj \<Rightarrow>
          (case chan_get p h of
             None \<Rightarrow> None
           | Some ch \<Rightarrow>
               if ch_closed ch then Some (Raised (RuntimeError ''channel is closed''), p)
               else if \<not> py_has_target ch then Some (Raised (RuntimeError ''channel target is not set''), p)
               else
                 (case bytes_from_obj data_obj of
                    Inl e \<Rightarrow> Some (Raised e, p)
                  | Inr item \<Rightarrow>
                      if \<not> lib_calloc le then Some (Raised MemoryError, p)
                      else if \<not> worker_running p then None
                      else if \<not> accepting_commands p then
                        Some (Raised (RuntimeError ''RtpServer is shutting down''), free_send_item p item)
                      else
                        (case try_push (out_q ch) item of
                           None \<Rightarrow> None
                         | Some (queued, q) \<Rightarrow>
                             (let p1 = chan_put p h (ch\<lparr>out_q := q\<rparr>)
                              in Some (if queued then (Finished, p1) else (Raised RtpQueueFullError, free_send_item p1 item)))))))"

definition PyRtpChannel_get_local_addr ::
    "(sockaddr \<Rightarrow> string option) \<Rightarrow> bool \<Rightarrow> chan_addr \<Rightarrow> 'cb py_server \<Rightarrow> (srv_err + (string \<times> int) option) option" where
  "PyRtpChannel_get_local_addr ntop ok h p =
     map_option (\<lambda>ch. case local_addr ch of
         None \<Rightarrow> Inr None
       | Some addr \<Rightarrow> (case sockaddr_to_tuple ntop ok addr of None \<Rightarrow> Inl OSError | Some t \<Rightarrow> Inr (Some t)))
       (chan_get p h)"

definition PyRtpChannel_get_closed :: "chan_addr \<Rightarrow> 'cb py_server \<Rightarrow> bool option" where
  "PyRtpChannel_get_closed h p = map_option ch_closed (chan_get p h)"

section \<open>Methods of the server\<close>

record 'cb create_args =
  a_pkt_in :: 'cb
  a_callable :: bool
  a_bind_host :: "string option"
  a_bind_port :: int
  a_queue_size :: u64
  a_bind_family :: py_arg

text \<open>The checks before anything is created: the size of the queue, which is an \<open>unsigned long long\<close>, and the address to bind.\<close>

definition SIZE_MAX_ULL :: u64 where
  "SIZE_MAX_ULL = 18446744073709551615"

definition create_checks :: "srv_lib \<Rightarrow> 'cb create_args \<Rightarrow> srv_err + sockaddr \<times> int" where
  "create_checks le a =
     (if \<not> a_callable a then Inl (TypeError ''pkt_in must be callable'')
      else if a_queue_size a = 0 then Inl (ValueError ''queue_size must be > 0'')
      else if a_queue_size a AND (a_queue_size a - 1) \<noteq> 0 then Inl (ValueError ''queue_size must be a power of two'')
      else if a_queue_size a > SIZE_MAX_ULL then Inl OverflowError
      else
        (case parse_bind_family (a_bind_family a) of
           Inl e \<Rightarrow> Inl e
         | Inr family_hint \<Rightarrow>
             resolve_udp_addr (lib_gai le)
               (case a_bind_host a of Some host \<Rightarrow> host | None \<Rightarrow> if family_hint = AF_INET6 then ''::'' else ''0.0.0.0'')
               (a_bind_port a) True family_hint))"

definition new_channel :: "int \<Rightarrow> 'cb \<Rightarrow> packet SPMCQueue \<Rightarrow> sockaddr \<Rightarrow> ('cb, sockaddr) rtp_channel" where
  "new_channel fd cb q addr = \<lparr>ob_refcnt = 1, ch_closed = False, py_has_target = False, ch_fd = fd, has_target = False,
     target_addr = Sockaddr_other 0, pkt_in_cb = cb, out_q = q, local_addr = Some addr\<rparr>"

text \<open>The label \<open>fail_channel_cmd\<close>: the new channel is marked as closed and given up.\<close>

definition abandon_channel :: "'cb py_server \<Rightarrow> chan_addr \<Rightarrow> 'cb py_server option" where
  "abandon_channel p h = (case chan_close p h of None \<Rightarrow> None | Some p1 \<Rightarrow> chan_decref p1 h)"

definition chan_incref :: "'cb py_server \<Rightarrow> chan_addr \<Rightarrow> 'cb py_server option" where
  "chan_incref p h = map_option (\<lambda>ch. chan_put p h (ch\<lparr>ob_refcnt := ob_refcnt ch + 1\<rparr>)) (chan_get p h)"

text \<open>From the new channel object to the wait.\<close>

definition submit_channel :: "srv_lib \<Rightarrow> chan_addr \<Rightarrow> 'cb py_server \<Rightarrow> (srv_result \<times> 'cb py_server) option" where
  "submit_channel le h p =
     (if \<not> lib_calloc le then map_option (Pair (Raised MemoryError)) (abandon_channel p h)
      else
        (case chan_incref p h of
           None \<Rightarrow> None
         | Some p1 \<Rightarrow>
             (case server_waiter_acquire le p1 of
                (Some e, p2) \<Rightarrow>
                  (case free_command p2 (CMD_ADD_CHANNEL h) of
                     None \<Rightarrow> None
                   | Some p3 \<Rightarrow> map_option (Pair (Raised e)) (abandon_channel p3 h))
              | (None, p2) \<Rightarrow>
                  (case enqueue_command p2 (CMD_ADD_CHANNEL h) of
                     (Some e, p3) \<Rightarrow>
                       (case free_command (server_waiter_release p3) (CMD_ADD_CHANNEL h) of
                          None \<Rightarrow> None
                        | Some p4 \<Rightarrow> map_option (Pair (Raised e)) (abandon_channel p4 h))
                   | (None, p3) \<Rightarrow> Some (Waiting, p3)))))"

text \<open>The exception when there is no memory for the object is the one of \<open>PyObject_New\<close>; the queue is not destroyed then.\<close>

definition PyRtpServer_create_channel ::
    "srv_lib \<Rightarrow> 'cb create_args option \<Rightarrow> 'cb py_server \<Rightarrow> (srv_result \<times> 'cb py_server) option" where
  "PyRtpServer_create_channel le arg p =
     (case arg of
        None \<Rightarrow> Some (Raised ArgumentError, p)
      | Some a \<Rightarrow>
          (case create_checks le a of
             Inl e \<Rightarrow> Some (Raised e, p)
           | Inr (bind_addr, family) \<Rightarrow>
               (case build_udp_socket (lib_socket le) of
                  (None, closes) \<Rightarrow> Some (Raised OSError, log_closed p (closes @ close_fd (-1)))
                | (Some (fd, addr), closes) \<Rightarrow>
                    (case create_queue (queue_memory (lib_queue le)) (a_queue_size a) of
                       None \<Rightarrow> Some (Raised MemoryError, log_closed p (close_fd fd))
                     | Some q \<Rightarrow>
                         (case lib_object le of
                            None \<Rightarrow> Some (Raised MemoryError, log_closed p (close_fd fd))
                          | Some h \<Rightarrow> submit_channel le h (chan_put p h (new_channel fd (a_pkt_in a) q addr)))))))"

definition create_channel_return :: "int \<Rightarrow> chan_addr \<Rightarrow> 'cb py_server \<Rightarrow> (srv_result \<times> 'cb py_server) option" where
  "create_channel_return cmd_status h p =
     (let p1 = server_waiter_release p
      in if cmd_status \<noteq> 0 then
           map_option (Pair (Raised (if cmd_status = ENOMEM then MemoryError
             else RuntimeStatus ''failed to add channel to worker'' cmd_status))) (abandon_channel p1 h)
         else Some (Finished, p1))"

text \<open>\<open>shutdown\<close>; \<open>asserts\<close> says whether the code was compiled with assertions.\<close>

definition rtp_server_drop_channels_internal ::
    "bool \<Rightarrow> srv_lib \<Rightarrow> 'cb py_server \<Rightarrow> (srv_result \<times> 'cb py_server) option" where
  "rtp_server_drop_channels_internal asserts le p =
     (if asserts \<and> \<not> (worker_running p \<and> accepting_commands p) then None
      else if \<not> accepting_commands p then Some (Finished, p)
      else if \<not> lib_calloc le then Some (Raised MemoryError, p)
      else
        (case server_waiter_acquire le p of
           (Some e, p1) \<Rightarrow> Some (Raised e, p1)
         | (None, p1) \<Rightarrow> Some (Waiting, p1\<lparr>cmd_list := cmd_list p1 @ [CMD_DROP_CHANNELS], accepting_commands := False\<rparr>)))"

definition drop_channels_return :: "int \<Rightarrow> 'cb py_server \<Rightarrow> srv_result \<times> 'cb py_server" where
  "drop_channels_return cmd_status p =
     (if cmd_status \<noteq> 0 then Raised (RuntimeStatus ''failed to drop channels from worker'' cmd_status) else Finished,
      server_waiter_release p)"

text \<open>The end of the worker, which only the destructor of the server asks for.\<close>

definition rtp_server_stop_worker_internal ::
    "bool \<Rightarrow> srv_lib \<Rightarrow> 'cb py_server \<Rightarrow> (srv_result \<times> 'cb py_server) option" where
  "rtp_server_stop_worker_internal asserts le p =
     (if asserts \<and> \<not> worker_running p then None
      else if \<not> lib_calloc le then Some (Failed, p)
      else Some (Waiting, p\<lparr>cmd_list := cmd_list p @ [CMD_STOP_WORKER], shutdown_queued := True, accepting_commands := False\<rparr>))"

definition stop_worker_return :: "'cb py_server \<Rightarrow> 'cb py_server option" where
  "stop_worker_return p =
     (case detach_commands (p\<lparr>worker_running := False, accepting_commands := False\<rparr>) of (cmds, p1) \<Rightarrow>
        free_command_list p1 cmds)"

definition PyRtpServer_new :: "'cb py_server" where
  "PyRtpServer_new = \<lparr>worker_running = False, server_inited = False, cmd_waiter_busy = False, shutdown_queued = False,
     accepting_commands = True, tick_ns = 1000000000 div 200, cmd_cv_clock = CLOCK_REALTIME,
     cmd_waiter = \<lparr>w_done = False, w_status = 0\<rparr>, cmd_list = [],
     srv = \<lparr>chans = [], chans_active = 0, pollfds = [], pollfds_cap = 0, pollfds_dirty = True, heap = Map.empty, io_log = []\<rparr>\<rparr>"

text \<open>The argument \<open>tick_hz\<close>, if there is one that fits, and what the initialisations return.\<close>

record srv_init =
  i_tick_hz :: "u32 option"
  i_mutex :: bool
  i_attr :: bool
  i_setclock :: bool
  i_cond :: bool
  i_waiter_mutex :: bool
  i_waiter_cond :: bool
  i_thread :: bool

definition PyRtpServer_init :: "bool \<Rightarrow> srv_init \<Rightarrow> 'cb py_server \<Rightarrow> (int \<times> 'cb py_server) option" where
  "PyRtpServer_init asserts ie p =
     (if asserts \<and> (worker_running p \<or> server_inited p) then None
      else
        (case i_tick_hz ie of
           None \<Rightarrow> Some (-1, p)
         | Some hz \<Rightarrow>
             (case PyRtpServer_tick_ns hz of
                None \<Rightarrow> Some (-1, p)
              | Some t \<Rightarrow>
                  (let p1 = p\<lparr>tick_ns := t\<rparr>;
                       (rc, clock) = rtp_sync_cond_init_monotonic (i_attr ie) (i_setclock ie) (i_cond ie);
                       p2 = p1\<lparr>cmd_cv_clock := clock\<rparr>
                   in if \<not> i_mutex ie then Some (-1, p1)
                      else if rc \<noteq> 0 then Some (-1, p2)
                      else
                        (case rtp_sync_waiter_init (i_waiter_mutex ie) (i_waiter_cond ie) of
                           None \<Rightarrow> Some (-1, p2)
                         | Some w \<Rightarrow>
                             (let p3 = p2\<lparr>cmd_waiter := w, cmd_waiter_busy := False\<rparr>
                              in if \<not> i_thread ie then Some (-1, p3)
                                 else Some (0, p3\<lparr>worker_running := True, accepting_commands := True,
                                   shutdown_queued := False, server_inited := True\<rparr>)))))))"

section \<open>Reference counts\<close>

text \<open>The counts of the channel objects are these numbers, and an object is gone when its number is 0.\<close>

definition counted :: "('cb, 'a) server \<Rightarrow> (chan_addr \<Rightarrow> nat) \<Rightarrow> bool" where
  "counted sv rf \<longleftrightarrow> (\<forall>h. case heap sv h of None \<Rightarrow> rf h = 0 | Some ch \<Rightarrow> ob_refcnt ch = rf h \<and> 0 < rf h)"

definition heap_ok :: "('cb, 'a) server \<Rightarrow> bool" where
  "heap_ok sv \<longleftrightarrow> (\<forall>h ch. heap sv h = Some ch \<longrightarrow> chan_ok 0 ch)"

text \<open>The heap after one of \<open>n\<close> references to a channel has been given up.\<close>

definition lowered ::
    "(chan_addr \<Rightarrow> ('cb, 'a) rtp_channel option) \<Rightarrow> chan_addr \<Rightarrow> nat \<Rightarrow> chan_addr \<Rightarrow> ('cb, 'a) rtp_channel option" where
  "lowered hp h n = hp(h := if n = 1 then None else map_option (\<lambda>ch. ch\<lparr>ob_refcnt := n - 1\<rparr>) (hp h))"

lemma counted_alive: "counted sv rf \<Longrightarrow> 0 < rf h \<Longrightarrow> \<exists>ch. heap sv h = Some ch \<and> ob_refcnt ch = rf h"
  unfolding counted_def by (auto dest!: spec [of _ h] split: option.splits)

lemma counted_dead: "counted sv rf \<Longrightarrow> heap sv h = None \<longleftrightarrow> rf h = 0"
  unfolding counted_def by (auto dest!: spec [of _ h] split: option.splits)

lemma chan_ok_refcnt [simp]: "chan_ok n (ch\<lparr>ob_refcnt := k\<rparr>) \<longleftrightarrow> chan_ok n ch"
  by (simp add: chan_ok_def)

lemma lowered_ok:
  assumes "counted sv rf" "heap_ok sv" "0 < rf h"
  shows "counted (sv\<lparr>heap := lowered (heap sv) h (rf h), io_log := l\<rparr>) (rf(h := rf h - 1))"
    "heap_ok (sv\<lparr>heap := lowered (heap sv) h (rf h), io_log := l\<rparr>)"
proof -
  from counted_alive [OF assms(1,3)] obtain ch where ch: "heap sv h = Some ch" "ob_refcnt ch = rf h" by blast
  show "counted (sv\<lparr>heap := lowered (heap sv) h (rf h), io_log := l\<rparr>) (rf(h := rf h - 1))"
    unfolding counted_def
  proof
    fix x
    have "case heap sv x of None \<Rightarrow> rf x = 0 | Some ch \<Rightarrow> ob_refcnt ch = rf x \<and> 0 < rf x"
      using assms(1) unfolding counted_def by (rule spec)
    then show "case heap (sv\<lparr>heap := lowered (heap sv) h (rf h), io_log := l\<rparr>) x of
        None \<Rightarrow> (rf(h := rf h - 1)) x = 0 | Some ch \<Rightarrow> ob_refcnt ch = (rf(h := rf h - 1)) x \<and> 0 < (rf(h := rf h - 1)) x"
      using ch assms(3) by (cases "x = h") (auto simp: lowered_def split: option.splits)
  qed
  show "heap_ok (sv\<lparr>heap := lowered (heap sv) h (rf h), io_log := l\<rparr>)"
    using assms(2) ch by (auto simp: heap_ok_def lowered_def split: if_splits)
qed

lemma unref_lowered:
  assumes "counted sv rf" "heap_ok sv" "0 < rf h" "\<And>ch. rf h = 1 \<Longrightarrow> heap sv h = Some ch \<Longrightarrow> ch_closed ch \<or> \<not> accepting"
  shows "\<exists>l. rtp_channel_state_unref accepting sv h = Some (sv\<lparr>heap := lowered (heap sv) h (rf h), io_log := l\<rparr>)"
proof -
  from counted_alive [OF assms(1,3)] obtain ch where ch: "heap sv h = Some ch" "ob_refcnt ch = rf h" by blast
  have "chan_ok 0 ch" using assms(2) ch(1) by (simp add: heap_ok_def)
  from unref_ok [OF ch(1) this, of accepting] ch assms(3,4) have
    e: "rtp_channel_state_unref accepting sv h = Some (if rf h = 1
      then sv\<lparr>heap := (heap sv)(h := None), io_log := io_log sv @ Io_close (ch_fd ch) # map Io_free (spmc_contents (out_q ch)) @ [Io_decref (pkt_in_cb ch)]\<rparr>
      else sv\<lparr>heap := (heap sv)(h \<mapsto> ch\<lparr>ob_refcnt := rf h - 1\<rparr>)\<rparr>)" by simp
  show ?thesis
  proof (cases "rf h = 1")
    case True
    then show ?thesis unfolding e lowered_def by auto
  next
    case False
    then show ?thesis unfolding e lowered_def by (intro exI [of _ "io_log sv"]) (simp add: ch)
  qed
qed

text \<open>A heap in which some objects are gone and others have lower counts.\<close>

definition shrunk :: "(chan_addr \<Rightarrow> ('cb, 'a) rtp_channel option) \<Rightarrow> (chan_addr \<Rightarrow> ('cb, 'a) rtp_channel option) \<Rightarrow> bool" where
  "shrunk hp hp' \<longleftrightarrow> (\<forall>h ch'. hp' h = Some ch' \<longrightarrow> (\<exists>ch. hp h = Some ch \<and> ch_closed ch' = ch_closed ch))"

lemma shrunk_lowered: "shrunk hp (lowered hp h n)"
  by (auto simp: shrunk_def lowered_def split: if_splits)

lemma shrunk_trans: "shrunk a b \<Longrightarrow> shrunk b c \<Longrightarrow> shrunk a c"
  unfolding shrunk_def by metis

lemma unref_all_ok:
  "counted sv rf \<Longrightarrow> heap_ok sv \<Longrightarrow> (\<forall>h. count_list (members hs) h \<le> rf h) \<Longrightarrow>
   \<exists>hp l. unref_all False sv hs = Some (sv\<lparr>heap := hp, io_log := l\<rparr>) \<and> heap_ok (sv\<lparr>heap := hp, io_log := l\<rparr>) \<and>
     counted (sv\<lparr>heap := hp, io_log := l\<rparr>) (\<lambda>h. rf h - count_list (members hs) h) \<and> shrunk (heap sv) hp"
proof (induction hs arbitrary: sv rf)
  case Nil
  then show ?case by (intro exI [of _ "heap sv"] exI [of _ "io_log sv"]) (simp add: shrunk_def)
next
  case (Cons x hs)
  show ?case
  proof (cases x)
    case None
    then show ?thesis using Cons.IH [OF Cons.prems(1,2)] Cons.prems(3) by simp
  next
    case (Some h)
    then have h: "0 < rf h" using Cons.prems(3) by (auto dest!: spec [of _ h])
    from unref_lowered [OF Cons.prems(1,2) h, of False] obtain l where
      u: "rtp_channel_state_unref False sv h = Some (sv\<lparr>heap := lowered (heap sv) h (rf h), io_log := l\<rparr>)" by auto
    let ?sv = "sv\<lparr>heap := lowered (heap sv) h (rf h), io_log := l\<rparr>" and ?rf = "rf(h := rf h - 1)"
    have "\<forall>h'. count_list (members hs) h' \<le> ?rf h'"
    proof
      fix h'
      have "count_list (members (x # hs)) h' \<le> rf h'" using Cons.prems(3) by (rule spec)
      then show "count_list (members hs) h' \<le> ?rf h'" using Some by (auto split: if_splits)
    qed
    from Cons.IH [OF lowered_ok [OF Cons.prems(1,2) h] this] obtain hp l' where
      r: "unref_all False ?sv hs = Some (?sv\<lparr>heap := hp, io_log := l'\<rparr>)" "heap_ok (?sv\<lparr>heap := hp, io_log := l'\<rparr>)"
      "counted (?sv\<lparr>heap := hp, io_log := l'\<rparr>) (\<lambda>h'. ?rf h' - count_list (members hs) h')" "shrunk (heap ?sv) hp" by blast
    have "(\<lambda>h'. ?rf h' - count_list (members hs) h') = (\<lambda>h'. rf h' - count_list (members (x # hs)) h')"
      using Some by auto
    then show ?thesis using r Some u shrunk_trans [OF shrunk_lowered [of "heap sv" h "rf h"]] by (intro exI [of _ hp] exI [of _ l']) simp
  qed
qed

lemma clear_channels_counted:
  assumes "counted sv rf" "heap_ok sv" "\<forall>h. count_list (members (chans sv)) h \<le> rf h"
  shows "\<exists>hp l. clear_channels False sv = Some (sv\<lparr>heap := hp, io_log := l, chans := [], chans_active := 0\<rparr>) \<and>
    heap_ok (sv\<lparr>heap := hp, io_log := l\<rparr>) \<and> counted (sv\<lparr>heap := hp, io_log := l\<rparr>) (\<lambda>h. rf h - count_list (members (chans sv)) h) \<and>
    shrunk (heap sv) hp"
  using unref_all_ok [OF assms] by (auto simp: clear_channels_def)

section \<open>What a method does to the server\<close>

text \<open>
  A method that is over at once leaves the server as it was, except for the waiter when nobody uses it and the record of what left the
  process. A method that blocks takes the waiter and enqueues its command.
\<close>

definition quiet :: "'cb py_server \<Rightarrow> 'cb py_server \<Rightarrow> bool" where
  "quiet p p' \<longleftrightarrow> (\<exists>w l. p' = p\<lparr>cmd_waiter := w, srv := (srv p)\<lparr>io_log := l\<rparr>\<rparr> \<and> (cmd_waiter_busy p \<longrightarrow> w = cmd_waiter p))"

definition takes_waiter :: "sockaddr server_cmd \<Rightarrow> 'cb py_server \<Rightarrow> 'cb py_server" where
  "takes_waiter cmd p = p\<lparr>cmd_waiter_busy := True, cmd_waiter := rtp_sync_waiter_reset (cmd_waiter p), cmd_list := cmd_list p @ [cmd]\<rparr>"

lemma srv_quietI:
  "p' = p\<lparr>cmd_waiter := w, srv := (srv p)\<lparr>io_log := l\<rparr>\<rparr> \<Longrightarrow> (cmd_waiter_busy p \<Longrightarrow> w = cmd_waiter p) \<Longrightarrow> quiet p p'"
  by (auto simp: quiet_def)

lemma srv_quiet_refl: "quiet p p"
  by (rule srv_quietI [where w = "cmd_waiter p" and l = "io_log (srv p)"]) simp_all

lemma quiet_log: "quiet p (log_closed p fds)" "quiet p (free_send_item p item)"
  by (rule srv_quietI [where w = "cmd_waiter p"], simp_all add: log_closed_def free_send_item_def)+

lemma srv_release_idle: "\<not> cmd_waiter_busy p \<Longrightarrow> p\<lparr>cmd_waiter_busy := False\<rparr> = p"
  by (cases p) simp

lemma srv_acquire_cases:
  assumes "server_inited p"
  shows "(\<exists>e. server_waiter_acquire le p = (Some e, p)) \<or>
    (\<not> cmd_waiter_busy p \<and>
     server_waiter_acquire le p = (None, p\<lparr>cmd_waiter_busy := True, cmd_waiter := rtp_sync_waiter_reset (cmd_waiter p)\<rparr>))"
  using assms by (simp add: server_waiter_acquire_def server_waiter_release_def Let_def srv_release_idle)

lemma srv_enqueue_cases:
  assumes "server_inited p"
  shows "enqueue_command p cmd = (if accepting_commands p then (None, p\<lparr>cmd_list := cmd_list p @ [cmd]\<rparr>)
    else (Some (RuntimeError ''RtpServer is shutting down''), p))"
  using assms by (simp add: enqueue_command_def)

text \<open>A waiter that was taken for nothing.\<close>

lemma quiet_released:
  "\<not> cmd_waiter_busy p \<Longrightarrow> quiet p (server_waiter_release (p\<lparr>cmd_waiter_busy := True, cmd_waiter := w\<rparr>))"
  by (rule srv_quietI [where w = w and l = "io_log (srv p)"]) (simp_all add: server_waiter_release_def srv_release_idle)

lemma set_target_cases:
  assumes "server_inited p" "chan_get p h \<noteq> None"
  shows "\<exists>r addr p'. PyRtpChannel_set_target le arg h p = Some (r, addr, p') \<and>
    (if r = Waiting then accepting_commands p \<and> \<not> cmd_waiter_busy p \<and> p' = takes_waiter (CMD_SET_TARGET h (the addr)) p else quiet p p')"
proof -
  obtain ch where ch: "chan_get p h = Some ch" using assms(2) by blast
  show ?thesis
  proof (cases arg)
    case None
    then show ?thesis by (simp add: PyRtpChannel_set_target_def srv_quiet_refl)
  next
    case (Some a)
    obtain host port where a: "a = (host, port)" by fastforce
    let ?r = "resolve_udp_addr (lib_gai le) host port False (case local_addr ch of None \<Rightarrow> AF_UNSPEC | Some addr \<Rightarrow> sa_family addr)"
    show ?thesis
    proof (cases "\<not> ch_closed ch \<and> accepting_commands p \<and> lib_calloc le \<and> (\<exists>t. ?r = Inr t)")
      case False
      then show ?thesis using ch Some a by (auto simp: PyRtpChannel_set_target_def srv_quiet_refl split: sum.splits)
    next
      case True
      then obtain target family where t: "?r = Inr (target, family)" by auto
      from srv_acquire_cases [OF assms(1), of le] show ?thesis
      proof (elim disjE exE conjE)
        fix e assume "server_waiter_acquire le p = (Some e, p)"
        then show ?thesis using ch Some a True t by (simp add: PyRtpChannel_set_target_def srv_quiet_refl)
      next
        assume "\<not> cmd_waiter_busy p"
          "server_waiter_acquire le p = (None, p\<lparr>cmd_waiter_busy := True, cmd_waiter := rtp_sync_waiter_reset (cmd_waiter p)\<rparr>)"
        then show ?thesis using ch Some a True t assms(1) by (simp add: PyRtpChannel_set_target_def srv_enqueue_cases takes_waiter_def)
      qed
    qed
  qed
qed

lemma srv_close_cases:
  assumes "server_inited p" "worker_running p" "chan_get p h = Some ch"
  shows "\<exists>r p'. rtp_channel_close_internal le True on_worker h p = Some (r, p') \<and>
    (if r = Waiting then \<not> ch_closed ch \<and> accepting_commands p \<and> \<not> cmd_waiter_busy p \<and> p' = takes_waiter (CMD_REMOVE_CHANNEL h True) p
     else quiet p p' \<or> \<not> accepting_commands p \<and> p' = chan_put p h (ch\<lparr>ch_closed := True\<rparr>) \<or>
       on_worker \<and> accepting_commands p \<and> \<not> ch_closed ch \<and>
       p' = chan_put (p\<lparr>cmd_list := cmd_list p @ [CMD_REMOVE_CHANNEL h False]\<rparr>) h (ch\<lparr>ch_closed := True\<rparr>))"
proof (cases "\<not> ch_closed ch \<and> accepting_commands p \<and> lib_calloc le")
  case False
  then show ?thesis using assms
    by (auto simp: rtp_channel_close_internal_def chan_close_def srv_quiet_refl)
next
  case True
  show ?thesis
  proof (cases on_worker)
    case ow: True
    then show ?thesis using assms True
      by (auto simp: rtp_channel_close_internal_def chan_close_def srv_enqueue_cases chan_get_def)
  next
    case ow: False
    from srv_acquire_cases [OF assms(1), of le] show ?thesis
    proof (elim disjE exE conjE)
      fix e assume "server_waiter_acquire le p = (Some e, p)"
      then show ?thesis using ow True assms by (simp add: rtp_channel_close_internal_def srv_quiet_refl)
    next
      assume "\<not> cmd_waiter_busy p"
        "server_waiter_acquire le p = (None, p\<lparr>cmd_waiter_busy := True, cmd_waiter := rtp_sync_waiter_reset (cmd_waiter p)\<rparr>)"
      then show ?thesis using ow True assms by (simp add: rtp_channel_close_internal_def srv_enqueue_cases takes_waiter_def)
    qed
  qed
qed

lemma send_cases:
  assumes "worker_running p" "chan_get p h = Some ch" "spmc_ok (Suc n) (out_q ch)"
  shows "\<exists>r p'. PyRtpChannel_send_pkt le arg h p = Some (r, p') \<and>
    (quiet p p' \<or> (\<exists>q l. p' = p\<lparr>srv := (srv p)\<lparr>heap := (heap (srv p))(h \<mapsto> ch\<lparr>out_q := q\<rparr>), io_log := l\<rparr>\<rparr> \<and> spmc_ok n q))"
proof (cases "\<exists>d item. arg = Some d \<and> bytes_from_obj d = Inr item \<and> \<not> ch_closed ch \<and> py_has_target ch \<and> lib_calloc le \<and> accepting_commands p")
  case False
  then show ?thesis using assms
    by (auto simp: PyRtpChannel_send_pkt_def srv_quiet_refl quiet_log split: option.splits sum.splits)
next
  case True
  then obtain d item where a: "arg = Some d" "bytes_from_obj d = Inr item" by blast
  have push: "\<exists>b q. try_push (out_q ch) item = Some (b, q) \<and> spmc_ok n q"
    using spmc.push_room [OF assms(3)] spmc.push_full [OF assms(3)] by meson
  then obtain b q where q: "try_push (out_q ch) item = Some (b, q)" "spmc_ok n q" by blast
  have "PyRtpChannel_send_pkt le arg h p = Some (if b then (Finished, chan_put p h (ch\<lparr>out_q := q\<rparr>))
      else (Raised RtpQueueFullError, free_send_item (chan_put p h (ch\<lparr>out_q := q\<rparr>)) item))"
    using True a assms(1,2) q(1) by (simp add: PyRtpChannel_send_pkt_def)
  then show ?thesis using q(2)
    by (cases b) (auto simp: chan_put_def free_send_item_def intro!: exI [of _ q] exI [of _ "if b then io_log (srv p) else io_log (srv p) @ [Io_free item]"])
qed

text \<open>A channel that could not be handed to the worker is destroyed again.\<close>

lemma abandon_new:
  assumes "chan_get p h = Some ch" "ob_refcnt ch = 1" "chan_ok 0 ch"
  shows "\<exists>l. abandon_channel p h = Some (p\<lparr>srv := (srv p)\<lparr>heap := (heap (srv p))(h := None), io_log := l\<rparr>\<rparr>)"
proof -
  let ?sv = "(srv p)\<lparr>heap := (heap (srv p))(h \<mapsto> ch\<lparr>ch_closed := True\<rparr>)\<rparr>"
  have "chan_ok 0 (ch\<lparr>ch_closed := True\<rparr>)" using assms(3) by (simp add: chan_ok_def)
  from unref_ok [of ?sv h "ch\<lparr>ch_closed := True\<rparr>" 0 "accepting_commands p"] this assms(2)
  have "\<exists>l. rtp_channel_state_unref (accepting_commands p) ?sv h = Some ((srv p)\<lparr>heap := (heap (srv p))(h := None), io_log := l\<rparr>)"
    by (intro exI) simp
  then show ?thesis using assms(1) by (auto simp: abandon_channel_def chan_close_def chan_put_def chan_decref_def)
qed

lemma free_add_command:
  assumes "chan_get p h = Some ch" "ob_refcnt ch = 2"
  shows "free_command p (CMD_ADD_CHANNEL h) = Some (chan_put p h (ch\<lparr>ob_refcnt := 1\<rparr>))"
  using assms by (simp add: chan_decref_def rtp_channel_state_unref_def chan_get_def chan_put_def)

lemma refused_channel:
  assumes "ob_refcnt ch = 2" "chan_ok 0 ch" "heap (srv p) h = None"
  shows "\<exists>l p3. free_command (chan_put p h ch) (CMD_ADD_CHANNEL h) = Some p3 \<and> abandon_channel p3 h = Some (p\<lparr>srv := (srv p)\<lparr>io_log := l\<rparr>\<rparr>)"
proof -
  have g: "chan_get (chan_put p h c) h = Some c" for c by (simp add: chan_get_def chan_put_def)
  have pp: "chan_put (chan_put p h a) h b = chan_put p h b" for a b by (simp add: chan_put_def)
  have f: "free_command (chan_put p h ch) (CMD_ADD_CHANNEL h) = Some (chan_put p h (ch\<lparr>ob_refcnt := 1\<rparr>))"
    using free_add_command [OF g assms(1)] by (simp only: pp)
  from abandon_new [OF g, of "ch\<lparr>ob_refcnt := 1\<rparr>"] assms(2,3) show ?thesis unfolding f
    by (auto simp: chan_put_def fun_upd_idem)
qed

lemma submit_cases:
  assumes "server_inited p" "heap (srv p) h = None" "chan_ok 0 ch" "ob_refcnt ch = 1"
  shows "\<exists>r p'. submit_channel le h (chan_put p h ch) = Some (r, p') \<and>
    (if r = Waiting then accepting_commands p \<and> \<not> cmd_waiter_busy p \<and>
       p' = takes_waiter (CMD_ADD_CHANNEL h) (chan_put p h (ch\<lparr>ob_refcnt := 2\<rparr>)) else quiet p p')"
proof (cases "lib_calloc le")
  case False
  have "chan_get (chan_put p h ch) h = Some ch" by (simp add: chan_get_def chan_put_def)
  from abandon_new [OF this assms(4,3)] assms(2) obtain l where
    "abandon_channel (chan_put p h ch) h = Some (p\<lparr>srv := (srv p)\<lparr>io_log := l\<rparr>\<rparr>)" by (auto simp: chan_put_def fun_upd_idem)
  then show ?thesis using False by (auto simp: submit_channel_def intro!: srv_quietI [where w = "cmd_waiter p" and l = l])
next
  case True
  define ch2 where "ch2 = ch\<lparr>ob_refcnt := 2\<rparr>"
  have c2: "ob_refcnt ch2 = 2" "chan_ok 0 ch2" using assms(3) by (simp_all add: ch2_def)
  have inc: "chan_incref (chan_put p h ch) h = Some (chan_put p h ch2)"
    using assms(4) by (simp add: chan_incref_def chan_get_def chan_put_def ch2_def numeral_2_eq_2)
  have i: "server_inited (chan_put p h ch2)" using assms(1) by (simp add: chan_put_def)
  from srv_acquire_cases [OF i, of le] show ?thesis
  proof (elim disjE exE conjE)
    fix e assume a: "server_waiter_acquire le (chan_put p h ch2) = (Some e, chan_put p h ch2)"
    from refused_channel [OF c2 assms(2)] obtain l p3 where
      "free_command (chan_put p h ch2) (CMD_ADD_CHANNEL h) = Some p3" "abandon_channel p3 h = Some (p\<lparr>srv := (srv p)\<lparr>io_log := l\<rparr>\<rparr>)" by blast
    then show ?thesis using True inc a
      by (auto simp: submit_channel_def simp del: free_command.simps intro!: srv_quietI [where w = "cmd_waiter p" and l = l])
  next
    let ?p = "p\<lparr>cmd_waiter := rtp_sync_waiter_reset (cmd_waiter p)\<rparr>"
    let ?p2 = "chan_put p h ch2\<lparr>cmd_waiter_busy := True, cmd_waiter := rtp_sync_waiter_reset (cmd_waiter (chan_put p h ch2))\<rparr>"
    assume idle: "\<not> cmd_waiter_busy (chan_put p h ch2)" and a: "server_waiter_acquire le (chan_put p h ch2) = (None, ?p2)"
    have p: "server_waiter_release ?p2 = chan_put ?p h ch2" "\<not> cmd_waiter_busy p"
      using idle by (simp_all add: chan_put_def server_waiter_release_def srv_release_idle)
    show ?thesis
    proof (cases "accepting_commands p")
      case acc: True
      then show ?thesis using True inc a i p(2)
        by (simp add: submit_channel_def srv_enqueue_cases takes_waiter_def ch2_def [symmetric] chan_put_def)
    next
      case acc: False
      have "heap (srv ?p) h = None" using assms(2) by simp
      from refused_channel [OF c2 this] obtain l p3 where
        "free_command (chan_put ?p h ch2) (CMD_ADD_CHANNEL h) = Some p3" "abandon_channel p3 h = Some (?p\<lparr>srv := (srv ?p)\<lparr>io_log := l\<rparr>\<rparr>)" by blast
      moreover have "enqueue_command ?p2 (CMD_ADD_CHANNEL h) = (Some (RuntimeError ''RtpServer is shutting down''), ?p2)"
        using assms(1) acc by (simp add: enqueue_command_def chan_put_def)
      ultimately show ?thesis using True inc a acc p
        by (auto simp: submit_channel_def simp del: free_command.simps
            intro!: srv_quietI [where w = "rtp_sync_waiter_reset (cmd_waiter p)" and l = l])
    qed
  qed
qed

lemma queue_memory_ok: "alloc_ok (queue_memory ok)"
  by (auto simp: alloc_ok_def queue_memory_def SIZEOF_SPMCQUEUE_def split: if_splits)

lemma srv_new_channel_ok:
  assumes "create_queue (queue_memory ok) cap = Some q" "0 \<le> fd"
  shows "chan_ok 0 (new_channel fd cb q addr)"
proof -
  have "writeIdx q = 0" "readIdx q = 0" "readIdxCache q = 0" "writeIdxCache q = 0"
    using assms(1) by (auto simp: create_queue_def split: if_splits option.splits)
  then show ?thesis using create_queue_shape(1) [OF assms(1) queue_memory_ok] assms(2)
    by (simp add: chan_ok_def new_channel_def spmc_ok_def)
qed

lemma srv_create_cases:
  assumes "server_inited p" "\<And>h. lib_object le = Some h \<Longrightarrow> heap (srv p) h = None"
  shows "\<exists>r p'. PyRtpServer_create_channel le arg p = Some (r, p') \<and>
    (if r = Waiting then \<exists>h ch. lib_object le = Some h \<and> accepting_commands p \<and> \<not> cmd_waiter_busy p \<and>
       p' = takes_waiter (CMD_ADD_CHANNEL h) (chan_put p h ch) \<and> chan_ok 0 ch \<and> ob_refcnt ch = 2 \<and> \<not> ch_closed ch
     else quiet p p')"
proof (cases "\<exists>a t fd addr q h. arg = Some a \<and> create_checks le a = Inr t \<and> build_udp_socket (lib_socket le) = (Some (fd, addr), []) \<and>
    create_queue (queue_memory (lib_queue le)) (a_queue_size a) = Some q \<and> lib_object le = Some h")
  case False
  then show ?thesis
    by (auto simp: PyRtpServer_create_channel_def srv_quiet_refl quiet_log build_udp_socket_def Let_def
        split: option.splits sum.splits prod.splits if_splits)
next
  case True
  then obtain a t fd addr q h where
    t: "arg = Some a" "create_checks le a = Inr t" "build_udp_socket (lib_socket le) = (Some (fd, addr), [])"
    "create_queue (queue_memory (lib_queue le)) (a_queue_size a) = Some q" "lib_object le = Some h" by blast
  have "0 \<le> fd" using t(3) by (auto simp: build_udp_socket_def Let_def split: if_splits option.splits)
  let ?ch = "new_channel fd (a_pkt_in a) q addr"
  have ch: "chan_ok 0 ?ch" "ob_refcnt ?ch = 1" "\<not> ch_closed ?ch"
    using srv_new_channel_ok [OF t(4) \<open>0 \<le> fd\<close>] by (simp_all add: new_channel_def)
  have e: "PyRtpServer_create_channel le arg p = submit_channel le h (chan_put p h ?ch)"
    using t by (cases t) (simp add: PyRtpServer_create_channel_def)
  from submit_cases [OF assms(1) assms(2) [OF t(5)] ch(1,2), of le] obtain r p' where
    s: "submit_channel le h (chan_put p h ?ch) = Some (r, p')"
    "if r = Waiting then accepting_commands p \<and> \<not> cmd_waiter_busy p \<and>
       p' = takes_waiter (CMD_ADD_CHANNEL h) (chan_put p h (?ch\<lparr>ob_refcnt := 2\<rparr>)) else quiet p p'" by blast
  show ?thesis unfolding e s(1) using s(2) t(5) ch
    by (cases "r = Waiting") (auto intro!: exI [of _ "?ch\<lparr>ob_refcnt := 2\<rparr>"])
qed

end
