(* ===== verification/Rtp_Server_Sys.thy ===== *)
theory Rtp_Server_Sys
  imports Rtp_Server_Api
begin

text \<open>
  The methods of \<^verbatim>\<open>python/RtpServer_mod.c\<close> and its worker as one system, in any interleaving: who waits for which answer,
  who holds which reference to a channel, and when the worker ends.
\<close>

section \<open>The methods and the worker together\<close>

text \<open>
  A thread that is blocked in \<open>rtp_sync_waiter_wait\<close>, and in which method. The system further has the commands that the worker has detached
  and not yet processed, the reference of a command that it has processed and not yet freed, and whether a callback
  on the worker's thread is blocked. The references of the program to a channel (\<open>held\<close>) and to the server, the references that
  nobody owns any more (\<open>leaked\<close>), the addresses ever used and the processed commands with their statuses are bookkeeping.

  A method up to its wait, a method behind its wait and a command of the worker are one step each. This is what the interpreter lock and
  \<open>cmd_lock\<close> give as long as nobody waits for one of them while it holds the other one; \<open>Rtp_Server_Locks\<close> is about that.
\<close>

datatype srv_caller = Creating chan_addr | Closing chan_addr | Targeting chan_addr sockaddr | Dropping

record ('cb, 'w) srv_sys =
  ps :: "'cb py_server"
  callers :: "srv_caller list"
  joining :: bool
  batch :: "sockaddr server_cmd list"
  leftover :: "chan_addr option"
  stop_seen :: bool
  exited :: bool
  next_tick_ns :: u64
  in_callback :: bool
  world :: 'w
  held :: "chan_addr \<Rightarrow> nat"
  srv_held :: nat
  leaked :: "chan_addr \<Rightarrow> nat"
  used :: "chan_addr list"
  cmd_log :: "(sockaddr server_cmd \<times> int) list"

datatype 'cb srv_act =
    Create srv_lib "'cb create_args option"
  | Create_return
  | Close bool srv_lib chan_addr
  | Close_return
  | Set_target bool srv_lib chan_addr "(string \<times> int) option"
  | Set_target_return
  | Send srv_lib chan_addr "py_data option"
  | Shutdown srv_lib
  | Shutdown_return
  | Callback_create srv_lib "'cb create_args option"
  | Callback_shutdown srv_lib
  | Take chan_addr
  | Drop chan_addr
  | Drop_server
  | Dealloc srv_lib
  | Dealloc_return
  | Worker_detach
  | Worker_command
  | Worker_free
  | Worker_pass
  | Worker_exit

fun has_waiter :: "'a server_cmd \<Rightarrow> bool" where
  "has_waiter (CMD_REMOVE_CHANNEL h waits) = waits"
| "has_waiter CMD_STOP_WORKER = False"
| "has_waiter cmd = True"

text \<open>A blocked method returns when its waiter is done.\<close>

definition waiter_status :: "('cb, 'w) srv_sys \<Rightarrow> int option" where
  "waiter_status s = (if w_done (cmd_waiter (ps s)) then Some (w_status (cmd_waiter (ps s))) else None)"

definition worker_idle :: "('cb, 'w) srv_sys \<Rightarrow> bool" where
  "worker_idle s \<longleftrightarrow> \<not> exited s \<and> \<not> stop_seen s \<and> batch s = [] \<and> leftover s = None \<and> \<not> in_callback s"

text \<open>Removing a channel for a closer that does not wait gives the registry's reference to nobody.\<close>

definition orphaned :: "sockaddr server_cmd \<Rightarrow> ('cb, sockaddr) server \<Rightarrow> chan_addr \<Rightarrow> nat" where
  "orphaned cmd sv h = (case cmd of CMD_REMOVE_CHANNEL h' waits \<Rightarrow>
     if h' = h \<and> \<not> waits \<and> h \<in> set (members (chans sv)) then 1 else 0 | _ \<Rightarrow> 0)"

fun srv_step ::
    "bool \<Rightarrow> nat \<Rightarrow> ('cb, sockaddr, 'w) server_env \<Rightarrow> ('cb, 'w) srv_sys \<Rightarrow> 'cb srv_act \<Rightarrow> (srv_result \<times> ('cb, 'w) srv_sys) option" where
  "srv_step asserts fuel env s (Create le arg) =
     (case PyRtpServer_create_channel le arg (ps s) of
        None \<Rightarrow> None
      | Some (r, p) \<Rightarrow>
          Some (r, if r = Waiting then s\<lparr>ps := p, callers := callers s @ [Creating (the (lib_object le))],
              used := used s @ [the (lib_object le)]\<rparr> else s\<lparr>ps := p\<rparr>))"
| "srv_step asserts fuel env s Create_return =
     (case (callers s, waiter_status s) of
        (Creating h # rest, Some status) \<Rightarrow>
          (case create_channel_return status h (ps s) of
             None \<Rightarrow> None
           | Some (r, p) \<Rightarrow> Some (r, s\<lparr>ps := p, callers := rest, held := (if r = Finished then (held s)(h := held s h + 1) else held s),
               in_callback := False\<rparr>))
      | _ \<Rightarrow> None)"
| "srv_step asserts fuel env s (Close on_worker le h) =
     (case rtp_channel_close_internal le True on_worker h (ps s) of
        None \<Rightarrow> None
      | Some (r, p) \<Rightarrow> Some (r, s\<lparr>ps := p, callers := callers s @ (if r = Waiting then [Closing h] else [])\<rparr>))"
| "srv_step asserts fuel env s Close_return =
     (case (callers s, waiter_status s) of
        (Closing h # rest, Some status) \<Rightarrow>
          (case channel_close_return True status h (ps s) of
             None \<Rightarrow> None
           | Some (r, p) \<Rightarrow> Some (r, s\<lparr>ps := p, callers := rest\<rparr>))
      | _ \<Rightarrow> None)"
| "srv_step asserts fuel env s (Set_target on_worker le h arg) =
     (case PyRtpChannel_set_target le arg h (ps s) of
        None \<Rightarrow> None
      | Some (r, addr, p) \<Rightarrow>
          Some (r, s\<lparr>ps := p, callers := callers s @ (if r = Waiting then [Targeting h (the addr)] else []),
            in_callback := (in_callback s \<or> on_worker \<and> r = Waiting)\<rparr>))"
| "srv_step asserts fuel env s Set_target_return =
     (case (callers s, waiter_status s) of
        (Targeting h addr # rest, Some status) \<Rightarrow>
          (case set_target_return status h (ps s) of
             None \<Rightarrow> None
           | Some (r, p) \<Rightarrow> Some (r, s\<lparr>ps := p, callers := rest, in_callback := False\<rparr>))
      | _ \<Rightarrow> None)"
| "srv_step asserts fuel env s (Send le h data) =
     map_option (\<lambda>(r, p). (r, s\<lparr>ps := p\<rparr>)) (PyRtpChannel_send_pkt le data h (ps s))"
| "srv_step asserts fuel env s (Shutdown le) =
     (case rtp_server_drop_channels_internal asserts le (ps s) of
        None \<Rightarrow> None
      | Some (r, p) \<Rightarrow> Some (r, s\<lparr>ps := p, callers := callers s @ (if r = Waiting then [Dropping] else [])\<rparr>))"
| "srv_step asserts fuel env s Shutdown_return =
     (case (callers s, waiter_status s) of
        (Dropping # rest, Some status) \<Rightarrow>
          (case drop_channels_return status (ps s) of (r, p) \<Rightarrow> Some (r, s\<lparr>ps := p, callers := rest, in_callback := False\<rparr>))
      | _ \<Rightarrow> None)"
| "srv_step asserts fuel env s (Callback_create le arg) =
     (if \<not> worker_idle s then None
      else
        (case PyRtpServer_create_channel le arg (ps s) of
           None \<Rightarrow> None
         | Some (r, p) \<Rightarrow>
             Some (r, if r = Waiting then s\<lparr>ps := p, callers := callers s @ [Creating (the (lib_object le))],
                 used := used s @ [the (lib_object le)], in_callback := True\<rparr> else s\<lparr>ps := p\<rparr>)))"
| "srv_step asserts fuel env s (Callback_shutdown le) =
     (if \<not> worker_idle s then None
      else
        (case rtp_server_drop_channels_internal asserts le (ps s) of
           None \<Rightarrow> None
         | Some (r, p) \<Rightarrow>
             Some (r, if r = Waiting then s\<lparr>ps := p, callers := callers s @ [Dropping], in_callback := True\<rparr> else s\<lparr>ps := p\<rparr>)))"
| "srv_step asserts fuel env s (Take h) =
     map_option (\<lambda>p. (Finished, s\<lparr>ps := p, held := (held s)(h := held s h + 1)\<rparr>)) (chan_incref (ps s) h)"
| "srv_step asserts fuel env s (Drop h) =
     map_option (\<lambda>p. (Finished, s\<lparr>ps := p, held := (held s)(h := held s h - 1)\<rparr>)) (chan_decref (ps s) h)"
| "srv_step asserts fuel env s Drop_server = Some (Finished, s\<lparr>srv_held := srv_held s - 1\<rparr>)"
| "srv_step asserts fuel env s (Dealloc le) =
     (case rtp_server_stop_worker_internal asserts le (ps s) of
        None \<Rightarrow> None
      | Some (r, p) \<Rightarrow> if r \<noteq> Waiting then None else Some (r, s\<lparr>ps := p, joining := True\<rparr>))"
| "srv_step asserts fuel env s Dealloc_return =
     (if joining s \<and> exited s then
        map_option (\<lambda>p. (Finished, s\<lparr>ps := p\<lparr>srv := clear_poll_cache (srv p)\<rparr>, joining := False\<rparr>)) (stop_worker_return (ps s))
      else None)"
| "srv_step asserts fuel env s Worker_detach =
     (if \<not> worker_idle s then None
      else (case detach_commands (ps s) of (cmds, p) \<Rightarrow> Some (Finished, s\<lparr>ps := p, batch := cmds\<rparr>)))"
| "srv_step asserts fuel env s Worker_command =
     (case batch s of
        [] \<Rightarrow> None
      | cmd # rest \<Rightarrow>
          if exited s \<or> leftover s \<noteq> None \<or> in_callback s then None
          else
            (case process_command env (accepting_commands (ps s)) (srv (ps s)) cmd (world s) of
               None \<Rightarrow> None
             | Some ((status, down, left, sv), w) \<Rightarrow>
                 Some (Finished, s\<lparr>ps := (ps s)\<lparr>srv := sv,
                     cmd_waiter := (if has_waiter cmd then rtp_sync_waiter_complete (cmd_waiter (ps s)) status
                       else cmd_waiter (ps s))\<rparr>,
                   batch := rest, leftover := left, stop_seen := (stop_seen s \<or> down), world := w,
                   leaked := (\<lambda>h. leaked s h + orphaned cmd (srv (ps s)) h),
                   cmd_log := cmd_log s @ [(cmd, status)]\<rparr>)))"
| "srv_step asserts fuel env s Worker_free =
     (case leftover s of
        None \<Rightarrow> None
      | Some h \<Rightarrow>
          if in_callback s then None
          else map_option (\<lambda>p. (Finished, s\<lparr>ps := p, leftover := None\<rparr>)) (free_command (ps s) (CMD_ADD_CHANNEL h)))"
| "srv_step asserts fuel env s Worker_pass =
     (if \<not> worker_idle s then None
      else
        (case worker_pass fuel env (tick_ns (ps s)) (srv (ps s)) (next_tick_ns s) (world s) of
           None \<Rightarrow> None
         | Some ((wait, t, sv), w) \<Rightarrow>
             Some (Finished, s\<lparr>ps := (ps s)\<lparr>srv := sv\<rparr>, next_tick_ns := t, world := w\<rparr>)))"
| "srv_step asserts fuel env s Worker_exit =
     (if exited s \<or> \<not> stop_seen s \<or> batch s \<noteq> [] \<or> leftover s \<noteq> None then None
      else Some (Finished, s\<lparr>exited := True\<rparr>))"

section \<open>Invariant\<close>

fun caller_cmd :: "srv_caller \<Rightarrow> sockaddr server_cmd" where
  "caller_cmd (Creating h) = CMD_ADD_CHANNEL h"
| "caller_cmd (Closing h) = CMD_REMOVE_CHANNEL h True"
| "caller_cmd (Targeting h addr) = CMD_SET_TARGET h addr"
| "caller_cmd Dropping = CMD_DROP_CHANNELS"

text \<open>The commands that were enqueued and not yet processed, and those of them that somebody waits for.\<close>

definition queued :: "('cb, 'w) srv_sys \<Rightarrow> sockaddr server_cmd list" where
  "queued s = batch s @ cmd_list (ps s)"

definition pending :: "('cb, 'w) srv_sys \<Rightarrow> sockaddr server_cmd list" where
  "pending s = filter has_waiter (queued s)"

definition answered :: "('cb, 'w) srv_sys \<Rightarrow> bool" where
  "answered s \<longleftrightarrow> w_done (cmd_waiter (ps s))"

definition served :: "('cb, 'w) srv_sys \<Rightarrow> bool" where
  "served s \<longleftrightarrow> (case callers s of
      [] \<Rightarrow> \<not> cmd_waiter_busy (ps s) \<and> pending s = []
    | [c] \<Rightarrow> cmd_waiter_busy (ps s) \<and>
        (if answered s
         then pending s = [] \<and> (caller_cmd c, w_status (cmd_waiter (ps s))) \<in> set (cmd_log s)
         else pending s = [caller_cmd c])
    | _ \<Rightarrow> False)"

text \<open>
  Who has references to a channel: the program, the registry, a command that adds it, whether it is queued or only not yet freed, the thread that
  creates it, the thread that closes it once the worker has handed over the registry's reference, and nobody.
\<close>

fun caller_ref :: "bool \<Rightarrow> chan_addr \<Rightarrow> srv_caller \<Rightarrow> nat" where
  "caller_ref ans h (Creating h') = (if h' = h then 1 else 0)"
| "caller_ref ans h (Closing h') = (if h' = h \<and> ans then 1 else 0)"
| "caller_ref ans h c = 0"

definition registered :: "('cb, 'w) srv_sys \<Rightarrow> chan_addr list" where
  "registered s = members (chans (srv (ps s)))"

definition refs_to :: "('cb, 'w) srv_sys \<Rightarrow> chan_addr \<Rightarrow> nat" where
  "refs_to s h = held s h + count_list (registered s) h + count_list (queued s) (CMD_ADD_CHANNEL h) +
     (if leftover s = Some h then 1 else 0) + sum_list (map (caller_ref (answered s) h) (callers s)) + leaked s h"

definition mem_ok :: "('cb, 'w) srv_sys \<Rightarrow> bool" where
  "mem_ok s \<longleftrightarrow> server_ok 0 (srv (ps s)) \<and> counted (srv (ps s)) (refs_to s)"

text \<open>
  The order of commands for the same channel: it is added before it can be closed, and once a callback has closed it, no
  other thread does.
\<close>

fun cmd_order :: "sockaddr server_cmd \<Rightarrow> sockaddr server_cmd \<Rightarrow> bool" where
  "cmd_order (CMD_ADD_CHANNEL h) (CMD_REMOVE_CHANNEL h' waits) \<longleftrightarrow> h \<noteq> h'"
| "cmd_order (CMD_REMOVE_CHANNEL h False) (CMD_REMOVE_CHANNEL h' True) \<longleftrightarrow> h \<noteq> h'"
| "cmd_order c c' \<longleftrightarrow> True"

definition order_ok :: "('cb, 'w) srv_sys \<Rightarrow> bool" where
  "order_ok s \<longleftrightarrow> sorted_wrt cmd_order (queued s) \<and>
     (\<forall>h. CMD_REMOVE_CHANNEL h False \<in> set (queued s) \<longrightarrow>
        CMD_ADD_CHANNEL h \<in> set (queued s) \<or> (\<forall>ch. heap (srv (ps s)) h = Some ch \<longrightarrow> ch_closed ch))"

text \<open>An open channel of a server that accepts commands is registered, or a thread is just creating or closing it.\<close>

definition open_ok :: "('cb, 'w) srv_sys \<Rightarrow> bool" where
  "open_ok s \<longleftrightarrow> (\<forall>h ch. heap (srv (ps s)) h = Some ch \<longrightarrow> \<not> ch_closed ch \<longrightarrow> accepting_commands (ps s) \<longrightarrow>
     h \<in> set (registered s) \<or> Creating h \<in> set (callers s) \<or> Closing h \<in> set (callers s))"

fun caller_ok :: "('cb, 'w) srv_sys \<Rightarrow> srv_caller \<Rightarrow> bool" where
  "caller_ok s (Creating h) \<longleftrightarrow> held s h = 0 \<and> (\<forall>ch. heap (srv (ps s)) h = Some ch \<longrightarrow> \<not> ch_closed ch) \<and>
     (if answered s then w_status (cmd_waiter (ps s)) = 0 \<longrightarrow> h \<in> set (registered s) else h \<notin> set (registered s))"
| "caller_ok s (Closing h) \<longleftrightarrow> 0 < held s h \<and>
     (if answered s then w_status (cmd_waiter (ps s)) = 0 else h \<in> set (registered s))"
| "caller_ok s (Targeting h addr) \<longleftrightarrow> 0 < held s h"
| "caller_ok s Dropping \<longleftrightarrow> \<not> accepting_commands (ps s)"

definition shut_ok :: "('cb, 'w) srv_sys \<Rightarrow> bool" where
  "shut_ok s \<longleftrightarrow> (shutdown_queued (ps s) \<longleftrightarrow> stop_seen s \<or> CMD_STOP_WORKER \<in> set (queued s)) \<and>
     (shutdown_queued (ps s) \<longrightarrow> callers s = [] \<and> (\<forall>h. heap (srv (ps s)) h = None) \<and> \<not> accepting_commands (ps s) \<and> srv_held s = 0) \<and>
     (\<not> shutdown_queued (ps s) \<longrightarrow> worker_running (ps s)) \<and> (joining s \<longrightarrow> shutdown_queued (ps s)) \<and>
     (exited s \<longrightarrow> stop_seen s \<and> batch s = [] \<and> leftover s = None)"

definition base_ok :: "('cb, 'w) srv_sys \<Rightarrow> bool" where
  "base_ok s \<longleftrightarrow> server_inited (ps s) \<and> 0 < tick_ns (ps s) \<and> \<not> in_callback s \<and>
     (\<forall>h. heap (srv (ps s)) h \<noteq> None \<longrightarrow> h \<in> set (used s))"

definition srv_inv :: "('cb, 'w) srv_sys \<Rightarrow> bool" where
  "srv_inv s \<longleftrightarrow> base_ok s \<and> served s \<and> mem_ok s \<and> order_ok s \<and> open_ok s \<and> (\<forall>c \<in> set (callers s). caller_ok s c) \<and> shut_ok s"

lemma srv_invD:
  assumes "srv_inv s"
  shows "base_ok s" "served s" "server_ok 0 (srv (ps s))" "counted (srv (ps s)) (refs_to s)" "order_ok s" "open_ok s"
    "\<And>c. c \<in> set (callers s) \<Longrightarrow> caller_ok s c" "shut_ok s" "server_inited (ps s)" "heap_ok (srv (ps s))"
  using assms by (auto simp: srv_inv_def mem_ok_def base_ok_def heap_ok_def server_ok_def)

lemma srv_invI:
  assumes "base_ok s" "served s" "server_ok 0 (srv (ps s))" "counted (srv (ps s)) (refs_to s)" "order_ok s" "open_ok s"
    "\<And>c. c \<in> set (callers s) \<Longrightarrow> caller_ok s c" "shut_ok s"
  shows "srv_inv s"
  using assms by (auto simp: srv_inv_def mem_ok_def)

subsection \<open>Steps that change little\<close>

lemmas view_defs = queued_def pending_def answered_def registered_def

text \<open>
  What the invariant depends on: of the heap only which objects there are, their counts and whether they are closed; of the
  waiter nothing when nobody waits.
\<close>

definition alike :: "(chan_addr \<Rightarrow> ('cb, 'a) rtp_channel option) \<Rightarrow> (chan_addr \<Rightarrow> ('cb, 'a) rtp_channel option) \<Rightarrow> bool" where
  "alike hp hp' \<longleftrightarrow> (\<forall>h. map_option (\<lambda>ch. (ob_refcnt ch, ch_closed ch)) (hp' h) = map_option (\<lambda>ch. (ob_refcnt ch, ch_closed ch)) (hp h))"

definition flags :: "'cb py_server \<Rightarrow> bool \<times> bool \<times> bool \<times> bool \<times> bool \<times> u64" where
  "flags p = (server_inited p, cmd_waiter_busy p, accepting_commands p, shutdown_queued p, worker_running p, tick_ns p)"

lemma alikeD:
  assumes "alike hp hp'"
  shows "hp' h = None \<longleftrightarrow> hp h = None" "hp' h = Some ch' \<Longrightarrow> \<exists>ch. hp h = Some ch \<and> ob_refcnt ch' = ob_refcnt ch \<and> ch_closed ch' = ch_closed ch"
    "hp h = Some ch \<Longrightarrow> \<exists>ch'. hp' h = Some ch' \<and> ob_refcnt ch' = ob_refcnt ch \<and> ch_closed ch' = ch_closed ch"
  using assms unfolding alike_def by (auto dest!: spec [of _ h] simp: map_option_case split: option.splits)

lemma alike_refl: "alike hp hp"
  by (simp add: alike_def)

lemma alike_put: "hp h = Some ch \<Longrightarrow> ob_refcnt ch' = ob_refcnt ch \<Longrightarrow> ch_closed ch' = ch_closed ch \<Longrightarrow> alike hp (hp(h \<mapsto> ch'))"
  by (simp add: alike_def)

lemma counted_alike:
  assumes "counted sv rf" "alike (heap sv) (heap sv')"
  shows "counted sv' rf"
  unfolding counted_def
proof
  fix h
  have "case heap sv h of None \<Rightarrow> rf h = 0 | Some ch \<Rightarrow> ob_refcnt ch = rf h \<and> 0 < rf h"
    using assms(1) unfolding counted_def by (rule spec)
  then show "case heap sv' h of None \<Rightarrow> rf h = 0 | Some ch \<Rightarrow> ob_refcnt ch = rf h \<and> 0 < rf h"
    using alikeD [OF assms(2), of h] by (cases "heap sv' h") auto
qed

lemma srv_served_cong:
  assumes "pending s' = pending s" "callers s' = callers s" "cmd_waiter_busy (ps s') = cmd_waiter_busy (ps s)"
    "cmd_waiter (ps s') = cmd_waiter (ps s)" "cmd_log s' = cmd_log s"
  shows "served s' = served s"
  unfolding served_def answered_def assms by (rule refl)

lemma srv_view_cong:
  assumes inv: "srv_inv s" and sv: "server_ok 0 (srv (ps s'))" "chans (srv (ps s')) = chans (srv (ps s))"
      "alike (heap (srv (ps s))) (heap (srv (ps s')))"
    and ps: "flags (ps s') = flags (ps s)" "queued s' = queued s"
      "callers s = [] \<or> cmd_waiter (ps s') = cmd_waiter (ps s)"
    and sys: "callers s' = callers s" "joining s' = joining s" "leftover s' = leftover s" "stop_seen s' = stop_seen s"
      "in_callback s' = in_callback s" "held s' = held s" "srv_held s' = srv_held s" "leaked s' = leaked s" "used s' = used s"
      "cmd_log s' = cmd_log s" "exited s' \<longrightarrow> stop_seen s' \<and> batch s' = [] \<and> leftover s' = None"
  shows "srv_inv s'"
proof -
  note i = srv_invD [OF inv]
  have v: "queued s' = queued s" "pending s' = pending s" "registered s' = registered s" using sv ps by (simp_all add: pending_def registered_def)
  have a: "callers s = [] \<or> answered s' = answered s \<and> w_status (cmd_waiter (ps s')) = w_status (cmd_waiter (ps s))"
    using ps(3) by (auto simp: answered_def)
  then have r: "refs_to s' = refs_to s" by (auto simp: refs_to_def v sys)
  have p: "server_inited (ps s') = server_inited (ps s)" "cmd_waiter_busy (ps s') = cmd_waiter_busy (ps s)"
    "accepting_commands (ps s') = accepting_commands (ps s)" "shutdown_queued (ps s') = shutdown_queued (ps s)"
    "worker_running (ps s') = worker_running (ps s)" "tick_ns (ps s') = tick_ns (ps s)" using ps(1) by (simp_all add: flags_def)
  have h: "heap (srv (ps s')) h = None \<longleftrightarrow> heap (srv (ps s)) h = None" for h using alikeD(1) [OF sv(3)] .
  have c: "\<exists>ch. heap (srv (ps s)) h = Some ch \<and> ch_closed ch' = ch_closed ch" if "heap (srv (ps s')) h = Some ch'" for h ch'
    using alikeD(2) [OF sv(3) that] by blast
  show ?thesis
  proof (rule srv_invI)
    show "base_ok s'" using i(1) by (simp add: base_ok_def p sys h)
    show "served s'" using i(2) a by (auto simp: served_def v sys p split: list.splits)
    show "server_ok 0 (srv (ps s'))" by (rule sv(1))
    show "counted (srv (ps s')) (refs_to s')" unfolding r using counted_alike [OF i(4) sv(3)] .
    show "order_ok s'" using i(5) c by (fastforce simp: order_ok_def v)
    show "open_ok s'" using i(6) c by (fastforce simp: open_ok_def v sys p)
    show "caller_ok s' x" if "x \<in> set (callers s')" for x
    proof -
      have "caller_ok s x" "answered s' = answered s" "w_status (cmd_waiter (ps s')) = w_status (cmd_waiter (ps s))"
        using i(7) [of x] that a by (auto simp: sys)
      then show ?thesis using c by (cases x) (auto simp: v sys p)
    qed
    show "shut_ok s'" using i(8) sys(11) unfolding shut_ok_def v p h sys(1-10) by blast
  qed
qed

text \<open>Nothing that the invariant speaks of, but the waiter when nobody uses it and the record of what left the process.\<close>

lemma served_busy: "served s \<Longrightarrow> callers s = [] \<or> cmd_waiter_busy (ps s)"
  by (auto simp: served_def split: list.splits)

lemma srv_quiet_sys:
  assumes "srv_inv s" "quiet (ps s) p'"
  shows "srv_inv (s\<lparr>ps := p'\<rparr>)"
proof -
  obtain w l where p': "p' = (ps s)\<lparr>cmd_waiter := w, srv := (srv (ps s))\<lparr>io_log := l\<rparr>\<rparr>"
    and w: "cmd_waiter_busy (ps s) \<longrightarrow> w = cmd_waiter (ps s)" using assms(2) by (auto simp: quiet_def)
  show ?thesis
    by (rule srv_view_cong [OF assms(1)]) (use srv_invD(3,8) [OF assms(1)] served_busy [OF srv_invD(2) [OF assms(1)]] w in
      \<open>auto simp: p' server_ok_def flags_def alike_refl queued_def shut_ok_def\<close>)
qed

subsection \<open>Calls that block\<close>

lemma idle_facts:
  assumes "srv_inv s" "\<not> cmd_waiter_busy (ps s)"
  shows "callers s = []" "pending s = []" "CMD_ADD_CHANNEL h \<notin> set (queued s)" "CMD_REMOVE_CHANNEL h True \<notin> set (queued s)"
proof -
  show c: "callers s = []" and p: "pending s = []"
    using assms(2) srv_invD(2) [OF assms(1)] by (auto simp: served_def split: list.splits)
  have "has_waiter x \<Longrightarrow> x \<notin> set (queued s)" for x using p by (auto simp: pending_def filter_empty_conv)
  then show "CMD_ADD_CHANNEL h \<notin> set (queued s)" "CMD_REMOVE_CHANNEL h True \<notin> set (queued s)" by auto
qed

lemma accepting_facts:
  assumes "srv_inv s" "accepting_commands (ps s)"
  shows "\<not> shutdown_queued (ps s)" "\<not> stop_seen s" "CMD_STOP_WORKER \<notin> set (queued s)" "\<not> joining s" "\<not> exited s"
  using srv_invD(8) [OF assms(1)] assms(2) by (auto simp: shut_ok_def)

lemma waiter_cmds: "has_waiter (caller_cmd c)" "caller_cmd c \<noteq> CMD_STOP_WORKER" "CMD_REMOVE_CHANNEL h False \<noteq> caller_cmd c"
  by (cases c; simp)+

text \<open>
  The waiter is free and the server accepts commands: a call enqueues its command and waits. What remains to be shown depends on the call.
\<close>

lemma start_call:
  assumes inv: "srv_inv s" and idle: "\<not> cmd_waiter_busy (ps s)" "accepting_commands (ps s)"
    and s': "s' = s\<lparr>ps := takes_waiter (caller_cmd c) p, callers := callers s @ [c], used := u\<rparr>"
    and p: "server_inited p = server_inited (ps s)" "tick_ns p = tick_ns (ps s)" "shutdown_queued p = shutdown_queued (ps s)"
      "worker_running p = worker_running (ps s)" "cmd_list p = cmd_list (ps s)" "chans (srv p) = chans (srv (ps s))"
    and mem: "server_ok 0 (srv p)" "counted (srv p) (refs_to s')"
    and heap: "\<And>h. heap (srv p) h \<noteq> None \<Longrightarrow> h \<in> set u"
      "\<And>h ch. heap (srv p) h = Some ch \<Longrightarrow> c \<noteq> Creating h \<Longrightarrow> \<exists>ch'. heap (srv (ps s)) h = Some ch' \<and> ch_closed ch = ch_closed ch'"
    and order: "\<And>x. x \<in> set (queued s) \<Longrightarrow> cmd_order x (caller_cmd c)" and caller: "caller_ok s' c" and acc: "accepting_commands p \<Longrightarrow> accepting_commands (ps s)"
  shows "srv_inv s'"
proof -
  note i = srv_invD [OF inv] and f = idle_facts [OF inv idle(1)] and g = accepting_facts [OF inv idle(2)]
  have q: "queued s' = queued s @ [caller_cmd c]" "pending s' = [caller_cmd c]" "callers s' = [c]" "\<not> answered s'" "registered s' = registered s"
    using f(1,2) waiter_cmds(1) [of c] p by (auto simp: s' takes_waiter_def view_defs rtp_sync_waiter_reset_def)
  have hs: "heap (srv (ps s')) = heap (srv p)" by (simp add: s' takes_waiter_def)
  have closed: "ch_closed ch" if "CMD_REMOVE_CHANNEL h False \<in> set (queued s)" "heap (srv p) h = Some ch" "c \<noteq> Creating h" for h ch
  proof -
    from heap(2) [OF that(2,3)] obtain ch' where "heap (srv (ps s)) h = Some ch'" "ch_closed ch = ch_closed ch'" by blast
    then show ?thesis using i(5) that(1) f(3) [of h] by (auto simp: order_ok_def)
  qed
  have "CMD_REMOVE_CHANNEL h False \<in> set (queued s) \<longrightarrow>
      CMD_ADD_CHANNEL h \<in> set (queued s') \<or> (\<forall>ch. heap (srv (ps s')) h = Some ch \<longrightarrow> ch_closed ch)" for h
    using closed [of h] unfolding hs by (cases "c = Creating h") (auto simp: q)
  then have "order_ok s'" using i(5) order waiter_cmds(3) [of _ c] unfolding order_ok_def q(1)
    by (auto simp: sorted_wrt_append q(1))
  moreover have "open_ok s'" unfolding open_ok_def
  proof (intro allI impI)
    fix h ch assume a: "heap (srv (ps s')) h = Some ch" "\<not> ch_closed ch" "accepting_commands (ps s')"
    show "h \<in> set (registered s') \<or> Creating h \<in> set (callers s') \<or> Closing h \<in> set (callers s')"
    proof (cases "c = Creating h")
      case False
      with a heap(2) [of h ch] obtain ch' where "heap (srv (ps s)) h = Some ch'" "\<not> ch_closed ch'" by (auto simp: s' takes_waiter_def)
      then show ?thesis using i(6) f(1) idle(2) by (auto simp: open_ok_def q)
    qed (simp add: q)
  qed
  moreover have "shut_ok s'" using i(8) g waiter_cmds(2) [of c] p unfolding shut_ok_def q(1) by (auto simp: s' takes_waiter_def)
  moreover have "base_ok s'" using i(1) heap(1) p(1,2) by (auto simp: base_ok_def s' takes_waiter_def)
  moreover have "served s'" unfolding served_def q(2,3) using q(4) by (simp add: s' takes_waiter_def)
  ultimately show ?thesis using mem caller q(3) by (intro srv_invI) (auto simp: s' takes_waiter_def)
qed

lemma refs_start:
  assumes "srv_inv s" "\<not> cmd_waiter_busy (ps s)" "s' = s\<lparr>ps := takes_waiter (caller_cmd c) p, callers := callers s @ [c], used := u\<rparr>"
    "cmd_list p = cmd_list (ps s)" "chans (srv p) = chans (srv (ps s))"
  shows "refs_to s' h = refs_to s h + (if c = Creating h then 2 else 0)"
  using idle_facts(1) [OF assms(1,2)] assms(3-5)
  by (cases c) (auto simp: refs_to_def view_defs takes_waiter_def rtp_sync_waiter_reset_def)

lemma refs_held: "srv_inv s \<Longrightarrow> 0 < held s h \<Longrightarrow> \<exists>ch. heap (srv (ps s)) h = Some ch \<and> ob_refcnt ch = refs_to s h \<and> 0 < refs_to s h"
  using counted_alive [OF srv_invD(4), of s h] by (auto simp: refs_to_def)

text \<open>The two calls that leave the channels alone.\<close>

lemma start_plain_call:
  assumes inv: "srv_inv s" and idle: "\<not> cmd_waiter_busy (ps s)" "accepting_commands (ps s)" and held: "0 < held s h"
    and c: "c = Targeting h addr \<or> c = Closing h \<and> (\<forall>ch. heap (srv (ps s)) h = Some ch \<longrightarrow> \<not> ch_closed ch)"
  shows "srv_inv (s\<lparr>ps := takes_waiter (caller_cmd c) (ps s), callers := callers s @ [c]\<rparr>)" (is "srv_inv ?s")
proof -
  note i = srv_invD [OF inv] and f = idle_facts [OF inv idle(1)]
  have s': "?s = s\<lparr>ps := takes_waiter (caller_cmd c) (ps s), callers := callers s @ [c], used := used s\<rparr>" by simp
  have r: "refs_to ?s = refs_to s" using refs_start [OF inv idle(1) s'] c by auto
  from refs_held [OF inv held] obtain ch where ch: "heap (srv (ps s)) h = Some ch" by blast
  have o: "cmd_order x (caller_cmd c)" if "x \<in> set (queued s)" for x
  proof (cases "c = Closing h")
    case True
    then have "x \<noteq> CMD_REMOVE_CHANNEL h False" "x \<noteq> CMD_ADD_CHANNEL h" using c ch i(5) f(3) [of h] that by (auto simp: order_ok_def)
    then show ?thesis using True by (cases "(x, caller_cmd c)" rule: cmd_order.cases) auto
  next
    case False
    then show ?thesis using c by (cases "(x, caller_cmd c)" rule: cmd_order.cases) auto
  qed
  have k: "caller_ok ?s c"
  proof (cases "c = Closing h")
    case True
    then have "h \<in> set (registered s)" using i(6) ch c idle f(1) by (auto simp: open_ok_def)
    then show ?thesis using True held by (simp add: registered_def takes_waiter_def answered_def rtp_sync_waiter_reset_def)
  next
    case False
    then show ?thesis using c held by simp
  qed
  show ?thesis
    by (rule start_call [OF inv idle s' _ _ _ _ _ _ _ _ _ _ o k]) (use i(1,3,4) in \<open>auto simp: r base_ok_def\<close>)
qed

lemma counted_put:
  assumes "counted sv rf" "ob_refcnt ch' = k" "0 < k"
  shows "counted (sv\<lparr>heap := (heap sv)(h \<mapsto> ch')\<rparr>) (rf(h := k))"
  unfolding counted_def
proof
  fix x
  have "case heap sv x of None \<Rightarrow> rf x = 0 | Some ch \<Rightarrow> ob_refcnt ch = rf x \<and> 0 < rf x"
    using assms(1) unfolding counted_def by (rule spec)
  then show "case heap (sv\<lparr>heap := (heap sv)(h \<mapsto> ch')\<rparr>) x of
      None \<Rightarrow> (rf(h := k)) x = 0 | Some ch \<Rightarrow> ob_refcnt ch = (rf(h := k)) x \<and> 0 < (rf(h := k)) x"
    using assms(2,3) by (cases "x = h") (auto split: option.splits)
qed

lemma refs_fresh: "srv_inv s \<Longrightarrow> heap (srv (ps s)) h = None \<Longrightarrow> refs_to s h = 0 \<and> held s h = 0 \<and> h \<notin> set (registered s)"
  using counted_dead [OF srv_invD(4), of s h] by (auto simp: refs_to_def count_list_0_iff)

lemma server_ok_new:
  assumes "server_ok n sv" "heap sv h = None" "chan_ok n ch"
  shows "server_ok n (sv\<lparr>heap := (heap sv)(h \<mapsto> ch)\<rparr>)"
proof -
  note k = server_okD [OF assms(1)]
  have "h \<notin> set (members (chans sv))" using k(4) [of h] assms(2) by auto
  then have "map (\<lambda>x. (ch_fd (the (((heap sv)(h \<mapsto> ch)) x)), x)) (members (chans sv)) = map (\<lambda>x. (ch_fd (the (heap sv x)), x)) (members (chans sv))"
    by (intro map_cong) auto
  then show ?thesis using k assms(3) by (auto simp: server_ok_def)
qed

lemma start_create:
  assumes inv: "srv_inv s" and idle: "\<not> cmd_waiter_busy (ps s)" "accepting_commands (ps s)"
    and h: "heap (srv (ps s)) h = None" "chan_ok 0 ch" "ob_refcnt ch = 2" "\<not> ch_closed ch"
  shows "srv_inv (s\<lparr>ps := takes_waiter (CMD_ADD_CHANNEL h) (chan_put (ps s) h ch), callers := callers s @ [Creating h], used := used s @ [h]\<rparr>)"
    (is "srv_inv ?s")
proof -
  let ?p = "chan_put (ps s) h ch"
  note i = srv_invD [OF inv] and r0 = refs_fresh [OF inv h(1)]
  have s': "?s = s\<lparr>ps := takes_waiter (caller_cmd (Creating h)) ?p, callers := callers s @ [Creating h], used := used s @ [h]\<rparr>" by simp
  have r: "refs_to ?s x = (if x = h then 2 else refs_to s x)" for x
    using refs_start [OF inv idle(1) s', of x] r0 by (auto simp: chan_put_def)
  then have rf: "refs_to ?s = (refs_to s)(h := 2)" by auto
  have sv: "server_ok 0 (srv ?p)" using server_ok_new [OF i(3) h(1,2)] by (simp add: chan_put_def)
  have cnt: "counted (srv ?p) (refs_to ?s)"
    using counted_put [OF i(4) h(3)] unfolding rf by (simp add: chan_put_def)
  have o: "cmd_order x (caller_cmd (Creating h))" if "x \<in> set (queued s)" for x
    by (cases "(x, caller_cmd (Creating h))" rule: cmd_order.cases) auto
  have k: "caller_ok ?s (Creating h)" using r0 h(4) by (auto simp: registered_def takes_waiter_def chan_put_def answered_def rtp_sync_waiter_reset_def)
  show ?thesis
    by (rule start_call [OF inv idle s' _ _ _ _ _ _ sv cnt _ _ o k]) (use i(1) in \<open>auto simp: chan_put_def base_ok_def split: if_splits\<close>)
qed

lemma start_drop:
  assumes inv: "srv_inv s" and idle: "\<not> cmd_waiter_busy (ps s)" "accepting_commands (ps s)"
  shows "srv_inv (s\<lparr>ps := takes_waiter CMD_DROP_CHANNELS ((ps s)\<lparr>accepting_commands := False\<rparr>), callers := callers s @ [Dropping]\<rparr>)"
    (is "srv_inv ?s")
proof -
  let ?p = "(ps s)\<lparr>accepting_commands := False\<rparr>"
  note i = srv_invD [OF inv]
  have s': "?s = s\<lparr>ps := takes_waiter (caller_cmd Dropping) ?p, callers := callers s @ [Dropping], used := used s\<rparr>" by simp
  have r: "refs_to ?s = refs_to s" using refs_start [OF inv idle(1) s'] by auto
  have o: "cmd_order x (caller_cmd Dropping)" if "x \<in> set (queued s)" for x
    by (cases "(x, caller_cmd Dropping)" rule: cmd_order.cases) auto
  have k: "caller_ok ?s Dropping" by (simp add: takes_waiter_def)
  show ?thesis
    by (rule start_call [OF inv idle s' _ _ _ _ _ _ _ _ _ _ o k]) (use i(1,3,4) in \<open>auto simp: r base_ok_def\<close>)
qed

subsection \<open>References of the program\<close>

lemma server_ok_put:
  assumes "server_ok n sv" "heap sv h = Some ch" "ch_fd ch' = ch_fd ch" "chan_ok n ch'"
  shows "server_ok n (sv\<lparr>heap := (heap sv)(h \<mapsto> ch')\<rparr>)"
proof -
  have "map (\<lambda>x. (ch_fd (the (((heap sv)(h \<mapsto> ch')) x)), x)) (members (chans sv)) = map (\<lambda>x. (ch_fd (the (heap sv x)), x)) (members (chans sv))"
    using assms(2,3) by (intro map_cong) auto
  then show ?thesis using server_okD [OF assms(1)] assms(2,4) by (auto simp: server_ok_def)
qed

lemma server_ok_lowered:
  assumes "server_ok n sv" "n = 0" "counted sv rf" "0 < rf h" "rf h = 1 \<Longrightarrow> h \<notin> set (members (chans sv))"
  shows "server_ok n (sv\<lparr>heap := lowered (heap sv) h (rf h), io_log := l\<rparr>)"
proof -
  from counted_alive [OF assms(3,4)] obtain ch where ch: "heap sv h = Some ch" by blast
  have "chan_ok n ch" using server_okD(3) [OF assms(1) ch] .
  have "map (\<lambda>x. (ch_fd (the (lowered (heap sv) h (rf h) x)), x)) (members (chans sv)) = map (\<lambda>x. (ch_fd (the (heap sv x)), x)) (members (chans sv))"
    using assms(5) ch by (intro map_cong) (auto simp: lowered_def)
  then show ?thesis using server_okD [OF assms(1)] assms(5) ch \<open>chan_ok n ch\<close>
    by (auto simp: server_ok_def lowered_def split: if_splits)
qed

text \<open>
  The server's data change, and who holds what; the calls and commands stay. A channel that the program holds is not
  one that is being created.
\<close>

lemma change_refs:
  assumes inv: "srv_inv s" and s': "s' = s\<lparr>ps := (ps s)\<lparr>srv := sv\<rparr>, held := hl, leftover := lo\<rparr>" and lo: "lo = leftover s \<or> lo = None"
    and chans: "chans sv = chans (srv (ps s))" and mem: "server_ok 0 sv" "counted sv (refs_to s')"
    and heap: "shrunk (heap (srv (ps s))) (heap sv)"
    and held: "\<And>h. Creating h \<in> set (callers s) \<Longrightarrow> hl h = 0" "\<And>h. Closing h \<in> set (callers s) \<Longrightarrow> 0 < hl h"
      "\<And>h a. Targeting h a \<in> set (callers s) \<Longrightarrow> 0 < hl h"
  shows "srv_inv s'"
proof -
  note i = srv_invD [OF inv]
  have v: "queued s' = queued s" "pending s' = pending s" "answered s' = answered s" "registered s' = registered s" "callers s' = callers s"
    by (simp_all add: s' view_defs chans)
  have c: "\<exists>ch. heap (srv (ps s)) h = Some ch \<and> ch_closed ch' = ch_closed ch" if "heap sv h = Some ch'" for h ch'
    using heap that by (auto simp: shrunk_def)
  have n: "heap sv h = None" if "heap (srv (ps s)) h = None" for h using c [of h] that by (cases "heap sv h") auto
  show ?thesis
  proof (rule srv_invI)
    have "h \<in> set (used s)" if "heap sv h \<noteq> None" for h using i(1) n [of h] that unfolding base_ok_def by metis
    then show "base_ok s'" using i(1) by (simp add: base_ok_def s')
    have "served s' = served s" by (rule srv_served_cong [OF v(2,5)]) (simp_all add: s')
    then show "served s'" using i(2) by simp
    show "server_ok 0 (srv (ps s'))" "counted (srv (ps s')) (refs_to s')" using mem by (simp_all add: s')
    show "order_ok s'" using i(5) c unfolding order_ok_def v by (fastforce simp: s')
    show "open_ok s'" using i(6) c unfolding open_ok_def v by (fastforce simp: s')
    show "shut_ok s'" using i(8) n lo unfolding shut_ok_def v by (auto simp: s')
    show "caller_ok s' x" if "x \<in> set (callers s')" for x
    proof -
      have x: "x \<in> set (callers s)" "caller_ok s x" using that i(7) [of x] by (simp_all add: v(5))
      have w: "cmd_waiter (ps s') = cmd_waiter (ps s)" "heap (srv (ps s')) = heap sv" "held s' = hl" "accepting_commands (ps s') = accepting_commands (ps s)"
        by (simp_all add: s')
      show ?thesis by (cases x rule: srv_caller.exhaust) (use x held in \<open>auto simp: v w dest!: c\<close>)
    qed
  qed
qed

lemma refs_change:
  assumes "s' = s\<lparr>ps := (ps s)\<lparr>srv := sv\<rparr>, held := (held s)(h := k), leftover := leftover s\<rparr>" "chans sv = chans (srv (ps s))"
  shows "refs_to s' = (refs_to s)(h := refs_to s h - held s h + k)"
  using assms by (auto simp: refs_to_def view_defs)

lemma refs_ge_held: "held s h \<le> refs_to s h"
  by (simp add: refs_to_def)

lemma not_creating: "srv_inv s \<Longrightarrow> 0 < held s h \<Longrightarrow> Creating h \<notin> set (callers s)"
  using srv_invD(7) [of s "Creating h"] by auto

text \<open>A count of 1 that is the program's means that the channel is closed, or the server is.\<close>

lemma last_ref:
  assumes inv: "srv_inv s" and one: "refs_to s h = 1" and ch: "heap (srv (ps s)) h = Some ch"
    and other: "h \<notin> set (registered s)" "Creating h \<notin> set (callers s)" "Closing h \<notin> set (callers s)"
  shows "ch_closed ch \<or> \<not> accepting_commands (ps s)"
  using srv_invD(6) [OF inv] ch other by (auto simp: open_ok_def)

lemma registered_refs: "h \<in> set (registered s) \<Longrightarrow> 0 < count_list (registered s) h"
  by (metis count_list_0_iff neq0_conv)

definition uses :: "('cb, 'w) srv_sys \<Rightarrow> chan_addr \<Rightarrow> nat" where
  "uses s h = (if list_ex (\<lambda>c. case c of Closing h' \<Rightarrow> h' = h | Targeting h' addr \<Rightarrow> h' = h | _ \<Rightarrow> False) (callers s) then 1 else 0)"

lemma uses_one: "Closing h \<in> set (callers s) \<Longrightarrow> uses s h = 1" "Targeting h a \<in> set (callers s) \<Longrightarrow> uses s h = 1"
  by (force simp: uses_def list_ex_iff)+

lemma drop_sys:
  assumes inv: "srv_inv s" and held: "uses s h < held s h"
  shows "\<exists>p. chan_decref (ps s) h = Some p \<and> srv_inv (s\<lparr>ps := p, held := (held s)(h := held s h - 1)\<rparr>)"
proof -
  note i = srv_invD [OF inv]
  have h: "0 < held s h" using held by simp
  from refs_held [OF inv h] obtain ch where ch: "heap (srv (ps s)) h = Some ch" "0 < refs_to s h" by blast
  have one: "h \<notin> set (registered s)" "Closing h \<notin> set (callers s)" if "refs_to s h = 1"
    using that h held registered_refs [of h s] uses_one(1) [of h s] by (auto simp: refs_to_def)
  have "ch_closed c \<or> \<not> accepting_commands (ps s)" if "refs_to s h = 1" "heap (srv (ps s)) h = Some c" for c
    using last_ref [OF inv that] one [OF that(1)] not_creating [OF inv h] by blast
  from unref_lowered [OF i(4,10) ch(2) this] obtain l where
    u: "rtp_channel_state_unref (accepting_commands (ps s)) (srv (ps s)) h =
      Some ((srv (ps s))\<lparr>heap := lowered (heap (srv (ps s))) h (refs_to s h), io_log := l\<rparr>)" by blast
  let ?sv = "(srv (ps s))\<lparr>heap := lowered (heap (srv (ps s))) h (refs_to s h), io_log := l\<rparr>"
  let ?s = "s\<lparr>ps := (ps s)\<lparr>srv := ?sv\<rparr>, held := (held s)(h := held s h - 1), leftover := leftover s\<rparr>"
  have r: "refs_to ?s = (refs_to s)(h := refs_to s h - 1)" using refs_change [where s' = ?s and s = s and sv = ?sv and h = h and k = "held s h - 1"] h refs_ge_held [of s h] by simp
  have "srv_inv ?s"
  proof (rule change_refs [OF inv refl])
    show "server_ok 0 ?sv" using server_ok_lowered [OF i(3) refl i(4) ch(2)] one(1) by (simp add: registered_def)
    show "counted ?sv (refs_to ?s)" unfolding r using lowered_ok(1) [OF i(4,10) ch(2)] .
    show "shrunk (heap (srv (ps s))) (heap ?sv)" by (simp add: shrunk_lowered)
    show "((held s)(h := held s h - 1)) x = 0" if "Creating x \<in> set (callers s)" for x
      using i(7) [OF that] not_creating [OF inv h] that by auto
    show "0 < ((held s)(h := held s h - 1)) x" if "Closing x \<in> set (callers s)" for x
      using i(7) [OF that] held uses_one(1) [OF that] by auto
    show "0 < ((held s)(h := held s h - 1)) x" if "Targeting x a \<in> set (callers s)" for x a
      using i(7) [OF that] held uses_one(2) [OF that] by auto
  qed simp_all
  then show ?thesis using u by (simp add: chan_decref_def)
qed

lemma take_sys:
  assumes inv: "srv_inv s" and h: "0 < held s h"
  shows "\<exists>p. chan_incref (ps s) h = Some p \<and> srv_inv (s\<lparr>ps := p, held := (held s)(h := held s h + 1)\<rparr>)"
proof -
  note i = srv_invD [OF inv]
  from refs_held [OF inv h] obtain ch where ch: "heap (srv (ps s)) h = Some ch" "ob_refcnt ch = refs_to s h" "0 < refs_to s h" by blast
  let ?ch = "ch\<lparr>ob_refcnt := ob_refcnt ch + 1\<rparr>"
  let ?sv = "(srv (ps s))\<lparr>heap := (heap (srv (ps s)))(h \<mapsto> ?ch)\<rparr>"
  let ?s = "s\<lparr>ps := (ps s)\<lparr>srv := ?sv\<rparr>, held := (held s)(h := held s h + 1), leftover := leftover s\<rparr>"
  have r: "refs_to ?s = (refs_to s)(h := refs_to s h + 1)" using refs_change [where s' = ?s and s = s and sv = ?sv and h = h and k = "held s h + 1"] refs_ge_held [of s h] by simp
  have "srv_inv ?s"
  proof (rule change_refs [OF inv refl])
    show "server_ok 0 ?sv" using server_ok_put [OF i(3) ch(1), of ?ch] server_okD(3) [OF i(3) ch(1)] by simp
    show "counted ?sv (refs_to ?s)" unfolding r using counted_put [OF i(4), of ?ch "refs_to s h + 1"] ch(2) by simp
    show "shrunk (heap (srv (ps s))) (heap ?sv)" using ch(1) by (auto simp: shrunk_def)
    show "((held s)(h := held s h + 1)) x = 0" if "Creating x \<in> set (callers s)" for x
      using i(7) [OF that] not_creating [OF inv h] that by auto
    show "0 < ((held s)(h := held s h + 1)) x" if "Closing x \<in> set (callers s)" for x
      using i(7) [OF that] by auto
    show "0 < ((held s)(h := held s h + 1)) x" if "Targeting x a \<in> set (callers s)" for x a
      using i(7) [OF that] by auto
  qed simp_all
  then show ?thesis using ch(1) by (simp add: chan_incref_def chan_get_def chan_put_def)
qed

subsection \<open>Closing and returning\<close>

lemma pending_cmd:
  assumes "srv_inv s" "x \<in> set (queued s)" "has_waiter x"
  shows "\<exists>c. callers s = [c] \<and> x = caller_cmd c \<and> \<not> answered s \<and> pending s = [x]"
proof -
  have "x \<in> set (pending s)" using assms(2,3) by (simp add: pending_def)
  then show ?thesis using srv_invD(2) [OF assms(1)] by (auto simp: served_def split: list.splits if_splits)
qed

lemma caller_cmd_inj: "caller_cmd c = CMD_ADD_CHANNEL h \<longleftrightarrow> c = Creating h" "caller_cmd c = CMD_REMOVE_CHANNEL h True \<longleftrightarrow> c = Closing h"
  "caller_cmd c = CMD_SET_TARGET h a \<longleftrightarrow> c = Targeting h a" "caller_cmd c = CMD_DROP_CHANNELS \<longleftrightarrow> c = Dropping"
  by (cases c; auto)+

lemma held_not_added: "srv_inv s \<Longrightarrow> 0 < held s h \<Longrightarrow> CMD_ADD_CHANNEL h \<notin> set (queued s)"
  using pending_cmd [of s "CMD_ADD_CHANNEL h"] not_creating [of s h] by (auto dest!: arg_cong [where f = set] simp: caller_cmd_inj eq_commute [of "CMD_ADD_CHANNEL h"])

lemma mark_closed:
  assumes inv: "srv_inv s" and held: "0 < held s h" and ch: "heap (srv (ps s)) h = Some ch"
    and cmds: "cmds = [] \<or> cmds = [CMD_REMOVE_CHANNEL h False]"
  shows "srv_inv (s\<lparr>ps := chan_put ((ps s)\<lparr>cmd_list := cmd_list (ps s) @ cmds\<rparr>) h (ch\<lparr>ch_closed := True\<rparr>)\<rparr>)" (is "srv_inv ?s")
proof -
  note i = srv_invD [OF inv]
  let ?ch = "ch\<lparr>ch_closed := True\<rparr>"
  let ?sv = "(srv (ps s))\<lparr>heap := (heap (srv (ps s)))(h \<mapsto> ?ch)\<rparr>"
  have q: "queued ?s = queued s @ cmds" "pending ?s = pending s" "answered ?s = answered s" "registered ?s = registered s"
    using cmds by (auto simp: view_defs chan_put_def)
  have sv: "srv (ps ?s) = ?sv" by (simp add: chan_put_def)
  have r: "refs_to ?s = refs_to s" using cmds q by (auto simp: refs_to_def)
  have no_add: "CMD_ADD_CHANNEL h \<notin> set (queued s)" using held_not_added [OF inv held] .
  have "chan_ok 0 ?ch" using server_okD(3) [OF i(3) ch] by (simp add: chan_ok_def)
  then have mem: "server_ok 0 ?sv" using server_ok_put [OF i(3) ch] by simp
  have "ob_refcnt ch = refs_to s h" "0 < refs_to s h" using refs_held [OF inv held] ch by auto
  then have cnt: "counted ?sv (refs_to s)" using counted_put [OF i(4), of ?ch "refs_to s h" h] by (simp add: fun_upd_idem)
  have o: "cmd_order x (CMD_REMOVE_CHANNEL h False)" if "x \<in> set (queued s)" for x
    using that no_add by (cases "(x, CMD_REMOVE_CHANNEL h False :: sockaddr server_cmd)" rule: cmd_order.cases) auto
  show ?thesis
  proof (rule srv_invI)
    show "base_ok ?s" using i(1) ch by (auto simp: base_ok_def chan_put_def)
    show "served ?s" using i(2) srv_served_cong [OF q(2)] by (simp add: chan_put_def)
    show "server_ok 0 (srv (ps ?s))" unfolding sv by (rule mem)
    show "counted (srv (ps ?s)) (refs_to ?s)" unfolding sv r by (rule cnt)
    show "order_ok ?s" using i(5) o cmds unfolding order_ok_def q(1) sv by (auto simp: sorted_wrt_append)
    show "open_ok ?s" using i(6) unfolding open_ok_def q(4) sv by (auto simp: chan_put_def)
    show "shut_ok ?s" using i(8) cmds ch unfolding shut_ok_def q(1) sv by (auto simp: chan_put_def)
    show "caller_ok ?s x" if "x \<in> set (callers ?s)" for x
    proof -
      have x: "x \<in> set (callers s)" "caller_ok s x" using that i(7) [of x] by simp_all
      then have "x \<noteq> Creating h" using not_creating [OF inv held] by auto
      then show ?thesis by (cases x rule: srv_caller.exhaust) (use x in \<open>auto simp: answered_def registered_def chan_put_def split: if_splits\<close>)
    qed
  qed
qed

text \<open>The end of a call that was answered.\<close>

lemma end_call:
  assumes inv: "srv_inv s" and c: "callers s = c # rest" and ans: "answered s"
    and s': "s' = s\<lparr>ps := (ps s)\<lparr>cmd_waiter_busy := False, srv := sv\<rparr>, callers := rest, held := hl\<rparr>"
    and chans: "chans sv = chans (srv (ps s))" and mem: "server_ok 0 sv" "counted sv (refs_to s')"
    and heap: "\<And>h ch'. heap sv h = Some ch' \<Longrightarrow> \<exists>ch. heap (srv (ps s)) h = Some ch \<and> (ch_closed ch \<longrightarrow> ch_closed ch')"
    and opn: "\<And>h ch'. c = Creating h \<or> c = Closing h \<Longrightarrow> heap sv h = Some ch' \<Longrightarrow> \<not> ch_closed ch' \<Longrightarrow>
      accepting_commands (ps s) \<Longrightarrow> h \<in> set (registered s)"
  shows "srv_inv s'"
proof -
  note i = srv_invD [OF inv]
  have rest: "rest = []" "pending s = []" using i(2) c ans by (auto simp: served_def split: list.splits)
  have q: "queued s' = queued s" "pending s' = []" "registered s' = registered s" "callers s' = []"
    using rest by (simp_all add: s' view_defs chans)
  have noadd: "CMD_ADD_CHANNEL h \<notin> set (queued s)" for h using rest(2) by (auto simp: pending_def filter_empty_conv)
  have n: "heap (srv (ps s)) h \<noteq> None" if "heap sv h \<noteq> None" for h using heap [of h] that by auto
  show ?thesis
  proof (rule srv_invI)
    have "h \<in> set (used s)" if "heap sv h \<noteq> None" for h using i(1) n [OF that] by (simp add: base_ok_def)
    then show "base_ok s'" using i(1) by (simp add: base_ok_def s')
    show "served s'" using q by (simp add: served_def s')
    show "server_ok 0 (srv (ps s'))" "counted (srv (ps s')) (refs_to s')" using mem by (simp_all add: s')
    have "ch_closed ch" if "CMD_REMOVE_CHANNEL h False \<in> set (queued s)" "heap sv h = Some ch" for h ch
      using heap [OF that(2)] that(1) i(5) noadd [of h] by (auto simp: order_ok_def)
    then show "order_ok s'" using i(5) unfolding order_ok_def q by (auto simp: s')
    have "h \<in> set (registered s)" if "heap sv h = Some ch" "\<not> ch_closed ch" "accepting_commands (ps s)" for h ch
      using heap [OF that(1)] that i(6) opn [OF _ that] c rest(1) unfolding open_ok_def by auto
    then show "open_ok s'" unfolding open_ok_def q by (auto simp: s')
    show "caller_ok s' x" if "x \<in> set (callers s')" for x using that q by simp
    have "\<not> shutdown_queued (ps s)" using i(8) c by (auto simp: shut_ok_def)
    then show "shut_ok s'" using i(8) unfolding shut_ok_def q by (auto simp: s')
  qed
qed

lemma refs_end:
  assumes "srv_inv s" "callers s = c # rest" "answered s"
    "s' = s\<lparr>ps := (ps s)\<lparr>cmd_waiter_busy := False, srv := sv\<rparr>, callers := rest, held := hl\<rparr>" "chans sv = chans (srv (ps s))"
  shows "refs_to s' h = refs_to s h - held s h - caller_ref True h c + hl h"
proof -
  have "rest = []" using srv_invD(2) [OF assms(1)] assms(2) by (auto simp: served_def split: list.splits)
  then show ?thesis using assms(2-5) by (simp add: refs_to_def view_defs)
qed

lemma refs_ge_caller:
  assumes "callers s = [c]" "answered s"
  shows "held s h + caller_ref True h c \<le> refs_to s h"
  using assms by (simp add: refs_to_def)

lemma one_caller: "srv_inv s \<Longrightarrow> callers s = c # rest \<Longrightarrow> rest = []"
  using srv_invD(2) [of s] by (auto simp: served_def split: list.splits)

text \<open>A channel is marked as closed and one reference to it is given up, in this order or the other.\<close>

lemma abandon_ok:
  assumes mem: "server_ok 0 (srv p)" "counted (srv p) rf" and h: "0 < rf h" and one: "rf h = 1 \<Longrightarrow> h \<notin> set (members (chans (srv p)))"
  shows "\<exists>sv. abandon_channel p h = Some (p\<lparr>srv := sv\<rparr>) \<and> server_ok 0 sv \<and> counted sv (rf(h := rf h - 1)) \<and> chans sv = chans (srv p) \<and>
    (\<forall>x ch'. heap sv x = Some ch' \<longrightarrow> (\<exists>ch. heap (srv p) x = Some ch \<and> (ch_closed ch \<longrightarrow> ch_closed ch'))) \<and>
    (\<forall>ch'. heap sv h = Some ch' \<longrightarrow> ch_closed ch')"
proof -
  from counted_alive [OF mem(2) h] obtain ch where ch: "heap (srv p) h = Some ch" "ob_refcnt ch = rf h" by blast
  let ?ch = "ch\<lparr>ch_closed := True\<rparr>"
  let ?sv = "(srv p)\<lparr>heap := (heap (srv p))(h \<mapsto> ?ch)\<rparr>"
  have "chan_ok 0 ?ch" using server_okD(3) [OF mem(1) ch(1)] by (simp add: chan_ok_def)
  then have ok: "server_ok 0 ?sv" using server_ok_put [OF mem(1) ch(1)] by simp
  have cnt: "counted ?sv rf" using counted_put [OF mem(2), of ?ch "rf h" h] ch(2) h by (simp add: fun_upd_idem)
  have hk: "heap_ok ?sv" using ok by (simp add: heap_ok_def server_ok_def)
  have "ch_closed c \<or> \<not> accepting_commands p" if "heap ?sv h = Some c" for c using that by auto
  from unref_lowered [OF cnt hk h this] obtain l where
    u: "rtp_channel_state_unref (accepting_commands p) ?sv h = Some (?sv\<lparr>heap := lowered (heap ?sv) h (rf h), io_log := l\<rparr>)" by blast
  let ?sv2 = "?sv\<lparr>heap := lowered (heap ?sv) h (rf h), io_log := l\<rparr>"
  have "server_ok 0 ?sv2" using server_ok_lowered [OF ok refl cnt h] one by simp
  moreover have "counted ?sv2 (rf(h := rf h - 1))" using lowered_ok(1) [OF cnt hk h] .
  moreover have "abandon_channel p h = Some (p\<lparr>srv := ?sv2\<rparr>)"
    using ch(1) u by (simp add: abandon_channel_def chan_close_def chan_get_def chan_put_def chan_decref_def)
  moreover have "\<exists>c. heap (srv p) x = Some c \<and> (ch_closed c \<longrightarrow> ch_closed c')" if "heap ?sv2 x = Some c'" for x c'
    using that ch(1) by (cases "x = h") (auto simp: lowered_def split: if_splits)
  moreover have "ch_closed c'" if "heap ?sv2 h = Some c'" for c'
    using that by (auto simp: lowered_def split: if_splits)
  ultimately show ?thesis by (intro exI [of _ ?sv2]) auto
qed

lemma release_srv: "server_waiter_release p = p\<lparr>cmd_waiter_busy := False, srv := srv p\<rparr>"
  by (simp add: server_waiter_release_def)

lemma create_return_sys:
  assumes inv: "srv_inv s" and c: "callers s = Creating h # rest" and st: "waiter_status s = Some status"
  shows "\<exists>r p. create_channel_return status h (ps s) = Some (r, p) \<and>
    srv_inv (s\<lparr>ps := p, callers := rest, held := (if r = Finished then (held s)(h := held s h + 1) else held s)\<rparr>)"
proof -
  note i = srv_invD [OF inv]
  have ans: "answered s" "status = w_status (cmd_waiter (ps s))" using st by (auto simp: waiter_status_def answered_def split: if_splits)
  have k: "held s h = 0" "status = 0 \<longrightarrow> h \<in> set (registered s)" using i(7) [of "Creating h"] c ans by auto
  note r1 = one_caller [OF inv c]
  have ge: "held s x + caller_ref True x (Creating h) \<le> refs_to s x" for x
    using refs_ge_caller [where s = s and c = "Creating h" and h = x] ans(1) c r1 by simp
  show ?thesis
  proof (cases "status = 0")
    case True
    let ?hl = "(held s)(h := held s h + 1)"
    let ?s = "s\<lparr>ps := (ps s)\<lparr>cmd_waiter_busy := False, srv := srv (ps s)\<rparr>, callers := rest, held := ?hl\<rparr>"
    have "refs_to ?s x = refs_to s x" for x using refs_end [OF inv c ans(1) refl refl, of ?hl x] ge [of x] k(1) by (auto split: if_splits)
    then have r: "refs_to ?s = refs_to s" by (rule ext)
    have "srv_inv ?s"
    proof (rule end_call [OF inv c ans(1) refl refl i(3)])
      show "counted (srv (ps s)) (refs_to ?s)" using i(4) by (simp only: r)
      show "\<exists>ch. heap (srv (ps s)) x = Some ch \<and> (ch_closed ch \<longrightarrow> ch_closed ch')" if "heap (srv (ps s)) x = Some ch'" for x ch'
        using that by blast
      show "x \<in> set (registered s)" if "Creating h = Creating x \<or> Creating h = Closing x" for x
        using that k(2) True by simp
    qed
    then show ?thesis using True by (simp add: create_channel_return_def release_srv)
  next
    case False
    let ?p = "(ps s)\<lparr>cmd_waiter_busy := False\<rparr>"
    have pos: "0 < refs_to s h" using ge [of h] by simp
    have one: "h \<notin> set (members (chans (srv ?p)))" if "refs_to s h = 1"
      using that registered_refs [of h s] ans c r1 by (auto simp: refs_to_def registered_def)
    have m: "server_ok 0 (srv ?p)" "counted (srv ?p) (refs_to s)" using i(3,4) by simp_all
    from abandon_ok [OF m pos one] obtain sv where
      a: "abandon_channel ?p h = Some (?p\<lparr>srv := sv\<rparr>)" "server_ok 0 sv" "counted sv ((refs_to s)(h := refs_to s h - 1))"
      "chans sv = chans (srv (ps s))"
      "\<And>x ch'. heap sv x = Some ch' \<Longrightarrow> \<exists>ch. heap (srv (ps s)) x = Some ch \<and> (ch_closed ch \<longrightarrow> ch_closed ch')"
      "\<And>ch'. heap sv h = Some ch' \<Longrightarrow> ch_closed ch'" by auto
    let ?s = "s\<lparr>ps := (ps s)\<lparr>cmd_waiter_busy := False, srv := sv\<rparr>, callers := rest, held := held s\<rparr>"
    have "refs_to ?s x = ((refs_to s)(h := refs_to s h - 1)) x" for x
      using refs_end [OF inv c ans(1) refl a(4), of "held s" x] ge [of x] k(1) by (auto split: if_splits)
    then have r: "refs_to ?s = (refs_to s)(h := refs_to s h - 1)" by (rule ext)
    have "srv_inv ?s"
    proof (rule end_call [OF inv c ans(1) refl a(4,2)])
      show "counted sv (refs_to ?s)" using a(3) by (simp only: r)
      show "x \<in> set (registered s)" if "Creating h = Creating x \<or> Creating h = Closing x" "heap sv x = Some ch'" "\<not> ch_closed ch'" for x ch'
        using that a(6) by auto
    qed (rule a(5))
    then show ?thesis using False a(1) by (simp add: create_channel_return_def server_waiter_release_def)
  qed
qed

lemma close_return_sys:
  assumes inv: "srv_inv s" and c: "callers s = Closing h # rest" and st: "waiter_status s = Some status"
  shows "\<exists>r p. channel_close_return True status h (ps s) = Some (r, p) \<and> srv_inv (s\<lparr>ps := p, callers := rest\<rparr>)"
proof -
  note i = srv_invD [OF inv]
  have ans: "answered s" "status = w_status (cmd_waiter (ps s))" using st by (auto simp: waiter_status_def answered_def split: if_splits)
  have k: "0 < held s h" "status = 0" using i(7) [of "Closing h"] c ans by auto
  note r1 = one_caller [OF inv c]
  have ge: "held s x + caller_ref True x (Closing h) \<le> refs_to s x" for x
    using refs_ge_caller [where s = s and c = "Closing h" and h = x] ans(1) c r1 by simp
  have two: "2 \<le> refs_to s h" using ge [of h] k(1) by simp
  from refs_held [OF inv k(1)] obtain ch where ch: "heap (srv (ps s)) h = Some ch" "ob_refcnt ch = refs_to s h" by blast
  let ?p = "(ps s)\<lparr>cmd_waiter_busy := False\<rparr>"
  let ?ch = "ch\<lparr>ob_refcnt := refs_to s h - 1, ch_closed := True\<rparr>"
  let ?sv = "(srv (ps s))\<lparr>heap := (heap (srv (ps s)))(h \<mapsto> ?ch)\<rparr>"
  let ?s = "s\<lparr>ps := (ps s)\<lparr>cmd_waiter_busy := False, srv := ?sv\<rparr>, callers := rest, held := held s\<rparr>"
  have "channel_close_return True status h (ps s) = Some (Finished, (ps s)\<lparr>cmd_waiter_busy := False, srv := ?sv\<rparr>)"
    using k(2) ch two
    by (simp add: channel_close_return_def server_waiter_release_def chan_decref_def rtp_channel_state_unref_def chan_close_def chan_get_def chan_put_def)
  moreover have "srv_inv ?s"
  proof (rule end_call [OF inv c ans(1) refl])
    show "server_ok 0 ?sv" using server_ok_put [OF i(3) ch(1), of ?ch] server_okD(3) [OF i(3) ch(1)] by (simp add: chan_ok_def)
    have "refs_to ?s x = ((refs_to s)(h := refs_to s h - 1)) x" for x
      using refs_end [OF inv c ans(1) refl, of ?sv "held s" x] ge [of x] by (auto split: if_splits)
    then have r: "refs_to ?s = (refs_to s)(h := refs_to s h - 1)" by (rule ext)
    show "counted ?sv (refs_to ?s)" unfolding r using counted_put [OF i(4), of ?ch "refs_to s h - 1" h] two by simp
    show "\<exists>c. heap (srv (ps s)) x = Some c \<and> (ch_closed c \<longrightarrow> ch_closed ch')" if "heap ?sv x = Some ch'" for x ch'
      using that ch(1) by (cases "x = h") auto
    show "x \<in> set (registered s)" if "Closing h = Creating x \<or> Closing h = Closing x" "heap ?sv x = Some ch'" "\<not> ch_closed ch'" for x ch'
      using that by auto
  qed simp
  ultimately show ?thesis by simp
qed

lemma target_return_sys:
  assumes inv: "srv_inv s" and c: "callers s = Targeting h addr # rest" and st: "waiter_status s = Some status"
  shows "\<exists>r p. set_target_return status h (ps s) = Some (r, p) \<and> srv_inv (s\<lparr>ps := p, callers := rest\<rparr>)"
proof -
  note i = srv_invD [OF inv]
  have ans: "answered s" using st by (auto simp: waiter_status_def answered_def split: if_splits)
  have k: "0 < held s h" using i(7) [of "Targeting h addr"] c by auto
  from refs_held [OF inv k] obtain ch where ch: "heap (srv (ps s)) h = Some ch" "ob_refcnt ch = refs_to s h" "0 < refs_to s h" by blast
  let ?ch = "ch\<lparr>py_has_target := True\<rparr>"
  let ?sv = "if status \<noteq> 0 then srv (ps s) else (srv (ps s))\<lparr>heap := (heap (srv (ps s)))(h \<mapsto> ?ch)\<rparr>"
  let ?s = "s\<lparr>ps := (ps s)\<lparr>cmd_waiter_busy := False, srv := ?sv\<rparr>, callers := rest, held := held s\<rparr>"
  have "\<exists>r. set_target_return status h (ps s) = Some (r, (ps s)\<lparr>cmd_waiter_busy := False, srv := ?sv\<rparr>)"
    using ch(1) by (simp add: set_target_return_def server_waiter_release_def chan_get_def chan_put_def)
  moreover have "srv_inv ?s"
  proof (rule end_call [OF inv c ans refl])
    show "server_ok 0 ?sv" using i(3) server_ok_put [OF i(3) ch(1), of ?ch] server_okD(3) [OF i(3) ch(1)] by (simp add: chan_ok_def)
    have "refs_to ?s x = refs_to s x" for x
      using refs_end [OF inv c ans refl, of ?sv "held s" x] refs_ge_held [of s x] by simp
    then have r: "refs_to ?s = refs_to s" by (rule ext)
    show "counted ?sv (refs_to ?s)" unfolding r using i(4) counted_put [OF i(4), of ?ch "refs_to s h" h] ch by (simp add: fun_upd_idem)
    show "\<exists>c. heap (srv (ps s)) x = Some c \<and> (ch_closed c \<longrightarrow> ch_closed ch')" if "heap ?sv x = Some ch'" for x ch'
      using that ch(1) by (cases "x = h") (auto split: if_splits)
  qed simp_all
  ultimately show ?thesis by auto
qed

lemma drop_return_sys:
  assumes inv: "srv_inv s" and c: "callers s = Dropping # rest" and ans: "answered s"
  shows "srv_inv (s\<lparr>ps := server_waiter_release (ps s), callers := rest\<rparr>)"
proof -
  let ?s = "s\<lparr>ps := (ps s)\<lparr>cmd_waiter_busy := False, srv := srv (ps s)\<rparr>, callers := rest, held := held s\<rparr>"
  have "refs_to ?s x = refs_to s x" for x
    using refs_end [OF inv c ans refl refl, of "held s" x] refs_ge_held [of s x] by simp
  then have r: "refs_to ?s = refs_to s" by (rule ext)
  have "srv_inv ?s"
  proof (rule end_call [OF inv c ans refl refl srv_invD(3) [OF inv]])
    show "counted (srv (ps s)) (refs_to ?s)" unfolding r using srv_invD(4) [OF inv] .
  qed auto
  then show ?thesis by (simp add: release_srv)
qed

subsection \<open>The worker between commands, and the end\<close>

lemma detach_sys:
  assumes "srv_inv s" "worker_idle s"
  shows "srv_inv (s\<lparr>ps := (ps s)\<lparr>cmd_list := []\<rparr>, batch := cmd_list (ps s)\<rparr>)"
  by (rule srv_view_cong [OF assms(1)]) (use assms(2) srv_invD(3) [OF assms(1)] in
    \<open>auto simp: flags_def queued_def alike_refl worker_idle_def\<close>)

lemma exit_sys:
  assumes "srv_inv s" "stop_seen s" "batch s = []" "leftover s = None"
  shows "srv_inv (s\<lparr>exited := True\<rparr>)"
  by (rule srv_view_cong [OF assms(1)]) (use assms srv_invD(3) [OF assms(1)] in \<open>auto simp: queued_def alike_refl\<close>)

lemma alike_emptied:
  assumes "\<And>h. hp' h = hp h \<or> emptied n (hp h) (hp' h)"
  shows "alike hp hp'"
  unfolding alike_def
proof
  fix h
  show "map_option (\<lambda>ch. (ob_refcnt ch, ch_closed ch)) (hp' h) = map_option (\<lambda>ch. (ob_refcnt ch, ch_closed ch)) (hp h)"
    using assms [of h] by (auto simp: emptied_def)
qed

lemma pass_sys:
  assumes inv: "srv_inv s" and net: "\<forall>fd w. recv_ends fuel env fd w" and idle: "worker_idle s"
  shows "\<exists>wait t sv w. worker_pass fuel env (tick_ns (ps s)) (srv (ps s)) nt (world s) = Some ((wait, t, sv), w) \<and>
    srv_inv (s\<lparr>ps := (ps s)\<lparr>srv := sv\<rparr>, next_tick_ns := t, world := w\<rparr>)"
proof -
  note i = srv_invD [OF inv]
  have "0 < tick_ns (ps s)" using i(1) by (simp add: base_ok_def)
  from srv_worker_pass_ok [OF i(3) this net, of nt "world s"] obtain wait t sv w where
    w: "worker_pass fuel env (tick_ns (ps s)) (srv (ps s)) nt (world s) = Some ((wait, t, sv), w)" "server_ok 0 sv" "chans sv = chans (srv (ps s))"
    "\<And>h. heap sv h = heap (srv (ps s)) h \<or> emptied 0 (heap (srv (ps s)) h) (heap sv h)" by blast
  have "srv_inv (s\<lparr>ps := (ps s)\<lparr>srv := sv\<rparr>, next_tick_ns := t, world := w\<rparr>)"
    by (rule srv_view_cong [OF inv]) (use w(2,3) idle alike_emptied [OF w(4)] in \<open>simp_all add: queued_def flags_def worker_idle_def\<close>)
  then show ?thesis using w(1) by simp
qed

lemma free_sys:
  assumes inv: "srv_inv s" and lo: "leftover s = Some h"
  shows "\<exists>p. free_command (ps s) (CMD_ADD_CHANNEL h) = Some p \<and> srv_inv (s\<lparr>ps := p, leftover := None\<rparr>)"
proof -
  note i = srv_invD [OF inv]
  have pos: "0 < refs_to s h" using lo by (simp add: refs_to_def)
  have one: "h \<notin> set (registered s)" "Creating h \<notin> set (callers s)" "Closing h \<notin> set (callers s)" if "refs_to s h = 1"
  proof -
    have z: "held s h = 0" "count_list (registered s) h = 0" "sum_list (map (caller_ref (answered s) h) (callers s)) = 0"
      using that lo by (auto simp: refs_to_def)
    show "h \<notin> set (registered s)" using z(2) registered_refs [of h s] by auto
    show "Closing h \<notin> set (callers s)" using z(1) i(7) [of "Closing h"] by auto
    show "Creating h \<notin> set (callers s)" using z(3) by (auto simp: sum_list_eq_0_iff)
  qed
  have "ch_closed c \<or> \<not> accepting_commands (ps s)" if "refs_to s h = 1" "heap (srv (ps s)) h = Some c" for c
    using last_ref [OF inv that] one [OF that(1)] by blast
  from unref_lowered [OF i(4,10) pos this] obtain l where
    u: "rtp_channel_state_unref (accepting_commands (ps s)) (srv (ps s)) h =
      Some ((srv (ps s))\<lparr>heap := lowered (heap (srv (ps s))) h (refs_to s h), io_log := l\<rparr>)" by blast
  let ?sv = "(srv (ps s))\<lparr>heap := lowered (heap (srv (ps s))) h (refs_to s h), io_log := l\<rparr>"
  let ?s = "s\<lparr>ps := (ps s)\<lparr>srv := ?sv\<rparr>, held := held s, leftover := None\<rparr>"
  have "refs_to ?s x = ((refs_to s)(h := refs_to s h - 1)) x" for x using lo by (auto simp: refs_to_def view_defs)
  then have r: "refs_to ?s = (refs_to s)(h := refs_to s h - 1)" by (rule ext)
  have "srv_inv ?s"
  proof (rule change_refs [OF inv refl])
    show "server_ok 0 ?sv" using server_ok_lowered [OF i(3) refl i(4) pos] one(1) by (simp add: registered_def)
    show "counted ?sv (refs_to ?s)" unfolding r using lowered_ok(1) [OF i(4,10) pos] .
    show "shrunk (heap (srv (ps s))) (heap ?sv)" by (simp add: shrunk_lowered)
    show "held s x = 0" if "Creating x \<in> set (callers s)" for x using i(7) [OF that] by auto
    show "0 < held s x" if "Closing x \<in> set (callers s)" for x using i(7) [OF that] by auto
    show "0 < held s x" if "Targeting x a \<in> set (callers s)" for x a using i(7) [OF that] by auto
  qed simp_all
  then show ?thesis using u by (simp add: chan_decref_def)
qed

subsection \<open>Commands\<close>

definition after_command ::
    "('cb, 'w) srv_sys \<Rightarrow> sockaddr server_cmd \<Rightarrow> sockaddr server_cmd list \<Rightarrow> int \<Rightarrow> bool \<Rightarrow> chan_addr option \<Rightarrow> ('cb, sockaddr) server \<Rightarrow> 'w \<Rightarrow> ('cb, 'w) srv_sys" where
  "after_command s cmd rest status down left sv w =
     s\<lparr>ps := (ps s)\<lparr>srv := sv, cmd_waiter := (if has_waiter cmd then rtp_sync_waiter_complete (cmd_waiter (ps s)) status else cmd_waiter (ps s))\<rparr>,
       batch := rest, leftover := left, stop_seen := (stop_seen s \<or> down), world := w,
       leaked := (\<lambda>h. leaked s h + orphaned cmd (srv (ps s)) h), cmd_log := cmd_log s @ [(cmd, status)]\<rparr>"

lemma complete_done: "w_done (rtp_sync_waiter_complete w st)" "w_status (rtp_sync_waiter_complete w st) = st"
  by (simp_all add: rtp_sync_waiter_complete_def)

lemma after_views:
  assumes "batch s = cmd # rest" "s' = after_command s cmd rest status down left sv w"
  shows "queued s = cmd # queued s'" "callers s' = callers s" "accepting_commands (ps s') = accepting_commands (ps s)" "held s' = held s"
    "srv (ps s') = sv" "answered s' \<longleftrightarrow> has_waiter cmd \<or> answered s" "registered s' = members (chans sv)"
    "has_waiter cmd \<Longrightarrow> w_status (cmd_waiter (ps s')) = status" "\<not> has_waiter cmd \<Longrightarrow> cmd_waiter (ps s') = cmd_waiter (ps s)"
  using assms by (auto simp: after_command_def view_defs complete_done)

lemma command_sys:
  assumes inv: "srv_inv s" and b: "batch s = cmd # rest" "\<not> exited s"
    and s': "s' = after_command s cmd rest status down left sv w" and down: "down \<longleftrightarrow> cmd = CMD_STOP_WORKER"
    and mem: "server_ok 0 sv" "counted sv (refs_to s')" and heap: "shrunk (heap (srv (ps s))) (heap sv)"
    and opn: "\<And>h. h \<in> set (registered s) \<Longrightarrow> h \<notin> set (members (chans sv)) \<Longrightarrow> accepting_commands (ps s) \<Longrightarrow>
      Closing h \<in> set (callers s) \<or> (\<forall>ch. heap (srv (ps s)) h = Some ch \<longrightarrow> ch_closed ch)"
    and caller: "\<And>c. c \<in> set (callers s) \<Longrightarrow> caller_ok s' c"
  shows "srv_inv s'"
proof -
  note i = srv_invD [OF inv] and v = after_views [OF b(1) s']
  have c: "\<exists>ch. heap (srv (ps s)) h = Some ch \<and> ch_closed ch' = ch_closed ch" if "heap sv h = Some ch'" for h ch'
    using heap that by (auto simp: shrunk_def)
  have n: "heap (srv (ps s)) h \<noteq> None" if "heap sv h \<noteq> None" for h using c [of h] that by auto
  show ?thesis
  proof (rule srv_invI)
    have "h \<in> set (used s)" if "heap sv h \<noteq> None" for h using i(1) n [OF that] by (simp add: base_ok_def)
    then show "base_ok s'" using i(1) by (simp add: base_ok_def s' after_command_def)
    show "served s'"
    proof (cases "has_waiter cmd")
      case True
      then obtain x where x: "callers s = [x]" "cmd = caller_cmd x" "pending s = [cmd]"
        using pending_cmd [OF inv, of cmd] v(1) by auto
      have "pending s' = []" using x(3) True v(1) by (simp add: pending_def)
      then show ?thesis using x True v i(2) by (simp add: served_def) (simp add: s' after_command_def complete_done)
    next
      case False
      then have p: "pending s' = pending s" using v(1) by (simp add: pending_def)
      have a: "answered s' = answered s" using v(6) False by simp
      have "cmd_waiter_busy (ps s') = cmd_waiter_busy (ps s)" "set (cmd_log s) \<subseteq> set (cmd_log s')" by (auto simp: s' after_command_def)
      then show ?thesis using i(2) unfolding served_def v(2) p a v(9) [OF False] by (auto split: list.splits)
    qed
    show "server_ok 0 (srv (ps s'))" "counted (srv (ps s')) (refs_to s')" using mem by (simp_all add: v(5))
    have "CMD_ADD_CHANNEL h \<in> set (queued s') \<or> (\<forall>ch. heap sv h = Some ch \<longrightarrow> ch_closed ch)"
      if "CMD_REMOVE_CHANNEL h False \<in> set (queued s')" for h
    proof -
      have "cmd_order cmd (CMD_REMOVE_CHANNEL h False)" using i(5) that unfolding order_ok_def v(1) by auto
      then have "cmd \<noteq> CMD_ADD_CHANNEL h" by auto
      then have "CMD_ADD_CHANNEL h \<in> set (queued s') \<or> (\<forall>ch. heap (srv (ps s)) h = Some ch \<longrightarrow> ch_closed ch)"
        using i(5) that unfolding order_ok_def v(1) by auto
      then show ?thesis using c by fastforce
    qed
    then show "order_ok s'" using i(5) unfolding order_ok_def v(1,5) by auto
    show "open_ok s'" unfolding open_ok_def v
    proof (intro allI impI)
      fix h ch' assume a: "heap sv h = Some ch'" "\<not> ch_closed ch'" "accepting_commands (ps s)"
      from c [OF a(1)] a(2) obtain ch where ch: "heap (srv (ps s)) h = Some ch" "\<not> ch_closed ch" by auto
      then have "h \<in> set (registered s) \<or> Creating h \<in> set (callers s) \<or> Closing h \<in> set (callers s)"
        using i(6) a(3) by (auto simp: open_ok_def)
      then show "h \<in> set (members (chans sv)) \<or> Creating h \<in> set (callers s) \<or> Closing h \<in> set (callers s)"
        using opn [of h] a(3) ch by auto
    qed
    show "caller_ok s' x" if "x \<in> set (callers s')" for x using that caller v(2) by simp
    have "heap sv h = None" if "shutdown_queued (ps s)" for h
    proof (rule ccontr)
      assume "heap sv h \<noteq> None"
      then show False using i(8) that n [of h] by (simp add: shut_ok_def)
    qed
    then show "shut_ok s'" using i(8) b(2) down unfolding shut_ok_def v(1,5) by (auto simp: s' after_command_def)
  qed
qed

lemma refs_after:
  assumes "batch s = cmd # rest" "leftover s = None" "s' = after_command s cmd rest status down left sv w"
  shows "refs_to s' h + count_list (registered s) h + (if cmd = CMD_ADD_CHANNEL h then 1 else 0) + sum_list (map (caller_ref (answered s) h) (callers s)) =
    refs_to s h + count_list (members (chans sv)) h + (if left = Some h then 1 else 0) +
    sum_list (map (caller_ref (has_waiter cmd \<or> answered s) h) (callers s)) + orphaned cmd (srv (ps s)) h"
proof -
  note v = after_views [OF assms(1,3)]
  have "leftover s' = left" "leaked s' h = leaked s h + orphaned cmd (srv (ps s)) h" using assms(3) by (simp_all add: after_command_def)
  then show ?thesis unfolding refs_to_def v using assms(2) by (simp add: v(6))
qed

lemma other_ok:
  assumes "srv_inv s" "batch s = cmd # rest" "c \<in> set (callers s)" "\<not> has_waiter cmd" "shrunk (heap (srv (ps s))) (heap sv)"
    and same: "\<And>h. c = Creating h \<Longrightarrow> h \<in> set (members (chans sv)) \<longleftrightarrow> h \<in> set (registered s)"
      "\<And>h. c = Closing h \<Longrightarrow> \<not> answered s \<Longrightarrow> h \<in> set (registered s) \<Longrightarrow> h \<in> set (members (chans sv))"
  shows "caller_ok (after_command s cmd rest status down left sv w) c"
proof -
  let ?s = "after_command s cmd rest status down left sv w"
  note v = after_views [OF assms(2) refl, where status = status and down = down and left = left and sv = sv and w = w]
  have k: "caller_ok s c" using srv_invD(7) [OF assms(1,3)] .
  have w: "answered ?s = answered s" "cmd_waiter (ps ?s) = cmd_waiter (ps s)" using v(6,9) assms(4) by auto
  show ?thesis
  proof (cases c rule: srv_caller.exhaust)
    case (Creating h)
    then have "\<not> ch_closed ch'" if "heap sv h = Some ch'" for ch' using k assms(5) that by (auto simp: shrunk_def)
    then show ?thesis using k same Creating assms(4) by (simp add: v w)
  qed (use k same assms(4) in \<open>auto simp: v w split: if_splits\<close>)
qed

definition goes_on :: "('cb, sockaddr, 'w) server_env \<Rightarrow> ('cb, 'w) srv_sys \<Rightarrow> sockaddr server_cmd \<Rightarrow> sockaddr server_cmd list \<Rightarrow> bool" where
  "goes_on env s cmd rest \<longleftrightarrow> (\<exists>status down left sv w.
     process_command env (accepting_commands (ps s)) (srv (ps s)) cmd (world s) = Some ((status, down, left, sv), w) \<and>
     srv_inv (after_command s cmd rest status down left sv w))"

lemma goes_onI:
  assumes "process_command env (accepting_commands (ps s)) (srv (ps s)) cmd (world s) = Some ((status, down, left, sv), w)"
    "srv_inv (after_command s cmd rest status down left sv w)"
  shows "goes_on env s cmd rest"
  using assms unfolding goes_on_def by blast

lemma counted_after:
  assumes "srv_inv s" "heap sv = heap (srv (ps s))" "\<And>h. rf h = refs_to s h"
  shows "counted sv rf"
proof -
  have "rf = refs_to s" using assms(3) by (rule ext)
  then show ?thesis using srv_invD(4) [OF assms(1)] assms(2) by (simp add: counted_def)
qed

lemma shrunk_refl: "hp' = hp \<Longrightarrow> shrunk hp hp'"
  by (simp add: shrunk_def)

lemma mset_count_list:
  assumes "mset xs = add_mset h (mset ys)"
  shows "count_list xs x = count_list ys x + (if x = h then 1 else 0)"
  using arg_cong [OF assms, of "\<lambda>m. count m x"] by (simp add: count_mset split: if_splits)

lemma orphaned_simps [simp]:
  "orphaned (CMD_ADD_CHANNEL h') sv h = 0" "orphaned (CMD_SET_TARGET h' a) sv h = 0" "orphaned CMD_DROP_CHANNELS sv h = 0"
  "orphaned CMD_STOP_WORKER sv h = 0" "orphaned (CMD_REMOVE_CHANNEL h' True) sv h = 0"
  "orphaned (CMD_REMOVE_CHANNEL h' False) sv h = (if h' = h \<and> h \<in> set (members (chans sv)) then 1 else 0)"
  by (simp_all add: orphaned_def)

lemma add_command_sys:
  assumes inv: "srv_inv s" and b: "batch s = CMD_ADD_CHANNEL h # rest" "\<not> exited s" "leftover s = None"
  shows "goes_on env s (CMD_ADD_CHANNEL h) rest"
proof -
  note i = srv_invD [OF inv]
  have "CMD_ADD_CHANNEL h \<in> set (queued s)" using b(1) by (simp add: queued_def)
  from pending_cmd [OF inv this] have c: "callers s = [Creating h]" "\<not> answered s" by (auto simp: caller_cmd_inj eq_commute [of "CMD_ADD_CHANNEL h"])
  have k: "held s h = 0" "\<forall>ch. heap (srv (ps s)) h = Some ch \<longrightarrow> \<not> ch_closed ch" "h \<notin> set (members (chans (srv (ps s))))"
    using i(7) [of "Creating h"] c by (auto simp: registered_def)
  have "0 < refs_to s h" using c by (simp add: refs_to_def)
  from counted_alive [OF i(4) this] have alive: "heap (srv (ps s)) h \<noteq> None" by auto
  obtain slot s1 w1 where a: "alloc_channel_slot env (srv (ps s)) (world s) = ((slot, s1), w1)" by (metis prod.exhaust)
  note ms = alloc_slot_cases [OF a]
  from more_slotsD [OF conjunct1 [OF ms]] obtain m d where
    s1: "s1 = (srv (ps s))\<lparr>chans := chans (srv (ps s)) @ replicate m None, pollfds_dirty := d\<rparr>" by blast
  have ok1: "server_ok 0 s1" using srv_more_slots_ok [OF i(3) conjunct1 [OF ms]] .
  have m1: "members (chans s1) = registered s" "heap s1 = heap (srv (ps s))" by (simp_all add: s1 registered_def)
  show ?thesis
  proof (cases slot)
    case None
    let ?s = "after_command s (CMD_ADD_CHANNEL h) rest ENOMEM False (Some h) s1 w1"
    have r: "refs_to ?s x = refs_to s x" for x using refs_after [OF b(1,3) refl, of ENOMEM False "Some h" s1 w1 x] c by (simp add: m1 split: if_splits)
    have enomem: "ENOMEM \<noteq> 0" by (simp add: ENOMEM_def)
    note v = after_views [OF b(1) refl, where status = ENOMEM and down = False and left = "Some h" and sv = s1 and w = w1]
    have "srv_inv ?s"
    proof (rule command_sys [OF inv b(1,2) refl _ ok1])
      show "counted s1 (refs_to ?s)" by (rule counted_after [OF inv m1(2) r])
      show "caller_ok ?s x" if "x \<in> set (callers s)" for x using that c k enomem by (simp add: v m1)
    qed (auto simp: m1 shrunk_refl)
    then show ?thesis using a None by (intro goes_onI) auto
  next
    case (Some j)
    then have j: "j < length (chans s1)" "chans s1 ! j = None" using ms by auto
    define sv where "sv = s1\<lparr>chans := (chans s1)[j := Some h], chans_active := chans_active s1 + 1, pollfds_dirty := True\<rparr>"
    let ?s = "after_command s (CMD_ADD_CHANNEL h) rest 0 False None sv w1"
    have hm: "h \<notin> set (members (chans s1))" using k(3) m1 by (simp add: registered_def)
    have ok: "server_ok 0 sv" using add_member_ok [OF ok1 j hm] alive by (simp add: m1 sv_def)
    have mm: "mset (members (chans sv)) = add_mset h (mset (registered s))" using members_update [OF j, of h] m1 by (simp add: sv_def)
    have st: "set (members (chans sv)) = insert h (set (registered s))" using mset_eq_setD [of _ "h # registered s"] mm by simp
    have r: "refs_to ?s x = refs_to s x" for x
      using refs_after [OF b(1,3) refl, of 0 False None sv w1 x] mset_count_list [OF mm, of x] c by (simp split: if_splits)
    note v = after_views [OF b(1) refl, where status = 0 and down = False and left = None and sv = sv and w = w1]
    have hp: "heap sv = heap (srv (ps s))" by (simp add: m1 sv_def)
    have "srv_inv ?s"
    proof (rule command_sys [OF inv b(1,2) refl _ ok])
      show "counted sv (refs_to ?s)" by (rule counted_after [OF inv hp r])
      show "shrunk (heap (srv (ps s))) (heap sv)" by (rule shrunk_refl [OF hp])
      show "caller_ok ?s x" if "x \<in> set (callers s)" for x using that c k st by (simp add: v hp)
    qed (use st in auto)
    then show ?thesis using a Some j(2) by (intro goes_onI) (auto simp: sv_def)
  qed
qed

lemma removed_views:
  assumes "srv_inv s" "h \<in> set (registered s)"
  shows "\<exists>sv. process_command env acc (srv (ps s)) (CMD_REMOVE_CHANNEL h waits) w = Some ((0, False, None, sv), w) \<and>
    server_ok 0 sv \<and> heap sv = heap (srv (ps s)) \<and> mset (registered s) = add_mset h (mset (members (chans sv)))"
proof -
  obtain r s1 where r: "remove_channel (srv (ps s)) h = (r, s1)" by fastforce
  note m = remove_member_ok [OF srv_invD(3) [OF assms(1)] r]
  have "r" using m(1) assms(2) by (simp add: registered_def)
  then show ?thesis using r m(2,5,6) by (intro exI [of _ "s1\<lparr>pollfds_dirty := True\<rparr>"]) (simp add: registered_def)
qed

lemma remove_command_sys:
  assumes inv: "srv_inv s" and b: "batch s = CMD_REMOVE_CHANNEL h True # rest" "\<not> exited s" "leftover s = None"
  shows "goes_on env s (CMD_REMOVE_CHANNEL h True) rest"
proof -
  note i = srv_invD [OF inv]
  have "CMD_REMOVE_CHANNEL h True \<in> set (queued s)" using b(1) by (simp add: queued_def)
  from pending_cmd [OF inv this] have c: "callers s = [Closing h]" "\<not> answered s"
    by (auto simp: caller_cmd_inj eq_commute [of "CMD_REMOVE_CHANNEL h True"])
  have k: "0 < held s h" "h \<in> set (registered s)" using i(7) [of "Closing h"] c by auto
  from removed_views [OF inv k(2), of env "accepting_commands (ps s)" True "world s"] obtain sv where
    sv: "process_command env (accepting_commands (ps s)) (srv (ps s)) (CMD_REMOVE_CHANNEL h True) (world s) = Some ((0, False, None, sv), world s)"
    "server_ok 0 sv" "heap sv = heap (srv (ps s))" "mset (registered s) = add_mset h (mset (members (chans sv)))" by blast
  have st: "set (registered s) = insert h (set (members (chans sv)))" using mset_eq_setD [of _ "h # members (chans sv)"] sv(4) by simp
  let ?s = "after_command s (CMD_REMOVE_CHANNEL h True) rest 0 False None sv (world s)"
  have r: "refs_to ?s x = refs_to s x" for x
    using refs_after [OF b(1,3) refl, of 0 False None sv "world s" x] mset_count_list [OF sv(4), of x] c by (simp split: if_splits)
  note v = after_views [OF b(1) refl, where status = 0 and down = False and left = None and sv = sv and w = "world s"]
  have "srv_inv ?s"
  proof (rule command_sys [OF inv b(1,2) refl _ sv(2)])
    show "counted sv (refs_to ?s)" by (rule counted_after [OF inv sv(3) r])
    show "shrunk (heap (srv (ps s))) (heap sv)" by (rule shrunk_refl [OF sv(3)])
    show "Closing x \<in> set (callers s) \<or> (\<forall>ch. heap (srv (ps s)) x = Some ch \<longrightarrow> ch_closed ch)"
      if "x \<in> set (registered s)" "x \<notin> set (members (chans sv))" for x using that st c(1) by simp
    show "caller_ok ?s x" if "x \<in> set (callers s)" for x using that c k by (simp add: v)
  qed simp
  with sv(1) show ?thesis by (rule goes_onI)
qed

lemma orphan_command_sys:
  assumes inv: "srv_inv s" and b: "batch s = CMD_REMOVE_CHANNEL h False # rest" "\<not> exited s" "leftover s = None"
  shows "goes_on env s (CMD_REMOVE_CHANNEL h False) rest"
proof (cases "h \<in> set (registered s)")
  case False
  let ?s = "after_command s (CMD_REMOVE_CHANNEL h False) rest 0 False None (srv (ps s)) (world s)"
  have "remove_channel (srv (ps s)) h = (False, srv (ps s))"
    using False srv_find_channel_None [of "srv (ps s)" h] by (simp add: remove_channel_def registered_def)
  then have e: "process_command env (accepting_commands (ps s)) (srv (ps s)) (CMD_REMOVE_CHANNEL h False) (world s) = Some ((0, False, None, srv (ps s)), world s)"
    by simp
  have r: "refs_to ?s x = refs_to s x" for x
    using refs_after [OF b(1,3) refl, of 0 False None "srv (ps s)" "world s" x] False by (simp add: registered_def split: if_splits)
  have "srv_inv ?s"
  proof (rule command_sys [OF inv b(1,2) refl _ srv_invD(3) [OF inv]])
    show "counted (srv (ps s)) (refs_to ?s)" by (rule counted_after [OF inv refl r])
    show "caller_ok ?s x" if "x \<in> set (callers s)" for x
      using other_ok [OF inv b(1) that _ shrunk_refl [OF refl]] by (simp add: registered_def)
  qed (simp_all add: shrunk_refl registered_def)
  with e show ?thesis by (rule goes_onI)
next
  case True
  note i = srv_invD [OF inv]
  from removed_views [OF inv True, of env "accepting_commands (ps s)" False "world s"] obtain sv where
    sv: "process_command env (accepting_commands (ps s)) (srv (ps s)) (CMD_REMOVE_CHANNEL h False) (world s) = Some ((0, False, None, sv), world s)"
    "server_ok 0 sv" "heap sv = heap (srv (ps s))" "mset (registered s) = add_mset h (mset (members (chans sv)))" by blast
  have st: "set (registered s) = insert h (set (members (chans sv)))" using mset_eq_setD [of _ "h # members (chans sv)"] sv(4) by simp
  let ?s = "after_command s (CMD_REMOVE_CHANNEL h False) rest 0 False None sv (world s)"
  have r: "refs_to ?s x = refs_to s x" for x
    using refs_after [OF b(1,3) refl, of 0 False None sv "world s" x] mset_count_list [OF sv(4), of x] True
    by (simp add: registered_def split: if_splits)
  have q: "CMD_REMOVE_CHANNEL h False \<in> set (queued s)" using b(1) by (simp add: queued_def)
  have noadd: "CMD_ADD_CHANNEL h \<notin> set (queued s)"
  proof
    assume "CMD_ADD_CHANNEL h \<in> set (queued s)"
    from pending_cmd [OF inv this] have "callers s = [Creating h]" "\<not> answered s" by (auto simp: caller_cmd_inj eq_commute [of "CMD_ADD_CHANNEL h"])
    then show False using i(7) [of "Creating h"] True by auto
  qed
  then have closed: "\<forall>ch. heap (srv (ps s)) h = Some ch \<longrightarrow> ch_closed ch" using i(5) q by (auto simp: order_ok_def)
  have alive: "heap (srv (ps s)) h \<noteq> None" using server_okD(4) [OF i(3)] True by (simp add: registered_def)
  have nc: "Creating h \<notin> set (callers s)" using i(7) [of "Creating h"] alive closed by auto
  have ncl: "answered s" if "Closing h \<in> set (callers s)"
  proof (rule ccontr)
    assume "\<not> answered s"
    then have "pending s = [CMD_REMOVE_CHANNEL h True]" using i(2) that by (auto simp: served_def split: list.splits)
    then have "CMD_REMOVE_CHANNEL h True \<in> set (filter has_waiter (queued s))" by (simp add: pending_def)
    then have "CMD_REMOVE_CHANNEL h True \<in> set (queued s)" by simp
    then have m: "CMD_REMOVE_CHANNEL h True \<in> set (rest @ cmd_list (ps s))" using b(1) by (simp add: queued_def)
    have "\<forall>x \<in> set (rest @ cmd_list (ps s)). cmd_order (CMD_REMOVE_CHANNEL h False) x" using i(5) b(1) by (simp add: order_ok_def queued_def)
    from bspec [OF this m] show False by simp
  qed
  have "srv_inv ?s"
  proof (rule command_sys [OF inv b(1,2) refl _ sv(2)])
    show "counted sv (refs_to ?s)" by (rule counted_after [OF inv sv(3) r])
    show "shrunk (heap (srv (ps s))) (heap sv)" by (rule shrunk_refl [OF sv(3)])
    show "Closing x \<in> set (callers s) \<or> (\<forall>ch. heap (srv (ps s)) x = Some ch \<longrightarrow> ch_closed ch)"
      if "x \<in> set (registered s)" "x \<notin> set (members (chans sv))" for x using that st closed by auto
    show "caller_ok ?s x" if "x \<in> set (callers s)" for x
      by (rule other_ok [OF inv b(1) that _ shrunk_refl [OF sv(3)]]) (use that st nc ncl in auto)
  qed simp
  with sv(1) show ?thesis by (rule goes_onI)
qed

lemma target_command_sys:
  assumes inv: "srv_inv s" and b: "batch s = CMD_SET_TARGET h a # rest" "\<not> exited s" "leftover s = None"
  shows "goes_on env s (CMD_SET_TARGET h a) rest"
proof -
  note i = srv_invD [OF inv]
  have "CMD_SET_TARGET h a \<in> set (queued s)" using b(1) by (simp add: queued_def)
  from pending_cmd [OF inv this] have c: "callers s = [Targeting h a]" by (auto simp: caller_cmd_inj eq_commute [of "CMD_SET_TARGET h a"])
  have k: "0 < held s h" using i(7) [of "Targeting h a"] c by auto
  from refs_held [OF inv k] obtain ch where ch: "heap (srv (ps s)) h = Some ch" "ob_refcnt ch = refs_to s h" "0 < refs_to s h" by blast
  let ?ch = "ch\<lparr>target_addr := a, has_target := True\<rparr>"
  define found where "found = (find_channel_index (srv (ps s)) h \<noteq> None)"
  define sv where "sv = (if found then (srv (ps s))\<lparr>heap := (heap (srv (ps s)))(h \<mapsto> ?ch)\<rparr> else srv (ps s))"
  define status where "status = (if found then 0 else ENOENT)"
  have e: "process_command env (accepting_commands (ps s)) (srv (ps s)) (CMD_SET_TARGET h a) (world s) = Some ((status, False, None, sv), world s)"
    using ch(1) by (auto simp: sv_def status_def found_def)
  let ?s = "after_command s (CMD_SET_TARGET h a) rest status False None sv (world s)"
  have m: "chans sv = chans (srv (ps s))" by (simp add: sv_def)
  have "refs_to ?s x = refs_to s x" for x
    using refs_after [OF b(1,3) refl, of status False None sv "world s" x] c by (simp add: m registered_def)
  then have r: "refs_to ?s = refs_to s" by (rule ext)
  note v = after_views [OF b(1) refl, where status = status and down = False and left = None and sv = sv and w = "world s"]
  have "srv_inv ?s"
  proof (rule command_sys [OF inv b(1,2) refl])
    show "server_ok 0 sv" using i(3) server_ok_put [OF i(3) ch(1), of ?ch] server_okD(3) [OF i(3) ch(1)] by (simp add: sv_def chan_ok_def)
    show "counted sv (refs_to ?s)" unfolding r using i(4) counted_put [OF i(4), of ?ch "refs_to s h" h] ch by (simp add: sv_def fun_upd_idem)
    show "shrunk (heap (srv (ps s))) (heap sv)" using ch(1) by (auto simp: shrunk_def sv_def)
    show "caller_ok ?s x" if "x \<in> set (callers s)" for x using that c k by (simp add: v)
  qed (simp_all add: m registered_def)
  with e show ?thesis by (rule goes_onI)
qed

lemma clear_command_sys:
  assumes inv: "srv_inv s" and b: "batch s = cmd # rest" "\<not> exited s" "leftover s = None"
    and cmd: "cmd = CMD_DROP_CHANNELS \<or> cmd = CMD_STOP_WORKER"
  shows "goes_on env s cmd rest"
proof -
  note i = srv_invD [OF inv]
  have q: "cmd \<in> set (queued s)" using b(1) by (simp add: queued_def)
  have c: "\<not> accepting_commands (ps s)" "set (callers s) \<subseteq> {Dropping}"
  proof -
    have "callers s = [Dropping]" if "cmd = CMD_DROP_CHANNELS"
      using pending_cmd [OF inv q] that by (auto simp: caller_cmd_inj eq_commute [of "CMD_DROP_CHANNELS"])
    moreover have "shutdown_queued (ps s)" if "cmd = CMD_STOP_WORKER" using i(8) q that by (simp add: shut_ok_def)
    ultimately show "\<not> accepting_commands (ps s)" "set (callers s) \<subseteq> {Dropping}"
      using cmd i(7) [of Dropping] i(8) by (auto simp: shut_ok_def)
  qed
  have "\<forall>h. count_list (members (chans (srv (ps s)))) h \<le> refs_to s h" by (simp add: refs_to_def registered_def)
  from clear_channels_counted [OF i(4,10) this] obtain hp l where
    cl: "clear_channels False (srv (ps s)) = Some ((srv (ps s))\<lparr>heap := hp, io_log := l, chans := [], chans_active := 0\<rparr>)"
    "heap_ok ((srv (ps s))\<lparr>heap := hp, io_log := l\<rparr>)"
    "counted ((srv (ps s))\<lparr>heap := hp, io_log := l\<rparr>) (\<lambda>h. refs_to s h - count_list (members (chans (srv (ps s)))) h)"
    "shrunk (heap (srv (ps s))) hp" by blast
  define sv where "sv = clear_poll_cache ((srv (ps s))\<lparr>heap := hp, io_log := l, chans := [], chans_active := 0\<rparr>)"
  have sv: "heap sv = hp" "chans sv = []" by (simp_all add: sv_def clear_poll_cache_def)
  define down where "down = (cmd = CMD_STOP_WORKER)"
  have e: "process_command env (accepting_commands (ps s)) (srv (ps s)) cmd (world s) = Some ((0, down, None, sv), world s)"
    using cmd c(1) cl(1) by (auto simp: sv_def down_def)
  let ?s = "after_command s cmd rest 0 down None sv (world s)"
  have "caller_ref b h x = 0" if "x \<in> set (callers s)" for b h x using that c(2) by auto
  then have z: "sum_list (map (caller_ref b h) (callers s)) = 0" for b h by (simp add: sum_list_eq_0_iff)
  have "refs_to ?s x = refs_to s x - count_list (members (chans (srv (ps s)))) x" for x
    using refs_after [OF b(1,3) refl, of 0 down None sv "world s" x] cmd by (auto simp: z sv registered_def)
  then have r: "refs_to ?s = (\<lambda>h. refs_to s h - count_list (members (chans (srv (ps s)))) h)" by (rule ext)
  note v = after_views [OF b(1) refl, where status = 0 and down = down and left = None and sv = sv and w = "world s"]
  have "srv_inv ?s"
  proof (rule command_sys [OF inv b(1,2) refl down_def])
    show "server_ok 0 sv" using cl(2) by (simp add: server_ok_def sv_def clear_poll_cache_def heap_ok_def)
    show "counted sv (refs_to ?s)" unfolding r using cl(3) by (simp add: counted_def sv)
    show "shrunk (heap (srv (ps s))) (heap sv)" using cl(4) by (simp add: sv)
    show "caller_ok ?s x" if "x \<in> set (callers s)" for x using that c by (auto simp: v)
  qed (use c(1) in simp_all)
  with e show ?thesis by (rule goes_onI)
qed

lemma any_command_sys:
  assumes "srv_inv s" "batch s = cmd # rest" "\<not> exited s" "leftover s = None"
  shows "goes_on env s cmd rest"
proof (cases cmd)
  case (CMD_REMOVE_CHANNEL h waits)
  then show ?thesis using remove_command_sys [of s h rest env] orphan_command_sys [of s h rest env] assms by (cases waits) auto
qed (use assms add_command_sys [of s _ rest env] target_command_sys [of s _ _ rest env] clear_command_sys [of s cmd rest env] in auto)

subsection \<open>Sending, and the end of the server\<close>

definition advances :: "bool \<Rightarrow> nat \<Rightarrow> ('cb, sockaddr, 'w) server_env \<Rightarrow> ('cb, 'w) srv_sys \<Rightarrow> 'cb srv_act \<Rightarrow> bool" where
  "advances asserts fuel env s a \<longleftrightarrow> (\<exists>r s'. srv_step asserts fuel env s a = Some (r, s') \<and> srv_inv s')"

lemma advancesI: "srv_step asserts fuel env s a = Some (r, s') \<Longrightarrow> srv_inv s' \<Longrightarrow> advances asserts fuel env s a"
  by (auto simp: advances_def)

lemma alive_running: "srv_inv s \<Longrightarrow> 0 < held s h \<Longrightarrow> worker_running (ps s)"
  using refs_held [of s h] srv_invD(8) [of s] by (auto simp: shut_ok_def)

lemma send_sys:
  assumes inv: "srv_inv s" and held: "0 < held s h"
    and room: "\<And>ch. heap (srv (ps s)) h = Some ch \<Longrightarrow> writeIdx (out_q ch) \<noteq> - 1"
  shows "advances asserts fuel env s (Send le h arg)"
proof -
  note i = srv_invD [OF inv]
  from refs_held [OF inv held] obtain ch where ch: "heap (srv (ps s)) h = Some ch" by blast
  have ok: "chan_ok 0 ch" using server_okD(3) [OF i(3) ch] .
  have "writeIdx (out_q ch) < - 1" using room [OF ch] word_order.not_eq_extremum [of "writeIdx (out_q ch)"] by blast
  then have "unat (writeIdx (out_q ch)) < 18446744073709551615" by (simp add: word_less_nat_alt unsigned_minus_1_eq_mask mask_eq_exp_minus_1)
  then have q1: "spmc_ok (Suc 0) (out_q ch)" using ok by (simp add: chan_ok_def spmc_ok_def)
  have g: "chan_get (ps s) h = Some ch" using ch by (simp add: chan_get_def)
  from send_cases [OF alive_running [OF inv held] g q1, of le arg] obtain r p' where
    r: "PyRtpChannel_send_pkt le arg h (ps s) = Some (r, p')" and
    c: "quiet (ps s) p' \<or> (\<exists>q l. p' = (ps s)\<lparr>srv := (srv (ps s))\<lparr>heap := (heap (srv (ps s)))(h \<mapsto> ch\<lparr>out_q := q\<rparr>), io_log := l\<rparr>\<rparr> \<and> spmc_ok 0 q)"
    by blast
  from c have "srv_inv (s\<lparr>ps := p'\<rparr>)"
  proof (elim disjE exE conjE)
    assume "quiet (ps s) p'" then show ?thesis by (rule srv_quiet_sys [OF inv])
  next
    fix q l assume p': "p' = (ps s)\<lparr>srv := (srv (ps s))\<lparr>heap := (heap (srv (ps s)))(h \<mapsto> ch\<lparr>out_q := q\<rparr>), io_log := l\<rparr>\<rparr>" and q: "spmc_ok 0 q"
    have "chan_ok 0 (ch\<lparr>out_q := q\<rparr>)" using ok q by (simp add: chan_ok_def)
    from server_ok_put [OF i(3) ch _ this] have "server_ok 0 ((srv (ps s))\<lparr>heap := (heap (srv (ps s)))(h \<mapsto> ch\<lparr>out_q := q\<rparr>), io_log := l\<rparr>)"
      by (simp add: server_ok_def)
    then show ?thesis
      by (intro srv_view_cong [OF inv]) (use ch i(8) in \<open>auto simp: p' flags_def queued_def shut_ok_def intro!: alike_put\<close>)
  qed
  then show ?thesis using r by (intro advancesI) simp_all
qed

lemma srv_held_sys:
  assumes inv: "srv_inv s"
  shows "srv_inv (s\<lparr>srv_held := srv_held s - k\<rparr>)" (is "srv_inv ?s")
proof -
  note i = srv_invD [OF inv]
  have v: "queued ?s = queued s" "pending ?s = pending s" "registered ?s = registered s" "answered ?s = answered s" by (simp_all add: view_defs)
  have r: "refs_to ?s = refs_to s" by (rule ext) (simp add: refs_to_def v)
  show ?thesis
  proof (rule srv_invI)
    show "served ?s" using i(2) srv_served_cong [of ?s s] by (simp add: v)
    show "counted (srv (ps ?s)) (refs_to ?s)" unfolding r using i(4) by simp
    show "caller_ok ?s c" if "c \<in> set (callers ?s)" for c using i(7) [of c] that by (cases c) (auto simp: v)
    show "shut_ok ?s" using i(8) by (auto simp: shut_ok_def v)
  qed (use i(1,3,5,6) in \<open>auto simp: base_ok_def order_ok_def open_ok_def v\<close>)
qed

lemma dealloc_sys:
  assumes inv: "srv_inv s" and end': "srv_held s = 0" "callers s = []" "\<forall>h \<in> set (used s). heap (srv (ps s)) h = None"
    "\<not> shutdown_queued (ps s)" "lib_calloc le"
  shows "advances asserts fuel env s (Dealloc le)"
proof -
  note i = srv_invD [OF inv]
  have none: "heap (srv (ps s)) h = None" for h using end'(3) i(1) by (auto simp: base_ok_def)
  have run: "worker_running (ps s)" using i(8) end'(4) by (simp add: shut_ok_def)
  have noex: "\<not> exited s" using i(8) end'(4) by (auto simp: shut_ok_def)
  let ?s = "s\<lparr>ps := (ps s)\<lparr>cmd_list := cmd_list (ps s) @ [CMD_STOP_WORKER], shutdown_queued := True, accepting_commands := False\<rparr>, joining := True\<rparr>"
  have v: "queued ?s = queued s @ [CMD_STOP_WORKER]" "pending ?s = pending s" "registered ?s = registered s" "answered ?s = answered s"
    by (simp_all add: view_defs)
  have r: "refs_to ?s = refs_to s" by (rule ext) (simp add: refs_to_def v end'(2))
  have o: "cmd_order x CMD_STOP_WORKER" for x by (cases "(x, CMD_STOP_WORKER :: sockaddr server_cmd)" rule: cmd_order.cases) auto
  have "srv_inv ?s"
  proof (rule srv_invI)
    show "served ?s" using i(2) end'(2) by (simp add: served_def v)
    show "counted (srv (ps ?s)) (refs_to ?s)" unfolding r using i(4) by simp
    show "order_ok ?s" using i(5) none o by (auto simp: order_ok_def v sorted_wrt_append)
    show "shut_ok ?s" using none end'(1,2) noex by (auto simp: shut_ok_def v)
  qed (use i(1,3) none end'(2) in \<open>auto simp: base_ok_def open_ok_def\<close>)
  then show ?thesis using run end'(5) by (intro advancesI) (simp_all add: rtp_server_stop_worker_internal_def)
qed

lemma free_no_adds: "(\<forall>h. CMD_ADD_CHANNEL h \<notin> set cmds) \<Longrightarrow> free_command_list p cmds = Some p"
proof (induction cmds)
  case (Cons cmd cmds)
  then show ?case by (cases cmd) auto
qed simp

lemma dealloc_return_sys:
  assumes inv: "srv_inv s" and j: "joining s" "exited s"
  shows "advances asserts fuel env s Dealloc_return"
proof -
  note i = srv_invD [OF inv]
  have f: "shutdown_queued (ps s)" "stop_seen s" "batch s = []" "leftover s = None" "callers s = []" "\<not> accepting_commands (ps s)" "srv_held s = 0"
    and none: "heap (srv (ps s)) h = None" for h using i(8) j by (auto simp: shut_ok_def)
  have p: "pending s = []" using i(2) f(5) by (simp add: served_def)
  have na: "CMD_ADD_CHANNEL h \<notin> set (queued s)" for h using p by (auto simp: pending_def filter_empty_conv)
  let ?p = "(ps s)\<lparr>worker_running := False, accepting_commands := False, cmd_list := []\<rparr>"
  let ?s = "s\<lparr>ps := ?p\<lparr>srv := clear_poll_cache (srv ?p)\<rparr>, joining := False\<rparr>"
  have v: "queued ?s = []" "pending ?s = []" "registered ?s = registered s" "answered ?s = answered s"
    using f(3) by (simp_all add: view_defs clear_poll_cache_def)
  have reg: "registered s = []" using server_okD(4) [OF i(3)] none by (auto simp: registered_def) (metis list.set_intros(1) neq_Nil_conv)
  have r: "refs_to ?s = refs_to s"
  proof (rule ext)
    fix h have "CMD_ADD_CHANNEL h \<notin> set (queued s)" by (rule na)
    then show "refs_to ?s h = refs_to s h" unfolding refs_to_def v by (simp add: f(5) count_list_0_iff)
  qed
  have "srv_inv ?s"
  proof (rule srv_invI)
    show "served ?s" using i(2) f(5) unfolding served_def v by simp
    show "server_ok 0 (srv (ps ?s))" using i(3) reg by (simp add: server_ok_def clear_poll_cache_def registered_def)
    show "counted (srv (ps ?s)) (refs_to ?s)" unfolding r using i(4) by (simp add: counted_def clear_poll_cache_def)
    show "shut_ok ?s" using f none unfolding shut_ok_def v by (simp add: clear_poll_cache_def)
    show "order_ok ?s" unfolding order_ok_def v by simp
  qed (use i(1) f none in \<open>auto simp: base_ok_def open_ok_def clear_poll_cache_def\<close>)
  moreover have "stop_worker_return (ps s) = Some ?p"
    using free_no_adds [of "cmd_list (ps s)"] na f(3) by (simp add: stop_worker_return_def detach_commands_def queued_def)
  ultimately show ?thesis using j by (intro advancesI) simp_all
qed

section \<open>Admissible runs\<close>

text \<open>
  What the program and the interpreter keep to. A method needs a reference to its object; a callback runs while the worker polls (any time
  between two passes of the worker stands for this), and calls no method that waits for the worker. A new object does not get the address of a living one. A reference that a
  blocked method uses is not given up. The last reference to the server is given up outside of its methods and of the worker, and its destructor
  runs when no channel refers to it any more, with memory for its command. With assertions, a server is shut down once.
\<close>

definition calm_net :: "nat \<Rightarrow> ('cb, sockaddr, 'w) server_env \<Rightarrow> bool" where
  [code del]: "calm_net fuel env \<longleftrightarrow> (\<forall>fd w. recv_ends fuel env fd w)"

fun srv_adm :: "bool \<Rightarrow> nat \<Rightarrow> ('cb, sockaddr, 'w) server_env \<Rightarrow> ('cb, 'w) srv_sys \<Rightarrow> 'cb srv_act \<Rightarrow> bool" where
  "srv_adm asserts fuel env s (Create le arg) \<longleftrightarrow> 0 < srv_held s \<and>
     (case lib_object le of None \<Rightarrow> True | Some h \<Rightarrow> heap (srv (ps s)) h = None)"
| "srv_adm asserts fuel env s Create_return \<longleftrightarrow> waiter_status s \<noteq> None \<and> (case callers s of Creating h # rest \<Rightarrow> True | _ \<Rightarrow> False)"
| "srv_adm asserts fuel env s (Close on_worker le h) \<longleftrightarrow> 0 < held s h \<and> (on_worker \<longrightarrow> worker_idle s)"
| "srv_adm asserts fuel env s Close_return \<longleftrightarrow> waiter_status s \<noteq> None \<and> (case callers s of Closing h # rest \<Rightarrow> True | _ \<Rightarrow> False)"
| "srv_adm asserts fuel env s (Set_target on_worker le h arg) \<longleftrightarrow> 0 < held s h \<and> \<not> on_worker"
| "srv_adm asserts fuel env s Set_target_return \<longleftrightarrow>
     waiter_status s \<noteq> None \<and> (case callers s of Targeting h addr # rest \<Rightarrow> True | _ \<Rightarrow> False)"
| "srv_adm asserts fuel env s (Send le h arg) \<longleftrightarrow> 0 < held s h \<and>
     (case heap (srv (ps s)) h of None \<Rightarrow> True | Some ch \<Rightarrow> writeIdx (out_q ch) \<noteq> - 1)"
| "srv_adm asserts fuel env s (Shutdown le) \<longleftrightarrow> 0 < srv_held s \<and> (asserts \<longrightarrow> accepting_commands (ps s))"
| "srv_adm asserts fuel env s Shutdown_return \<longleftrightarrow> waiter_status s \<noteq> None \<and> (case callers s of Dropping # rest \<Rightarrow> True | _ \<Rightarrow> False)"
| "srv_adm asserts fuel env s (Callback_create le arg) \<longleftrightarrow> False"
| "srv_adm asserts fuel env s (Callback_shutdown le) \<longleftrightarrow> False"
| "srv_adm asserts fuel env s (Take h) \<longleftrightarrow> 0 < held s h"
| "srv_adm asserts fuel env s (Drop h) \<longleftrightarrow> uses s h < held s h"
| "srv_adm asserts fuel env s Drop_server \<longleftrightarrow> 0 < srv_held s \<and>
     (srv_held s = 1 \<longrightarrow> list_all (\<lambda>c. case c of Creating h \<Rightarrow> False | Dropping \<Rightarrow> False | _ \<Rightarrow> True) (callers s) \<and> leftover s = None)"
| "srv_adm asserts fuel env s (Dealloc le) \<longleftrightarrow> srv_held s = 0 \<and> callers s = [] \<and> (\<forall>h \<in> set (used s). heap (srv (ps s)) h = None) \<and>
     \<not> shutdown_queued (ps s) \<and> lib_calloc le"
| "srv_adm asserts fuel env s Dealloc_return \<longleftrightarrow> joining s \<and> exited s"
| "srv_adm asserts fuel env s Worker_detach \<longleftrightarrow> worker_idle s"
| "srv_adm asserts fuel env s Worker_command \<longleftrightarrow> batch s \<noteq> [] \<and> leftover s = None"
| "srv_adm asserts fuel env s Worker_free \<longleftrightarrow> leftover s \<noteq> None"
| "srv_adm asserts fuel env s Worker_pass \<longleftrightarrow> worker_idle s \<and> calm_net fuel env"
| "srv_adm asserts fuel env s Worker_exit \<longleftrightarrow> \<not> exited s \<and> stop_seen s \<and> batch s = [] \<and> leftover s = None"

lemma create_step_sys:
  assumes inv: "srv_inv s" and adm: "srv_adm asserts fuel env s (Create le arg)"
  shows "advances asserts fuel env s (Create le arg)"
proof -
  have fresh: "heap (srv (ps s)) h = None" if "lib_object le = Some h" for h using adm that by simp
  from srv_create_cases [OF srv_invD(9) [OF inv] fresh, of le arg] obtain r p' where
    r: "PyRtpServer_create_channel le arg (ps s) = Some (r, p')" and
    c: "if r = Waiting then \<exists>h ch. lib_object le = Some h \<and> accepting_commands (ps s) \<and> \<not> cmd_waiter_busy (ps s) \<and>
       p' = takes_waiter (CMD_ADD_CHANNEL h) (chan_put (ps s) h ch) \<and> chan_ok 0 ch \<and> ob_refcnt ch = 2 \<and> \<not> ch_closed ch
     else quiet (ps s) p'" by blast
  show ?thesis
  proof (cases "r = Waiting")
    case False
    then show ?thesis using r c srv_quiet_sys [OF inv] by (intro advancesI) auto
  next
    case True
    with c obtain h ch where h: "lib_object le = Some h" "accepting_commands (ps s)" "\<not> cmd_waiter_busy (ps s)"
      "p' = takes_waiter (CMD_ADD_CHANNEL h) (chan_put (ps s) h ch)" "chan_ok 0 ch" "ob_refcnt ch = 2" "\<not> ch_closed ch" by auto
    show ?thesis using r True h start_create [OF inv h(3,2) fresh [OF h(1)] h(5-7)] by (intro advancesI) simp_all
  qed
qed

lemma close_step_sys:
  assumes inv: "srv_inv s" and adm: "srv_adm asserts fuel env s (Close on_worker le h)"
  shows "advances asserts fuel env s (Close on_worker le h)"
proof -
  have held: "0 < held s h" using adm by simp
  from refs_held [OF inv held] obtain ch where ch: "heap (srv (ps s)) h = Some ch" by blast
  then have g: "chan_get (ps s) h = Some ch" by (simp add: chan_get_def)
  from srv_close_cases [OF srv_invD(9) [OF inv] alive_running [OF inv held] g, of le on_worker] obtain r p' where
    r: "rtp_channel_close_internal le True on_worker h (ps s) = Some (r, p')" and
    c: "if r = Waiting then \<not> ch_closed ch \<and> accepting_commands (ps s) \<and> \<not> cmd_waiter_busy (ps s) \<and> p' = takes_waiter (CMD_REMOVE_CHANNEL h True) (ps s)
     else quiet (ps s) p' \<or> \<not> accepting_commands (ps s) \<and> p' = chan_put (ps s) h (ch\<lparr>ch_closed := True\<rparr>) \<or>
       on_worker \<and> accepting_commands (ps s) \<and> \<not> ch_closed ch \<and>
       p' = chan_put ((ps s)\<lparr>cmd_list := cmd_list (ps s) @ [CMD_REMOVE_CHANNEL h False]\<rparr>) h (ch\<lparr>ch_closed := True\<rparr>)" by blast
  show ?thesis
  proof (cases "r = Waiting")
    case True
    then have "srv_inv (s\<lparr>ps := takes_waiter (caller_cmd (Closing h)) (ps s), callers := callers s @ [Closing h]\<rparr>)"
      using c ch by (intro start_plain_call [OF inv _ _ held]) auto
    then show ?thesis using r c True by (intro advancesI) auto
  next
    case False
    have m: "srv_inv (s\<lparr>ps := chan_put (ps s) h (ch\<lparr>ch_closed := True\<rparr>)\<rparr>)"
      using mark_closed [OF inv held ch, of "[]"] by simp
    have "srv_inv (s\<lparr>ps := p'\<rparr>)" using c False m srv_quiet_sys [OF inv] mark_closed [OF inv held ch, of "[CMD_REMOVE_CHANNEL h False]"] by auto
    then show ?thesis using r False by (intro advancesI) auto
  qed
qed

lemma target_step_sys:
  assumes inv: "srv_inv s" and adm: "srv_adm asserts fuel env s (Set_target on_worker le h arg)"
  shows "advances asserts fuel env s (Set_target on_worker le h arg)"
proof -
  have held: "0 < held s h" "\<not> on_worker" using adm by simp_all
  from refs_held [OF inv held(1)] have "chan_get (ps s) h \<noteq> None" by (auto simp: chan_get_def)
  from set_target_cases [OF srv_invD(9) [OF inv] this, of le arg] obtain r addr p' where
    r: "PyRtpChannel_set_target le arg h (ps s) = Some (r, addr, p')" and
    c: "if r = Waiting then accepting_commands (ps s) \<and> \<not> cmd_waiter_busy (ps s) \<and> p' = takes_waiter (CMD_SET_TARGET h (the addr)) (ps s) else quiet (ps s) p'"
    by blast
  show ?thesis
  proof (cases "r = Waiting")
    case True
    then have "srv_inv (s\<lparr>ps := takes_waiter (caller_cmd (Targeting h (the addr))) (ps s), callers := callers s @ [Targeting h (the addr)]\<rparr>)"
      using c by (intro start_plain_call [OF inv _ _ held(1)]) auto
    then show ?thesis using r c True held(2) by (intro advancesI) auto
  next
    case False
    then have "srv_inv (s\<lparr>ps := p'\<rparr>)" using c srv_quiet_sys [OF inv] by auto
    then show ?thesis using r False by (intro advancesI) auto
  qed
qed

lemma shutdown_step_sys:
  assumes inv: "srv_inv s" and adm: "srv_adm asserts fuel env s (Shutdown le)"
  shows "advances asserts fuel env s (Shutdown le)"
proof -
  note i = srv_invD [OF inv]
  have "srv_held s \<noteq> 0" using adm by simp
  then have run: "worker_running (ps s)" using i(8) by (auto simp: shut_ok_def)
  show ?thesis
  proof (cases "accepting_commands (ps s) \<and> lib_calloc le")
    case False
    then show ?thesis using adm run inv by (auto simp: advances_def rtp_server_drop_channels_internal_def)
  next
    case True
    from srv_acquire_cases [OF i(9), of le] show ?thesis
    proof (elim disjE exE conjE)
      fix e assume "server_waiter_acquire le (ps s) = (Some e, ps s)"
      then show ?thesis using True run inv by (intro advancesI) (auto simp: rtp_server_drop_channels_internal_def)
    next
      assume a: "\<not> cmd_waiter_busy (ps s)"
        "server_waiter_acquire le (ps s) = (None, (ps s)\<lparr>cmd_waiter_busy := True, cmd_waiter := rtp_sync_waiter_reset (cmd_waiter (ps s))\<rparr>)"
      have "takes_waiter CMD_DROP_CHANNELS ((ps s)\<lparr>accepting_commands := False\<rparr>) = (ps s)\<lparr>cmd_waiter_busy := True,
          cmd_waiter := rtp_sync_waiter_reset (cmd_waiter (ps s)), cmd_list := cmd_list (ps s) @ [CMD_DROP_CHANNELS], accepting_commands := False\<rparr>"
        by (simp add: takes_waiter_def)
      then show ?thesis using a True run start_drop [OF inv a(1)] by (intro advancesI) (auto simp: rtp_server_drop_channels_internal_def)
    qed
  qed
qed

text \<open>The methods that return from their wait.\<close>

lemma not_in_callback: "srv_inv s \<Longrightarrow> srv_inv (s\<lparr>in_callback := False\<rparr>)"
proof -
  assume i: "srv_inv s"
  have "\<not> in_callback s" using srv_invD(1) [OF i] by (simp add: base_ok_def)
  then have "s\<lparr>in_callback := False\<rparr> = s" by (cases s) simp
  with i show ?thesis by simp
qed

lemma return_steps_sys:
  assumes inv: "srv_inv s"
  shows "srv_adm asserts fuel env s Create_return \<Longrightarrow> advances asserts fuel env s Create_return"
    "srv_adm asserts fuel env s Close_return \<Longrightarrow> advances asserts fuel env s Close_return"
    "srv_adm asserts fuel env s Set_target_return \<Longrightarrow> advances asserts fuel env s Set_target_return"
    "srv_adm asserts fuel env s Shutdown_return \<Longrightarrow> advances asserts fuel env s Shutdown_return"
proof -
  assume "srv_adm asserts fuel env s Create_return"
  then obtain h rest status where c: "callers s = Creating h # rest" "waiter_status s = Some status" by (auto split: list.splits srv_caller.splits)
  from create_return_sys [OF inv c] obtain r p where r: "create_channel_return status h (ps s) = Some (r, p)"
    "srv_inv (s\<lparr>ps := p, callers := rest, held := (if r = Finished then (held s)(h := held s h + 1) else held s)\<rparr>)" by blast
  show "advances asserts fuel env s Create_return" using c r(1) not_in_callback [OF r(2)] by (auto intro: advancesI)
next
  assume "srv_adm asserts fuel env s Close_return"
  then obtain h rest status where c: "callers s = Closing h # rest" "waiter_status s = Some status" by (auto split: list.splits srv_caller.splits)
  from close_return_sys [OF inv c] c show "advances asserts fuel env s Close_return" by (auto intro: advancesI)
next
  assume "srv_adm asserts fuel env s Set_target_return"
  then obtain h addr rest status where c: "callers s = Targeting h addr # rest" "waiter_status s = Some status"
    by (auto split: list.splits srv_caller.splits)
  from target_return_sys [OF inv c] obtain r p where r: "set_target_return status h (ps s) = Some (r, p)" "srv_inv (s\<lparr>ps := p, callers := rest\<rparr>)" by blast
  show "advances asserts fuel env s Set_target_return" using c r(1) not_in_callback [OF r(2)] by (auto intro: advancesI)
next
  assume "srv_adm asserts fuel env s Shutdown_return"
  then obtain rest status where c: "callers s = Dropping # rest" "waiter_status s = Some status" by (auto split: list.splits srv_caller.splits)
  then have "answered s" by (auto simp: waiter_status_def answered_def split: if_splits)
  from not_in_callback [OF drop_return_sys [OF inv c(1) this]] c show "advances asserts fuel env s Shutdown_return"
    by (auto simp: drop_channels_return_def intro: advancesI)
qed

lemma worker_steps_sys:
  assumes inv: "srv_inv s"
  shows "srv_adm asserts fuel env s Worker_detach \<Longrightarrow> advances asserts fuel env s Worker_detach"
    "srv_adm asserts fuel env s Worker_command \<Longrightarrow> advances asserts fuel env s Worker_command"
    "srv_adm asserts fuel env s Worker_free \<Longrightarrow> advances asserts fuel env s Worker_free"
    "srv_adm asserts fuel env s Worker_pass \<Longrightarrow> advances asserts fuel env s Worker_pass"
    "srv_adm asserts fuel env s Worker_exit \<Longrightarrow> advances asserts fuel env s Worker_exit"
proof -
  have cb: "\<not> in_callback s" using srv_invD(1) [OF inv] by (simp add: base_ok_def)
  show "srv_adm asserts fuel env s Worker_detach \<Longrightarrow> advances asserts fuel env s Worker_detach"
    using detach_sys [OF inv] by (auto simp: detach_commands_def intro: advancesI)
  show "advances asserts fuel env s Worker_command" if adm: "srv_adm asserts fuel env s Worker_command"
  proof -
    from adm obtain cmd rest where b: "batch s = cmd # rest" "leftover s = None" by (auto simp: neq_Nil_conv)
    have e: "\<not> exited s" using srv_invD(8) [OF inv] b(1) by (auto simp: shut_ok_def)
    from any_command_sys [OF inv b(1) e b(2), of env] show ?thesis using b e cb
      by (auto simp: goes_on_def after_command_def intro: advancesI)
  qed
  show "srv_adm asserts fuel env s Worker_free \<Longrightarrow> advances asserts fuel env s Worker_free"
    using free_sys [OF inv] cb by (auto simp: advances_def simp del: free_command.simps)
  show "srv_adm asserts fuel env s Worker_pass \<Longrightarrow> advances asserts fuel env s Worker_pass"
    using pass_sys [OF inv, of fuel env "next_tick_ns s"] by (auto simp: calm_net_def intro: advancesI)
  show "srv_adm asserts fuel env s Worker_exit \<Longrightarrow> advances asserts fuel env s Worker_exit"
    using exit_sys [OF inv] by (auto intro: advancesI)
qed

lemma count_steps_sys:
  assumes inv: "srv_inv s"
  shows "srv_adm asserts fuel env s (Take h) \<Longrightarrow> advances asserts fuel env s (Take h)"
    "srv_adm asserts fuel env s (Drop h) \<Longrightarrow> advances asserts fuel env s (Drop h)"
    "srv_adm asserts fuel env s Drop_server \<Longrightarrow> advances asserts fuel env s Drop_server"
  using take_sys [OF inv, of h] drop_sys [OF inv, of h] srv_held_sys [OF inv, of 1] by (auto intro: advancesI)

lemma srv_step_sys:
  assumes inv: "srv_inv s" and adm: "srv_adm asserts fuel env s a"
  shows "advances asserts fuel env s a"
proof (cases a)
  case (Send le h arg)
  then show ?thesis using send_sys [OF inv, of h] adm by (auto split: option.splits)
next
  case (Dealloc le)
  then show ?thesis using dealloc_sys [OF inv] adm by auto
next
  case Dealloc_return
  then show ?thesis using dealloc_return_sys [OF inv] adm by auto
next
  case (Callback_create le arg)
  then show ?thesis using adm by simp
next
  case (Callback_shutdown le)
  then show ?thesis using adm by simp
qed (use inv adm create_step_sys close_step_sys target_step_sys shutdown_step_sys return_steps_sys worker_steps_sys count_steps_sys
  in \<open>simp_all del: srv_adm.simps\<close>)

interpretation ssys: invariant_machine "srv_step asserts fuel env" "srv_adm asserts fuel env" srv_inv
  for asserts fuel and env :: "('cb, sockaddr, 'w) server_env"
proof
  fix s :: "('cb, 'w) srv_sys" and a
  assume "srv_inv s" "srv_adm asserts fuel env s a"
  from srv_step_sys [OF this] show "srv_step asserts fuel env s a \<noteq> None" by (auto simp: advances_def simp del: srv_step.simps)
next
  fix s s' :: "('cb, 'w) srv_sys" and a out
  assume a: "srv_inv s" "srv_adm asserts fuel env s a" and st: "srv_step asserts fuel env s a = Some (out, s')"
  from srv_step_sys [OF a] st show "srv_inv s'" by (auto simp: advances_def simp del: srv_step.simps)
qed

text \<open>A server that has just been created and initialised.\<close>

definition srv_start :: "bool \<Rightarrow> srv_init \<Rightarrow> 'w \<Rightarrow> ('cb, 'w) srv_sys option" where
  "srv_start asserts ie w =
     (case PyRtpServer_init asserts ie PyRtpServer_new of
        Some (rc, p) \<Rightarrow>
          if rc \<noteq> 0 then None
          else Some \<lparr>ps = p, callers = [], joining = False, batch = [], leftover = None, stop_seen = False, exited = False,
            next_tick_ns = 0, in_callback = False, world = w, held = (\<lambda>h. 0), srv_held = 1, leaked = (\<lambda>h. 0), used = [], cmd_log = []\<rparr>
      | None \<Rightarrow> None)"

lemma srv_init_cases:
  assumes "PyRtpServer_init asserts ie PyRtpServer_new = Some (0, p)"
  shows "server_inited p" "\<not> cmd_waiter_busy p" "\<not> shutdown_queued p" "cmd_list p = []" "srv p = srv PyRtpServer_new" "worker_running p" "0 < tick_ns p"
proof -
  from assms obtain hz t where t: "PyRtpServer_tick_ns hz = Some t" "tick_ns p = t"
    by (auto simp: PyRtpServer_init_def PyRtpServer_new_def Let_def split: if_splits prod.splits option.splits)
  then show "0 < tick_ns p" by (auto simp: PyRtpServer_tick_ns_def Let_def word_neq_0_conv split: if_splits)
qed (use assms in \<open>auto simp: PyRtpServer_init_def PyRtpServer_new_def Let_def split: if_splits prod.splits option.splits\<close>)

lemma srv_start_ok:
  assumes "srv_start asserts ie w = Some s"
  shows "srv_inv s"
proof -
  obtain p where p: "PyRtpServer_init asserts ie PyRtpServer_new = Some (0, p)"
    and s: "s = \<lparr>ps = p, callers = [], joining = False, batch = [], leftover = None, stop_seen = False, exited = False,
            next_tick_ns = 0, in_callback = False, world = w, held = (\<lambda>h. 0), srv_held = 1, leaked = (\<lambda>h. 0), used = [], cmd_log = []\<rparr>"
    using assms by (auto simp: srv_start_def split: option.splits prod.splits if_splits)
  show ?thesis using srv_init_cases [OF p]
    by (simp add: s srv_inv_def base_ok_def served_def mem_ok_def order_ok_def open_ok_def shut_ok_def view_defs PyRtpServer_new_def
        server_ok_def counted_def refs_to_def)
qed

end
