(* ===== verification/Rtp_Server_Props.thy ===== *)
theory Rtp_Server_Props
  imports Rtp_Server_Sys
begin

text \<open>
  What the runs of \<^verbatim>\<open>python/RtpServer_mod.c\<close> guarantee: references and memory, answers to blocked threads, the end of a
  server, the way of a packet from \<open>send_pkt\<close> to the socket, and the calls that a callback must not make.
\<close>

section \<open>What a step does to queue and registry\<close>

definition srv_view :: "'cb py_server \<Rightarrow> sockaddr server_cmd list \<times> bool \<times> chan_addr option list" where
  "srv_view p = (cmd_list p, accepting_commands p, chans (srv p))"

named_theorems view_intros \<open>operations that leave command queue and registry alone\<close>

lemma unref_chans: "rtp_channel_state_unref acc sv h = Some sv' \<Longrightarrow> chans sv' = chans sv"
  by (auto simp: rtp_channel_state_unref_def split: option.splits if_splits)

lemma view_plain [simp]:
  "srv_view (chan_put p h ch) = srv_view p" "srv_view (log_closed p fds) = srv_view p" "srv_view (free_send_item p item) = srv_view p"
  "srv_view (server_waiter_release p) = srv_view p" "srv_view (p\<lparr>cmd_waiter_busy := b\<rparr>) = srv_view p" "srv_view (p\<lparr>cmd_waiter := w\<rparr>) = srv_view p"
  by (simp_all add: srv_view_def chan_put_def log_closed_def free_send_item_def server_waiter_release_def)

lemma view_decref [view_intros]: "chan_decref p h = Some p' \<Longrightarrow> srv_view p' = srv_view p"
  using unref_chans [of "accepting_commands p" "srv p" h] by (auto simp: chan_decref_def srv_view_def)

lemma view_close [view_intros]: "chan_close p h = Some p' \<Longrightarrow> srv_view p' = srv_view p"
  by (auto simp: chan_close_def)

lemma view_incref [view_intros]: "chan_incref p h = Some p' \<Longrightarrow> srv_view p' = srv_view p"
  by (auto simp: chan_incref_def)

lemma view_abandon [view_intros]: "abandon_channel p h = Some p' \<Longrightarrow> srv_view p' = srv_view p"
  by (auto simp: abandon_channel_def dest!: view_decref view_close split: option.splits)

lemma view_free [view_intros]: "free_command p cmd = Some p' \<Longrightarrow> srv_view p' = srv_view p"
  by (cases cmd) (auto dest: view_decref)

lemma view_acquire [view_intros]: "server_waiter_acquire le p = (r, p') \<Longrightarrow> srv_view p' = srv_view p"
  by (auto simp: server_waiter_acquire_def Let_def split: if_splits)

lemma view_returns [view_intros]:
  "create_channel_return st h p = Some (r, p') \<Longrightarrow> srv_view p' = srv_view p"
  "channel_close_return e st h p = Some (r, p') \<Longrightarrow> srv_view p' = srv_view p"
  "set_target_return st h p = Some (r, p') \<Longrightarrow> srv_view p' = srv_view p"
  "drop_channels_return st p = (r, p') \<Longrightarrow> srv_view p' = srv_view p"
  "PyRtpChannel_send_pkt le d h p = Some (r, p') \<Longrightarrow> srv_view p' = srv_view p"
  by (auto simp: create_channel_return_def channel_close_return_def set_target_return_def drop_channels_return_def PyRtpChannel_send_pkt_def
      Let_def dest!: view_intros split: if_splits option.splits sum.splits)

text \<open>A method either leaves queue and registry alone, or the server accepts commands and one of these is queued.\<close>

definition one_more :: "'cb py_server \<Rightarrow> sockaddr server_cmd \<Rightarrow> 'cb py_server \<Rightarrow> bool" where
  "one_more p cmd p' \<longleftrightarrow> accepting_commands p \<and> srv_view p' = (cmd_list p @ [cmd], True, chans (srv p))"

lemma enqueue_view: "enqueue_command p cmd = (r, p') \<Longrightarrow> if r = None then one_more p cmd p' else srv_view p' = srv_view p"
  by (auto simp: enqueue_command_def one_more_def srv_view_def split: if_splits)

lemma one_more_cong: "srv_view p1 = srv_view p \<Longrightarrow> one_more p1 cmd p2 \<Longrightarrow> srv_view p3 = srv_view p2 \<Longrightarrow> one_more p cmd p3"
  by (auto simp: one_more_def srv_view_def)

lemma create_view:
  assumes "PyRtpServer_create_channel le arg p = Some (r, p')"
  shows "srv_view p' = srv_view p \<or> (\<exists>h. one_more p (CMD_ADD_CHANNEL h) p')"
proof -
  have sub: "srv_view p2 = srv_view q \<or> one_more q (CMD_ADD_CHANNEL h) p2" if s: "submit_channel le h q = Some (r, p2)" for q h p2
  proof (cases "lib_calloc le")
    case False
    then show ?thesis using s by (auto simp: submit_channel_def dest!: view_intros)
  next
    case True
    from s True obtain q1 where q1: "chan_incref q h = Some q1" by (auto simp: submit_channel_def split: option.splits)
    obtain e q2 where q2: "server_waiter_acquire le q1 = (e, q2)" by fastforce
    have v: "srv_view q2 = srv_view q" using view_incref [OF q1] view_acquire [OF q2] by simp
    obtain e' q3 where q3: "enqueue_command q2 (CMD_ADD_CHANNEL h) = (e', q3)" by fastforce
    note w = enqueue_view [OF q3]
    show ?thesis
    proof (cases "e = None \<and> e' = None")
      case True
      then have "p2 = q3" using s q1 q2 q3 \<open>lib_calloc le\<close> by (simp add: submit_channel_def)
      then show ?thesis using w True one_more_cong [OF v] by auto
    next
      case False
      then have "srv_view p2 = srv_view q2 \<or> e = None \<and> srv_view p2 = srv_view q3" using s q1 q2 q3 \<open>lib_calloc le\<close>
        by (cases e; cases e') (auto simp: submit_channel_def simp del: free_command.simps dest!: view_intros split: option.splits)
      then show ?thesis using v w False by auto
    qed
  qed
  show ?thesis using assms
    by (auto simp: PyRtpServer_create_channel_def dest!: sub split: option.splits sum.splits prod.splits
        intro: one_more_cong [OF view_plain(1) _ refl])
qed

lemma close_view:
  assumes "rtp_channel_close_internal le with_error on_worker h p = Some (r, p')"
  shows "srv_view p' = srv_view p \<or> one_more p (CMD_REMOVE_CHANNEL h True) p' \<or>
    one_more p (CMD_REMOVE_CHANNEL h False) p' \<and> (on_worker \<or> \<not> with_error)"
proof -
  from assms obtain ch where ch: "chan_get p h = Some ch" by (auto simp: rtp_channel_close_internal_def split: option.splits)
  show ?thesis
  proof (cases "\<not> ch_closed ch \<and> accepting_commands p \<and> lib_calloc le \<and> worker_running p")
    case False
    then show ?thesis using assms ch by (auto simp: rtp_channel_close_internal_def dest!: view_intros split: if_splits)
  next
    case True
    obtain e p1 where p1: "(if on_worker then (None, p) else server_waiter_acquire le p) = (e, p1)" by fastforce
    have v: "srv_view p1 = srv_view p" using p1 by (auto split: if_splits dest: view_acquire)
    let ?w = "\<not> on_worker \<and> e = None"
    obtain e' p2 where p2: "enqueue_command p1 (CMD_REMOVE_CHANNEL h ?w) = (e', p2)" by fastforce
    note w = enqueue_view [OF p2]
    from assms ch True p1 p2 have "p' = p1 \<or> srv_view p' = srv_view p2 \<and> (?w \<or> on_worker \<or> \<not> with_error)"
      by (auto simp: rtp_channel_close_internal_def Let_def dest!: view_intros split: if_splits option.splits prod.splits)
    then show ?thesis using w v one_more_cong [OF v] by (cases "e' = None"; cases ?w) auto
  qed
qed

lemma target_view:
  assumes "PyRtpChannel_set_target le arg h p = Some (r, addr, p')"
  shows "srv_view p' = srv_view p \<or> (\<exists>a. one_more p (CMD_SET_TARGET h a) p')"
proof -
  have enq: "if x = None then one_more q cmd p2 else srv_view p2 = srv_view q" if "enqueue_command q cmd = (x, p2)" for q x p2 cmd
    using enqueue_view [OF that] .
  show ?thesis using assms
    by (auto simp: PyRtpChannel_set_target_def dest!: enq view_acquire split: option.splits sum.splits prod.splits if_splits
        dest: one_more_cong [OF _ _ refl])
qed

lemma drop_view:
  assumes "rtp_server_drop_channels_internal asserts le p = Some (r, p')"
  shows "srv_view p' = srv_view p \<or> r = Waiting \<and> accepting_commands p \<and> \<not> cmd_waiter_busy p \<and> srv_view p' = (cmd_list p @ [CMD_DROP_CHANNELS], False, chans (srv p))"
  using assms by (auto simp: rtp_server_drop_channels_internal_def server_waiter_acquire_def server_waiter_release_def Let_def srv_view_def
      split: if_splits option.splits prod.splits)

section \<open>The end of the registry, and references that nobody owns\<close>

text \<open>Once the server accepts no commands, no channel is added, and the registry is empty as soon as \<open>CMD_DROP_CHANNELS\<close> was processed.\<close>

definition late_ok :: "('cb, 'w) srv_sys \<Rightarrow> bool" where
  "late_ok s \<longleftrightarrow> accepting_commands (ps s) \<or>
     (\<forall>h. CMD_ADD_CHANNEL h \<notin> set (queued s)) \<and> (CMD_DROP_CHANNELS \<in> set (queued s) \<or> registered s = [])"

text \<open>Without a \<open>close\<close> in a callback every reference has an owner.\<close>

definition tight :: "('cb, 'w) srv_sys \<Rightarrow> bool" where
  "tight s \<longleftrightarrow> (\<forall>h. CMD_REMOVE_CHANNEL h False \<notin> set (queued s)) \<and> (\<forall>h. leaked s h = 0)"

fun callback_close :: "'cb srv_act \<Rightarrow> bool" where
  "callback_close (Close on_worker le h) = on_worker"
| "callback_close a = False"

fun worker_act :: "'cb srv_act \<Rightarrow> bool" where
  "worker_act Worker_detach = True"
| "worker_act Worker_command = True"
| "worker_act Worker_free = True"
| "worker_act Worker_pass = True"
| "worker_act Worker_exit = True"
| "worker_act a = False"

definition method_moves :: "'cb srv_act \<Rightarrow> 'cb py_server \<Rightarrow> 'cb py_server \<Rightarrow> bool" where
  "method_moves a p p' \<longleftrightarrow> srv_view p' = srv_view p \<or>
     (\<exists>c. one_more p c p' \<and> (\<forall>h. c = CMD_REMOVE_CHANNEL h False \<longrightarrow> callback_close a)) \<or>
     \<not> cmd_waiter_busy p \<and> srv_view p' = (cmd_list p @ [CMD_DROP_CHANNELS], False, chans (srv p))"

lemma method_movesI:
  "srv_view p' = srv_view p \<Longrightarrow> method_moves a p p'"
  "one_more p c p' \<Longrightarrow> (\<And>h. c = CMD_REMOVE_CHANNEL h False \<Longrightarrow> callback_close a) \<Longrightarrow> method_moves a p p'"
  "\<not> cmd_waiter_busy p \<Longrightarrow> srv_view p' = (cmd_list p @ [CMD_DROP_CHANNELS], False, chans (srv p)) \<Longrightarrow> method_moves a p p'"
  by (auto simp: method_moves_def)

lemma method_step:
  assumes st: "srv_step asserts fuel env s a = Some (r, s')" and a: "\<not> worker_act a" "a \<noteq> Dealloc_return" "\<And>le. a \<noteq> Dealloc le"
  shows "batch s' = batch s \<and> leaked s' = leaked s \<and> method_moves a (ps s) (ps s')"
proof (cases a)
  case (Create le arg)
  with st obtain p' where p': "PyRtpServer_create_channel le arg (ps s) = Some (r, p')" "ps s' = p'" "batch s' = batch s" "leaked s' = leaked s"
    by (auto split: option.splits if_splits)
  then show ?thesis using create_view [OF p'(1)] by (auto intro: method_movesI)
next
  case (Close on_worker le h)
  with st obtain p' where p': "rtp_channel_close_internal le True on_worker h (ps s) = Some (r, p')" "ps s' = p'" "batch s' = batch s" "leaked s' = leaked s"
    by (auto split: option.splits)
  then show ?thesis using close_view [OF p'(1)] Close by (auto intro: method_movesI)
next
  case (Set_target on_worker le h arg)
  with st obtain addr p' where p': "PyRtpChannel_set_target le arg h (ps s) = Some (r, addr, p')" "ps s' = p'" "batch s' = batch s" "leaked s' = leaked s"
    by (auto split: option.splits)
  then show ?thesis using target_view [OF p'(1)] by (auto intro: method_movesI)
next
  case (Shutdown le)
  with st obtain p' where p': "rtp_server_drop_channels_internal asserts le (ps s) = Some (r, p')" "ps s' = p'" "batch s' = batch s" "leaked s' = leaked s"
    by (auto split: option.splits)
  then show ?thesis using drop_view [OF p'(1)] by (auto intro: method_movesI)
next
  case (Callback_create le arg)
  with st obtain p' where p': "PyRtpServer_create_channel le arg (ps s) = Some (r, p')" "ps s' = p'" "batch s' = batch s" "leaked s' = leaked s"
    by (auto split: option.splits if_splits)
  then show ?thesis using create_view [OF p'(1)] by (auto intro: method_movesI)
next
  case (Callback_shutdown le)
  with st obtain p' where p': "rtp_server_drop_channels_internal asserts le (ps s) = Some (r, p')" "ps s' = p'" "batch s' = batch s" "leaked s' = leaked s"
    by (auto split: option.splits if_splits)
  then show ?thesis using drop_view [OF p'(1)] by (auto intro: method_movesI)
qed (use st a in \<open>auto intro!: method_movesI(1) dest: view_intros split: option.splits list.splits srv_caller.splits prod.splits\<close>)

lemma late_method:
  assumes inv: "srv_inv s" and late: "late_ok s" and m: "batch s' = batch s" "method_moves a (ps s) (ps s')"
  shows "late_ok s'"
  using m(2) unfolding method_moves_def
proof (elim disjE exE conjE)
  assume "srv_view (ps s') = srv_view (ps s)"
  then show ?thesis using late m(1) by (simp add: late_ok_def srv_view_def view_defs)
next
  fix c assume "one_more (ps s) c (ps s')"
  then show ?thesis by (simp add: late_ok_def one_more_def srv_view_def)
next
  assume b: "\<not> cmd_waiter_busy (ps s)" "srv_view (ps s') = (cmd_list (ps s) @ [CMD_DROP_CHANNELS], False, chans (srv (ps s)))"
  then have "queued s' = queued s @ [CMD_DROP_CHANNELS]" using m(1) by (simp add: srv_view_def queued_def)
  then show ?thesis using idle_facts(3) [OF inv b(1)] by (simp add: late_ok_def)
qed

lemma tight_method:
  assumes t: "tight s" and m: "batch s' = batch s" "leaked s' = leaked s" "method_moves a (ps s) (ps s')" and a: "\<not> callback_close a"
  shows "tight s'"
  using m(3) unfolding method_moves_def
proof (elim disjE exE conjE)
  fix c assume c: "one_more (ps s) c (ps s')" "\<forall>h. c = CMD_REMOVE_CHANNEL h False \<longrightarrow> callback_close a"
  then have "queued s' = queued s @ [c]" using m(1) by (simp add: one_more_def srv_view_def queued_def)
  then show ?thesis using t m(2) c(2) a by (auto simp: tight_def)
qed (use t m in \<open>auto simp: tight_def queued_def srv_view_def\<close>)

text \<open>The worker.\<close>

lemma command_registry:
  assumes "process_command env acc sv cmd w = Some ((status, down, left, sv'), w')" "\<And>h. cmd \<noteq> CMD_ADD_CHANNEL h"
  shows "members (chans sv) = [] \<or> cmd = CMD_DROP_CHANNELS \<Longrightarrow> members (chans sv') = []"
proof (cases cmd)
  case (CMD_REMOVE_CHANNEL h waits)
  moreover assume "members (chans sv) = [] \<or> cmd = CMD_DROP_CHANNELS"
  ultimately have "members (chans sv) = []" by simp
  then have "find_channel_index sv h = None" using srv_find_channel_None [of sv h] by simp
  then show ?thesis using assms(1) CMD_REMOVE_CHANNEL \<open>members (chans sv) = []\<close> by (auto simp: remove_channel_def)
qed (use assms in \<open>auto simp: clear_channels_def clear_poll_cache_def split: option.splits\<close>)

lemma late_command:
  assumes late: "late_ok s" and st: "srv_step asserts fuel env s Worker_command = Some (r, s')"
  shows "late_ok s'"
proof -
  from st obtain cmd rest where b: "batch s = cmd # rest" by (auto split: list.splits)
  with st obtain status down left sv w where
    c: "process_command env (accepting_commands (ps s)) (srv (ps s)) cmd (world s) = Some ((status, down, left, sv), w)"
    and s': "s' = after_command s cmd rest status down left sv w" by (auto simp: after_command_def split: if_splits option.splits)
  note v = after_views [OF b s']
  show ?thesis
  proof (cases "accepting_commands (ps s)")
    case False
    then have na: "CMD_ADD_CHANNEL h \<notin> set (queued s)" for h using late by (simp add: late_ok_def)
    then have "registered s' = []" if "registered s = [] \<or> cmd = CMD_DROP_CHANNELS"
      using command_registry [OF c] that by (simp add: v(7)) (auto simp: v(1) registered_def)
    then show ?thesis using late na False by (auto simp: late_ok_def v)
  qed (simp add: late_ok_def v)
qed

lemma tight_command:
  assumes t: "tight s" and st: "srv_step asserts fuel env s Worker_command = Some (r, s')"
  shows "tight s'"
proof -
  from st obtain cmd rest where b: "batch s = cmd # rest" by (auto split: list.splits)
  with st obtain status down left sv w where s': "s' = after_command s cmd rest status down left sv w"
    by (auto simp: after_command_def split: if_splits option.splits)
  have q: "queued s = cmd # queued s'" by (rule after_views(1) [OF b s'])
  then have "orphaned cmd (srv (ps s)) h = 0" for h using t by (cases cmd) (auto simp: tight_def orphaned_def)
  moreover have "leaked s' h = leaked s h + orphaned cmd (srv (ps s)) h" for h by (simp add: s' after_command_def)
  ultimately show ?thesis using t q by (auto simp: tight_def)
qed

lemma no_channels:
  assumes "srv_inv s" "\<And>h. heap (srv (ps s)) h = None"
  shows "registered s = []" "members (chans (srv (ps s))) = []"
proof -
  have "h \<notin> set (registered s)" for h using server_okD(4) [OF srv_invD(3) [OF assms(1)], of h] assms(2) [of h] by (auto simp: registered_def)
  then have "set (registered s) = {}" by (intro equals0I) auto
  then show "registered s = []" "members (chans (srv (ps s))) = []" by (simp_all add: registered_def)
qed

text \<open>The steps that are neither a method nor a command.\<close>

lemma other_step:
  assumes inv: "srv_inv s" and adm: "srv_adm asserts fuel env s a" and st: "srv_step asserts fuel env s a = Some (r, s')"
    and a: "a \<in> {Worker_detach, Worker_free, Worker_pass, Worker_exit, Dealloc_return} \<or> (\<exists>le. a = Dealloc le)"
  shows "leaked s' = leaked s" "set (queued s') \<subseteq> insert CMD_STOP_WORKER (set (queued s))"
    "late_ok s \<Longrightarrow> late_ok s'"
proof -
  note i = srv_invD [OF inv]
  have q: "leaked s' = leaked s \<and> queued s' = queued s \<and> registered s' = registered s \<and> accepting_commands (ps s') = accepting_commands (ps s)"
    if "a = Worker_detach \<or> a = Worker_free \<or> a = Worker_exit"
    using that st by (elim disjE) (auto simp: detach_commands_def view_defs worker_idle_def srv_view_def dest!: view_decref split: option.splits if_splits)
  have w: "leaked s' = leaked s \<and> queued s' = queued s \<and> registered s' = registered s \<and> accepting_commands (ps s') = accepting_commands (ps s)"
    if "a = Worker_pass"
  proof -
    have t: "0 < tick_ns (ps s)" "\<forall>fd w. recv_ends fuel env fd w" using i(1) adm that by (auto simp: base_ok_def calm_net_def)
    from srv_worker_pass_ok [OF i(3) t, of "next_tick_ns s" "world s"] st that show ?thesis
      by (auto simp: view_defs split: if_splits)
  qed
  have d: "leaked s' = leaked s \<and> queued s' = queued s @ [CMD_STOP_WORKER] \<and> registered s' = [] \<and> (\<forall>h. CMD_ADD_CHANNEL h \<notin> set (queued s'))" if "a = Dealloc le" for le
  proof -
    have none: "heap (srv (ps s)) h = None" for h using adm i(1) that by (auto simp: base_ok_def)
    note no_channels [OF inv none]
    moreover have "\<not> cmd_waiter_busy (ps s)" using i(2) adm that by (simp add: served_def)
    ultimately show ?thesis using st that idle_facts(3) [OF inv]
      by (auto simp: rtp_server_stop_worker_internal_def view_defs split: if_splits option.splits)
  qed
  have e: "leaked s' = leaked s \<and> queued s' = [] \<and> registered s' = []" if "a = Dealloc_return"
  proof -
    have f: "batch s = []" "callers s = []" "heap (srv (ps s)) h = None" for h using i(8) adm that by (auto simp: shut_ok_def)
    note no_channels [OF inv f(3)]
    moreover have "\<not> cmd_waiter_busy (ps s)" using i(2) f(2) by (simp add: served_def)
    then have "CMD_ADD_CHANNEL h \<notin> set (cmd_list (ps s))" for h using idle_facts(3) [OF inv] by (simp add: queued_def)
    then have "stop_worker_return (ps s) = Some ((ps s)\<lparr>worker_running := False, accepting_commands := False, cmd_list := []\<rparr>)"
      using free_no_adds [of "cmd_list (ps s)"] by (simp add: stop_worker_return_def detach_commands_def)
    ultimately show ?thesis using st that f(1) by (auto simp: view_defs clear_poll_cache_def split: if_splits)
  qed
  from a consider "a = Worker_detach \<or> a = Worker_free \<or> a = Worker_exit" | "a = Worker_pass" | le where "a = Dealloc le" | "a = Dealloc_return" by blast
  then show "leaked s' = leaked s" "set (queued s') \<subseteq> insert CMD_STOP_WORKER (set (queued s))" "late_ok s \<Longrightarrow> late_ok s'"
    by (cases, use q w d e in \<open>auto simp: late_ok_def\<close>)+
qed

lemma srv_late_step:
  assumes inv: "srv_inv s" and adm: "srv_adm asserts fuel env s a" and st: "srv_step asserts fuel env s a = Some (r, s')"
  shows "late_ok s \<Longrightarrow> late_ok s'" "tight s \<Longrightarrow> \<not> callback_close a \<Longrightarrow> tight s'"
proof -
  let ?other = "a \<in> {Worker_detach, Worker_free, Worker_pass, Worker_exit, Dealloc_return} \<or> (\<exists>le. a = Dealloc le)"
  have c: "?other \<or> a = Worker_command \<or> \<not> worker_act a \<and> a \<noteq> Dealloc_return \<and> (\<forall>le. a \<noteq> Dealloc le)" by (cases a) auto
  show "late_ok s'" if "late_ok s"
    using c other_step(3) [OF inv adm st] late_command [OF that, of asserts fuel env r s'] method_step [OF st] late_method [OF inv that, of s' a] st that by blast
  show "tight s'" if "tight s" "\<not> callback_close a"
  proof -
    have "tight s'" if ?other using other_step(1,2) [OF inv adm st that] \<open>tight s\<close> by (auto simp: tight_def)
    then show ?thesis
      using c tight_command [OF that(1), of asserts fuel env r s'] method_step [OF st] tight_method [OF that(1), of s' a] st that(2) by blast
  qed
qed

interpretation slate: invariant_machine "srv_step asserts fuel env" "srv_adm asserts fuel env" "\<lambda>s. srv_inv s \<and> late_ok s"
  for asserts fuel and env :: "('cb, sockaddr, 'w) server_env"
  by unfold_locales (use ssys.step_total ssys.step_inv srv_late_step(1) in blast)+

definition plain_adm :: "bool \<Rightarrow> nat \<Rightarrow> ('cb, sockaddr, 'w) server_env \<Rightarrow> ('cb, 'w) srv_sys \<Rightarrow> 'cb srv_act \<Rightarrow> bool" where
  "plain_adm asserts fuel env s a \<longleftrightarrow> srv_adm asserts fuel env s a \<and> \<not> callback_close a"

interpretation stight: invariant_machine "srv_step asserts fuel env" "plain_adm asserts fuel env" "\<lambda>s. srv_inv s \<and> late_ok s \<and> tight s"
  for asserts fuel and env :: "('cb, sockaddr, 'w) server_env"
proof
  fix s :: "('cb, 'w) srv_sys" and a
  assume "srv_inv s \<and> late_ok s \<and> tight s" "plain_adm asserts fuel env s a"
  then show "srv_step asserts fuel env s a \<noteq> None" unfolding plain_adm_def by (metis ssys.step_total)
next
  fix s s' :: "('cb, 'w) srv_sys" and a r
  assume "srv_inv s \<and> late_ok s \<and> tight s" "plain_adm asserts fuel env s a" and st: "srv_step asserts fuel env s a = Some (r, s')"
  then have p: "srv_inv s" "late_ok s" "tight s" "srv_adm asserts fuel env s a" "\<not> callback_close a" by (simp_all add: plain_adm_def)
  show "srv_inv s' \<and> late_ok s' \<and> tight s'"
    using ssys.step_inv [OF p(1,4) st] srv_late_step(1) [OF p(1,4) st p(2)] srv_late_step(2) [OF p(1,4) st p(3,5)] by simp
qed

section \<open>The worker answers\<close>

definition worker_only :: "'cb srv_act list \<Rightarrow> bool" where
  "worker_only acts \<longleftrightarrow> set acts \<subseteq> {Worker_command, Worker_free}"

text \<open>Left to itself, the worker frees what it has processed and gets to the next command.\<close>

lemma free_progress:
  assumes inv: "srv_inv s"
  shows "\<exists>acts outs s1. worker_only acts \<and> run_steps (srv_step asserts fuel env) s acts = Some (outs, s1) \<and> srv_inv s1 \<and> leftover s1 = None \<and>
    callers s1 = callers s \<and> batch s1 = batch s \<and> cmd_list (ps s1) = cmd_list (ps s)"
proof (cases "leftover s")
  case None
  then show ?thesis using inv by (intro exI [of _ "[]"] exI [of _ s]) (simp add: worker_only_def)
next
  case (Some h)
  from free_sys [OF inv Some] obtain p where p: "free_command (ps s) (CMD_ADD_CHANNEL h) = Some p" "srv_inv (s\<lparr>ps := p, leftover := None\<rparr>)" by blast
  have "\<not> in_callback s" using srv_invD(1) [OF inv] by (simp add: base_ok_def)
  then have "run_steps (srv_step asserts fuel env) s [Worker_free] = Some ([Finished], s\<lparr>ps := p, leftover := None\<rparr>)"
    using Some p(1) by (simp del: free_command.simps)
  then show ?thesis using p view_free [OF p(1)]
    by (intro exI [of _ "[Worker_free]"] exI [of _ "[Finished]"] exI [of _ "s\<lparr>ps := p, leftover := None\<rparr>"]) (simp add: worker_only_def srv_view_def)
qed

lemma command_progress:
  assumes inv: "srv_inv s" and b: "batch s = cmd # rest" "leftover s = None"
  shows "\<exists>s1. srv_step asserts fuel env s Worker_command = Some (Finished, s1) \<and> srv_inv s1 \<and> callers s1 = callers s \<and>
    batch s1 = rest \<and> cmd_list (ps s1) = cmd_list (ps s)"
proof -
  have e: "\<not> exited s" "\<not> in_callback s" using srv_invD(1,8) [OF inv] b(1) by (auto simp: shut_ok_def base_ok_def)
  from any_command_sys [OF inv b(1) e(1) b(2), of env] show ?thesis using b e
    by (auto simp: goes_on_def after_command_def)
qed

lemma batch_progress:
  "srv_inv s \<Longrightarrow> \<exists>acts outs s1. worker_only acts \<and> run_steps (srv_step asserts fuel env) s acts = Some (outs, s1) \<and> srv_inv s1 \<and> leftover s1 = None \<and>
    callers s1 = callers s \<and> batch s1 = [] \<and> cmd_list (ps s1) = cmd_list (ps s)"
proof (induction "length (batch s)" arbitrary: s)
  case 0
  then show ?case using free_progress [OF 0(2), of asserts fuel env] by auto
next
  case (Suc n)
  from free_progress [OF Suc.prems, of asserts fuel env] obtain a1 o1 s1 where
    s1: "worker_only a1" "run_steps (srv_step asserts fuel env) s a1 = Some (o1, s1)" "srv_inv s1" "leftover s1 = None"
    "callers s1 = callers s" "batch s1 = batch s" "cmd_list (ps s1) = cmd_list (ps s)" by blast
  from Suc.hyps(2) s1(6) obtain cmd rest where b: "batch s1 = cmd # rest" "length rest = n" by (cases "batch s") auto
  from command_progress [OF s1(3) b(1) s1(4), of asserts fuel env] obtain s2 where
    s2: "srv_step asserts fuel env s1 Worker_command = Some (Finished, s2)" "srv_inv s2" "callers s2 = callers s1" "batch s2 = rest"
    "cmd_list (ps s2) = cmd_list (ps s1)" by blast
  from Suc.hyps(1) [of s2] s2(2,4) b(2) obtain a3 o3 s3 where
    s3: "worker_only a3" "run_steps (srv_step asserts fuel env) s2 a3 = Some (o3, s3)" "srv_inv s3" "leftover s3 = None"
    "callers s3 = callers s2" "batch s3 = []" "cmd_list (ps s3) = cmd_list (ps s2)" by blast
  have "run_steps (srv_step asserts fuel env) s1 (Worker_command # a3) = Some (Finished # o3, s3)" using s2(1) s3(2) by (simp del: srv_step.simps)
  from run_steps_append [OF s1(2) this] show ?case using s1 s2 s3 by (intro exI [of _ "a1 @ Worker_command # a3"]) (auto simp: worker_only_def)
qed

text \<open>The rest of what it has detached, a pass over the channels, and what is queued then.\<close>

definition worker_turn :: "'cb srv_act list \<Rightarrow> bool" where
  "worker_turn acts \<longleftrightarrow> (\<exists>a1 a2. acts = a1 @ [Worker_pass, Worker_detach] @ a2 \<and> worker_only a1 \<and> worker_only a2)"

lemma pass_progress:
  assumes inv: "srv_inv s" and idle: "worker_idle s" and calm: "calm_net fuel env"
  shows "\<exists>s1. srv_step asserts fuel env s Worker_pass = Some (Finished, s1) \<and> srv_inv s1 \<and> worker_idle s1 \<and> callers s1 = callers s \<and> batch s1 = batch s"
proof -
  have "advances asserts fuel env s Worker_pass" using worker_steps_sys(4) [OF inv] idle calm by simp
  then obtain r s1 where s1: "srv_step asserts fuel env s Worker_pass = Some (r, s1)" "srv_inv s1" by (auto simp: advances_def simp del: srv_step.simps)
  then have "r = Finished \<and> worker_idle s1 \<and> callers s1 = callers s \<and> batch s1 = batch s"
    using idle by (auto simp: worker_idle_def split: option.splits prod.splits)
  with s1 show ?thesis by auto
qed

lemma detach_progress:
  assumes inv: "srv_inv s" and idle: "worker_idle s"
  shows "\<exists>acts outs s1. worker_only acts \<and> run_steps (srv_step asserts fuel env) s (Worker_detach # acts) = Some (outs, s1) \<and> srv_inv s1 \<and>
    callers s1 = callers s \<and> pending s1 = []"
proof -
  let ?t = "s\<lparr>ps := (ps s)\<lparr>cmd_list := []\<rparr>, batch := cmd_list (ps s)\<rparr>"
  from batch_progress [OF detach_sys [OF inv idle], of asserts fuel env] obtain a2 o2 s2 where
    s2: "worker_only a2" "run_steps (srv_step asserts fuel env) ?t a2 = Some (o2, s2)" "srv_inv s2" "callers s2 = callers s" "batch s2 = []"
    "cmd_list (ps s2) = []" by auto
  have "run_steps (srv_step asserts fuel env) s (Worker_detach # a2) = Some (Finished # o2, s2)"
    using idle s2(2) by (simp add: detach_commands_def)
  moreover have "pending s2 = []" using s2(5,6) by (simp add: pending_def queued_def)
  ultimately show ?thesis using s2(1,3,4) by blast
qed

lemma srv_caller_progress:
  assumes inv: "srv_inv s" and c: "callers s = [c]" and calm: "calm_net fuel env"
  shows "\<exists>acts outs s'. worker_turn acts \<and> run_steps (srv_step asserts fuel env) s acts = Some (outs, s') \<and> callers s' = [c] \<and> w_done (cmd_waiter (ps s'))"
proof -
  from batch_progress [OF inv, of asserts fuel env] obtain a1 o1 s1 where
    s1: "worker_only a1" "run_steps (srv_step asserts fuel env) s a1 = Some (o1, s1)" "srv_inv s1" "leftover s1 = None"
    "callers s1 = [c]" "batch s1 = []" using c by auto
  have idle: "worker_idle s1" using srv_invD(1,8) [OF s1(3)] s1(4-6) by (auto simp: worker_idle_def base_ok_def shut_ok_def)
  from pass_progress [OF s1(3) idle calm, of asserts] obtain s2 where
    s2: "srv_step asserts fuel env s1 Worker_pass = Some (Finished, s2)" "srv_inv s2" "worker_idle s2" "callers s2 = [c]" using s1(5) by auto
  from detach_progress [OF s2(2,3), of asserts fuel env] obtain a2 o3 s3 where
    s3: "worker_only a2" "run_steps (srv_step asserts fuel env) s2 (Worker_detach # a2) = Some (o3, s3)" "srv_inv s3" "callers s3 = [c]" "pending s3 = []"
    using s2(4) by auto
  have "run_steps (srv_step asserts fuel env) s1 ([Worker_pass, Worker_detach] @ a2) = Some (Finished # o3, s3)"
    using s2(1) s3(2) by (simp del: srv_step.simps)
  note r = run_steps_append [OF s1(2) this]
  have "w_done (cmd_waiter (ps s3))" using srv_invD(2) [OF s3(3)] s3(4,5) by (auto simp: served_def answered_def split: if_splits)
  then show ?thesis using r s1(1) s3(1,4) unfolding worker_turn_def by blast
qed

definition gets_answer :: "bool \<Rightarrow> nat \<Rightarrow> ('cb, sockaddr, 'w) server_env \<Rightarrow> ('cb, 'w) srv_sys \<Rightarrow> bool" where
  "gets_answer asserts fuel env s \<longleftrightarrow> (\<exists>a1 a2 outs s'. set (a1 @ a2) \<subseteq> {Worker_command, Worker_free} \<and>
     run_steps (srv_step asserts fuel env) s (a1 @ [Worker_pass, Worker_detach] @ a2) = Some (outs, s') \<and>
     callers s' = callers s \<and> w_done (cmd_waiter (ps s')))"

definition caller_promise :: "bool \<Rightarrow> nat \<Rightarrow> ('cb, sockaddr, 'w) server_env \<Rightarrow> ('cb, 'w) srv_sys \<Rightarrow> srv_caller \<Rightarrow> bool" where
  "caller_promise asserts fuel env s c \<longleftrightarrow>
     (if w_done (cmd_waiter (ps s)) then (caller_cmd c, w_status (cmd_waiter (ps s))) \<in> set (cmd_log s)
      else caller_cmd c \<in> set (queued s) \<and> (c \<noteq> Dropping \<longrightarrow> CMD_DROP_CHANNELS \<notin> set (queued s) \<and> gets_answer asserts fuel env s))"

lemma inv_one_caller: "srv_inv s \<Longrightarrow> length (callers s) \<le> 1"
  using one_caller [of s] by (cases "callers s") auto

lemma turn_answers:
  assumes "worker_turn acts" "run_steps (srv_step asserts fuel env) s acts = Some (outs, s')" "callers s' = callers s" "w_done (cmd_waiter (ps s'))"
  shows "gets_answer asserts fuel env s"
proof -
  from assms(1) obtain a1 a2 where a: "acts = a1 @ [Worker_pass, Worker_detach] @ a2" "set (a1 @ a2) \<subseteq> {Worker_command, Worker_free}"
    by (auto simp: worker_turn_def worker_only_def)
  show ?thesis unfolding gets_answer_def using assms(2-4) [unfolded a(1)] a(2) by blast
qed

lemma inv_caller_promise:
  assumes inv: "srv_inv s" and calm: "calm_net fuel env" and c: "c \<in> set (callers s)"
  shows "caller_promise asserts fuel env s c"
proof -
  have cs: "callers s = [c]" using c one_caller [OF inv] by (cases "callers s") auto
  note sv = srv_invD(2) [OF inv, unfolded served_def cs list.case answered_def]
  show ?thesis
  proof (cases "w_done (cmd_waiter (ps s))")
    case True
    then show ?thesis using sv by (simp add: caller_promise_def)
  next
    case False
    then have q: "set (filter has_waiter (queued s)) = {caller_cmd c}" using sv by (simp add: pending_def [symmetric])
    have "CMD_DROP_CHANNELS \<notin> set (queued s)" if "c \<noteq> Dropping"
    proof
      assume "CMD_DROP_CHANNELS \<in> set (queued s)"
      then have "CMD_DROP_CHANNELS \<in> set (filter has_waiter (queued s))" by simp
      then have "CMD_DROP_CHANNELS = caller_cmd c" unfolding q by simp
      then show False using that by (cases c) simp_all
    qed
    moreover have "caller_cmd c \<in> set (filter has_waiter (queued s))" unfolding q by simp
    then have "caller_cmd c \<in> set (queued s)" by simp
    moreover from srv_caller_progress [OF inv cs calm, of asserts] obtain acts outs s' where
      t: "worker_turn acts" "run_steps (srv_step asserts fuel env) s acts = Some (outs, s')" "callers s' = [c]" "w_done (cmd_waiter (ps s'))" by blast
    from turn_answers [OF t(1,2) _ t(4)] t(3) cs have "gets_answer asserts fuel env s" by simp
    ultimately show ?thesis using False by (simp add: caller_promise_def)
  qed
qed

section \<open>Properties of all runs\<close>

text \<open>A network that is silent, a library whose calls succeed, and a channel with a queue of two packets, for examples.\<close>

definition silent_env :: "(nat, sockaddr, unit) server_env" where
  "silent_env = \<lparr>env_realloc = (\<lambda>n w. (True, w)), env_poll = (\<lambda>fds w. (map (\<lambda>fd. False) fds, w)),
     env_recvfrom = (\<lambda>fd w. (None, w)), env_now = (\<lambda>w. (50, w))\<rparr>"

definition lib_good :: "chan_addr \<Rightarrow> srv_lib" where
  "lib_good h = \<lparr>lib_object = Some h, lib_calloc = True, lib_reset = True, lib_queue = True,
     lib_socket = \<lparr>so_socket = 7, so_nonblock = True, so_bind = True, so_getsockname = Some (Sockaddr_in 1 4000)\<rparr>,
     lib_gai = (\<lambda>host port passive family. (0, [(AF_INET, 16, Sockaddr_in 2 (word_of_int port))]))\<rparr>"

definition init_good :: srv_init where
  "init_good = \<lparr>i_tick_hz = Some 200, i_mutex = True, i_attr = True, i_setclock = True, i_cond = True, i_waiter_mutex = True,
     i_waiter_cond = True, i_thread = True\<rparr>"

definition sample_args :: "nat create_args" where
  "sample_args = \<lparr>a_pkt_in = 3, a_callable = True, a_bind_host = None, a_bind_port = 0, a_queue_size = 2, a_bind_family = Arg_none\<rparr>"

definition served_acts :: "nat srv_act \<Rightarrow> nat srv_act \<Rightarrow> nat srv_act list" where
  "served_acts call return = [call, Worker_detach, Worker_command, return]"

definition open_acts :: "chan_addr \<Rightarrow> nat srv_act list" where
  "open_acts h = served_acts (Create (lib_good h) (Some sample_args)) Create_return"

definition sample_start :: "(nat, unit) srv_sys" where
  "sample_start = the (srv_start True init_good ())"

lemma sample_start_eq: "srv_start True init_good () = Some sample_start"
  by (simp add: sample_start_def srv_start_def PyRtpServer_init_def PyRtpServer_new_def init_good_def rtp_sync_waiter_init_def
      rtp_sync_cond_init_monotonic_def PyRtpServer_tick_ns_def Let_def)

text \<open>
  C17. References to channels are exact in every interleaving of the methods and the worker in which methods are called with a reference to their
  object that is not given up during the call, no callback calls a method that waits for the worker (\<open>set_target\<close>,
  \<open>create_channel\<close>, \<open>shutdown\<close>), the last reference to the server is given up outside of its methods and of the worker and
  its destructor gets memory for its command, the network pauses within the bound on datagrams per pass, and in a build with assertions the server is
  shut down at most once. No step touches a freed channel or runs into an assertion; the count of every channel object is the number of the references
  that the program, the registry, queued commands and blocked threads have to it, plus those that got lost; an object is gone exactly when there is
  none; and the registry has every channel at most once and only living ones. A second \<open>shutdown\<close> does run into an assertion.
\<close>

theorem server_refs_exact:
  assumes "srv_start asserts ie w = Some s0" and "admissible_run (srv_step asserts fuel env) (srv_adm asserts fuel env) s0 acts"
  shows "\<exists>outs s. run_steps (srv_step asserts fuel env) s0 acts = Some (outs, s) \<and>
    (\<forall>h. heap (srv (ps s)) h = None \<longleftrightarrow> refs_to s h = 0) \<and>
    (\<forall>h ch. heap (srv (ps s)) h = Some ch \<longrightarrow> ob_refcnt ch = refs_to s h) \<and>
    distinct (registered s) \<and> (\<forall>h \<in> set (registered s). heap (srv (ps s)) h \<noteq> None)"
proof -
  from ssys.run_ok [OF srv_start_ok [OF assms(1)] assms(2)] obtain outs s
    where r: "run_steps (srv_step asserts fuel env) s0 acts = Some (outs, s)" and inv: "srv_inv s" by blast
  note i = srv_invD [OF inv]
  have "ob_refcnt ch = refs_to s h" if "heap (srv (ps s)) h = Some ch" for h ch
    using i(4) that unfolding counted_def by (auto dest!: spec [of _ h])
  moreover have "heap (srv (ps s)) h \<noteq> None" if "h \<in> set (registered s)" for h using server_okD(4) [OF i(3)] that by (simp add: registered_def)
  moreover have "distinct (registered s)" using server_okD(1) [OF i(3)] by (simp add: registered_def)
  ultimately show ?thesis using r counted_dead [OF i(4)] by blast
qed

theorem server_refs_exact_witness:
  "\<exists>outs s. run_steps (srv_step True 5 silent_env) sample_start (open_acts 40 @ [Take 40]) = Some (outs, s) \<and>
     held s 40 = 2 \<and> registered s = [40] \<and> map_option ob_refcnt (heap (srv (ps s)) 40) = Some 3 \<and> refs_to s 40 = 3"
proof -
  have a: "admissible_run (srv_step True 5 silent_env) (srv_adm True 5 silent_env) sample_start (open_acts 40 @ [Take 40])" by code_simp
  from server_refs_exact [OF sample_start_eq a] obtain outs s where
    r: "run_steps (srv_step True 5 silent_env) sample_start (open_acts 40 @ [Take 40]) = Some (outs, s)"
    "\<forall>h ch. heap (srv (ps s)) h = Some ch \<longrightarrow> ob_refcnt ch = refs_to s h" by blast
  have "map_option (\<lambda>(outs, s). (held s 40, registered s, map_option ob_refcnt (heap (srv (ps s)) 40)))
      (run_steps (srv_step True 5 silent_env) sample_start (open_acts 40 @ [Take 40])) = Some (2, [40], Some 3)" by code_simp
  with r show ?thesis by auto
qed

text \<open>
  C18. A caller of \<open>create_channel\<close>, \<open>close\<close> or \<open>set_target\<close> is not stranded, and none gets the answer to
  another one's command. In every state that the methods and the worker can reach, at most one thread waits; either it has a status, which is the one
  of its own command, or its command is queued, and unless it is in \<open>shutdown\<close> no \<open>CMD_DROP_CHANNELS\<close> is queued and the
  worker alone, with the rest of what it has detached, a pass over the channels and what is queued then, gets to the point where the status is there.
  The conditions are: methods are called with a reference to their object that is not given up during the call, no callback calls a method that waits
  for the worker (\<open>set_target\<close>, \<open>create_channel\<close>, \<open>shutdown\<close>), the last reference to the server is given up
  outside of its methods and of the worker and its destructor gets memory for its command, the network pauses within the bound on datagrams per pass,
  and in a build with assertions the server is shut down at most once, and callbacks return. For a thread in \<open>shutdown\<close> an answer is not
  claimed: the worker can deadlock while it drops the channels.
\<close>

theorem server_caller_served:
  assumes "srv_start asserts ie w = Some s0" and "admissible_run (srv_step asserts fuel env) (srv_adm asserts fuel env) s0 acts"
    and "calm_net fuel env"
  shows "\<exists>outs s. run_steps (srv_step asserts fuel env) s0 acts = Some (outs, s) \<and> length (callers s) \<le> 1 \<and>
    (\<forall>c \<in> set (callers s).
       if w_done (cmd_waiter (ps s)) then (caller_cmd c, w_status (cmd_waiter (ps s))) \<in> set (cmd_log s)
       else caller_cmd c \<in> set (queued s) \<and>
         (c \<noteq> Dropping \<longrightarrow> CMD_DROP_CHANNELS \<notin> set (queued s) \<and>
            (\<exists>a1 a2 outs' s'. set (a1 @ a2) \<subseteq> {Worker_command, Worker_free} \<and>
               run_steps (srv_step asserts fuel env) s (a1 @ [Worker_pass, Worker_detach] @ a2) = Some (outs', s') \<and>
               callers s' = callers s \<and> w_done (cmd_waiter (ps s')))))"
proof -
  from ssys.run_ok [OF srv_start_ok [OF assms(1)] assms(2)] obtain outs s
    where r: "run_steps (srv_step asserts fuel env) s0 acts = Some (outs, s)" and inv: "srv_inv s" by blast
  show ?thesis using r inv_one_caller [OF inv] inv_caller_promise [OF inv assms(3), of _ asserts, unfolded caller_promise_def gets_answer_def]
    by blast
qed

theorem server_caller_served_witness:
  "\<exists>outs s. run_steps (srv_step True 5 silent_env) sample_start (open_acts 40 @ [Close False (lib_good 0) 40]) = Some (outs, s) \<and>
     callers s = [Closing 40] \<and> \<not> w_done (cmd_waiter (ps s)) \<and>
     (\<exists>acts' outs' s'. run_steps (srv_step True 5 silent_env) s acts' = Some (outs', s') \<and> w_done (cmd_waiter (ps s')))"
proof -
  let ?acts = "open_acts 40 @ [Close False (lib_good 0) 40]"
  have a: "admissible_run (srv_step True 5 silent_env) (srv_adm True 5 silent_env) sample_start ?acts" by code_simp
  have "calm_net 5 silent_env" by (simp add: calm_net_def recv_ends.simps silent_env_def)
  from server_caller_served [OF sample_start_eq a this] obtain outs s where
    r: "run_steps (srv_step True 5 silent_env) sample_start ?acts = Some (outs, s)" and
    c: "\<forall>c \<in> set (callers s). if w_done (cmd_waiter (ps s)) then (caller_cmd c, w_status (cmd_waiter (ps s))) \<in> set (cmd_log s)
       else caller_cmd c \<in> set (queued s) \<and>
         (c \<noteq> Dropping \<longrightarrow> CMD_DROP_CHANNELS \<notin> set (queued s) \<and>
            (\<exists>a1 a2 outs' s'. set (a1 @ a2) \<subseteq> {Worker_command, Worker_free} \<and>
               run_steps (srv_step True 5 silent_env) s (a1 @ [Worker_pass, Worker_detach] @ a2) = Some (outs', s') \<and>
               callers s' = callers s \<and> w_done (cmd_waiter (ps s'))))" by blast
  have "map_option (\<lambda>(outs, s). (callers s, w_done (cmd_waiter (ps s)))) (run_steps (srv_step True 5 silent_env) sample_start ?acts) =
      Some ([Closing 40], False)" by code_simp
  with r have e: "callers s = [Closing 40]" "\<not> w_done (cmd_waiter (ps s))" by auto
  then have "\<exists>acts' outs' s'. run_steps (srv_step True 5 silent_env) s acts' = Some (outs', s') \<and> w_done (cmd_waiter (ps s'))" using c by auto
  with r e show ?thesis by blast
qed

text \<open>
  A second \<open>shutdown\<close> runs into an assertion, if there are any; without assertions it returns at once.
\<close>

lemma server_second_shutdown:
  "run_steps (srv_step True 5 silent_env) sample_start (served_acts (Shutdown (lib_good 0)) Shutdown_return @ [Shutdown (lib_good 0)]) = None \<and>
   map_option (last \<circ> fst) (run_steps (srv_step False 5 silent_env) sample_start
     (served_acts (Shutdown (lib_good 0)) Shutdown_return @ [Shutdown (lib_good 0)])) = Some Finished"
  by (rule conjI; code_simp)

text \<open>
  C20. A shutdown is final. As soon as the worker has answered it, and in every state after that, the registry is empty and no queued command will add
  to it; when no thread waits, a channel object is still there only if the program has a reference to it or one got lost. The conditions are: methods
  are called with a reference to their object that is not given up during the call, no callback calls a method that waits for the worker
  (\<open>set_target\<close>, \<open>create_channel\<close>, \<open>shutdown\<close>), the last reference to the server is given up outside of its
  methods and of the worker and its destructor gets memory for its command, the network pauses within the bound on datagrams per pass, and in a build
  with assertions the server is shut down at most once.
\<close>

theorem server_shutdown_final:
  assumes "srv_start asserts ie w = Some s0" and "admissible_run (srv_step asserts fuel env) (srv_adm asserts fuel env) s0 acts"
    and "run_steps (srv_step asserts fuel env) s0 acts = Some (outs, s)" and "\<not> accepting_commands (ps s)"
    and "Dropping \<in> set (callers s) \<longrightarrow> w_done (cmd_waiter (ps s))"
  shows "registered s = [] \<and> (\<forall>h. CMD_ADD_CHANNEL h \<notin> set (queued s)) \<and>
    (callers s = [] \<and> leftover s = None \<longrightarrow> (\<forall>h. heap (srv (ps s)) h = None \<longleftrightarrow> held s h = 0 \<and> leaked s h = 0))"
proof -
  have "srv_inv s0 \<and> late_ok s0" using srv_start_ok [OF assms(1)] assms(1)
    by (auto simp: late_ok_def view_defs srv_start_def PyRtpServer_init_def PyRtpServer_new_def Let_def split: option.splits prod.splits if_splits)
  from slate.run_ok [OF this assms(2)] assms(3) have inv: "srv_inv s" and late: "late_ok s" by auto
  have "CMD_DROP_CHANNELS \<notin> set (queued s)"
    using pending_cmd [OF inv, of CMD_DROP_CHANNELS] assms(5) by (auto simp: answered_def caller_cmd_inj eq_commute [of "CMD_DROP_CHANNELS"])
  then have l: "registered s = []" "CMD_ADD_CHANNEL h \<notin> set (queued s)" for h using late assms(4) by (auto simp: late_ok_def)
  then have "refs_to s h = held s h + leaked s h" if "callers s = []" "leftover s = None" for h
    using that by (simp add: refs_to_def count_list_0_iff)
  then show ?thesis using l counted_dead [OF srv_invD(4) [OF inv]] by auto
qed

theorem server_shutdown_final_witness:
  "\<exists>outs s. run_steps (srv_step True 5 silent_env) sample_start
       (open_acts 40 @ open_acts 41 @ [Drop 40] @ served_acts (Shutdown (lib_good 0)) Shutdown_return) = Some (outs, s) \<and>
     registered s = [] \<and> heap (srv (ps s)) 40 = None \<and> heap (srv (ps s)) 41 \<noteq> None"
proof -
  let ?acts = "open_acts 40 @ open_acts 41 @ [Drop 40] @ served_acts (Shutdown (lib_good 0)) Shutdown_return"
  have a: "admissible_run (srv_step True 5 silent_env) (srv_adm True 5 silent_env) sample_start ?acts" by code_simp
  have "map_option (\<lambda>(outs, s). (accepting_commands (ps s), callers s, leftover s, held s 40, held s 41, leaked s 40))
      (run_steps (srv_step True 5 silent_env) sample_start ?acts) = Some (False, [], None, 0, 1, 0)" by code_simp
  then obtain outs s where r: "run_steps (srv_step True 5 silent_env) sample_start ?acts = Some (outs, s)"
    and e: "\<not> accepting_commands (ps s)" "callers s = []" "leftover s = None" "held s 40 = 0" "held s 41 = 1" "leaked s 40 = 0" by auto
  from server_shutdown_final [OF sample_start_eq a r e(1)] e have "registered s = []" "heap (srv (ps s)) 40 = None" "heap (srv (ps s)) 41 \<noteq> None" by auto
  with r show ?thesis by blast
qed

text \<open>
  C22. Without a \<open>close\<close> in a callback nothing leaks: in every state in which no thread waits and the worker is between two commands, a
  channel object exists exactly if the program has a reference to it or it is still registered. The conditions are: methods are called with a
  reference to their object that is not given up during the call, no callback calls a method that waits for the worker (\<open>set_target\<close>,
  \<open>create_channel\<close>, \<open>shutdown\<close>), the last reference to the server is given up outside of its methods and of the worker and
  its destructor gets memory for its command, the network pauses within the bound on datagrams per pass, and in a build with assertions the server is
  shut down at most once.
\<close>

theorem server_no_leak:
  assumes "srv_start asserts ie w = Some s0" and "admissible_run (srv_step asserts fuel env) (plain_adm asserts fuel env) s0 acts"
    and "run_steps (srv_step asserts fuel env) s0 acts = Some (outs, s)" and "callers s = []" and "leftover s = None"
  shows "heap (srv (ps s)) h \<noteq> None \<longleftrightarrow> 0 < held s h \<or> h \<in> set (registered s)"
proof -
  have "srv_inv s0 \<and> late_ok s0 \<and> tight s0" using srv_start_ok [OF assms(1)] assms(1)
    by (auto simp: late_ok_def tight_def view_defs srv_start_def PyRtpServer_init_def PyRtpServer_new_def Let_def split: option.splits prod.splits if_splits)
  from stight.run_ok [OF this assms(2)] assms(3) have inv: "srv_inv s" and t: "tight s" by auto
  have "\<not> cmd_waiter_busy (ps s)" using srv_invD(2) [OF inv] assms(4) by (simp add: served_def)
  then have "count_list (queued s) (CMD_ADD_CHANNEL h) = 0" using idle_facts(3) [OF inv] by (simp add: count_list_0_iff)
  then have "refs_to s h = held s h + count_list (registered s) h" using t assms(4,5) by (simp add: refs_to_def tight_def)
  then show ?thesis using counted_dead [OF srv_invD(4) [OF inv], of h] by (auto simp: count_list_0_iff)
qed

theorem server_no_leak_witness:
  "\<exists>outs s. run_steps (srv_step True 5 silent_env) sample_start
       (open_acts 40 @ served_acts (Close False (lib_good 0) 40) Close_return @ [Drop 40]) = Some (outs, s) \<and> heap (srv (ps s)) 40 = None"
proof -
  let ?acts = "open_acts 40 @ served_acts (Close False (lib_good 0) 40) Close_return @ [Drop 40]"
  have a: "admissible_run (srv_step True 5 silent_env) (plain_adm True 5 silent_env) sample_start ?acts" by code_simp
  have "map_option (\<lambda>(outs, s). (callers s, leftover s, held s 40, registered s))
      (run_steps (srv_step True 5 silent_env) sample_start ?acts) = Some ([], None, 0, [])" by code_simp
  then obtain outs s where r: "run_steps (srv_step True 5 silent_env) sample_start ?acts = Some (outs, s)"
    and e: "callers s = []" "leftover s = None" "held s 40 = 0" "registered s = []" by auto
  from server_no_leak [OF sample_start_eq a r e(1,2), of 40] e r show ?thesis by auto
qed

section \<open>What a callback must not do\<close>

lemma leaked_grows:
  assumes inv: "srv_inv s" and adm: "srv_adm asserts fuel env s a" and st: "srv_step asserts fuel env s a = Some (r, s')"
  shows "leaked s h \<le> leaked s' h"
proof -
  let ?other = "a \<in> {Worker_detach, Worker_free, Worker_pass, Worker_exit, Dealloc_return} \<or> (\<exists>le. a = Dealloc le)"
  have "leaked s h \<le> leaked s' h" if "a = Worker_command"
    using st that by (auto split: list.splits if_splits option.splits)
  moreover have "?other \<or> a = Worker_command \<or> \<not> worker_act a \<and> a \<noteq> Dealloc_return \<and> (\<forall>le. a \<noteq> Dealloc le)" by (cases a) auto
  ultimately show ?thesis using other_step(1) [OF inv adm st] method_step [OF st] by auto
qed

interpretation sleak: invariant_machine "srv_step asserts fuel env" "srv_adm asserts fuel env" "\<lambda>s. srv_inv s \<and> 0 < leaked s h"
  for asserts fuel h and env :: "('cb, sockaddr, 'w) server_env"
proof
  fix s :: "('cb, 'w) srv_sys" and a
  assume "srv_inv s \<and> 0 < leaked s h" "srv_adm asserts fuel env s a"
  then show "srv_step asserts fuel env s a \<noteq> None" by (metis ssys.step_total)
next
  fix s s' :: "('cb, 'w) srv_sys" and a r
  assume a: "srv_inv s \<and> 0 < leaked s h" "srv_adm asserts fuel env s a" and st: "srv_step asserts fuel env s a = Some (r, s')"
  show "srv_inv s' \<and> 0 < leaked s' h" using ssys.step_inv [OF conjunct1 [OF a(1)] a(2) st] leaked_grows [OF conjunct1 [OF a(1)] a(2) st, of h] a(1) by simp
qed

definition leak_acts :: "nat srv_act list" where
  "leak_acts = open_acts 40 @ [Close True (lib_good 0) 40, Worker_detach, Worker_command, Drop 40]"

text \<open>
  C38. A \<open>close\<close> in a callback leaks the channel. In a run in which a callback closes its channel, the worker removes the channel from
  its registry, but the reference that the registry had is handed to nobody: after the program has given up its own reference, no thread waits and the
  registry is empty, the object is still there, and it stays there, whatever admissible steps follow. As the object refers to the server, the
  destructor of the server, which is admissible only when no channel is left, does not follow.
\<close>

theorem server_callback_close_leaks:
  "\<exists>outs s. run_steps (srv_step True 5 silent_env) sample_start leak_acts = Some (outs, s) \<and>
     admissible_run (srv_step True 5 silent_env) (srv_adm True 5 silent_env) sample_start leak_acts \<and>
     held s 40 = 0 \<and> registered s = [] \<and> callers s = [] \<and> queued s = [] \<and>
     (\<forall>acts. admissible_run (srv_step True 5 silent_env) (srv_adm True 5 silent_env) s acts \<longrightarrow>
       (\<exists>outs' s'. run_steps (srv_step True 5 silent_env) s acts = Some (outs', s') \<and> heap (srv (ps s')) 40 \<noteq> None))"
proof -
  have a: "admissible_run (srv_step True 5 silent_env) (srv_adm True 5 silent_env) sample_start leak_acts" by code_simp
  from ssys.run_ok [OF srv_start_ok [OF sample_start_eq] a] obtain outs s where
    r: "run_steps (srv_step True 5 silent_env) sample_start leak_acts = Some (outs, s)" and inv: "srv_inv s" by blast
  have "map_option (\<lambda>(outs, s). (held s 40, registered s, callers s, queued s, leaked s 40)) (run_steps (srv_step True 5 silent_env) sample_start leak_acts) =
      Some (0, [], [], [], 1)" by code_simp
  with r have e: "held s 40 = 0" "registered s = []" "callers s = []" "queued s = []" "leaked s 40 = 1" by auto
  have "\<exists>outs' s'. run_steps (srv_step True 5 silent_env) s acts = Some (outs', s') \<and> heap (srv (ps s')) 40 \<noteq> None"
    if adm: "admissible_run (srv_step True 5 silent_env) (srv_adm True 5 silent_env) s acts" for acts
  proof -
    have "srv_inv s \<and> 0 < leaked s 40" using inv e(5) by simp
    from sleak.run_ok [OF this adm] obtain outs' s' where t: "run_steps (srv_step True 5 silent_env) s acts = Some (outs', s')" "srv_inv s'" "0 < leaked s' 40" by blast
    then have "refs_to s' 40 \<noteq> 0" by (simp add: refs_to_def)
    then have "heap (srv (ps s')) 40 \<noteq> None" unfolding counted_dead [OF srv_invD(4) [OF t(2)]] .
    then show ?thesis by (intro exI conjI) (rule t(1))
  qed
  then show ?thesis using r a e(1-4) by blast
qed

theorem server_callback_close_leaks_witness:
  "\<exists>outs s outs' s'. run_steps (srv_step True 5 silent_env) sample_start leak_acts = Some (outs, s) \<and>
     run_steps (srv_step True 5 silent_env) s [Drop_server] = Some (outs', s') \<and> srv_held s' = 0 \<and> heap (srv (ps s')) 40 \<noteq> None"
proof -
  from server_callback_close_leaks obtain outs s where
    r: "run_steps (srv_step True 5 silent_env) sample_start leak_acts = Some (outs, s)" "callers s = []" and
    l: "\<forall>acts. admissible_run (srv_step True 5 silent_env) (srv_adm True 5 silent_env) s acts \<longrightarrow>
       (\<exists>outs' s'. run_steps (srv_step True 5 silent_env) s acts = Some (outs', s') \<and> heap (srv (ps s')) 40 \<noteq> None)" by blast
  have "map_option (\<lambda>(outs, s). (srv_held s, leftover s)) (run_steps (srv_step True 5 silent_env) sample_start leak_acts) = Some (1, None)" by code_simp
  with r have "srv_held s = 1" "leftover s = None" by auto
  moreover from this have "admissible_run (srv_step True 5 silent_env) (srv_adm True 5 silent_env) s [Drop_server]" using r(2) by simp
  ultimately show ?thesis using r(1) l by (auto dest: spec [of _ "[Drop_server]"])
qed

text \<open>A thread waits on the worker's own thread.\<close>

definition stuck :: "('cb, 'w) srv_sys \<Rightarrow> bool" where
  "stuck s \<longleftrightarrow> in_callback s \<and> server_inited (ps s) \<and> cmd_waiter_busy (ps s) \<and> \<not> w_done (cmd_waiter (ps s))"

definition sync_view :: "'cb py_server \<Rightarrow> bool \<times> bool \<times> rtp_sync_waiter" where
  "sync_view p = (server_inited p, cmd_waiter_busy p, cmd_waiter p)"

lemma sync_plain [simp]:
  "sync_view (chan_put p h ch) = sync_view p" "sync_view (log_closed p fds) = sync_view p" "sync_view (free_send_item p item) = sync_view p"
  by (simp_all add: sync_view_def chan_put_def log_closed_def free_send_item_def)

named_theorems sync_intros \<open>operations that leave the waiter alone\<close>

lemma sync_decref [sync_intros]: "chan_decref p h = Some p' \<Longrightarrow> sync_view p' = sync_view p"
  by (auto simp: chan_decref_def sync_view_def)

lemma sync_close [sync_intros]: "chan_close p h = Some p' \<Longrightarrow> sync_view p' = sync_view p"
  by (auto simp: chan_close_def)

lemma sync_incref [sync_intros]: "chan_incref p h = Some p' \<Longrightarrow> sync_view p' = sync_view p"
  by (auto simp: chan_incref_def)

lemma sync_abandon [sync_intros]: "abandon_channel p h = Some p' \<Longrightarrow> sync_view p' = sync_view p"
  by (auto simp: abandon_channel_def dest!: sync_decref sync_close split: option.splits)

lemma sync_free [sync_intros]: "free_command p cmd = Some p' \<Longrightarrow> sync_view p' = sync_view p"
  by (cases cmd) (auto dest: sync_decref)

lemma sync_free_list [sync_intros]: "free_command_list p cmds = Some p' \<Longrightarrow> sync_view p' = sync_view p"
  by (induction cmds arbitrary: p) (auto simp del: free_command.simps dest: sync_free split: option.splits)

lemma sync_enqueue [sync_intros]: "enqueue_command p cmd = (r, p') \<Longrightarrow> sync_view p' = sync_view p"
  by (auto simp: enqueue_command_def sync_view_def split: if_splits)

lemma sync_send [sync_intros]: "PyRtpChannel_send_pkt le d h p = Some (r, p') \<Longrightarrow> sync_view p' = sync_view p"
  by (auto simp: PyRtpChannel_send_pkt_def Let_def split: if_splits option.splits sum.splits)

definition taken :: "'cb py_server \<Rightarrow> bool" where
  "taken p \<longleftrightarrow> server_inited p \<and> cmd_waiter_busy p"

lemma taken_cong: "sync_view p' = sync_view p \<Longrightarrow> taken p' = taken p"
  by (simp add: taken_def sync_view_def)

lemma taken_acquire: "taken p \<Longrightarrow> server_waiter_acquire le p = (Some (RuntimeError ''another synchronous command is already in progress''), p)"
  by (simp add: taken_def server_waiter_acquire_def)

lemma taken_create:
  assumes "taken p" "PyRtpServer_create_channel le arg p = Some (r, p')"
  shows "sync_view p' = sync_view p"
proof -
  have sub: "sync_view p2 = sync_view q" if q: "taken q" "submit_channel le h q = Some (r, p2)" for q h p2
  proof (cases "lib_calloc le")
    case False
    then show ?thesis using q(2) by (auto simp: submit_channel_def dest!: sync_intros)
  next
    case True
    with q(2) obtain q1 where q1: "chan_incref q h = Some q1" by (auto simp: submit_channel_def split: option.splits)
    have "taken q1" using taken_cong [OF sync_incref [OF q1]] q(1) by simp
    from taken_acquire [OF this] show ?thesis using q(2) q1 True
      by (auto simp: submit_channel_def simp del: free_command.simps dest!: sync_intros split: option.splits)
  qed
  have t: "taken (chan_put p h ch)" for h ch using assms(1) by (simp add: taken_def chan_put_def)
  show ?thesis using assms(2)
    by (auto simp: PyRtpServer_create_channel_def dest!: sub [OF t] split: option.splits sum.splits prod.splits)
qed

lemma taken_close:
  assumes "taken p" "rtp_channel_close_internal le True on_worker h p = Some (r, p')"
  shows "sync_view p' = sync_view p"
  using assms(2) taken_acquire [OF assms(1)]
  by (auto simp: rtp_channel_close_internal_def Let_def dest!: sync_intros split: if_splits option.splits prod.splits)

lemma taken_target:
  assumes "taken p" "PyRtpChannel_set_target le arg h p = Some (r, addr, p')"
  shows "sync_view p' = sync_view p"
  using assms(2) taken_acquire [OF assms(1)] by (auto simp: PyRtpChannel_set_target_def split: option.splits sum.splits if_splits)

lemma taken_drop:
  assumes "taken p" "rtp_server_drop_channels_internal asserts le p = Some (r, p')"
  shows "sync_view p' = sync_view p"
  using assms(2) taken_acquire [OF assms(1)] by (auto simp: rtp_server_drop_channels_internal_def split: if_splits)

lemma stuck_method:
  assumes "stuck s" "sync_view (ps s') = sync_view (ps s)" "in_callback s \<longrightarrow> in_callback s'"
  shows "stuck s'"
  using assms by (auto simp: stuck_def sync_view_def)

lemma stuck_step:
  assumes "stuck s" "srv_step asserts fuel env s a = Some (r, s')"
  shows "stuck s'"
proof -
  have t: "taken (ps s)" "waiter_status s = None" "\<not> worker_idle s" "in_callback s"
    using assms(1) by (auto simp: stuck_def taken_def waiter_status_def worker_idle_def)
  have "sync_view (ps s') = sync_view (ps s) \<and> in_callback s'"
  proof (cases a)
    case (Dealloc le)
    then show ?thesis using assms(2) t(4) by (auto simp: rtp_server_stop_worker_internal_def sync_view_def split: option.splits if_splits)
  next
    case Dealloc_return
    then show ?thesis using assms(2) t(4)
      by (auto simp: stop_worker_return_def detach_commands_def sync_view_def dest!: sync_free_list split: if_splits)
  qed (use assms(2) t in \<open>auto dest: taken_create taken_close taken_target taken_drop sync_intros split: option.splits list.splits srv_caller.splits if_splits\<close>)
  with stuck_method [OF assms(1)] show ?thesis by blast
qed

lemma stuck_run: "stuck s \<Longrightarrow> run_steps (srv_step asserts fuel env) s acts = Some (outs, s') \<Longrightarrow> stuck s'"
proof (induction acts arbitrary: s outs)
  case (Cons a acts)
  from Cons.prems(2) obtain r s1 outs1 where "srv_step asserts fuel env s a = Some (r, s1)" "run_steps (srv_step asserts fuel env) s1 acts = Some (outs1, s')"
    by (auto simp del: srv_step.simps split: option.splits)
  then show ?case using Cons.IH stuck_step [OF Cons.prems(1)] by blast
qed simp

text \<open>
  A \<open>set_target\<close>, \<open>create_channel\<close> or \<open>shutdown\<close> in a callback that gets as far as its wait blocks for ever. It waits for the worker on the
  worker's own thread: whatever the other threads do from then on, the wait never ends, and no command is processed any more.
\<close>

fun waits_in_callback :: "'cb srv_act \<Rightarrow> bool" where
  "waits_in_callback (Set_target on_worker le h arg) = on_worker"
| "waits_in_callback (Callback_create le arg) = True"
| "waits_in_callback (Callback_shutdown le) = True"
| "waits_in_callback a = False"

definition waits_on :: "'cb py_server \<Rightarrow> bool" where
  "waits_on p \<longleftrightarrow> server_inited p \<and> cmd_waiter_busy p \<and> \<not> w_done (cmd_waiter p)"

lemma waits_on_cong: "sync_view p' = sync_view p \<Longrightarrow> waits_on p' = waits_on p"
  by (simp add: waits_on_def sync_view_def)

lemma acquired_waits: "server_waiter_acquire le p = (None, p') \<Longrightarrow> server_inited p \<Longrightarrow> waits_on p'"
  by (auto simp: server_waiter_acquire_def waits_on_def rtp_sync_waiter_reset_def Let_def split: if_splits)

lemma submit_waits:
  assumes "submit_channel le h p = Some (Waiting, p')" "server_inited p"
  shows "waits_on p'"
proof -
  from assms(1) obtain p1 p2 where p: "chan_incref p h = Some p1" "server_waiter_acquire le p1 = (None, p2)"
      "enqueue_command p2 (CMD_ADD_CHANNEL h) = (None, p')"
    by (auto simp: submit_channel_def simp del: free_command.simps split: if_splits option.splits prod.splits)
  have "server_inited p1" using sync_incref [OF p(1)] assms(2) by (simp add: sync_view_def)
  from acquired_waits [OF p(2) this] waits_on_cong [OF sync_enqueue [OF p(3)]] show ?thesis by simp
qed

lemma create_waits:
  assumes "PyRtpServer_create_channel le arg p = Some (Waiting, p')" "server_inited p"
  shows "waits_on p'"
proof -
  have "server_inited (chan_put p h ch)" for h ch using assms(2) by (simp add: chan_put_def)
  with assms(1) show ?thesis
    by (auto simp: PyRtpServer_create_channel_def dest: submit_waits split: option.splits sum.splits prod.splits if_splits)
qed

lemma target_waits:
  assumes "PyRtpChannel_set_target le arg h p = Some (Waiting, addr, p')" "server_inited p"
  shows "waits_on p'"
proof -
  from assms(1) obtain p1 a where p: "server_waiter_acquire le p = (None, p1)" "enqueue_command p1 (CMD_SET_TARGET h a) = (None, p')"
    by (auto simp: PyRtpChannel_set_target_def split: option.splits sum.splits if_splits prod.splits)
  from acquired_waits [OF p(1) assms(2)] waits_on_cong [OF sync_enqueue [OF p(2)]] show ?thesis by simp
qed

lemma drop_waits:
  assumes "rtp_server_drop_channels_internal asserts le p = Some (Waiting, p')" "server_inited p"
  shows "waits_on p'"
  using assms by (auto simp: rtp_server_drop_channels_internal_def waits_on_def server_waiter_acquire_def rtp_sync_waiter_reset_def
      server_waiter_release_def Let_def split: if_splits option.splits prod.splits)

lemma server_callback_blocks:
  assumes "server_inited (ps s)" and "waits_in_callback a" and "srv_step asserts fuel env s a = Some (Waiting, s1)"
    and "run_steps (srv_step asserts fuel env) s1 acts = Some (outs, s2)"
  shows "in_callback s2 \<and> waiter_status s2 = None \<and> srv_step asserts fuel env s2 Set_target_return = None \<and>
    srv_step asserts fuel env s2 Create_return = None \<and> srv_step asserts fuel env s2 Shutdown_return = None \<and>
    srv_step asserts fuel env s2 Worker_detach = None \<and> srv_step asserts fuel env s2 Worker_command = None"
proof -
  have "in_callback s1 \<and> waits_on (ps s1)" using assms(1-3)
    by (cases a) (auto dest: create_waits target_waits drop_waits split: option.splits if_splits)
  then have "stuck s1" by (simp add: stuck_def waits_on_def)
  from stuck_run [OF this assms(4)] have k: "in_callback s2" "waiter_status s2 = None" by (auto simp: stuck_def waiter_status_def)
  then show ?thesis by (auto simp: worker_idle_def split: list.splits srv_caller.splits)
qed

lemma server_callback_blocks_example:
  "\<exists>outs s s1 s2. run_steps (srv_step True 5 silent_env) sample_start (open_acts 40) = Some (outs, s) \<and>
     srv_step True 5 silent_env s (Set_target True (lib_good 0) 40 (Some (''a'', 9))) = Some (Waiting, s1) \<and>
     run_steps (srv_step True 5 silent_env) s1 [Drop_server] = Some ([Finished], s2) \<and> srv_step True 5 silent_env s2 Worker_detach = None"
proof -
  have "map_option (\<lambda>(outs, s). (server_inited (ps s), map_option fst (srv_step True 5 silent_env s (Set_target True (lib_good 0) 40 (Some (''a'', 9))))))
      (run_steps (srv_step True 5 silent_env) sample_start (open_acts 40)) = Some (True, Some Waiting)" by code_simp
  then obtain outs s s1 where r: "run_steps (srv_step True 5 silent_env) sample_start (open_acts 40) = Some (outs, s)" "server_inited (ps s)"
    "srv_step True 5 silent_env s (Set_target True (lib_good 0) 40 (Some (''a'', 9))) = Some (Waiting, s1)"
    by (auto simp del: srv_step.simps)
  have d: "run_steps (srv_step True 5 silent_env) s1 [Drop_server] = Some ([Finished], s1\<lparr>srv_held := srv_held s1 - 1\<rparr>)" by simp
  from server_callback_blocks [OF r(2) _ r(3) d] r d show ?thesis by auto
qed

section \<open>From \<open>send_pkt\<close> to the socket\<close>

definition send_acts :: "srv_lib \<Rightarrow> chan_addr \<Rightarrow> packet list \<Rightarrow> 'cb srv_act list" where
  "send_acts le h items = map (\<lambda>item. Send le h (Some (Data_bytes item))) items"

text \<open>A channel that can send: open, with a target, on a server that is not shut down.\<close>

definition can_send :: "'cb py_server \<Rightarrow> ('cb, sockaddr) rtp_channel \<Rightarrow> bool" where
  "can_send p ch \<longleftrightarrow> worker_running p \<and> accepting_commands p \<and> \<not> ch_closed ch \<and> py_has_target ch"

lemma push_capacity: "try_push q v = Some (b, q') \<Longrightarrow> capacity q' = capacity q"
  by (auto simp: try_push_def slot_write_def Let_def split: if_splits bind_splits)

lemma contents_length: "length (spmc_contents q) = unat (writeIdx q) - unat (readIdx q)"
  by (simp add: spmc_contents_def)

lemma chan_ok_0: "chan_ok n ch \<Longrightarrow> chan_ok 0 ch"
  unfolding chan_ok_def spmc_ok_def by linarith

lemma send_room:
  assumes "can_send p ch" "chan_get p h = Some ch" "lib_calloc le" "spmc_ok (Suc n) (out_q ch)"
    "length (spmc_contents (out_q ch)) < unat (capacity (out_q ch))"
  shows "\<exists>q. PyRtpChannel_send_pkt le (Some (Data_bytes item)) h p = Some (Finished, chan_put p h (ch\<lparr>out_q := q\<rparr>)) \<and>
    spmc_ok n q \<and> spmc_contents q = spmc_contents (out_q ch) @ [item] \<and> capacity q = capacity (out_q ch)"
proof -
  have "spmc_room (out_q ch)" using assms(5) by (simp add: spmc_room_def contents_length)
  from spmc.push_room [OF assms(4) this, of item] obtain q where
    q: "try_push (out_q ch) item = Some (True, q)" "spmc_ok n q" "spmc_contents q = spmc_contents (out_q ch) @ [item]" by blast
  then show ?thesis using assms(1-3) push_capacity [OF q(1)]
    by (intro exI [of _ q]) (simp add: PyRtpChannel_send_pkt_def can_send_def bytes_from_obj_def)
qed

lemma send_run:
  assumes "heap (srv (ps s)) h = Some ch" "can_send (ps s) ch" "lib_calloc le" "spmc_ok (length items + n) (out_q ch)"
    "length (spmc_contents (out_q ch)) + length items \<le> unat (capacity (out_q ch))"
  shows "\<exists>q. run_steps (srv_step asserts fuel env) s (send_acts le h items) =
      Some (replicate (length items) Finished, s\<lparr>ps := chan_put (ps s) h (ch\<lparr>out_q := q\<rparr>)\<rparr>) \<and>
    spmc_ok n q \<and> spmc_contents q = spmc_contents (out_q ch) @ items"
  using assms
proof (induction items arbitrary: s ch)
  case Nil
  then show ?case by (intro exI [of _ "out_q ch"]) (simp add: send_acts_def chan_put_def fun_upd_idem)
next
  case (Cons item items)
  have g: "chan_get (ps s) h = Some ch" using Cons.prems(1) by (simp add: chan_get_def)
  from send_room [OF Cons.prems(2) g Cons.prems(3), of "length items + n" item] Cons.prems(4,5) obtain q where
    q: "PyRtpChannel_send_pkt le (Some (Data_bytes item)) h (ps s) = Some (Finished, chan_put (ps s) h (ch\<lparr>out_q := q\<rparr>))"
    "spmc_ok (length items + n) q" "spmc_contents q = spmc_contents (out_q ch) @ [item]" "capacity q = capacity (out_q ch)" by auto
  define s1 where "s1 = s\<lparr>ps := chan_put (ps s) h (ch\<lparr>out_q := q\<rparr>)\<rparr>"
  have h1: "heap (srv (ps s1)) h = Some (ch\<lparr>out_q := q\<rparr>)" "can_send (ps s1) (ch\<lparr>out_q := q\<rparr>)"
    using Cons.prems(2) by (simp_all add: s1_def chan_put_def can_send_def)
  from Cons.IH [OF h1 Cons.prems(3)] q(2-4) Cons.prems(5) obtain q2 where
    q2: "run_steps (srv_step asserts fuel env) s1 (send_acts le h items) =
      Some (replicate (length items) Finished, s1\<lparr>ps := chan_put (ps s1) h (ch\<lparr>out_q := q\<rparr>\<lparr>out_q := q2\<rparr>)\<rparr>)"
    "spmc_ok n q2" "spmc_contents q2 = spmc_contents (out_q ch) @ item # items" by auto
  have "s1\<lparr>ps := chan_put (ps s1) h (ch\<lparr>out_q := q\<rparr>\<lparr>out_q := q2\<rparr>)\<rparr> = s\<lparr>ps := chan_put (ps s) h (ch\<lparr>out_q := q2\<rparr>)\<rparr>"
    by (simp add: s1_def chan_put_def)
  then show ?case using q(1) q2 by (intro exI [of _ q2]) (simp add: send_acts_def s1_def [symmetric])
qed

text \<open>
  C21. What \<open>send_pkt\<close> accepts is sent: if the channel is open, registered and has a target, the server accepts commands, and there are
  memory and room in its queue, packets given to \<open>send_pkt\<close> one after the other are all accepted, and the next time the worker drains the
  queues it sends them to the channel's target through its descriptor, after those that were queued before, each once and in the order of the calls;
  the other channels' packets are sent as they would have been.
\<close>

theorem server_send_delivered:
  assumes "heap (srv (ps s)) h = Some ch" and "h \<in> set (registered s)" and "server_ok (length items) (srv (ps s))"
    and "can_send (ps s) ch" and "has_target ch" and "lib_calloc le"
    and "length (spmc_contents (out_q ch)) + length items \<le> unat (capacity (out_q ch))"
  shows "\<exists>s' sv. run_steps (srv_step asserts fuel env) s (send_acts le h items) = Some (replicate (length items) Finished, s') \<and>
    drain_outputs (srv (ps s')) (chans (srv (ps s'))) = Some sv \<and>
    io_log sv = io_log (srv (ps s)) @ concat (map (\<lambda>x. if x = h
      then concat (map (\<lambda>pkt. [Io_send (ch_fd ch) pkt (target_addr ch), Io_free pkt]) (spmc_contents (out_q ch) @ items))
      else drained_io (the (heap (srv (ps s)) x))) (registered s))"
proof -
  have ok: "chan_ok (length items) ch" using server_okD(3) [OF assms(3,1)] .
  then have "spmc_ok (length items + 0) (out_q ch)" by (simp add: chan_ok_def)
  from send_run [OF assms(1,4,6) this assms(7)] obtain q where
    q: "run_steps (srv_step asserts fuel env) s (send_acts le h items) =
      Some (replicate (length items) Finished, s\<lparr>ps := chan_put (ps s) h (ch\<lparr>out_q := q\<rparr>)\<rparr>)"
    "spmc_ok 0 q" "spmc_contents q = spmc_contents (out_q ch) @ items" by blast
  let ?sv = "(srv (ps s))\<lparr>heap := (heap (srv (ps s)))(h \<mapsto> ch\<lparr>out_q := q\<rparr>)\<rparr>"
  have "server_ok 0 (srv (ps s))" using assms(3) by (auto simp: server_ok_def dest: chan_ok_0)
  from server_ok_put [OF this assms(1), of "ch\<lparr>out_q := q\<rparr>"] have "server_ok 0 ?sv" using ok q(2) by (simp add: chan_ok_def)
  from drain_server_ok [OF this] obtain sv where sv: "drain_outputs ?sv (chans ?sv) = Some sv"
    "io_log sv = io_log ?sv @ concat (map (\<lambda>x. drained_io (the (heap ?sv x))) (members (chans ?sv)))" by blast
  have "(\<lambda>x. drained_io (the (heap ?sv x))) = (\<lambda>x. if x = h
      then concat (map (\<lambda>pkt. [Io_send (ch_fd ch) pkt (target_addr ch), Io_free pkt]) (spmc_contents (out_q ch) @ items))
      else drained_io (the (heap (srv (ps s)) x)))" by (rule ext) (simp add: drained_io_def q(3) assms(5))
  then show ?thesis using q(1) sv
    by (intro exI [of _ "s\<lparr>ps := chan_put (ps s) h (ch\<lparr>out_q := q\<rparr>)\<rparr>"] exI [of _ sv]) (simp add: chan_put_def registered_def)
qed

text \<open>A channel with a queue of two packets that holds one, and a server that has it.\<close>

definition ready_channel :: "(nat, sockaddr) rtp_channel" where
  "ready_channel = \<lparr>ob_refcnt = 2, ch_closed = False, py_has_target = True, ch_fd = 5, has_target = True, target_addr = Sockaddr_in 9 80,
     pkt_in_cb = 7, out_q = \<lparr>capacity = 2, q_mask = 1, writeIdx = 1, readIdxCache = 0, readIdx = 0, writeIdxCache = 0,
       slots = [[1], []]\<rparr>, local_addr = None\<rparr>"

definition ready_sys :: "(nat, unit) srv_sys" where
  "ready_sys = sample_start\<lparr>ps := (ps sample_start)\<lparr>srv := \<lparr>chans = [None, Some 40, None, None], chans_active = 1, pollfds = [], pollfds_cap = 0,
     pollfds_dirty = True, heap = [40 \<mapsto> ready_channel], io_log = []\<rparr>\<rparr>\<rparr>"

lemma ready_ok: "spmc_ok 1 (out_q ready_channel)" "server_ok 1 (srv (ps ready_sys))" "can_send (ps ready_sys) ready_channel"
    "spmc_contents (out_q ready_channel) = [[1]]" "heap (srv (ps ready_sys)) 40 = Some ready_channel" "registered ready_sys = [40]"
proof -
  have "\<exists>k < 64. (2 :: u64) = 2 ^ k" by (rule exI [of _ 1]) simp
  then show q: "spmc_ok 1 (out_q ready_channel)" by (simp add: ready_channel_def spmc_ok_def shape_ok_def)
  then show "server_ok 1 (srv (ps ready_sys))" by (auto simp: server_ok_def ready_sys_def chan_ok_def) (simp add: ready_channel_def)
  have "worker_running (ps sample_start)" "accepting_commands (ps sample_start)" by code_simp+
  then show "can_send (ps ready_sys) ready_channel" by (simp add: can_send_def ready_sys_def ready_channel_def)
qed (simp_all add: ready_channel_def ready_sys_def spmc_contents_def registered_def upt_rec)

theorem server_send_delivered_witness:
  "\<exists>s' sv. run_steps (srv_step True 5 silent_env) ready_sys (send_acts (lib_good 0) 40 [[2, 3]]) = Some ([Finished], s') \<and>
     drain_outputs (srv (ps s')) (chans (srv (ps s'))) = Some sv \<and>
     io_log sv = [Io_send 5 [1] (Sockaddr_in 9 80), Io_free [1], Io_send 5 [2, 3] (Sockaddr_in 9 80), Io_free [2, 3]]"
proof -
  have "server_ok (length [[2, 3 :: u8]]) (srv (ps ready_sys))" using ready_ok(2) by simp
  from server_send_delivered [OF ready_ok(5) _ this ready_ok(3), of "lib_good 0" True 5 silent_env] show ?thesis
    by (simp add: ready_ok(4,6)) (simp add: ready_channel_def ready_sys_def lib_good_def)
qed

text \<open>
  A full queue refuses: \<open>send_pkt\<close> raises \<open>RtpQueueFullError\<close>, frees the packet it did not queue, and the packets that were queued stay
  queued, in their order; nothing else changes.
\<close>

lemma server_send_full:
  assumes "heap (srv p) h = Some ch" and "spmc_ok (Suc n) (out_q ch)" and "can_send p ch" and "lib_calloc le"
    and "unat (capacity (out_q ch)) \<le> length (spmc_contents (out_q ch))" and "bytes_from_obj data = Inr item"
  shows "\<exists>q. PyRtpChannel_send_pkt le (Some data) h p = Some (Raised RtpQueueFullError,
      p\<lparr>srv := (srv p)\<lparr>heap := (heap (srv p))(h \<mapsto> ch\<lparr>out_q := q\<rparr>), io_log := io_log (srv p) @ [Io_free item]\<rparr>\<rparr>) \<and>
    spmc_contents q = spmc_contents (out_q ch) \<and> spmc_ok n q"
proof -
  have "\<not> spmc_room (out_q ch)" using assms(5) by (simp add: spmc_room_def contents_length)
  from spmc.push_full [OF assms(2) this, of item] obtain q where
    q: "try_push (out_q ch) item = Some (False, q)" "spmc_ok n q" "spmc_contents q = spmc_contents (out_q ch)" by blast
  then show ?thesis using assms(1,3,4,6)
    by (intro exI [of _ q]) (simp add: PyRtpChannel_send_pkt_def can_send_def chan_get_def chan_put_def free_send_item_def)
qed

lemma server_send_full_example:
  "\<exists>q. PyRtpChannel_send_pkt (lib_good 0) (Some (Data_bytes [9])) 40
       (chan_put (ps ready_sys) 40 (ready_channel\<lparr>out_q := out_q ready_channel\<lparr>writeIdx := 2\<rparr>\<rparr>)) =
     Some (Raised RtpQueueFullError, q)"
proof -
  let ?ch = "ready_channel\<lparr>out_q := out_q ready_channel\<lparr>writeIdx := 2\<rparr>\<rparr>"
  have "\<exists>k < 64. (2 :: u64) = 2 ^ k" by (rule exI [of _ 1]) simp
  then have q: "spmc_ok (Suc 7) (out_q ?ch)" by (simp add: ready_channel_def spmc_ok_def shape_ok_def)
  have c: "can_send (chan_put (ps ready_sys) 40 ?ch) ?ch" using ready_ok(3) by (simp add: can_send_def chan_put_def)
  have h: "heap (srv (chan_put (ps ready_sys) 40 ?ch)) 40 = Some ?ch" by (simp add: chan_put_def)
  from server_send_full [OF h q c, of "lib_good 0" "Data_bytes [9]" "[9]"] show ?thesis
    by (auto simp: lib_good_def bytes_from_obj_def ready_channel_def spmc_contents_def)
qed

section \<open>A failing \<open>create_channel\<close>\<close>

lemma abandon_new_log:
  assumes "chan_get p h = Some ch" "ob_refcnt ch = 1" "chan_ok 0 ch"
  shows "abandon_channel p h = Some (p\<lparr>srv := (srv p)\<lparr>heap := (heap (srv p))(h := None),
    io_log := io_log (srv p) @ Io_close (ch_fd ch) # map Io_free (spmc_contents (out_q ch)) @ [Io_decref (pkt_in_cb ch)]\<rparr>\<rparr>)"
proof -
  let ?sv = "(srv p)\<lparr>heap := (heap (srv p))(h \<mapsto> ch\<lparr>ch_closed := True\<rparr>)\<rparr>"
  have "chan_ok 0 (ch\<lparr>ch_closed := True\<rparr>)" using assms(3) by (simp add: chan_ok_def)
  from unref_ok [of ?sv h "ch\<lparr>ch_closed := True\<rparr>" 0 "accepting_commands p"] this assms(2)
  show ?thesis using assms(1) by (simp add: abandon_channel_def chan_close_def chan_put_def chan_decref_def)
qed

text \<open>What a \<open>create_channel\<close> that failed leaves behind.\<close>

definition undone :: "int \<Rightarrow> 'cb \<Rightarrow> 'cb py_server \<Rightarrow> 'cb py_server \<Rightarrow> bool" where
  "undone fd cb p p' \<longleftrightarrow> heap (srv p') = heap (srv p) \<and> cmd_list p' = cmd_list p \<and> chans (srv p') = chans (srv p) \<and>
     (io_log (srv p') = io_log (srv p) @ [Io_close fd] \<or> io_log (srv p') = io_log (srv p) @ [Io_close fd, Io_decref cb])"

lemma put_calls:
  "server_waiter_acquire le (chan_put p h c) = (case server_waiter_acquire le p of (e, q) \<Rightarrow> (e, chan_put q h c))"
  "enqueue_command (chan_put p h c) cmd = (case enqueue_command p cmd of (e, q) \<Rightarrow> (e, chan_put q h c))"
  "server_waiter_release (chan_put p h c) = chan_put (server_waiter_release p) h c"
  by (simp_all add: server_waiter_acquire_def enqueue_command_def server_waiter_release_def Let_def chan_put_def)

lemma acquire_keeps: "server_waiter_acquire le p = (e, q) \<Longrightarrow> srv q = srv p \<and> cmd_list q = cmd_list p"
  by (auto simp: server_waiter_acquire_def server_waiter_release_def Let_def split: if_splits)

lemma submit_undone:
  assumes p: "heap (srv p) h = None" and ch: "chan_ok 0 ch" "ob_refcnt ch = 1" "spmc_contents (out_q ch) = []"
    and s: "submit_channel le h (chan_put p h ch) = Some (r, p')" "r \<noteq> Waiting"
  shows "undone (ch_fd ch) (pkt_in_cb ch) p p'"
proof -
  have ab: "undone (ch_fd ch) (pkt_in_cb ch) p p2" if "srv q = srv p" "cmd_list q = cmd_list p" "abandon_channel (chan_put q h c) h = Some p2" "ob_refcnt c = 1"
    "ch_fd c = ch_fd ch" "pkt_in_cb c = pkt_in_cb ch" "out_q c = out_q ch" for q p2 c
  proof -
    have "chan_get (chan_put q h c) h = Some c" "chan_ok 0 c" using ch(1) that by (simp_all add: chan_get_def chan_put_def chan_ok_def)
    from abandon_new_log [OF this(1) that(4) this(2)] show ?thesis using that p ch(3) by (auto simp: undone_def chan_put_def fun_upd_idem)
  qed
  show ?thesis
  proof (cases "lib_calloc le")
    case False
    then show ?thesis using s ch(2) ab [of p ch] by (auto simp: submit_channel_def)
  next
    case True
    let ?c2 = "ch\<lparr>ob_refcnt := 2\<rparr>" and ?c1 = "ch\<lparr>ob_refcnt := 1\<rparr>"
    have inc: "chan_incref (chan_put p h ch) h = Some (chan_put p h ?c2)"
      using ch(2) by (simp add: chan_incref_def chan_get_def chan_put_def numeral_2_eq_2)
    have fr: "free_command (chan_put q h ?c2) (CMD_ADD_CHANNEL h) = Some (chan_put q h ?c1)" for q :: "'a py_server"
      using free_add_command [of "chan_put q h ?c2" h ?c2] by (simp add: chan_get_def chan_put_def)
    obtain e q where acq: "server_waiter_acquire le p = (e, q)" by fastforce
    note k = acquire_keeps [OF acq]
    have rel: "srv (server_waiter_release q) = srv q" "cmd_list (server_waiter_release q) = cmd_list q" by (simp_all add: server_waiter_release_def)
    obtain e' q' where enq: "enqueue_command q (CMD_ADD_CHANNEL h) = (e', q')" by fastforce
    have q': "q' = q" if "e' \<noteq> None" using enq that by (auto simp: enqueue_command_def split: if_splits)
    show ?thesis
    proof (cases e)
      case (Some err)
      then have "abandon_channel (chan_put q h ?c1) h = Some p'"
        using s True inc acq fr by (auto simp: submit_channel_def put_calls simp del: free_command.simps)
      then show ?thesis using ab [of q ?c1] k by simp
    next
      case None
      then obtain err where "e' = Some err"
        using s True inc acq enq by (cases e') (auto simp: submit_channel_def put_calls simp del: free_command.simps)
      then have "abandon_channel (chan_put (server_waiter_release q) h ?c1) h = Some p'"
        using s True None inc acq enq q' fr by (auto simp: submit_channel_def put_calls simp del: free_command.simps)
      then show ?thesis using ab [of "server_waiter_release q" ?c1] k rel by simp
    qed
  qed
qed

lemma new_queue_empty: "create_queue alloc cap = Some q \<Longrightarrow> spmc_contents q = []"
  by (auto simp: create_queue_def spmc_contents_def split: if_splits option.splits)

text \<open>
  C23. A \<open>create_channel\<close> that fails after it has opened a socket and before it waits for the worker closes this socket exactly once,
  whichever step fails: the binding, the allocation of the queue or of the object, the command, or the server that accepts no commands. The channel
  objects, the registry and the queue of commands are as before. The memory of the output queue is not part of the statement.
\<close>

theorem server_create_fails_clean:
  assumes "create_checks le a = Inr t" and "so_socket (lib_socket le) = fd" and "0 \<le> fd"
    and "\<And>h. lib_object le = Some h \<Longrightarrow> heap (srv p) h = None"
    and "PyRtpServer_create_channel le (Some a) p = Some (r, p')" and "r \<noteq> Waiting"
  shows "heap (srv p') = heap (srv p) \<and> chans (srv p') = chans (srv p) \<and> cmd_list p' = cmd_list p \<and>
    (io_log (srv p') = io_log (srv p) @ [Io_close fd] \<or> io_log (srv p') = io_log (srv p) @ [Io_close fd, Io_decref (a_pkt_in a)])"
proof -
  obtain bind_addr family where t: "t = (bind_addr, family)" by fastforce
  have "undone fd (a_pkt_in a) p p'"
  proof (cases "\<exists>addr q h. build_udp_socket (lib_socket le) = (Some (fd, addr), []) \<and>
      create_queue (queue_memory (lib_queue le)) (a_queue_size a) = Some q \<and> lib_object le = Some h")
    case False
    then show ?thesis using assms(1-3,5) t
      by (auto simp: PyRtpServer_create_channel_def build_udp_socket_def Let_def undone_def log_closed_def close_fd_def
          split: option.splits if_splits)
  next
    case True
    then obtain addr q h where c: "build_udp_socket (lib_socket le) = (Some (fd, addr), [])"
      "create_queue (queue_memory (lib_queue le)) (a_queue_size a) = Some q" "lib_object le = Some h" by blast
    let ?ch = "new_channel fd (a_pkt_in a) q addr"
    have s: "submit_channel le h (chan_put p h ?ch) = Some (r, p')" using assms(1,5) t c by (simp add: PyRtpServer_create_channel_def)
    have "ob_refcnt ?ch = 1" "spmc_contents (out_q ?ch) = []" using new_queue_empty [OF c(2)] by (simp_all add: new_channel_def)
    from submit_undone [OF assms(4) [OF c(3)] srv_new_channel_ok [OF c(2) assms(3)] this s assms(6)] show ?thesis by (simp add: new_channel_def)
  qed
  then show ?thesis by (simp add: undone_def)
qed

theorem server_create_fails_clean_witness:
  "\<exists>p'. PyRtpServer_create_channel (lib_good 40\<lparr>lib_reset := False\<rparr>) (Some sample_args) (ps sample_start) =
     Some (Raised (RuntimeError ''failed to reset command waiter''), p') \<and> io_log (srv p') = [Io_close 7, Io_decref 3] \<and> heap (srv p') 40 = None"
proof -
  let ?le = "lib_good 40\<lparr>lib_reset := False\<rparr>"
  have c: "create_checks ?le sample_args = Inr (Sockaddr_in 2 0, 2)" by code_simp
  have "map_option (\<lambda>(r, p). (r, length (io_log (srv p)))) (PyRtpServer_create_channel ?le (Some sample_args) (ps sample_start)) =
      Some (Raised (RuntimeError ''failed to reset command waiter''), 2)" by code_simp
  then obtain p' where p': "PyRtpServer_create_channel ?le (Some sample_args) (ps sample_start) =
      Some (Raised (RuntimeError ''failed to reset command waiter''), p')" "length (io_log (srv p')) = 2" by auto
  have e: "heap (srv (ps sample_start)) 40 = None" "io_log (srv (ps sample_start)) = []" by code_simp+
  have h: "heap (srv (ps sample_start)) h = None" if "lib_object ?le = Some h" for h using that e(1) by (simp add: lib_good_def)
  have "so_socket (lib_socket ?le) = 7" "a_pkt_in sample_args = 3" by (simp_all add: lib_good_def sample_args_def)
  with server_create_fails_clean [OF c this(1) _ h p'(1)] p' e show ?thesis by auto
qed

end
