(* ===== verification/Rtp_Synth_Py.thy ===== *)
theory Rtp_Synth_Py
  imports Rtp_Synth
begin

text \<open>
  The Python class of \<^verbatim>\<open>python/RtpSynth_mod.c\<close>: its methods, their arguments and exceptions, and the random function that the program can
  install.

  A method gets what its library calls return: allocations, the clock, the contents of memory that is not initialised. An exception that is
  set while a method goes on is part of the state (\<open>pending\<close>). \<open>None\<close> is undefined behaviour.
\<close>

section \<open>Objects\<close>

datatype synth_exc =
    RuntimeError string
  | ValueError string
  | TypeError string
  | OverflowError
  | MemoryError
  | ArgumentError
  | ConversionError
  | SystemError

record PyRtpSynth =
  rs :: "rsynth_inst option"

text \<open>What a call of a Python function gives: an object, which is an integer or not, a \<open>TypeError\<close>, or another exception.\<close>

datatype call_result = Returns_int int | Returns_other | Raises_type_error | Raises_other

text \<open>The random function of the program: without arguments, and with the argument 32. It has a state.\<close>

record 'r randfunc =
  call_plain :: "'r \<Rightarrow> call_result \<times> 'r"
  call_bits :: "'r \<Rightarrow> call_result \<times> 'r"

section \<open>The random function\<close>

text \<open>
  \<open>PyLong_AsUnsignedLongLong\<close>; then the value is used only if no exception is set, be it an old one.
\<close>

definition rand_value :: "call_result \<Rightarrow> synth_exc option \<Rightarrow> u32 \<times> synth_exc option" where
  "rand_value res pending =
     (case res of
        Returns_int n \<Rightarrow>
          if 0 \<le> n \<and> n < 18446744073709551616 then (if pending = None then of_int n else 0, pending) else (0, Some OverflowError)
      | Returns_other \<Rightarrow> (0, Some (TypeError ''an integer is required''))
      | _ \<Rightarrow> (0, Some (RuntimeError ''randfunc failed'')))"

definition PyRtpSynth_randfunc :: "'r randfunc option \<Rightarrow> 'r \<times> synth_exc option \<Rightarrow> u32 \<times> 'r \<times> synth_exc option" where
  "PyRtpSynth_randfunc g_randfunc st =
     (case (g_randfunc, st) of
        (None, (r, pending)) \<Rightarrow> (0, r, Some (RuntimeError ''randfunc not set''))
      | (Some f, (r, pending)) \<Rightarrow>
          (case call_plain f r of
             (Raises_type_error, r1) \<Rightarrow>
               (case call_bits f r1 of (res, r2) \<Rightarrow> case rand_value res None of (v, e) \<Rightarrow> (v, r2, e))
           | (res, r1) \<Rightarrow> (case rand_value res pending of (v, e) \<Rightarrow> (v, r1, e))))"

text \<open>The argument of \<open>set_randfunc\<close>: \<open>None\<close>, a callable, something else.\<close>

datatype 'r rand_arg = Rand_none | Rand_callable "'r randfunc" | Rand_other

text \<open>The installed function of the program, and whether the library calls it or its own default.\<close>

record 'r rand_state =
  g_randfunc :: "'r randfunc option"
  use_python :: bool

definition PyRtpSynth_set_randfunc :: "'r rand_arg option \<Rightarrow> 'r rand_state \<Rightarrow> (synth_exc + unit) \<times> 'r rand_state" where
  "PyRtpSynth_set_randfunc arg st =
     (case arg of
        None \<Rightarrow> (Inl ArgumentError, st)
      | Some Rand_none \<Rightarrow> (Inr (), st\<lparr>g_randfunc := None, use_python := False\<rparr>)
      | Some Rand_other \<Rightarrow> (Inl (TypeError ''set_randfunc expects a callable or None''), st)
      | Some (Rand_callable f) \<Rightarrow> (Inr (), st\<lparr>g_randfunc := Some f, use_python := True\<rparr>))"

text \<open>The function that the constructor of the library calls.\<close>

definition lib_randfunc ::
    "('r \<Rightarrow> u32 \<times> 'r) \<Rightarrow> 'r rand_state \<Rightarrow> 'r \<times> synth_exc option \<Rightarrow> u32 \<times> 'r \<times> synth_exc option" where
  "lib_randfunc default_randfunc st =
     rsynth_set_randfunc (\<lambda>(r, pending). case default_randfunc r of (v, r') \<Rightarrow> (v, r', pending))
       (if use_python st then Some (PyRtpSynth_randfunc (g_randfunc st)) else None)"

section \<open>Methods\<close>

text \<open>
  The constructor, with the code that it returns and the exception that is set. The interpreter takes 0 for success; with an exception set it raises
  \<open>SystemError\<close> instead.
\<close>

definition PyRtpSynth_init ::
    "('r \<Rightarrow> u32 \<times> 'r) \<Rightarrow> 'r rand_state \<Rightarrow> 'r \<Rightarrow> bool \<Rightarrow> timespec option \<Rightarrow> (int \<times> int) option \<Rightarrow> PyRtpSynth \<Rightarrow>
     (int \<times> synth_exc option \<times> PyRtpSynth \<times> 'r) option" where
  "PyRtpSynth_init default_randfunc st r malloc_ok now args self =
     (case args of
        None \<Rightarrow> Some (-1, Some ArgumentError, self, r)
      | Some (srt, ptm) \<Rightarrow>
          (case rsynth_ctor (lib_randfunc default_randfunc st) (r, None) malloc_ok now srt ptm of
             None \<Rightarrow> None
           | Some (None, (r', pending)) \<Rightarrow> Some (-1, Some (RuntimeError ''rsynth_ctor() failed''), self\<lparr>rs := None\<rparr>, r')
           | Some (Some rip, (r', pending)) \<Rightarrow> Some (0, pending, self\<lparr>rs := Some rip\<rparr>, r')))"

text \<open>The destructor, and the instance of the library that it frees.\<close>

definition PyRtpSynth_dealloc :: "PyRtpSynth \<Rightarrow> rsynth_inst option \<times> PyRtpSynth" where
  "PyRtpSynth_dealloc self = (case rs self of None \<Rightarrow> (None, self) | Some rip \<Rightarrow> (Some rip, self\<lparr>rs := None\<rparr>))"

text \<open>
  The payload: none, bytes or an object that converts to bytes, an object that does not. What the allocations of \<open>next_pkt\<close> return, and the
  old contents of the new bytes object.
\<close>

datatype pload = Pload_none | Pload_bytes "u8 list" | Pload_bad

record pkt_env =
  out_ok :: bool
  out_garbage :: "u8 list"
  shrunk_ok :: bool
  pkt_now :: "timespec option"

definition not_initialized :: synth_exc where
  "not_initialized = RuntimeError ''RtpSynth handle is not initialized''"

text \<open>The buffer that is handed to the library, or an exception.\<close>

definition payload_buffer :: "pkt_env \<Rightarrow> int \<Rightarrow> pload \<Rightarrow> synth_exc + u8 list" where
  "payload_buffer pe pktlen pload =
     (case pload of
        Pload_bad \<Rightarrow> Inl ConversionError
      | Pload_bytes payload \<Rightarrow>
          if int (length payload) > pktlen then Inl (ValueError ''payload is larger than packet buffer'')
          else if \<not> out_ok pe then Inl MemoryError
          else Inr (payload @ replicate (nat pktlen - length payload) 0)
      | Pload_none \<Rightarrow> if \<not> out_ok pe then Inl MemoryError else Inr (take (nat pktlen) (out_garbage pe @ replicate (nat pktlen) 0)))"

definition PyRtpSynth_next_pkt ::
    "pkt_env \<Rightarrow> (int \<times> int \<times> pload) option \<Rightarrow> PyRtpSynth \<Rightarrow> ((synth_exc + u8 list) \<times> PyRtpSynth) option" where
  "PyRtpSynth_next_pkt pe args self =
     (case rs self of
        None \<Rightarrow> Some (Inl not_initialized, self)
      | Some rip \<Rightarrow>
          (case args of
             None \<Rightarrow> Some (Inl ArgumentError, self)
           | Some (plen, pt, pload) \<Rightarrow> do {
               pktlen \<leftarrow> i32_check (plen + 32);
               if pktlen \<le> 0 then Some (Inl (ValueError ''invalid packet length''), self)
               else
                 (case payload_buffer pe pktlen pload of
                    Inl e \<Rightarrow> Some (Inl e, self)
                  | Inr buf \<Rightarrow> do {
                      (outlen, buf', rip') \<leftarrow>
                        rsynth_next_pkt_pa rip plen pt buf (of_int pktlen) (if pload = Pload_none then 0 else 1) (pkt_now pe);
                      Some
                        (if outlen < 0 \<or> outlen > pktlen then Inl (RuntimeError ''rsynth_next_pkt_pa() failed'')
                         else if outlen \<noteq> pktlen \<and> \<not> shrunk_ok pe then Inl MemoryError
                         else Inr (take (nat outlen) buf'), self\<lparr>rs := Some rip'\<rparr>)
                    })
             }))"

definition PyRtpSynth_set_mbt :: "u32 option \<Rightarrow> PyRtpSynth \<Rightarrow> (synth_exc + u32) \<times> PyRtpSynth" where
  "PyRtpSynth_set_mbt arg self =
     (case rs self of
        None \<Rightarrow> (Inl not_initialized, self)
      | Some rip \<Rightarrow>
          (case arg of
             None \<Rightarrow> (Inl ArgumentError, self)
           | Some new_st \<Rightarrow> (case rsynth_set_mbt rip new_st of (old_st, rip') \<Rightarrow> (Inr old_st, self\<lparr>rs := Some rip'\<rparr>))))"

text \<open>
  The arguments of \<open>resync\<close>: the number of them, and the two numbers if there are two. They are overwritten with the position of the stream, which
  nobody reads.
\<close>

definition PyRtpSynth_resync ::
    "nat \<Rightarrow> (u64 \<times> u64) option \<Rightarrow> timespec option \<Rightarrow> PyRtpSynth \<Rightarrow> ((synth_exc + unit) \<times> PyRtpSynth) option" where
  "PyRtpSynth_resync nargs args now self =
     (case rs self of
        None \<Rightarrow> Some (Inl not_initialized, self)
      | Some rip \<Rightarrow>
          if nargs \<noteq> 0 \<and> args = None then Some (Inl ArgumentError, self)
          else map_option (\<lambda>(seq, rip'). (Inr (), self\<lparr>rs := Some rip'\<rparr>)) (rsynth_resync rip now))"

definition PyRtpSynth_skip :: "int option \<Rightarrow> PyRtpSynth \<Rightarrow> ((synth_exc + unit) \<times> PyRtpSynth) option" where
  "PyRtpSynth_skip arg self =
     (case rs self of
        None \<Rightarrow> Some (Inl not_initialized, self)
      | Some rip \<Rightarrow>
          (case arg of
             None \<Rightarrow> Some (Inl ArgumentError, self)
           | Some npkts \<Rightarrow> map_option (\<lambda>rip'. (Inr (), self\<lparr>rs := Some rip'\<rparr>)) (rsynth_skip rip npkts)))"

text \<open>
  The argument of \<open>pkt_free\<close>: a capsule with its pointer, if it has no name, an integer, something else. The result is the pointer that
  is freed, if it is not \<open>NULL\<close>. A capsule with a name has no pointer for \<open>PyCapsule_GetPointer\<close>, which sets an exception that the method
  does not look at; the interpreter then raises \<open>SystemError\<close>.
\<close>

datatype free_arg = Free_capsule "nat option" | Free_int int | Free_other

definition PyRtpSynth_pkt_free :: "free_arg option \<Rightarrow> (synth_exc + nat option)" where
  "PyRtpSynth_pkt_free arg =
     (case arg of
        None \<Rightarrow> Inl ArgumentError
      | Some (Free_capsule None) \<Rightarrow> Inl SystemError
      | Some (Free_capsule (Some ptr)) \<Rightarrow> Inr (if ptr \<noteq> 0 then Some ptr else None)
      | Some (Free_int n) \<Rightarrow>
          if n < 0 \<or> n \<ge> 18446744073709551616 then Inl OverflowError else Inr (if n \<noteq> 0 then Some (nat n) else None)
      | Some Free_other \<Rightarrow> Inl (TypeError ''pkt_free expects a capsule or integer pointer''))"

section \<open>Any sequence of calls\<close>

datatype synth_call =
    Next_pkt pkt_env int int pload
  | Set_mbt u32
  | Resync "(u64 \<times> u64) option" "timespec option"
  | Skip int

datatype synth_out = Out_exc synth_exc | Out_bytes "u8 list" | Out_int u32 | Out_none

fun out_of :: "('a \<Rightarrow> synth_out) \<Rightarrow> synth_exc + 'a \<Rightarrow> synth_out" where
  "out_of f (Inl e) = Out_exc e"
| "out_of f (Inr x) = f x"

fun py_synth_step :: "PyRtpSynth \<Rightarrow> synth_call \<Rightarrow> (synth_out \<times> PyRtpSynth) option" where
  "py_synth_step self (Next_pkt pe plen pt pload) =
     map_option (\<lambda>(r, self'). (out_of Out_bytes r, self')) (PyRtpSynth_next_pkt pe (Some (plen, pt, pload)) self)"
| "py_synth_step self (Set_mbt new_st) =
     (case PyRtpSynth_set_mbt (Some new_st) self of (r, self') \<Rightarrow> Some (out_of Out_int r, self'))"
| "py_synth_step self (Resync args now) =
     map_option (\<lambda>(r, self'). (out_of (\<lambda>u. Out_none) r, self')) (PyRtpSynth_resync (if args = None then 0 else 2) args now self)"
| "py_synth_step self (Skip npkts) =
     map_option (\<lambda>(r, self'). (out_of (\<lambda>u. Out_none) r, self')) (PyRtpSynth_skip (Some npkts) self)"

text \<open>
  The calls that have defined behaviour: a payload length that is not negative and a sum that does not overflow, a clock that works, a product that fits.
\<close>

fun py_synth_adm :: "PyRtpSynth \<Rightarrow> synth_call \<Rightarrow> bool" where
  "py_synth_adm self (Next_pkt pe plen pt pload) \<longleftrightarrow> 0 \<le> plen \<and> plen \<le> 2147483615"
| "py_synth_adm self (Set_mbt new_st) \<longleftrightarrow> True"
| "py_synth_adm self (Resync args now) \<longleftrightarrow> now \<noteq> None"
| "py_synth_adm self (Skip npkts) \<longleftrightarrow> (case rs self of None \<Rightarrow> True | Some rip \<Rightarrow> i32_range (ts_inc rip * npkts))"

definition py_synth_ok :: "PyRtpSynth \<Rightarrow> bool" where
  "py_synth_ok self \<longleftrightarrow> (case rs self of None \<Rightarrow> True | Some rip \<Rightarrow> synth_ok rip)"

text \<open>What \<open>next_pkt\<close> sends for a payload: as many bytes as asked for, cut off or filled up with zeros.\<close>

definition sent_payload :: "int \<Rightarrow> pload \<Rightarrow> u8 list" where
  "sent_payload plen pload = take (nat plen) ((case pload of Pload_bytes payload \<Rightarrow> payload | _ \<Rightarrow> []) @ replicate (nat plen) 0)"

lemma length_sent_payload: "length (sent_payload plen pload) = nat plen"
  by (simp add: sent_payload_def)

lemma payload_buffer_length: "payload_buffer pe pktlen pload = Inr buf \<Longrightarrow> length buf = nat pktlen"
  by (auto simp: payload_buffer_def split: pload.splits if_splits)

lemma next_pkt_py:
  assumes self: "rs self = Some rip" "synth_ok rip" and plen: "0 \<le> plen" "plen \<le> 2147483615"
    and buf: "payload_buffer pe (plen + 32) pload = Inr buf"
  shows "PyRtpSynth_next_pkt pe (Some (plen, pt, pload)) self =
    Some (if shrunk_ok pe then Inr (store_hdr (next_hdr rip pt) @ sent_payload plen pload) else Inl MemoryError,
      self\<lparr>rs := Some (advance rip (pkt_now pe))\<rparr>)"
proof -
  have len: "length buf = nat (plen + 32)" using payload_buffer_length [OF buf] .
  have rng: "i32_check (plen + 32) = Some (plen + 32)" using plen by (simp add: i32_range_def)
  have blen: "unat (of_int (plen + 32) :: u32) = length buf" using plen len unat_of_int_u32 [of "plen + 32"] by simp
  let ?filled = "if pload = Pload_none then 0 else 1 :: int"
  let ?rest = "if ?filled = 0 then replicate (length buf - 12) 0 else take (nat plen) buf @ replicate (length buf - 12 - nat plen) 0"
  have fits: "12 + nat plen \<le> length buf" "length buf \<le> 2147483647" using plen len by simp_all
  from next_pkt_fits [OF self(2) blen plen(1) fits, of pt ?filled "pkt_now pe"]
  have pa: "rsynth_next_pkt_pa rip plen pt buf (of_int (plen + 32)) ?filled (pkt_now pe) =
      Some (12 + plen, store_hdr (next_hdr rip pt) @ ?rest, advance rip (pkt_now pe))" .
  have "take (nat (12 + plen)) (store_hdr (next_hdr rip pt) @ ?rest) = store_hdr (next_hdr rip pt) @ take (nat plen) ?rest"
    using plen by (simp add: nat_add_distrib)
  moreover have "take (nat plen) ?rest = sent_payload plen pload"
  proof (cases pload)
    case (Pload_bytes payload)
    then have "buf = payload @ replicate (nat (plen + 32) - length payload) 0" using buf by (auto simp: payload_buffer_def split: if_splits)
    then show ?thesis using Pload_bytes plen by (simp add: sent_payload_def)
  qed (use buf len plen in \<open>simp_all add: payload_buffer_def sent_payload_def\<close>)
  ultimately have t: "take (nat (12 + plen)) (store_hdr (next_hdr rip pt) @ ?rest) = store_hdr (next_hdr rip pt) @ sent_payload plen pload" by simp
  show ?thesis using self plen buf rng pa t by (simp add: PyRtpSynth_next_pkt_def)
qed

lemma init_py_ok: "PyRtpSynth_init dr st r malloc_ok now args self = Some (0, e, self', r') \<Longrightarrow> \<exists>rip. rs self' = Some rip \<and> synth_ok rip"
  using ctor_ok by (fastforce simp: PyRtpSynth_init_def split: option.splits prod.splits)

text \<open>
  What the calls return, told with no more of the object than its marker bit, which is \<open>None\<close> for an object that was not initialised. A payload
  is taken if it is no longer than the buffer and there is memory for a packet.
\<close>

definition pkt_taken :: "pkt_env \<Rightarrow> int \<Rightarrow> pload \<Rightarrow> bool" where
  "pkt_taken pe plen pload \<longleftrightarrow> out_ok pe \<and>
     (case pload of Pload_none \<Rightarrow> True | Pload_bytes payload \<Rightarrow> int (length payload) \<le> plen + 32 | Pload_bad \<Rightarrow> False)"

fun out_typed :: "1 word option \<Rightarrow> synth_call \<Rightarrow> synth_out \<Rightarrow> bool" where
  "out_typed None call out \<longleftrightarrow> out = Out_exc not_initialized"
| "out_typed (Some marker) (Next_pkt pe plen pt pload) out \<longleftrightarrow>
     (if pkt_taken pe plen pload \<and> shrunk_ok pe
      then (case out of Out_bytes bs \<Rightarrow> length bs = 12 + nat plen \<and> bs ! 0 = 0x80 \<and> drop_bit 7 (bs ! 1) = ucast marker | _ \<Rightarrow> False)
      else (case out of Out_exc e \<Rightarrow> e \<noteq> not_initialized | _ \<Rightarrow> False))"
| "out_typed (Some marker) (Set_mbt new_st) out \<longleftrightarrow> out = Out_int (ucast marker)"
| "out_typed (Some marker) call out \<longleftrightarrow> out = Out_none"

text \<open>The marker bit is set by \<open>set_mbt\<close> and cleared by a packet.\<close>

fun marker_after :: "1 word option \<Rightarrow> synth_call \<Rightarrow> 1 word option" where
  "marker_after None call = None"
| "marker_after (Some marker) (Next_pkt pe plen pt pload) = Some (if pkt_taken pe plen pload then 0 else marker)"
| "marker_after (Some marker) (Set_mbt new_st) = Some (ucast new_st)"
| "marker_after (Some marker) call = Some marker"

fun typed_run :: "1 word option \<Rightarrow> synth_call list \<Rightarrow> synth_out list \<Rightarrow> bool" where
  "typed_run marker [] outs \<longleftrightarrow> outs = []"
| "typed_run marker (call # calls) outs \<longleftrightarrow>
     (case outs of [] \<Rightarrow> False | out # outs' \<Rightarrow> out_typed marker call out \<and> typed_run (marker_after marker call) calls outs')"

definition py_marker :: "PyRtpSynth \<Rightarrow> 1 word option" where
  "py_marker self = map_option (\<lambda>rip. h_mbt (rs_model rip)) (rs self)"

lemma hdr_first_byte: "synth_ok rip \<Longrightarrow> (store_hdr (next_hdr rip pt) @ payload) ! 0 = 0x80"
  by (simp add: synth_ok_def next_hdr_def store_hdr_def flags_byte_def)

lemma marker_byte: "drop_bit 7 ((store_hdr (next_hdr rip pt) @ payload) ! 1) = (ucast (h_mbt (rs_model rip)) :: u8)"
proof -
  have "drop_bit 7 (type_byte h) = (ucast (h_mbt h) :: u8)" for h
    unfolding type_byte_def by (rule bit_word_eqI) (auto simp: bit_simps bit_word_high dest: bit_imp_le_length)
  from this [of "next_hdr rip pt"] show ?thesis by (simp add: store_hdr_def next_hdr_def)
qed

lemma payload_taken: "pkt_taken pe plen pload \<longleftrightarrow> (\<exists>buf. payload_buffer pe (plen + 32) pload = Inr buf)"
  by (auto simp: pkt_taken_def payload_buffer_def split: pload.splits)

lemma payload_refused: "payload_buffer pe pktlen pload = Inl e \<Longrightarrow> e \<noteq> not_initialized"
  by (auto simp: payload_buffer_def not_initialized_def split: pload.splits if_splits)

lemma py_synth_step_ok:
  assumes ok: "py_synth_ok self" and adm: "py_synth_adm self call"
  shows "\<exists>out self'. py_synth_step self call = Some (out, self') \<and> py_synth_ok self' \<and>
    out_typed (py_marker self) call out \<and> py_marker self' = marker_after (py_marker self) call"
proof (cases "rs self")
  case None
  then show ?thesis using ok
    by (cases call) (auto simp: py_marker_def PyRtpSynth_next_pkt_def PyRtpSynth_set_mbt_def PyRtpSynth_resync_def PyRtpSynth_skip_def)
next
  case (Some rip)
  then have rip: "synth_ok rip" using ok by (simp add: py_synth_ok_def)
  show ?thesis
  proof (cases call)
    case (Next_pkt pe plen pt pload)
    then have plen: "0 \<le> plen" "plen \<le> 2147483615" using adm by simp_all
    show ?thesis
    proof (cases "payload_buffer pe (plen + 32) pload")
      case (Inl e)
      then have "\<not> pkt_taken pe plen pload" by (simp add: payload_taken)
      moreover have "i32_check (plen + 32) = Some (plen + 32)" using plen by (simp add: i32_range_def)
      ultimately show ?thesis using Some Inl Next_pkt ok plen payload_refused [OF Inl] by (simp add: PyRtpSynth_next_pkt_def py_marker_def)
    next
      case (Inr buf)
      then have t: "pkt_taken pe plen pload" by (auto simp: payload_taken)
      from next_pkt_py [OF Some rip plen Inr, of pt] show ?thesis
        using t Some Next_pkt synth_ok_advance [OF rip] hdr_first_byte [OF rip, of pt] marker_byte [of rip pt]
        by (simp add: py_synth_ok_def length_sent_payload py_marker_def advance_def not_initialized_def)
    qed
  next
    case (Set_mbt new_st)
    then show ?thesis using Some rip by (simp add: PyRtpSynth_set_mbt_def rsynth_set_mbt_def py_synth_ok_def synth_ok_def py_marker_def)
  next
    case (Resync args now)
    then show ?thesis using Some rip adm
      by (auto simp: PyRtpSynth_resync_def rsynth_resync_def py_synth_ok_def synth_ok_def py_marker_def)
  next
    case (Skip npkts)
    then show ?thesis using Some rip adm by (simp add: PyRtpSynth_skip_def rsynth_skip_def py_synth_ok_def synth_ok_def py_marker_def)
  qed
qed

interpretation pysynth: invariant_machine py_synth_step py_synth_adm py_synth_ok
proof
  fix s i assume "py_synth_ok s" "py_synth_adm s i"
  from py_synth_step_ok [OF this] show "py_synth_step s i \<noteq> None" by (auto simp del: py_synth_step.simps)
next
  fix s i out s' assume "py_synth_ok s" "py_synth_adm s i" "py_synth_step s i = Some (out, s')"
  with py_synth_step_ok [OF this(1,2)] show "py_synth_ok s'" by (auto simp del: py_synth_step.simps)
qed

section \<open>Properties\<close>

definition plain_pkt_env :: pkt_env where
  "plain_pkt_env = \<lparr>out_ok = True, out_garbage = [], shrunk_ok = True, pkt_now = None\<rparr>"

definition rand_ones :: "unit rand_state" where
  "rand_ones = \<lparr>g_randfunc = Some \<lparr>call_plain = (\<lambda>r. (Raises_type_error, r)), call_bits = (\<lambda>r. (Returns_int 4294967295, r))\<rparr>,
     use_python = True\<rparr>"

definition sample_py_synth :: PyRtpSynth where
  "sample_py_synth = (case PyRtpSynth_init (\<lambda>r. (0, r)) rand_ones () True (Some (Timespec 7 0)) (Some (8000, 20)) \<lparr>rs = None\<rparr> of
     Some (rc, e, self, r) \<Rightarrow> self | None \<Rightarrow> \<lparr>rs = None\<rparr>)"

lemma sample_py_synth_init:
  "PyRtpSynth_init (\<lambda>r. (0, r)) rand_ones () True (Some (Timespec 7 0)) (Some (8000, 20)) \<lparr>rs = None\<rparr> = Some (0, None, sample_py_synth, ())"
  by (simp add: sample_py_synth_def PyRtpSynth_init_def rsynth_ctor_def lib_randfunc_def rsynth_set_randfunc_def PyRtpSynth_randfunc_def rand_ones_def
      rand_value_def i32_range_def Let_def)

text \<open>
  C11. What the class generates, the parser reads: the first packet of \<open>next_pkt\<close> after a successful initialisation, for lengths from 0
  to 33554400, a payload that is at most 32 bytes longer and memory for the packet, has the length that was asked for plus the header; it is accepted
  with the sequence number, time stamp and source of the stream; its payload is the given one, cut off or filled up with zeros to the length; and the
  stream has moved on by one packet.
\<close>

theorem synth_py_roundtrip:
  assumes "PyRtpSynth_init dr st r True now0 (Some (srt, ptm)) self0 = Some (0, e, self, r')"
    and "0 \<le> plen" and "plen \<le> 33554400" and "case pload of Pload_none \<Rightarrow> True | Pload_bytes p \<Rightarrow> int (length p) \<le> plen + 32 | Pload_bad \<Rightarrow> False"
    and "out_ok pe" and "shrunk_ok pe"
  shows "\<exists>rip bs info. rs self = Some rip \<and>
    PyRtpSynth_next_pkt pe (Some (plen, pt, pload)) self = Some (Inr bs, self\<lparr>rs := Some (advance rip (pkt_now pe))\<rparr>) \<and>
    length bs = 12 + nat plen \<and> rtp_packet_parse_raw bs rtp_info_zero = Some (RTP_PARSER_OK, info) \<and>
    ri_seq info = ucast (l_seq (rs_l rip)) \<and> ri_ts info = ucast (l_ts (rs_l rip)) \<and> ri_ssrc info = ntohl (h_ssrc (rs_model rip)) \<and>
    take (data_size info) (drop (data_offset info) bs) = sent_payload plen pload"
proof -
  from init_py_ok [OF assms(1)] obtain rip where rip: "rs self = Some rip" "synth_ok rip" by blast
  have "\<exists>buf. payload_buffer pe (plen + 32) pload = Inr buf" using assms(4,5) by (auto simp: payload_buffer_def split: pload.splits)
  then obtain buf where buf: "payload_buffer pe (plen + 32) pload = Inr buf" by blast
  have "plen \<le> 2147483615" using assms(3) by simp
  note n = next_pkt_py [OF rip assms(2) this buf, of pt]
  have "length (sent_payload plen pload) \<le> 33554420" using assms(3) by (simp add: length_sent_payload)
  from synth_parses [OF rip(2) this, of pt] show ?thesis
    using rip(1) n assms(6) by (intro exI [of _ rip]) (simp add: length_sent_payload synth_info_fields)
qed

theorem synth_py_roundtrip_witness:
  "\<exists>bs info. map_option fst (PyRtpSynth_next_pkt plain_pkt_env (Some (4, 0, Pload_bytes [1, 2])) sample_py_synth) = Some (Inr bs) \<and>
     rtp_packet_parse_raw bs rtp_info_zero = Some (RTP_PARSER_OK, info) \<and>
     take (data_size info) (drop (data_offset info) bs) = [1, 2, 0, 0]"
proof -
  have "case Pload_bytes [1, 2 :: u8] of Pload_none \<Rightarrow> True | Pload_bytes p \<Rightarrow> int (length p) \<le> 4 + 32 | Pload_bad \<Rightarrow> False" by simp
  from synth_py_roundtrip [OF sample_py_synth_init _ _ this, of plain_pkt_env 0] show ?thesis
    by (auto simp: plain_pkt_env_def sent_payload_def numeral_eq_Suc)
qed

text \<open>
  C32. Every sequence of method calls with defined behaviour runs (lengths from 0 to 2147483615, a clock that works, a \<open>skip\<close> whose product does not overflow), and every call returns what its kind of method returns. \<open>set_mbt\<close>
  returns the old marker bit, the one of the last \<open>set_mbt\<close> unless a packet has cleared it. \<open>next_pkt\<close> returns bytes of the length of header and payload that start with version 2 and carry this marker bit, if the payload is no longer than the buffer, which is 32 bytes
  longer than the given length, and there is memory, and otherwise an exception. \<open>resync\<close> and \<open>skip\<close> return nothing. On an object that was not initialised all of them raise the exception that says so.
\<close>

theorem synth_py_typed:
  assumes "py_synth_ok self" and "admissible_run py_synth_step py_synth_adm self calls"
  shows "\<exists>outs self'. run_steps py_synth_step self calls = Some (outs, self') \<and> typed_run (py_marker self) calls outs"
proof -
  from pysynth.run_ok [OF assms] obtain outs self' where r: "run_steps py_synth_step self calls = Some (outs, self')" by blast
  have "typed_run (py_marker self) calls outs" using assms r
  proof (induction calls arbitrary: self outs)
    case (Cons c calls)
    from Cons.prems(2) have adm: "py_synth_adm self c" by simp
    from py_synth_step_ok [OF Cons.prems(1) adm] obtain out self1 where
      s: "py_synth_step self c = Some (out, self1)" "py_synth_ok self1" "out_typed (py_marker self) c out"
      "py_marker self1 = marker_after (py_marker self) c" by blast
    then obtain outs1 where o: "run_steps py_synth_step self1 calls = Some (outs1, self')" "outs = out # outs1"
      using Cons.prems(3) by (auto simp del: py_synth_step.simps split: option.splits)
    show ?case using Cons.IH [OF s(2) _ o(1)] Cons.prems(2) s o(2) by (simp del: py_synth_step.simps out_typed.simps)
  qed simp
  then show ?thesis using r by blast
qed

theorem synth_py_typed_witness:
  "\<exists>outs self'. run_steps py_synth_step sample_py_synth [Next_pkt plain_pkt_env 4 0 Pload_none, Set_mbt 1, Set_mbt 0, Skip 2] = Some (outs, self') \<and>
     (\<exists>bs. outs = [Out_bytes bs, Out_int 0, Out_int 1, Out_none] \<and> length bs = 16)"
proof -
  let ?calls = "[Next_pkt plain_pkt_env 4 0 Pload_none, Set_mbt 1, Set_mbt 0, Skip 2]"
  have ok: "py_synth_ok sample_py_synth" using init_py_ok [OF sample_py_synth_init] by (auto simp: py_synth_ok_def)
  have a: "admissible_run py_synth_step py_synth_adm sample_py_synth ?calls" by code_simp
  obtain m where m: "py_marker sample_py_synth = Some m" using init_py_ok [OF sample_py_synth_init] by (auto simp: py_marker_def)
  from synth_py_typed [OF ok a] obtain outs self' where r: "run_steps py_synth_step sample_py_synth ?calls = Some (outs, self')"
    and "typed_run (Some m) ?calls outs" unfolding m by blast
  then obtain o1 o2 o3 o4 where "outs = [o1, o2, o3, o4]" "out_typed (Some m) (Next_pkt plain_pkt_env 4 0 Pload_none) o1"
    "out_typed (Some 0) (Set_mbt 1) o2" "out_typed (Some 1) (Set_mbt 0) o3" "out_typed (Some 0) (Skip 2) o4"
    by (auto simp: pkt_taken_def plain_pkt_env_def simp del: out_typed.simps split: list.split_asm)
  moreover from this(2) obtain bs where "o1 = Out_bytes bs" "length bs = 16"
    by (cases o1) (auto simp: pkt_taken_def plain_pkt_env_def)
  ultimately have "outs = [Out_bytes bs, Out_int 0, Out_int 1, Out_none] \<and> length bs = 16" by simp
  then show ?thesis using r by blast
qed

text \<open>
  C40. A negative length with a payload is not caught: for lengths from -12 to -1 the method accepts the arguments, and the library moves a negative number of
  bytes, which is a huge one as \<open>size_t\<close>, out of the buffer.
\<close>

theorem synth_py_negative_length:
  assumes "rs self = Some rip" and "synth_ok rip" and "-12 \<le> plen" and "plen < 0" and "int (length payload) \<le> plen + 32" and "out_ok pe"
  shows "PyRtpSynth_next_pkt pe (Some (plen, pt, Pload_bytes payload)) self = None"
proof -
  let ?buf = "payload @ replicate (nat (plen + 32) - length payload) 0"
  have rng: "i32_check (plen + 32) = Some (plen + 32)" using assms(3,4) by (simp add: i32_range_def)
  have len: "length ?buf \<le> 32" using assms(3-5) by simp
  have rs: "(12 + of_int plen :: u32) = of_int (12 + plen)" by simp
  have u: "unat (of_int (12 + plen) :: u32) = nat (12 + plen)" "unat (of_int (plen + 32) :: u32) = nat (plen + 32)"
    using assms(3,4) by (simp_all only: unat_of_int_u32)
  have guard: "\<not> (12 + of_int plen :: u32) > of_int (plen + 32)" unfolding rs word_less_nat_alt u using assms(3,4) by simp
  have m: "(of_int plen :: u64) = of_int (plen + 18446744073709551616)"
    using word_of_int_2p [where 'a = 64] by simp
  have "unat (of_int plen :: u64) = nat (plen + 18446744073709551616)"
    unfolding m using assms(3,4) by (intro unat_of_int_u64) simp_all
  then have "length ?buf < unat (of_int plen :: u64)" using len assms(3) by simp
  then have "mem_move ?buf 12 0 (unat (of_int plen :: u64)) = None" by (simp add: mem_move_def)
  then show ?thesis using assms rng guard
    by (simp add: PyRtpSynth_next_pkt_def payload_buffer_def rsynth_next_pkt_pa_def hdr_len_ok Let_def)
qed

theorem synth_py_negative_length_witness: "PyRtpSynth_next_pkt plain_pkt_env (Some (-1, 0, Pload_bytes [7])) sample_py_synth = None"
proof -
  from init_py_ok [OF sample_py_synth_init] obtain rip where "rs sample_py_synth = Some rip" "synth_ok rip" by blast
  from synth_py_negative_length [OF this, of "-1" "[7]" plain_pkt_env 0] show ?thesis by (simp add: plain_pkt_env_def)
qed

text \<open>
  A random function that fails is not noticed: the constructor returns success with an exception set, and the stream starts at zero.
\<close>

lemma synth_py_rand_failure:
  assumes "i32_range (80 * ptm)" "\<And>r. call_plain f r = (Raises_other, r)"
  shows "\<exists>self' rip. PyRtpSynth_init dr \<lparr>g_randfunc = Some f, use_python = True\<rparr> r True now (Some (srt, ptm)) self =
      Some (0, Some (RuntimeError ''randfunc failed''), self', r) \<and> rs self' = Some rip \<and>
    rs_l rip = \<lparr>l_ts = 0, l_seq = 0\<rparr> \<and> h_ssrc (rs_model rip) = 0"
  using assms
  by (simp add: PyRtpSynth_init_def rsynth_ctor_def lib_randfunc_def rsynth_set_randfunc_def PyRtpSynth_randfunc_def rand_value_def Let_def
      rtp_hdr_zero_def)

end
