(* ===== verification/Rtp_Jbuf_Py.thy ===== *)
theory Rtp_Jbuf_Py
  imports Rtp_Jbuf_Props
begin

text \<open>
  The Python class of \<^verbatim>\<open>python/RtpJBuf_mod.c\<close>: the jitter buffer keeps pointers into the bytes objects that it was given, and the class keeps
  references to these objects, in a table, for as long as their packets are queued.

  An object has an address, which for a bytes object also stands for the address of its data. Objects that can be referenced by several
  owners, the bytes objects and the opaque ones that come with them, have a reference count. The objects that the class
  creates for a frame are owned by the frame's wrapper and form a tree; references that the program takes to the parts of a
  wrapper are not modelled. \<open>None\<close> is an access to a freed object, a failing assertion, or another crash.
\<close>

section \<open>Objects and memory\<close>

datatype py_ref = NULL | PyNone | Obj addr

datatype py_kind = K_RTPInfo | K_RTPPacket | K_ERSFrame | K_RTPFrameUnion | K_RTPFrame | K_FrameWrapper | K_RtpJBuf

text \<open>
  The contents of the bytes objects that are alive, the reference counts, the results of the next allocations (all later ones succeed) and the
  counters of the objects that the module has created and freed.
\<close>

record py_mem =
  bytes_of :: "addr \<Rightarrow> u8 list option"
  refcnt :: "addr \<Rightarrow> nat"
  allocs :: "bool list"
  created :: "py_kind \<Rightarrow> u64"
  freed :: "py_kind \<Rightarrow> u64"
  counting_enabled :: bool

fun Py_INCREF :: "py_ref \<Rightarrow> py_mem \<Rightarrow> py_mem option" where
  "Py_INCREF NULL m = None"
| "Py_INCREF PyNone m = Some m"
| "Py_INCREF (Obj x) m = (if refcnt m x = 0 then None else Some (m\<lparr>refcnt := (refcnt m)(x := refcnt m x + 1)\<rparr>))"

fun Py_DECREF :: "py_ref \<Rightarrow> py_mem \<Rightarrow> py_mem option" where
  "Py_DECREF NULL m = None"
| "Py_DECREF PyNone m = Some m"
| "Py_DECREF (Obj x) m =
     (if refcnt m x = 0 then None
      else Some (m\<lparr>refcnt := (refcnt m)(x := refcnt m x - 1),
        bytes_of := (if refcnt m x = 1 then (bytes_of m)(x := None) else bytes_of m)\<rparr>))"

definition Py_XDECREF :: "py_ref \<Rightarrow> py_mem \<Rightarrow> py_mem option" where
  "Py_XDECREF r m = (if r = NULL then Some m else Py_DECREF r m)"

definition py_alloc :: "py_mem \<Rightarrow> bool \<times> py_mem" where
  "py_alloc m = (case allocs m of [] \<Rightarrow> (True, m) | ok # oks \<Rightarrow> (ok, m\<lparr>allocs := oks\<rparr>))"

definition count_inc :: "bool \<Rightarrow> py_kind \<Rightarrow> (py_kind \<Rightarrow> u64) \<Rightarrow> py_kind \<Rightarrow> u64" where
  "count_inc enabled k counter = (if enabled then counter(k := counter k + 1) else counter)"

definition count_created :: "py_kind \<Rightarrow> py_mem \<Rightarrow> py_mem" where
  "count_created k m = m\<lparr>created := count_inc (counting_enabled m) k (created m)\<rparr>"

definition count_freed :: "py_kind \<Rightarrow> py_mem \<Rightarrow> py_mem" where
  "count_freed k m = m\<lparr>freed := count_inc (counting_enabled m) k (freed m)\<rparr>"

text \<open>\<open>PyObject_New\<close> or \<open>PyType_GenericNew\<close>, and the counter.\<close>

definition py_new :: "py_kind \<Rightarrow> py_mem \<Rightarrow> bool \<times> py_mem" where
  "py_new k m = (case py_alloc m of (ok, m1) \<Rightarrow> (ok, if ok then count_created k m1 else m1))"

definition py_generic_new :: "py_kind \<Rightarrow> 'a \<Rightarrow> py_mem \<Rightarrow> 'a option \<times> py_mem" where
  "py_generic_new k cleared m = (case py_new k m of (ok, m1) \<Rightarrow> (if ok then Some cleared else None, m1))"

section \<open>Wrappers\<close>

record PyRTPPacket =
  p_pkt :: rtp_packet
  p_info_obj :: "rtp_info option"

record PyRTPFrameUnion =
  u_rtp :: "PyRTPPacket option"
  u_ers :: "ers_frame option"

record PyRTPFrame =
  f_type :: int
  f_frame :: "PyRTPFrameUnion option"

datatype py_content = C_frame PyRTPFrame | C_ers ers_frame | C_none

record PyFrameWrapper =
  w_content :: py_content
  w_data :: py_ref
  w_rtp_data :: "u8 list option"
  w_opaque :: py_ref

text \<open>The destructors: each frees what the object owns.\<close>

definition PyRTPInfo_dealloc :: "py_mem \<Rightarrow> py_mem" where
  "PyRTPInfo_dealloc m = count_freed K_RTPInfo m"

definition PyRTPPacket_dealloc :: "PyRTPPacket \<Rightarrow> py_mem \<Rightarrow> py_mem" where
  "PyRTPPacket_dealloc self m =
     (let m1 = count_freed K_RTPPacket m in case p_info_obj self of None \<Rightarrow> m1 | Some info \<Rightarrow> PyRTPInfo_dealloc m1)"

definition PyERSFrame_dealloc :: "py_mem \<Rightarrow> py_mem" where
  "PyERSFrame_dealloc m = count_freed K_ERSFrame m"

definition PyRTPFrameUnion_dealloc :: "PyRTPFrameUnion \<Rightarrow> py_mem \<Rightarrow> py_mem" where
  "PyRTPFrameUnion_dealloc self m =
     (let m1 = count_freed K_RTPFrameUnion m;
          m2 = (case u_rtp self of None \<Rightarrow> m1 | Some pkt \<Rightarrow> PyRTPPacket_dealloc pkt m1)
      in case u_ers self of None \<Rightarrow> m2 | Some ers \<Rightarrow> PyERSFrame_dealloc m2)"

definition PyRTPFrame_dealloc :: "PyRTPFrame \<Rightarrow> py_mem \<Rightarrow> py_mem" where
  "PyRTPFrame_dealloc self m =
     (let m1 = count_freed K_RTPFrame m in case f_frame self of None \<Rightarrow> m1 | Some fu \<Rightarrow> PyRTPFrameUnion_dealloc fu m1)"

fun content_dealloc :: "py_content \<Rightarrow> py_mem \<Rightarrow> py_mem" where
  "content_dealloc (C_frame rf) m = PyRTPFrame_dealloc rf m"
| "content_dealloc (C_ers ers) m = PyERSFrame_dealloc m"
| "content_dealloc C_none m = m"

definition PyFrameWrapper_dealloc :: "PyFrameWrapper \<Rightarrow> py_mem \<Rightarrow> py_mem option" where
  "PyFrameWrapper_dealloc self m = do {
     m1 \<leftarrow> Py_XDECREF (w_data self) (content_dealloc (w_content self) (count_freed K_FrameWrapper m));
     Py_XDECREF (w_opaque self) m1
   }"

text \<open>The constructors from C; those that steal a reference free the object when they fail.\<close>

definition PyRTPInfo_FromInfo :: "rtp_info \<Rightarrow> py_mem \<Rightarrow> rtp_info option \<times> py_mem" where
  "PyRTPInfo_FromInfo info m = (case py_new K_RTPInfo m of (ok, m1) \<Rightarrow> (if ok then Some info else None, m1))"

definition PyRTPPacket_NewSteal :: "rtp_packet \<Rightarrow> rtp_info \<Rightarrow> py_mem \<Rightarrow> PyRTPPacket option \<times> py_mem" where
  "PyRTPPacket_NewSteal pkt info_obj m =
     (case py_new K_RTPPacket m of
        (False, m1) \<Rightarrow> (None, PyRTPInfo_dealloc m1)
      | (True, m1) \<Rightarrow> (Some \<lparr>p_pkt = pkt, p_info_obj = Some info_obj\<rparr>, m1))"

definition PyERSFrame_FromErs :: "ers_frame \<Rightarrow> py_mem \<Rightarrow> ers_frame option \<times> py_mem" where
  "PyERSFrame_FromErs ers m = (case py_new K_ERSFrame m of (ok, m1) \<Rightarrow> (if ok then Some ers else None, m1))"

definition PyRTPFrameUnion_NewSteal ::
    "PyRTPPacket option \<Rightarrow> ers_frame option \<Rightarrow> py_mem \<Rightarrow> PyRTPFrameUnion option \<times> py_mem" where
  "PyRTPFrameUnion_NewSteal rtp_obj ers_obj m =
     (case py_new K_RTPFrameUnion m of
        (False, m1) \<Rightarrow>
          (let m2 = (case rtp_obj of None \<Rightarrow> m1 | Some pkt \<Rightarrow> PyRTPPacket_dealloc pkt m1)
           in (None, case ers_obj of None \<Rightarrow> m2 | Some ers \<Rightarrow> PyERSFrame_dealloc m2))
      | (True, m1) \<Rightarrow> (Some \<lparr>u_rtp = rtp_obj, u_ers = ers_obj\<rparr>, m1))"

definition PyRTPFrame_NewSteal :: "int \<Rightarrow> PyRTPFrameUnion \<Rightarrow> py_mem \<Rightarrow> PyRTPFrame option \<times> py_mem" where
  "PyRTPFrame_NewSteal type frame_union m =
     (case py_new K_RTPFrame m of
        (False, m1) \<Rightarrow> (None, PyRTPFrameUnion_dealloc frame_union m1)
      | (True, m1) \<Rightarrow> (Some \<lparr>f_type = type, f_frame = Some frame_union\<rparr>, m1))"

definition none_if_null :: "py_ref \<Rightarrow> py_ref" where
  "none_if_null r = (if r = NULL then PyNone else r)"

definition PyFrameWrapper_NewSteal ::
    "py_content \<Rightarrow> py_ref \<Rightarrow> u8 list option \<Rightarrow> py_ref \<Rightarrow> py_mem \<Rightarrow> (PyFrameWrapper option \<times> py_mem) option" where
  "PyFrameWrapper_NewSteal content data rtp_data opaque m =
     (case py_new K_FrameWrapper m of
        (False, m1) \<Rightarrow> do {
          m2 \<leftarrow> Py_XDECREF data (content_dealloc content m1);
          m3 \<leftarrow> Py_XDECREF opaque m2;
          Some (None, m3)
        }
      | (True, m1) \<Rightarrow>
          Some (Some \<lparr>w_content = content, w_data = none_if_null data, w_rtp_data = rtp_data, w_opaque = none_if_null opaque\<rparr>, m1))"

text \<open>The frame type of the union, as the code numbers it.\<close>

definition RFT_RTP_CODE :: int where
  "RFT_RTP_CODE = 0"

definition RFT_ERS_CODE :: int where
  "RFT_ERS_CODE = 1"

text \<open>Copying the payload out of the bytes object.\<close>

definition read_payload :: "rtp_packet \<Rightarrow> py_mem \<Rightarrow> u8 list option" where
  "read_payload pkt m =
     (if data_size (pk_info pkt) = 0 then Some []
      else
        (case bytes_of m (pk_data pkt) of
           None \<Rightarrow> None
         | Some bs \<Rightarrow>
             if data_offset (pk_info pkt) + data_size (pk_info pkt) \<le> length bs
             then Some (take (data_size (pk_info pkt)) (drop (data_offset (pk_info pkt)) bs)) else None))"

definition drop_refs :: "py_ref \<Rightarrow> py_ref \<Rightarrow> py_mem \<Rightarrow> (PyFrameWrapper option \<times> py_mem) option" where
  "drop_refs data_obj opaque_obj m = do {
     m1 \<leftarrow> Py_DECREF data_obj m;
     m2 \<leftarrow> Py_XDECREF opaque_obj m1;
     Some (None, m2)
   }"

definition build_wrapper_rtp :: "rtp_packet \<Rightarrow> py_ref \<Rightarrow> py_ref \<Rightarrow> py_mem \<Rightarrow> (PyFrameWrapper option \<times> py_mem) option" where
  "build_wrapper_rtp pkt data_obj opaque_obj m =
     (case PyRTPInfo_FromInfo (pk_info pkt) m of
        (None, m1) \<Rightarrow> drop_refs data_obj opaque_obj m1
      | (Some info_obj, m1) \<Rightarrow>
          (case PyRTPPacket_NewSteal pkt info_obj m1 of
             (None, m2) \<Rightarrow> drop_refs data_obj opaque_obj m2
           | (Some pkt_obj, m2) \<Rightarrow>
               (case PyRTPFrameUnion_NewSteal (Some pkt_obj) None m2 of
                  (None, m3) \<Rightarrow> drop_refs data_obj opaque_obj m3
                | (Some union_obj, m3) \<Rightarrow>
                    (case PyRTPFrame_NewSteal RFT_RTP_CODE union_obj m3 of
                       (None, m4) \<Rightarrow> drop_refs data_obj opaque_obj m4
                     | (Some frame_obj, m4) \<Rightarrow> do {
                         payload \<leftarrow> read_payload pkt m4;
                         (case py_alloc m4 of
                            (False, m5) \<Rightarrow> drop_refs data_obj opaque_obj (PyRTPFrame_dealloc frame_obj m5)
                          | (True, m5) \<Rightarrow> PyFrameWrapper_NewSteal (C_frame frame_obj) data_obj (Some payload) opaque_obj m5)
                       }))))"

definition build_wrapper_ers :: "ers_frame \<Rightarrow> py_mem \<Rightarrow> (PyFrameWrapper option \<times> py_mem) option" where
  "build_wrapper_ers ers m =
     (case PyERSFrame_FromErs ers m of
        (None, m1) \<Rightarrow> Some (None, m1)
      | (Some ers_obj, m1) \<Rightarrow> PyFrameWrapper_NewSteal (C_ers ers_obj) NULL None NULL m1)"

section \<open>The table of references\<close>

record PyRtpJBufRef =
  ref_data :: py_ref
  ref_opaque :: py_ref
  ref_ptr :: addr

definition empty_ref :: PyRtpJBufRef where
  "empty_ref = \<lparr>ref_data = NULL, ref_opaque = NULL, ref_ptr = 0\<rparr>"

fun take_ref :: "addr \<Rightarrow> PyRtpJBufRef list \<Rightarrow> (PyRtpJBufRef \<times> PyRtpJBufRef list) option" where
  "take_ref ptr [] = None"
| "take_ref ptr (r # refs) =
     (if ref_ptr r = ptr then Some (r, empty_ref # refs) else map_option (\<lambda>(out, refs'). (out, r # refs')) (take_ref ptr refs))"

definition fetch_cached_ref :: "addr \<Rightarrow> PyRtpJBufRef list option \<Rightarrow> (PyRtpJBufRef \<times> PyRtpJBufRef list option) option" where
  "fetch_cached_ref ptr refs =
     (case refs of
        None \<Rightarrow> None
      | Some rs \<Rightarrow>
          if ptr = 0 then None
          else Some (case take_ref ptr rs of
              Some (out, rs') \<Rightarrow> (out, Some rs')
            | None \<Rightarrow> (\<lparr>ref_data = PyNone, ref_opaque = PyNone, ref_ptr = 0\<rparr>, Some rs)))"

definition fetch_ready_ref ::
    "addr \<Rightarrow> py_ref \<Rightarrow> py_ref \<Rightarrow> addr \<Rightarrow> PyRtpJBufRef list option \<Rightarrow> py_mem \<Rightarrow>
     (PyRtpJBufRef \<times> PyRtpJBufRef list option \<times> py_mem) option" where
  "fetch_ready_ref ptr input_bytes input_opaque input_ptr refs m =
     (if input_bytes = NULL \<or> input_opaque = NULL \<or> input_ptr = 0 then None
      else if ptr = input_ptr then do {
        m1 \<leftarrow> Py_INCREF input_bytes m;
        m2 \<leftarrow> Py_INCREF input_opaque m1;
        Some (\<lparr>ref_data = input_bytes, ref_opaque = input_opaque, ref_ptr = ptr\<rparr>, refs, m2)
      }
      else map_option (\<lambda>(out, refs'). (out, refs', m)) (fetch_cached_ref ptr refs))"

fun put_ref :: "PyRtpJBufRef \<Rightarrow> PyRtpJBufRef list \<Rightarrow> PyRtpJBufRef list option" where
  "put_ref new [] = None"
| "put_ref new (r # refs) = (if ref_data r = NULL then Some (new # refs) else map_option ((#) r) (put_ref new refs))"

text \<open>The inner option is an exhausted table.\<close>

definition store_data_ref ::
    "py_ref \<Rightarrow> py_ref \<Rightarrow> addr \<Rightarrow> PyRtpJBufRef list option \<Rightarrow> py_mem \<Rightarrow> (PyRtpJBufRef list option \<times> py_mem) option option" where
  "store_data_ref input_bytes input_opaque ptr refs m =
     (case refs of
        None \<Rightarrow> None
      | Some rs \<Rightarrow>
          if ptr = 0 \<or> input_opaque = NULL then None
          else
            (case put_ref \<lparr>ref_data = input_bytes, ref_opaque = input_opaque, ref_ptr = ptr\<rparr> rs of
               None \<Rightarrow> Some None
             | Some rs' \<Rightarrow> do {
                 m1 \<leftarrow> Py_INCREF input_bytes m;
                 m2 \<leftarrow> Py_INCREF input_opaque m1;
                 Some (Some (Some rs', m2))
               }))"

fun list_has_data_ptr :: "rtp_frame list \<Rightarrow> addr \<Rightarrow> bool" where
  "list_has_data_ptr [] ptr = False"
| "list_has_data_ptr (RFT_RTP p # fs) ptr = (pk_data p = ptr \<or> list_has_data_ptr fs ptr)"
| "list_has_data_ptr (RFT_ERS e # fs) ptr = list_has_data_ptr fs ptr"

section \<open>The class\<close>

record PyRtpJBuf =
  pj_jb :: "rtpjbuf_inst option"
  pj_refs :: "PyRtpJBufRef list option"
  pj_capacity :: u32
  pj_dropped :: u64

definition NO_INPUT_PTR :: addr where
  "NO_INPUT_PTR = 1"

fun process_drop_list :: "PyRtpJBuf \<Rightarrow> rtp_frame list \<Rightarrow> addr \<Rightarrow> py_mem \<Rightarrow> (PyRtpJBuf \<times> py_mem) option" where
  "process_drop_list self [] input_ptr m = Some (self, m)"
| "process_drop_list self (RFT_RTP p # fs) input_ptr m =
     (let self1 = self\<lparr>pj_dropped := pj_dropped self + 1\<rparr>
      in if input_ptr = 0 \<or> pk_data p \<noteq> input_ptr then do {
           (out, refs) \<leftarrow> fetch_cached_ref (pk_data p) (pj_refs self1);
           m1 \<leftarrow> Py_XDECREF (ref_data out) m;
           m2 \<leftarrow> Py_XDECREF (ref_opaque out) m1;
           process_drop_list (self1\<lparr>pj_refs := refs\<rparr>) fs input_ptr m2
         }
         else process_drop_list self1 fs input_ptr m)"
| "process_drop_list self (RFT_ERS e # fs) input_ptr m = process_drop_list self fs input_ptr m"

text \<open>Freeing a list of wrappers.\<close>

fun dealloc_list :: "PyFrameWrapper list \<Rightarrow> py_mem \<Rightarrow> py_mem option" where
  "dealloc_list [] m = Some m"
| "dealloc_list (w # ws) m = (case PyFrameWrapper_dealloc w m of None \<Rightarrow> None | Some m1 \<Rightarrow> dealloc_list ws m1)"

text \<open>One wrapper; \<open>None\<close> inside is an exception.\<close>

fun frame_wrapper ::
    "PyRtpJBuf \<Rightarrow> rtp_frame \<Rightarrow> py_ref \<Rightarrow> py_ref \<Rightarrow> addr \<Rightarrow> py_mem \<Rightarrow> (PyFrameWrapper option \<times> PyRtpJBuf \<times> py_mem) option" where
  "frame_wrapper self (RFT_RTP p) input_bytes input_opaque input_ptr m = do {
     (out, refs, m1) \<leftarrow> fetch_ready_ref (pk_data p) input_bytes input_opaque input_ptr (pj_refs self) m;
     (w, m2) \<leftarrow> build_wrapper_rtp p (ref_data out) (ref_opaque out) m1;
     Some (w, self\<lparr>pj_refs := refs\<rparr>, m2)
   }"
| "frame_wrapper self (RFT_ERS e) input_bytes input_opaque input_ptr m =
     map_option (\<lambda>(w, m1). (w, self, m1)) (build_wrapper_ers e m)"

text \<open>The loop of \<open>process_ready_list\<close>, with the list built so far.\<close>

fun ready_loop ::
    "PyRtpJBuf \<Rightarrow> PyFrameWrapper list \<Rightarrow> rtp_frame list \<Rightarrow> py_ref \<Rightarrow> py_ref \<Rightarrow> addr \<Rightarrow> py_mem \<Rightarrow>
     (PyFrameWrapper list option \<times> PyRtpJBuf \<times> py_mem) option" where
  "ready_loop self ready [] input_bytes input_opaque input_ptr m = Some (Some ready, self, m)"
| "ready_loop self ready (fp # next) input_bytes input_opaque input_ptr m =
     (case frame_wrapper self fp input_bytes input_opaque input_ptr m of
        None \<Rightarrow> None
      | Some (None, self1, m1) \<Rightarrow> do {
          (self2, m2) \<leftarrow> process_drop_list self1 next input_ptr m1;
          m3 \<leftarrow> dealloc_list ready m2;
          Some (None, self2, m3)
        }
      | Some (Some w, self1, m1) \<Rightarrow>
          (case py_alloc m1 of
             (False, m2) \<Rightarrow> do {
               m3 \<leftarrow> PyFrameWrapper_dealloc w m2;
               (self2, m4) \<leftarrow> process_drop_list self1 next input_ptr m3;
               m5 \<leftarrow> dealloc_list ready m4;
               Some (None, self2, m5)
             }
           | (True, m2) \<Rightarrow> ready_loop self1 (ready @ [w]) next input_bytes input_opaque input_ptr m2))"

text \<open>The flag says whether the list can be allocated.\<close>

definition process_ready_list ::
    "bool \<Rightarrow> PyRtpJBuf \<Rightarrow> rtp_frame list \<Rightarrow> py_ref \<Rightarrow> py_ref \<Rightarrow> addr \<Rightarrow> py_mem \<Rightarrow>
     (PyFrameWrapper list option \<times> PyRtpJBuf \<times> py_mem) option" where
  "process_ready_list list_ok self fs input_bytes input_opaque input_ptr m =
     (if \<not> list_ok then Some (None, self, m) else ready_loop self [] fs input_bytes input_opaque input_ptr m)"

datatype jb_exc = RuntimeError string | RuntimeStatus int | RTPParseError int | MemoryError | ArgumentError | ConversionError | TypeError string

text \<open>
  The packet: a bytes object, or an object that is converted to a new bytes object, which can fail.
\<close>

datatype data_arg = Data_bytes addr | Data_new "(addr \<times> u8 list) option"

fun ensure_bytes :: "data_arg \<Rightarrow> py_mem \<Rightarrow> ((addr \<times> u8 list) option \<times> py_mem) option" where
  "ensure_bytes (Data_bytes x) m =
     (case bytes_of m x of None \<Rightarrow> None | Some bs \<Rightarrow> map_option (Pair (Some (x, bs))) (Py_INCREF (Obj x) m))"
| "ensure_bytes (Data_new None) m = Some (None, m)"
| "ensure_bytes (Data_new (Some (x, bs))) m =
     Some (Some (x, bs), m\<lparr>bytes_of := (bytes_of m)(x \<mapsto> bs), refcnt := (refcnt m)(x := 1)\<rparr>)"

definition ready_result :: "PyFrameWrapper list option \<Rightarrow> jb_exc + PyFrameWrapper list" where
  "ready_result r = (case r of None \<Rightarrow> Inl MemoryError | Some ws \<Rightarrow> Inr ws)"

text \<open>What \<open>udp_in\<close> does with the answer of the library.\<close>

definition udp_in_result ::
    "bool \<Rightarrow> PyRtpJBuf \<Rightarrow> rjb_udp_in_r \<Rightarrow> addr \<Rightarrow> py_ref \<Rightarrow> py_mem \<Rightarrow>
     ((jb_exc + PyFrameWrapper list) \<times> PyRtpJBuf \<times> py_mem) option" where
  "udp_in_result list_ok self ruir data input_opaque m =
     (if r_error ruir \<noteq> 0 then do {
        (self1, m1) \<leftarrow> process_drop_list self (r_drop ruir) data m;
        m2 \<leftarrow> Py_DECREF (Obj data) m1;
        Some (Inl (if r_error ruir < parser_err_code RTP_PARSER_OK then RTPParseError (r_error ruir) else RuntimeStatus (r_error ruir)), self1, m2)
      }
      else do {
        stored \<leftarrow>
          (if list_has_data_ptr (r_ready ruir) data \<or> list_has_data_ptr (r_drop ruir) data then Some (Some (pj_refs self, m))
           else store_data_ref (Obj data) input_opaque data (pj_refs self) m);
        (case stored of
           None \<Rightarrow> do {
             (self1, m1) \<leftarrow> process_drop_list self (r_ready ruir) data m;
             (self2, m2) \<leftarrow> process_drop_list self1 (r_drop ruir) data m1;
             m3 \<leftarrow> Py_DECREF (Obj data) m2;
             Some (Inl (RuntimeError ''RtpJBuf reference buffer exhausted''), self2, m3)
           }
         | Some (refs, m1) \<Rightarrow> do {
             (ready, self1, m2) \<leftarrow> process_ready_list list_ok (self\<lparr>pj_refs := refs\<rparr>) (r_ready ruir) (Obj data) input_opaque data m1;
             (self2, m3) \<leftarrow> process_drop_list self1 (r_drop ruir) data m2;
             m4 \<leftarrow> Py_DECREF (Obj data) m3;
             Some (ready_result ready, self2, m4)
           })
      })"

definition PyRtpJBuf_udp_in ::
    "bool \<Rightarrow> bool \<Rightarrow> (data_arg \<times> py_ref) option \<Rightarrow> PyRtpJBuf \<Rightarrow> py_mem \<Rightarrow>
     ((jb_exc + PyFrameWrapper list) \<times> PyRtpJBuf \<times> py_mem) option" where
  "PyRtpJBuf_udp_in malloc_ok list_ok args self m =
     (case args of
        None \<Rightarrow> Some (Inl ArgumentError, self, m)
      | Some (data_obj, input_opaque) \<Rightarrow>
          (case pj_jb self of
             None \<Rightarrow> Some (Inl (RuntimeError ''RtpJBuf handle is not initialized''), self, m)
           | Some inst \<Rightarrow> do {
               (input, m1) \<leftarrow> ensure_bytes data_obj m;
               (case input of
                  None \<Rightarrow> Some (Inl ConversionError, self, m1)
                | Some (data, bs) \<Rightarrow> do {
                    (ruir, inst') \<leftarrow> rtpjbuf_udp_in inst malloc_ok data bs;
                    udp_in_result list_ok (self\<lparr>pj_jb := Some inst'\<rparr>) ruir data input_opaque m1
                  })
             }))"

definition PyRtpJBuf_flush ::
    "bool \<Rightarrow> bool \<Rightarrow> PyRtpJBuf \<Rightarrow> py_mem \<Rightarrow> ((jb_exc + PyFrameWrapper list) \<times> PyRtpJBuf \<times> py_mem) option" where
  "PyRtpJBuf_flush list_ok no_args self m =
     (if \<not> no_args then Some (Inl ArgumentError, self, m)
      else
        (case pj_jb self of
           None \<Rightarrow> Some (Inl (RuntimeError ''RtpJBuf handle is not initialized''), self, m)
         | Some inst \<Rightarrow> do {
             (ruir, inst') \<leftarrow> rtpjbuf_flush inst;
             (ready, self1, m1) \<leftarrow> process_ready_list list_ok (self\<lparr>pj_jb := Some inst'\<rparr>) (r_ready ruir) PyNone PyNone NO_INPUT_PTR m;
             (self2, m2) \<leftarrow> process_drop_list self1 (r_drop ruir) NO_INPUT_PTR m1;
             Some (ready_result ready, self2, m2)
           }))"

text \<open>The destructor. The number bounds the iterations of its loop.\<close>

fun dealloc_loop :: "nat \<Rightarrow> PyRtpJBuf \<Rightarrow> rtpjbuf_inst \<Rightarrow> py_mem \<Rightarrow> (PyRtpJBuf \<times> rtpjbuf_inst \<times> py_mem) option" where
  "dealloc_loop 0 self inst m = None"
| "dealloc_loop (Suc n) self inst m = do {
     (ruir, inst') \<leftarrow> rtpjbuf_flush inst;
     if r_ready ruir = [] \<and> r_drop ruir = [] then Some (self, inst', m)
     else do {
       (self1, m1) \<leftarrow> process_drop_list self (r_ready ruir) NO_INPUT_PTR m;
       (self2, m2) \<leftarrow> process_drop_list self1 (r_drop ruir) NO_INPUT_PTR m1;
       dealloc_loop n self2 inst' m2
     }
   }"

fun free_refs :: "PyRtpJBufRef list \<Rightarrow> py_mem \<Rightarrow> py_mem option" where
  "free_refs [] m = Some m"
| "free_refs (r # refs) m = do {
     m1 \<leftarrow> Py_XDECREF (ref_data r) m;
     m2 \<leftarrow> Py_XDECREF (ref_opaque r) m1;
     free_refs refs m2
   }"

definition PyRtpJBuf_dealloc :: "nat \<Rightarrow> PyRtpJBuf \<Rightarrow> py_mem \<Rightarrow> (rtp_packet list \<times> PyRtpJBuf \<times> py_mem) option" where
  "PyRtpJBuf_dealloc fuel self m = do {
     let m0 = count_freed K_RtpJBuf m;
     (frames, self1, m1) \<leftarrow>
       (case pj_jb self of
          None \<Rightarrow> Some ([], self, m0)
        | Some inst \<Rightarrow> do {
            (self1, inst', m1) \<leftarrow> dealloc_loop fuel self inst m0;
            Some (rtpjbuf_dtor inst', self1\<lparr>pj_jb := None\<rparr>, m1)
          });
     (case pj_refs self1 of
        None \<Rightarrow> Some (frames, self1, m1)
      | Some refs \<Rightarrow> map_option (\<lambda>m2. (frames, self1\<lparr>pj_refs := None\<rparr>, m2)) (free_refs refs m1))
   }"

definition PyRtpJBuf_new :: "py_mem \<Rightarrow> PyRtpJBuf option \<times> py_mem" where
  "PyRtpJBuf_new m = py_generic_new K_RtpJBuf \<lparr>pj_jb = None, pj_refs = None, pj_capacity = 0, pj_dropped = 0\<rparr> m"

definition PyRtpJBuf_init :: "bool \<Rightarrow> bool \<Rightarrow> u32 option \<Rightarrow> PyRtpJBuf \<Rightarrow> (jb_exc option \<times> PyRtpJBuf)" where
  "PyRtpJBuf_init ctor_ok calloc_ok args self =
     (case args of
        None \<Rightarrow> (Some ArgumentError, self)
      | Some capacity \<Rightarrow>
          (case rtpjbuf_ctor ctor_ok capacity of
             None \<Rightarrow> (Some (RuntimeError ''rtpjbuf_ctor() failed''), self\<lparr>pj_jb := None\<rparr>)
           | Some inst \<Rightarrow>
               (let self1 = self\<lparr>pj_jb := Some inst, pj_capacity := capacity, pj_dropped := 0\<rparr>
                in if \<not> calloc_ok then
                     (Some (RuntimeError ''RtpJBuf reference buffer allocation failed''), self1\<lparr>pj_refs := None, pj_jb := None\<rparr>)
                   else (None, self1\<lparr>pj_refs := Some (replicate (unat capacity) empty_ref)\<rparr>))))"

section \<open>Objects made by the program, attributes and counters\<close>

text \<open>
  The classes of the frames can be instantiated, and initialised again, by the program: the object is cleared, and what it owned is
  freed. A member that is cleared and one that is \<open>None\<close> are not told apart, except for the references. The flag says that there are no positional arguments.
\<close>

definition rtp_packet_zero :: rtp_packet where
  "rtp_packet_zero = \<lparr>pk_info = rtp_info_zero, lseq = 0, jbcnt = 0, pk_data = 0\<rparr>"

definition ers_frame_zero :: ers_frame where
  "ers_frame_zero = \<lparr>lseq_start = 0, lseq_end = 0, ts_diff = 0\<rparr>"

definition PyRTPInfo_new :: "py_mem \<Rightarrow> rtp_info option \<times> py_mem" where
  "PyRTPInfo_new m = py_generic_new K_RTPInfo rtp_info_zero m"

definition PyRTPPacket_new :: "py_mem \<Rightarrow> PyRTPPacket option \<times> py_mem" where
  "PyRTPPacket_new m = py_generic_new K_RTPPacket \<lparr>p_pkt = rtp_packet_zero, p_info_obj = None\<rparr> m"

definition PyERSFrame_new :: "py_mem \<Rightarrow> ers_frame option \<times> py_mem" where
  "PyERSFrame_new m = py_generic_new K_ERSFrame ers_frame_zero m"

definition PyRTPFrameUnion_new :: "py_mem \<Rightarrow> PyRTPFrameUnion option \<times> py_mem" where
  "PyRTPFrameUnion_new m = py_generic_new K_RTPFrameUnion \<lparr>u_rtp = None, u_ers = None\<rparr> m"

definition PyRTPFrame_new :: "py_mem \<Rightarrow> PyRTPFrame option \<times> py_mem" where
  "PyRTPFrame_new m = py_generic_new K_RTPFrame \<lparr>f_type = 0, f_frame = None\<rparr> m"

definition PyFrameWrapper_new :: "py_mem \<Rightarrow> PyFrameWrapper option \<times> py_mem" where
  "PyFrameWrapper_new m =
     py_generic_new K_FrameWrapper \<lparr>w_content = C_none, w_data = NULL, w_rtp_data = None, w_opaque = NULL\<rparr> m"

definition PyRTPInfo_init :: "bool \<Rightarrow> rtp_info \<Rightarrow> jb_exc option \<times> rtp_info" where
  "PyRTPInfo_init no_args self = (if \<not> no_args then (Some (TypeError ''RTPInfo() takes no arguments''), self) else (None, rtp_info_zero))"

definition PyRTPPacket_init :: "bool \<Rightarrow> PyRTPPacket \<Rightarrow> py_mem \<Rightarrow> jb_exc option \<times> PyRTPPacket \<times> py_mem" where
  "PyRTPPacket_init no_args self m =
     (if \<not> no_args then (Some (TypeError ''RTPPacket() takes no arguments''), self, m)
      else
        (let m1 = (case p_info_obj self of None \<Rightarrow> m | Some info \<Rightarrow> PyRTPInfo_dealloc m)
         in case PyRTPInfo_FromInfo (pk_info rtp_packet_zero) m1 of
              (info_obj, m2) \<Rightarrow>
                (if info_obj = None then Some MemoryError else None, \<lparr>p_pkt = rtp_packet_zero, p_info_obj = info_obj\<rparr>, m2)))"

definition PyERSFrame_init :: "bool \<Rightarrow> ers_frame \<Rightarrow> jb_exc option \<times> ers_frame" where
  "PyERSFrame_init no_args self =
     (if \<not> no_args then (Some (TypeError ''ERSFrame() takes no arguments''), self) else (None, ers_frame_zero))"

definition PyRTPFrameUnion_init :: "bool \<Rightarrow> PyRTPFrameUnion \<Rightarrow> py_mem \<Rightarrow> jb_exc option \<times> PyRTPFrameUnion \<times> py_mem" where
  "PyRTPFrameUnion_init no_args self m =
     (if \<not> no_args then (Some (TypeError ''RTPFrameUnion() takes no arguments''), self, m)
      else
        (let m1 = (case u_rtp self of None \<Rightarrow> m | Some pkt \<Rightarrow> PyRTPPacket_dealloc pkt m);
             m2 = (case u_ers self of None \<Rightarrow> m1 | Some ers \<Rightarrow> PyERSFrame_dealloc m1)
         in (None, \<lparr>u_rtp = None, u_ers = None\<rparr>, m2)))"

definition PyRTPFrame_init :: "bool \<Rightarrow> PyRTPFrame \<Rightarrow> py_mem \<Rightarrow> jb_exc option \<times> PyRTPFrame \<times> py_mem" where
  "PyRTPFrame_init no_args self m =
     (if \<not> no_args then (Some (TypeError ''RTPFrame() takes no arguments''), self, m)
      else (None, \<lparr>f_type = RFT_RTP_CODE, f_frame = None\<rparr>,
        case f_frame self of None \<Rightarrow> m | Some fu \<Rightarrow> PyRTPFrameUnion_dealloc fu m))"

definition PyFrameWrapper_init ::
    "bool \<Rightarrow> PyFrameWrapper \<Rightarrow> py_mem \<Rightarrow> (jb_exc option \<times> PyFrameWrapper \<times> py_mem) option" where
  "PyFrameWrapper_init no_args self m =
     (if \<not> no_args then Some (Some (TypeError ''FrameWrapper() takes no arguments''), self, m)
      else do {
        m1 \<leftarrow> Py_XDECREF (w_data self) (content_dealloc (w_content self) m);
        m2 \<leftarrow> Py_XDECREF (w_opaque self) m1;
        Some (None, \<lparr>w_content = C_none, w_data = PyNone, w_rtp_data = None, w_opaque = PyNone\<rparr>, m2)
      })"

text \<open>
  The attributes of the objects, by name; \<open>None\<close> is an \<open>AttributeError\<close>. The address of a profile is a parameter.
\<close>

datatype py_attr = A_None | A_int int | A_bool bool | A_info rtp_info

definition PyRTPInfo_getset :: "(rtp_profile option \<Rightarrow> u64) \<Rightarrow> rtp_info \<Rightarrow> string \<Rightarrow> py_attr option" where
  "PyRTPInfo_getset profile_addr info = map_of
     [(''data_size'', A_int (int (data_size info))),
      (''data_offset'', A_int (int (data_offset info))),
      (''nsamples'', A_int (nsamples info)),
      (''ts'', A_int (uint (ri_ts info))),
      (''seq'', A_int (uint (ri_seq info))),
      (''ssrc'', A_int (uint (ri_ssrc info))),
      (''appendable'', A_bool (appendable info \<noteq> 0)),
      (''rtp_profile'', A_int (uint (profile_addr (ri_profile info))))]"

definition PyRTPPacket_getset :: "PyRTPPacket \<Rightarrow> string \<Rightarrow> py_attr option" where
  "PyRTPPacket_getset self = map_of
     [(''info'', case p_info_obj self of None \<Rightarrow> A_None | Some info \<Rightarrow> A_info info),
      (''lseq'', A_int (uint (lseq (p_pkt self)))),
      (''data'', A_int (int (pk_data (p_pkt self))))]"

definition PyERSFrame_getset :: "ers_frame \<Rightarrow> string \<Rightarrow> py_attr option" where
  "PyERSFrame_getset ers = map_of
     [(''lseq_start'', A_int (uint (lseq_start ers))),
      (''lseq_end'', A_int (uint (lseq_end ers))),
      (''ts_diff'', A_int (uint (ts_diff ers))),
      (''type'', A_int RFT_ERS_CODE)]"

text \<open>\<open>%llu\<close>\<close>

fun decimal :: "nat \<Rightarrow> string" where
  "decimal n = (if n < 10 then [char_of (48 + n)] else decimal (n div 10) @ [char_of (48 + n mod 10)])"

declare decimal.simps [simp del]

definition PyFrameWrapper_str :: "PyFrameWrapper \<Rightarrow> string" where
  "PyFrameWrapper_str self =
     (case w_content self of
        C_frame rf \<Rightarrow>
          (case f_frame rf of
             Some fu \<Rightarrow>
               (case u_rtp fu of
                  Some pkt \<Rightarrow> ''RTP_Frame(seq='' @ decimal (unat (lseq (p_pkt pkt))) @ '')''
                | None \<Rightarrow> ''RTP_Frame'')
           | None \<Rightarrow> ''RTP_Frame'')
      | C_ers ers \<Rightarrow>
          ''RTP_Erasure(seq_range='' @ decimal (unat (lseq_start ers)) @ '' -- '' @ decimal (unat (lseq_end ers)) @ '')''
      | C_none \<Rightarrow> ''FrameWrapper'')"

text \<open>The counters, by name.\<close>

fun kind_name :: "py_kind \<Rightarrow> string" where
  "kind_name K_RTPInfo = ''RTPInfo''"
| "kind_name K_RTPPacket = ''RTPPacket''"
| "kind_name K_ERSFrame = ''ERSFrame''"
| "kind_name K_RTPFrameUnion = ''RTPFrameUnion''"
| "kind_name K_RTPFrame = ''RTPFrame''"
| "kind_name K_FrameWrapper = ''FrameWrapper''"
| "kind_name K_RtpJBuf = ''RtpJBuf''"

definition counted_kinds :: "py_kind list" where
  "counted_kinds = [K_RTPInfo, K_RTPPacket, K_ERSFrame, K_RTPFrameUnion, K_RTPFrame, K_FrameWrapper, K_RtpJBuf]"

text \<open>The integer is created, then put into the dictionary.\<close>

definition add_count :: "(string \<times> u64) list \<Rightarrow> string \<Rightarrow> u64 \<Rightarrow> py_mem \<Rightarrow> (string \<times> u64) list option \<times> py_mem" where
  "add_count dict name v m =
     (case py_alloc m of
        (False, m1) \<Rightarrow> (None, m1)
      | (True, m1) \<Rightarrow>
          (case py_alloc m1 of
             (False, m2) \<Rightarrow> (None, m2)
           | (True, m2) \<Rightarrow> (Some (dict @ [(name, v)]), m2)))"

fun add_counts :: "(string \<times> u64) list \<Rightarrow> (string \<times> u64) list \<Rightarrow> py_mem \<Rightarrow> (string \<times> u64) list option \<times> py_mem" where
  "add_counts dict [] m = (Some dict, m)"
| "add_counts dict ((name, v) # rest) m =
     (case add_count dict name v m of
        (None, m1) \<Rightarrow> (None, m1)
      | (Some dict', m1) \<Rightarrow> add_counts dict' rest m1)"

definition PyRtpJBuf_get_dealloc_counts :: "bool \<Rightarrow> py_mem \<Rightarrow> (jb_exc + (string \<times> u64) list) \<times> py_mem" where
  "PyRtpJBuf_get_dealloc_counts no_args m =
     (if \<not> no_args then (Inl ArgumentError, m)
      else
        (case py_alloc m of
           (False, m1) \<Rightarrow> (Inl MemoryError, m1)
         | (True, m1) \<Rightarrow>
             (case add_counts []
                (concat (map (\<lambda>k. [(kind_name k @ ''_created'', created m k), (kind_name k @ ''_freed'', freed m k)]) counted_kinds)) m1 of
                (None, m2) \<Rightarrow> (Inl MemoryError, m2)
              | (Some dict, m2) \<Rightarrow> (Inr dict, m2))))"

definition PyRtpJBuf_reset_dealloc_counts :: "bool \<Rightarrow> py_mem \<Rightarrow> jb_exc option \<times> py_mem" where
  "PyRtpJBuf_reset_dealloc_counts no_args m =
     (if \<not> no_args then (Some ArgumentError, m) else (None, m\<lparr>created := (\<lambda>k. 0), freed := (\<lambda>k. 0)\<rparr>))"

text \<open>The truth value of the argument; finding it out can fail.\<close>

definition PyRtpJBuf_set_dealloc_counting :: "bool option option \<Rightarrow> py_mem \<Rightarrow> jb_exc option \<times> py_mem" where
  "PyRtpJBuf_set_dealloc_counting args m =
     (case args of
        None \<Rightarrow> (Some ArgumentError, m)
      | Some None \<Rightarrow> (Some ConversionError, m)
      | Some (Some enabled) \<Rightarrow> (None, m\<lparr>counting_enabled := enabled\<rparr>))"

definition PyRtpJBuf_get_dealloc_counting :: "bool \<Rightarrow> py_mem \<Rightarrow> jb_exc + bool" where
  "PyRtpJBuf_get_dealloc_counting no_args m = (if \<not> no_args then Inl ArgumentError else Inr (counting_enabled m))"

text \<open>
  The class of constants for the frame types; each step of its construction can fail: the name, the tuple of bases, the dictionary, each value and its
  entry, and the class.
\<close>

fun py_allocs :: "nat \<Rightarrow> py_mem \<Rightarrow> bool \<times> py_mem" where
  "py_allocs 0 m = (True, m)"
| "py_allocs (Suc n) m = (case py_alloc m of (False, m1) \<Rightarrow> (False, m1) | (True, m1) \<Rightarrow> py_allocs n m1)"

definition make_frame_type :: "py_mem \<Rightarrow> (string \<times> int) list option \<times> py_mem" where
  "make_frame_type m =
     (case py_allocs 8 m of
        (False, m1) \<Rightarrow> (None, m1)
      | (True, m1) \<Rightarrow> (Some [(''RTP'', RFT_RTP_CODE), (''ERS'', RFT_ERS_CODE)], m1))"

end
