(* ===== verification/Rtp_Jbuf_Refs.thy ===== *)
theory Rtp_Jbuf_Refs
  imports Rtp_Jbuf_Py
begin

text \<open>
  Who owns what in \<^verbatim>\<open>python/RtpJBuf_mod.c\<close>. The references to bytes objects and opaque ones, and the objects that the module has
  created, are multisets; every function takes what it is given, gives what it returns, and leaves the rest alone. This
  holds on the branches for failed allocations too.
\<close>

section \<open>Ownership\<close>

fun ref_mset :: "py_ref \<Rightarrow> addr multiset" where
  "ref_mset (Obj x) = {#x#}"
| "ref_mset r = {#}"

text \<open>The references are \<open>F\<close>, the objects of the module \<open>L\<close>, and the counters agree.\<close>

definition owned :: "py_mem \<Rightarrow> addr multiset \<Rightarrow> py_kind multiset \<Rightarrow> bool" where
  "owned m F L \<longleftrightarrow> refcnt m = count F \<and> counting_enabled m \<and> (\<forall>k. created m k = freed m k + of_nat (count L k))"

text \<open>An object that is still alive was alive before and has kept its contents.\<close>

definition keeps :: "py_mem \<Rightarrow> py_mem \<Rightarrow> bool" where
  "keeps m m' \<longleftrightarrow> (\<forall>x. 0 < refcnt m' x \<longrightarrow> 0 < refcnt m x \<and> bytes_of m' x = bytes_of m x) \<and> (allocs m = [] \<longrightarrow> allocs m' = [])"

lemma keeps_refl [simp]: "keeps m m"
  by (simp add: keeps_def)

lemma keeps_trans [trans]: "keeps m m1 \<Longrightarrow> keeps m1 m2 \<Longrightarrow> keeps m m2"
  by (simp add: keeps_def)

lemma Py_XDECREF_owned:
  assumes "owned m (F + ref_mset r) L"
  shows "\<exists>m'. Py_XDECREF r m = Some m' \<and> owned m' F L \<and> keeps m m'"
proof (cases r)
  case (Obj x)
  with assms have "refcnt m x = Suc (count F x)" by (simp add: owned_def)
  then show ?thesis using assms Obj by (auto simp: Py_XDECREF_def owned_def keeps_def)
qed (use assms in \<open>auto simp: Py_XDECREF_def\<close>)

lemma Py_DECREF_owned:
  assumes "owned m (F + ref_mset r) L" "r \<noteq> NULL"
  shows "\<exists>m'. Py_DECREF r m = Some m' \<and> owned m' F L \<and> keeps m m'"
  using Py_XDECREF_owned [OF assms(1)] assms(2) by (simp add: Py_XDECREF_def)

lemma Py_INCREF_owned:
  assumes "owned m F L" "ref_mset r \<subseteq># F" "r \<noteq> NULL"
  shows "\<exists>m'. Py_INCREF r m = Some m' \<and> owned m' (F + ref_mset r) L \<and> keeps m m'"
proof (cases r)
  case (Obj x)
  with assms have "0 < refcnt m x" by (simp add: owned_def)
  then show ?thesis using assms Obj by (auto simp: owned_def keeps_def)
qed (use assms in auto)

lemma py_alloc_owned:
  assumes "py_alloc m = (ok, m')"
  shows "owned m' F L \<longleftrightarrow> owned m F L" "keeps m m'" "refcnt m' = refcnt m" "bytes_of m' = bytes_of m" "allocs m = [] \<Longrightarrow> ok"
  using assms by (auto simp: py_alloc_def owned_def keeps_def split: list.splits)

lemma count_created_owned: "owned m F L \<Longrightarrow> owned (count_created k m) F (add_mset k L)"
  by (auto simp: count_created_def count_inc_def owned_def)

lemma count_freed_owned: "owned m F (add_mset k L) \<Longrightarrow> owned (count_freed k m) F L"
  by (auto simp: count_freed_def count_inc_def owned_def)

lemma count_keeps [simp]:
  "refcnt (count_created k m) = refcnt m" "bytes_of (count_created k m) = bytes_of m" "allocs (count_created k m) = allocs m"
  "refcnt (count_freed k m) = refcnt m" "bytes_of (count_freed k m) = bytes_of m" "allocs (count_freed k m) = allocs m"
  by (simp_all add: count_created_def count_freed_def)

lemma py_new_owned:
  assumes "py_new k m = (ok, m')" "owned m F L"
  shows "owned m' F (if ok then add_mset k L else L)" "keeps m m'" "refcnt m' = refcnt m" "bytes_of m' = bytes_of m" "allocs m = [] \<Longrightarrow> ok"
proof -
  obtain m1 where al: "py_alloc m = (ok, m1)" and m': "m' = (if ok then count_created k m1 else m1)"
    using assms(1) by (auto simp: py_new_def split: prod.splits)
  note p = py_alloc_owned [OF al]
  have "owned m1 F L" using p(1) assms(2) by simp
  then show "owned m' F (if ok then add_mset k L else L)" by (simp add: m' count_created_owned)
  show "keeps m m'" using p(2) by (simp add: m' keeps_def)
  show "refcnt m' = refcnt m" "bytes_of m' = bytes_of m" using p(3,4) by (simp_all add: m')
  show "allocs m = [] \<Longrightarrow> ok" by (rule p(5))
qed

section \<open>What an object owns\<close>

definition packet_objs :: "PyRTPPacket \<Rightarrow> py_kind multiset" where
  "packet_objs p = add_mset K_RTPPacket (if p_info_obj p = None then {#} else {#K_RTPInfo#})"

definition union_objs :: "PyRTPFrameUnion \<Rightarrow> py_kind multiset" where
  "union_objs u = add_mset K_RTPFrameUnion
     ((case u_rtp u of None \<Rightarrow> {#} | Some p \<Rightarrow> packet_objs p) + (if u_ers u = None then {#} else {#K_ERSFrame#}))"

definition frame_objs :: "PyRTPFrame \<Rightarrow> py_kind multiset" where
  "frame_objs f = add_mset K_RTPFrame (case f_frame f of None \<Rightarrow> {#} | Some u \<Rightarrow> union_objs u)"

fun content_objs :: "py_content \<Rightarrow> py_kind multiset" where
  "content_objs (C_frame f) = frame_objs f"
| "content_objs (C_ers e) = {#K_ERSFrame#}"
| "content_objs C_none = {#}"

definition wrap_objs :: "PyFrameWrapper \<Rightarrow> py_kind multiset" where
  "wrap_objs w = add_mset K_FrameWrapper (content_objs (w_content w))"

definition wrap_refs :: "PyFrameWrapper \<Rightarrow> addr multiset" where
  "wrap_refs w = ref_mset (w_data w) + ref_mset (w_opaque w)"

lemmas dealloc_defs = PyRTPInfo_dealloc_def PyRTPPacket_dealloc_def PyERSFrame_dealloc_def PyRTPFrameUnion_dealloc_def PyRTPFrame_dealloc_def

text \<open>Freeing the objects of a frame touches only the counters.\<close>

definition same_refs :: "py_mem \<Rightarrow> py_mem \<Rightarrow> bool" where
  "same_refs m m' \<longleftrightarrow> refcnt m' = refcnt m \<and> bytes_of m' = bytes_of m \<and> allocs m' = allocs m"

lemma same_refs_refl [simp]: "same_refs m m"
  by (simp add: same_refs_def)

lemma same_refs_freed: "same_refs m0 m \<Longrightarrow> same_refs m0 (count_freed k m)"
  by (simp add: same_refs_def)

lemma packet_dealloc_same: "same_refs m0 m \<Longrightarrow> same_refs m0 (PyRTPPacket_dealloc p m)"
  by (cases "p_info_obj p") (simp_all add: PyRTPPacket_dealloc_def PyRTPInfo_dealloc_def same_refs_freed)

lemma union_dealloc_same: "same_refs m0 m \<Longrightarrow> same_refs m0 (PyRTPFrameUnion_dealloc u m)"
  by (cases "u_rtp u"; cases "u_ers u")
    (simp_all add: PyRTPFrameUnion_dealloc_def PyERSFrame_dealloc_def same_refs_freed packet_dealloc_same)

lemma frame_dealloc_same: "same_refs m0 m \<Longrightarrow> same_refs m0 (PyRTPFrame_dealloc f m)"
  by (cases "f_frame f") (simp_all add: PyRTPFrame_dealloc_def same_refs_freed union_dealloc_same)

lemma content_dealloc_same: "same_refs m0 m \<Longrightarrow> same_refs m0 (content_dealloc c m)"
  by (cases c) (simp_all add: frame_dealloc_same PyERSFrame_dealloc_def same_refs_freed)

lemma dealloc_keeps [simp]:
  "refcnt (content_dealloc c m) = refcnt m" "bytes_of (content_dealloc c m) = bytes_of m" "allocs (content_dealloc c m) = allocs m"
  "refcnt (PyRTPFrame_dealloc f m) = refcnt m" "bytes_of (PyRTPFrame_dealloc f m) = bytes_of m" "allocs (PyRTPFrame_dealloc f m) = allocs m"
  using content_dealloc_same [of m m c] frame_dealloc_same [of m m f] by (simp_all add: same_refs_def)

lemma PyRTPPacket_dealloc_owned: "owned m F (packet_objs p + L) \<Longrightarrow> owned (PyRTPPacket_dealloc p m) F L"
  by (auto simp: dealloc_defs packet_objs_def intro!: count_freed_owned split: option.splits if_splits)

lemma PyRTPFrameUnion_dealloc_owned: "owned m F (union_objs u + L) \<Longrightarrow> owned (PyRTPFrameUnion_dealloc u m) F L"
  by (auto simp: PyRTPFrameUnion_dealloc_def PyERSFrame_dealloc_def union_objs_def ac_simps
      intro!: count_freed_owned PyRTPPacket_dealloc_owned split: option.splits if_splits)

lemma PyRTPFrame_dealloc_owned: "owned m F (frame_objs f + L) \<Longrightarrow> owned (PyRTPFrame_dealloc f m) F L"
  by (auto simp: PyRTPFrame_dealloc_def frame_objs_def intro!: count_freed_owned PyRTPFrameUnion_dealloc_owned split: option.splits)

lemma content_dealloc_owned: "owned m F (content_objs c + L) \<Longrightarrow> owned (content_dealloc c m) F L"
  by (cases c) (auto simp: PyERSFrame_dealloc_def intro: PyRTPFrame_dealloc_owned count_freed_owned)

lemma XDECREF_pair_owned:
  assumes "owned m (F + ref_mset r + ref_mset q) L"
  shows "\<exists>m1 m2. Py_XDECREF r m = Some m1 \<and> Py_XDECREF q m1 = Some m2 \<and> owned m2 F L \<and> keeps m m2"
proof -
  from assms have "owned m (F + ref_mset q + ref_mset r) L" by (simp add: ac_simps)
  from Py_XDECREF_owned [OF this] obtain m1 where m1: "Py_XDECREF r m = Some m1" "owned m1 (F + ref_mset q) L" "keeps m m1" by blast
  from Py_XDECREF_owned [OF m1(2)] m1 show ?thesis by (auto intro: keeps_trans)
qed

lemma PyFrameWrapper_dealloc_owned:
  assumes "owned m (F + wrap_refs w) (wrap_objs w + L)"
  shows "\<exists>m'. PyFrameWrapper_dealloc w m = Some m' \<and> owned m' F L \<and> keeps m m'"
proof -
  let ?m = "content_dealloc (w_content w) (count_freed K_FrameWrapper m)"
  from assms have "owned ?m (F + ref_mset (w_data w) + ref_mset (w_opaque w)) L"
    by (auto simp: wrap_objs_def wrap_refs_def ac_simps intro!: content_dealloc_owned count_freed_owned)
  from XDECREF_pair_owned [OF this] show ?thesis by (auto simp: PyFrameWrapper_dealloc_def keeps_def)
qed

lemma dealloc_list_owned:
  "owned m (F + (\<Sum>w\<leftarrow>ws. wrap_refs w)) ((\<Sum>w\<leftarrow>ws. wrap_objs w) + L) \<Longrightarrow> \<exists>m'. dealloc_list ws m = Some m' \<and> owned m' F L \<and> keeps m m'"
proof (induction ws arbitrary: m)
  case Nil
  then show ?case by simp
next
  case (Cons w ws)
  then have "owned m ((F + (\<Sum>w\<leftarrow>ws. wrap_refs w)) + wrap_refs w) (wrap_objs w + ((\<Sum>w\<leftarrow>ws. wrap_objs w) + L))"
    by (simp add: ac_simps)
  from PyFrameWrapper_dealloc_owned [OF this] obtain m1 where
    m1: "PyFrameWrapper_dealloc w m = Some m1" "owned m1 (F + (\<Sum>w\<leftarrow>ws. wrap_refs w)) ((\<Sum>w\<leftarrow>ws. wrap_objs w) + L)" "keeps m m1" by blast
  from Cons.IH [OF m1(2)] m1 show ?case by (auto intro: keeps_trans)
qed

section \<open>Building a wrapper\<close>

definition quiet :: "py_mem \<Rightarrow> py_mem \<Rightarrow> bool" where
  "quiet m m' \<longleftrightarrow> refcnt m' = refcnt m \<and> bytes_of m' = bytes_of m \<and> (allocs m = [] \<longrightarrow> allocs m' = [])"

lemma quiet_keeps: "quiet m m' \<Longrightarrow> keeps m m'"
  by (simp add: quiet_def keeps_def)

lemma quiet_chain [trans]: "quiet m m1 \<Longrightarrow> quiet m1 m2 \<Longrightarrow> quiet m m2"
  by (simp add: quiet_def)

lemma quiet_freed: "quiet m m1 \<Longrightarrow> same_refs m1 m2 \<Longrightarrow> quiet m m2"
  by (simp add: quiet_def same_refs_def)

lemma quiet_allocs: "quiet m m' \<Longrightarrow> allocs m' \<noteq> [] \<Longrightarrow> allocs m \<noteq> []"
  by (auto simp: quiet_def)

text \<open>A constructor makes the object \<open>x\<close>, whose parts are \<open>objs\<close>, or fails and has freed what it was given.\<close>

definition made :: "py_mem \<Rightarrow> addr multiset \<Rightarrow> py_kind multiset \<Rightarrow> 'a \<Rightarrow> py_kind multiset \<Rightarrow> 'a option \<times> py_mem \<Rightarrow> bool" where
  "made m F L x objs r \<longleftrightarrow> quiet m (snd r) \<and>
     (fst r = None \<and> owned (snd r) F L \<and> allocs m \<noteq> [] \<or> fst r = Some x \<and> owned (snd r) F (objs + L))"

lemma madeE:
  assumes "made m F L x objs r"
  obtains m' where "r = (None, m')" "quiet m m'" "owned m' F L" "allocs m \<noteq> []"
    | m' where "r = (Some x, m')" "quiet m m'" "owned m' F (objs + L)"
  using assms by (cases r) (auto simp: made_def)

lemma py_new_cases:
  assumes "owned m F L"
  obtains m' where "py_new k m = (False, m')" "quiet m m'" "owned m' F L" "allocs m \<noteq> []"
    | m' where "py_new k m = (True, m')" "quiet m m'" "owned m' F (add_mset k L)"
proof -
  obtain ok m' where n: "py_new k m = (ok, m')" by (cases "py_new k m")
  note p = py_new_owned [OF n assms]
  have "quiet m m'" using p by (simp add: quiet_def keeps_def)
  then show ?thesis using p(1,5) n that by (cases ok) auto
qed

lemma PyRTPInfo_FromInfo_made: "owned m F L \<Longrightarrow> made m F L info {#K_RTPInfo#} (PyRTPInfo_FromInfo info m)"
  by (erule py_new_cases [where k = K_RTPInfo]) (auto simp: made_def PyRTPInfo_FromInfo_def)

lemma PyERSFrame_FromErs_made: "owned m F L \<Longrightarrow> made m F L ers {#K_ERSFrame#} (PyERSFrame_FromErs ers m)"
  by (erule py_new_cases [where k = K_ERSFrame]) (auto simp: made_def PyERSFrame_FromErs_def)

lemma PyRTPPacket_NewSteal_made:
  assumes "owned m F (add_mset K_RTPInfo L)"
  shows "made m F L \<lparr>p_pkt = pkt, p_info_obj = Some info\<rparr> (packet_objs \<lparr>p_pkt = pkt, p_info_obj = Some info\<rparr>) (PyRTPPacket_NewSteal pkt info m)"
  by (rule py_new_cases [OF assms, of K_RTPPacket])
    (auto simp: made_def PyRTPPacket_NewSteal_def PyRTPInfo_dealloc_def packet_objs_def intro: quiet_freed count_freed_owned simp: same_refs_def)

lemma PyRTPFrameUnion_NewSteal_made:
  assumes "owned m F (packet_objs p + L)"
  shows "made m F L \<lparr>u_rtp = Some p, u_ers = None\<rparr> (union_objs \<lparr>u_rtp = Some p, u_ers = None\<rparr>) (PyRTPFrameUnion_NewSteal (Some p) None m)"
  by (rule py_new_cases [OF assms, of K_RTPFrameUnion])
    (auto simp: made_def PyRTPFrameUnion_NewSteal_def union_objs_def
      intro: quiet_freed [OF _ packet_dealloc_same [OF same_refs_refl]] PyRTPPacket_dealloc_owned)

lemma PyRTPFrame_NewSteal_made:
  assumes "owned m F (union_objs u + L)"
  shows "made m F L \<lparr>f_type = t, f_frame = Some u\<rparr> (frame_objs \<lparr>f_type = t, f_frame = Some u\<rparr>) (PyRTPFrame_NewSteal t u m)"
  by (rule py_new_cases [OF assms, of K_RTPFrame])
    (auto simp: made_def PyRTPFrame_NewSteal_def frame_objs_def
      intro: quiet_freed [OF _ union_dealloc_same [OF same_refs_refl]] PyRTPFrameUnion_dealloc_owned)

text \<open>The same for wrappers, which take references as well.\<close>

definition wrapped ::
    "py_mem \<Rightarrow> addr multiset \<Rightarrow> py_kind multiset \<Rightarrow> PyFrameWrapper \<Rightarrow> (PyFrameWrapper option \<times> py_mem) option \<Rightarrow> bool" where
  "wrapped m F L x r \<longleftrightarrow> (\<exists>w m'. r = Some (w, m') \<and> keeps m m' \<and>
     (w = None \<and> owned m' F L \<and> allocs m \<noteq> [] \<or> w = Some x \<and> owned m' (F + wrap_refs x) (wrap_objs x + L)))"

lemma wrapped_keeps: "keeps m m1 \<Longrightarrow> wrapped m1 F L x r \<Longrightarrow> wrapped m F L x r"
  by (auto simp: wrapped_def keeps_def)

lemma ref_mset_none [simp]: "ref_mset (none_if_null r) = ref_mset r"
  by (simp add: none_if_null_def)

lemma PyFrameWrapper_NewSteal_wrapped:
  assumes "owned m (F + ref_mset d + ref_mset q) (content_objs c + L)"
  shows "wrapped m F L \<lparr>w_content = c, w_data = none_if_null d, w_rtp_data = payload, w_opaque = none_if_null q\<rparr>
    (PyFrameWrapper_NewSteal c d payload q m)"
proof (rule py_new_cases [OF assms, of K_FrameWrapper])
  fix m1 assume n: "py_new K_FrameWrapper m = (False, m1)" "quiet m m1" "owned m1 (F + ref_mset d + ref_mset q) (content_objs c + L)"
    "allocs m \<noteq> []"
  from XDECREF_pair_owned [OF content_dealloc_owned [OF n(3)]] obtain m2 m3 where
    m2: "Py_XDECREF d (content_dealloc c m1) = Some m2" "Py_XDECREF q m2 = Some m3" "owned m3 F L" "keeps (content_dealloc c m1) m3" by blast
  moreover have "keeps m (content_dealloc c m1)" using quiet_keeps [OF n(2)] by (simp add: keeps_def)
  ultimately show ?thesis using n by (auto simp: PyFrameWrapper_NewSteal_def wrapped_def intro: keeps_trans)
next
  fix m1 assume "py_new K_FrameWrapper m = (True, m1)" "quiet m m1"
    "owned m1 (F + ref_mset d + ref_mset q) (add_mset K_FrameWrapper (content_objs c + L))"
  then show ?thesis by (auto simp: PyFrameWrapper_NewSteal_def wrapped_def wrap_refs_def wrap_objs_def ac_simps intro: quiet_keeps)
qed

lemma drop_refs_wrapped:
  assumes "owned m (F + ref_mset d + ref_mset q) L" "d \<noteq> NULL" "allocs m0 \<noteq> []" "keeps m0 m"
  shows "wrapped m0 F L x (drop_refs d q m)"
  using XDECREF_pair_owned [OF assms(1)] assms(2-4) by (auto simp: drop_refs_def wrapped_def Py_XDECREF_def intro: keeps_trans)

text \<open>The wrapper of a frame whose bytes object and opaque object are \<open>d\<close> and \<open>q\<close>.\<close>

definition rtp_content :: "rtp_packet \<Rightarrow> py_content" where
  "rtp_content p = C_frame \<lparr>f_type = RFT_RTP_CODE,
     f_frame = Some \<lparr>u_rtp = Some \<lparr>p_pkt = p, p_info_obj = Some (pk_info p)\<rparr>, u_ers = None\<rparr>\<rparr>"

definition rtp_wrapper :: "rtp_packet \<Rightarrow> py_ref \<Rightarrow> py_ref \<Rightarrow> u8 list \<Rightarrow> PyFrameWrapper" where
  "rtp_wrapper p d q payload = \<lparr>w_content = rtp_content p, w_data = none_if_null d, w_rtp_data = Some payload, w_opaque = none_if_null q\<rparr>"

definition ers_wrapper :: "ers_frame \<Rightarrow> PyFrameWrapper" where
  "ers_wrapper e = \<lparr>w_content = C_ers e, w_data = PyNone, w_rtp_data = None, w_opaque = PyNone\<rparr>"

lemma read_payload_cong: "bytes_of m' (pk_data p) = bytes_of m (pk_data p) \<Longrightarrow> read_payload p m' = read_payload p m"
  by (simp add: read_payload_def)

lemma build_wrapper_ers_wrapped:
  assumes "owned m F L"
  shows "wrapped m F L (ers_wrapper e) (build_wrapper_ers e m)"
  using PyERSFrame_FromErs_made [OF assms, of e]
proof (cases rule: madeE)
  case (1 m')
  then show ?thesis by (auto simp: build_wrapper_ers_def wrapped_def intro: quiet_keeps)
next
  case (2 m')
  have "owned m' (F + ref_mset NULL + ref_mset NULL) (content_objs (C_ers e) + L)" using 2(3) by simp
  from PyFrameWrapper_NewSteal_wrapped [OF this, of None]
  have "wrapped m' F L (ers_wrapper e) (build_wrapper_ers e m)"
    using 2 by (simp add: build_wrapper_ers_def ers_wrapper_def none_if_null_def)
  then show ?thesis using 2(2) by (blast intro: wrapped_keeps quiet_keeps)
qed

lemma build_wrapper_rtp_wrapped:
  assumes own: "owned m (F + ref_mset d + ref_mset q) L" and d: "d \<noteq> NULL" and payload: "read_payload p m = Some payload"
  shows "wrapped m F L (rtp_wrapper p d q payload) (build_wrapper_rtp p d q m)"
  using PyRTPInfo_FromInfo_made [OF own, of "pk_info p"]
proof (cases rule: madeE)
  case (1 m')
  then show ?thesis by (auto simp: build_wrapper_rtp_def intro!: drop_refs_wrapped d quiet_keeps)
next
  case info: (2 m1)
  then have "owned m1 (F + ref_mset d + ref_mset q) (add_mset K_RTPInfo L)" by simp
  from PyRTPPacket_NewSteal_made [OF this, of p "pk_info p"] show ?thesis
  proof (cases rule: madeE)
    case (1 m')
    then show ?thesis using info by (auto simp: build_wrapper_rtp_def intro!: drop_refs_wrapped d quiet_keeps dest: quiet_allocs intro: quiet_chain)
  next
    case pkt: (2 m2)
    from PyRTPFrameUnion_NewSteal_made [OF pkt(3)] show ?thesis
    proof (cases rule: madeE)
      case (1 m')
      have "quiet m m2" using info(2) pkt(2) by (rule quiet_chain)
      with 1 info pkt show ?thesis
        by (auto simp: build_wrapper_rtp_def intro!: drop_refs_wrapped d quiet_keeps dest: quiet_allocs intro: quiet_chain)
    next
      case un: (2 m3)
      have q3: "quiet m m3" using info(2) pkt(2) un(2) by (blast intro: quiet_chain)
      from PyRTPFrame_NewSteal_made [OF un(3), of RFT_RTP_CODE] show ?thesis
      proof (cases rule: madeE)
        case (1 m')
        with q3 info pkt un show ?thesis
          by (auto simp: build_wrapper_rtp_def intro!: drop_refs_wrapped d quiet_keeps dest: quiet_allocs intro: quiet_chain)
      next
        case fr: (2 m4)
        have q4: "quiet m m4" using q3 fr(2) by (rule quiet_chain)
        then have rd4: "read_payload p m4 = Some payload" using payload read_payload_cong [of m4 p m] by (simp add: quiet_def)
        obtain ok m5 where al: "py_alloc m4 = (ok, m5)" by (cases "py_alloc m4")
        note p5 = py_alloc_owned [OF al]
        have k5: "keeps m m5" using quiet_keeps [OF q4] p5(2) by (rule keeps_trans)
        have own5: "owned m5 (F + ref_mset d + ref_mset q) (content_objs (rtp_content p) + L)"
          using fr(3) p5(1) by (simp add: rtp_content_def)
        have eq: "build_wrapper_rtp p d q m = (if \<not> ok then drop_refs d q (content_dealloc (rtp_content p) m5)
            else PyFrameWrapper_NewSteal (rtp_content p) d (Some payload) q m5)"
          using info(1) pkt(1) un(1) fr(1) rd4 al by (simp add: build_wrapper_rtp_def rtp_content_def)
        show ?thesis
        proof (cases ok)
          case True
          with PyFrameWrapper_NewSteal_wrapped [OF own5] have "wrapped m5 F L (rtp_wrapper p d q payload) (build_wrapper_rtp p d q m)"
            by (simp add: eq rtp_wrapper_def)
          with k5 show ?thesis by (rule wrapped_keeps)
        next
          case False
          then have "allocs m \<noteq> []" using p5(5) quiet_allocs [OF q4] by blast
          moreover have "keeps m (content_dealloc (rtp_content p) m5)" using k5 by (simp add: keeps_def)
          ultimately show ?thesis using False content_dealloc_owned [OF own5] d by (simp add: eq drop_refs_wrapped)
        qed
      qed
    qed
  qed
qed

section \<open>The table\<close>

text \<open>
  A slot is free, or holds a bytes object with the opaque object \<open>given\<close> for it. \<open>tab\<close> are the addresses in the table and \<open>slot_refs\<close> its references.
\<close>

definition slot_ok :: "(addr \<Rightarrow> py_ref) \<Rightarrow> PyRtpJBufRef \<Rightarrow> bool" where
  "slot_ok given r \<longleftrightarrow> r = empty_ref \<or>
     ref_data r = Obj (ref_ptr r) \<and> ref_opaque r = given (ref_ptr r) \<and> ref_ptr r \<noteq> 0 \<and> given (ref_ptr r) \<noteq> NULL"

abbreviation table_ok :: "(addr \<Rightarrow> py_ref) \<Rightarrow> PyRtpJBufRef list \<Rightarrow> bool" where
  "table_ok given \<equiv> list_all (slot_ok given)"

fun tab :: "PyRtpJBufRef list \<Rightarrow> addr multiset" where
  "tab [] = {#}"
| "tab (r # refs) = (if ref_data r = NULL then {#} else {#ref_ptr r#}) + tab refs"

fun slot_refs :: "PyRtpJBufRef list \<Rightarrow> addr multiset" where
  "slot_refs [] = {#}"
| "slot_refs (r # refs) = ref_mset (ref_data r) + ref_mset (ref_opaque r) + slot_refs refs"

lemma tab_refs: "table_ok given refs \<Longrightarrow> tab refs \<subseteq># slot_refs refs"
  by (induction refs) (auto simp: slot_ok_def empty_ref_def intro: subset_mset.order_trans [OF _ mset_subset_eq_add_right])

lemma tab_nonzero: "table_ok given refs \<Longrightarrow> x \<in># tab refs \<Longrightarrow> x \<noteq> 0 \<and> given x \<noteq> NULL"
  by (induction refs) (auto simp: slot_ok_def empty_ref_def split: if_splits)

lemma take_ref_ok:
  assumes "table_ok given refs" "ptr \<in># tab refs" "ptr \<noteq> 0"
  shows "\<exists>refs'. take_ref ptr refs = Some (\<lparr>ref_data = Obj ptr, ref_opaque = given ptr, ref_ptr = ptr\<rparr>, refs') \<and>
    table_ok given refs' \<and> length refs' = length refs \<and> tab refs = add_mset ptr (tab refs') \<and>
    slot_refs refs = add_mset ptr (ref_mset (given ptr)) + slot_refs refs'"
  using assms
proof (induction refs)
  case Nil
  then show ?case by simp
next
  case (Cons r refs)
  show ?case
  proof (cases "ref_ptr r = ptr")
    case True
    with Cons.prems(1,3) have "r = \<lparr>ref_data = Obj ptr, ref_opaque = given ptr, ref_ptr = ptr\<rparr>"
      by (cases r) (auto simp: slot_ok_def empty_ref_def)
    then show ?thesis using Cons.prems(1) by (auto simp: slot_ok_def empty_ref_def)
  next
    case False
    with Cons.prems have "ptr \<in># tab refs" by (auto split: if_splits)
    with Cons.IH Cons.prems(1,3) False show ?thesis by auto
  qed
qed

lemma size_tab: "size (tab refs) = length (filter (\<lambda>r. ref_data r \<noteq> NULL) refs)"
  by (induction refs) auto

lemma put_ref_ok:
  assumes "table_ok given refs" "slot_ok given new" "ref_data new \<noteq> NULL" "size (tab refs) < length refs"
  shows "\<exists>refs'. put_ref new refs = Some refs' \<and> table_ok given refs' \<and> length refs' = length refs \<and>
    tab refs' = add_mset (ref_ptr new) (tab refs) \<and>
    slot_refs refs' = ref_mset (ref_data new) + ref_mset (ref_opaque new) + slot_refs refs"
  using assms
proof (induction refs)
  case Nil
  then show ?case by simp
next
  case (Cons r refs)
  show ?case
  proof (cases "ref_data r = NULL")
    case True
    with Cons.prems(1) have "r = empty_ref" by (auto simp: slot_ok_def)
    then show ?thesis using Cons.prems by (auto simp: empty_ref_def)
  next
    case False
    have "size (tab refs) < length refs" using Cons.prems(4) False by simp
    with Cons.IH Cons.prems obtain refs' where "put_ref new refs = Some refs'" "table_ok given refs'" "length refs' = length refs"
      "tab refs' = add_mset (ref_ptr new) (tab refs)"
      "slot_refs refs' = ref_mset (ref_data new) + ref_mset (ref_opaque new) + slot_refs refs" by auto
    then show ?thesis using Cons.prems(1) False by (simp add: add.left_commute)
  qed
qed

lemma slot_ok_given:
  assumes "table_ok given refs" "x \<notin># tab refs"
  shows "table_ok (given(x := q)) refs"
  using assms by (induction refs) (auto simp: slot_ok_def empty_ref_def split: if_splits)

section \<open>The lists of the library\<close>

abbreviation ptrs :: "rtp_frame list \<Rightarrow> addr multiset" where
  "ptrs fs \<equiv> mset (map pk_data (rtp_of fs))"

text \<open>What remains to be fetched from the table: the frames whose bytes are not the input's.\<close>

abbreviation cached :: "addr \<Rightarrow> rtp_frame list \<Rightarrow> addr multiset" where
  "cached input_ptr fs \<equiv> filter_mset (\<lambda>x. x \<noteq> input_ptr) (ptrs fs)"

text \<open>The state of an object while its lists are worked on: \<open>P\<close> are the addresses in the table.\<close>

definition class_ok ::
    "(addr \<Rightarrow> py_ref) \<Rightarrow> addr multiset \<Rightarrow> addr multiset \<Rightarrow> py_kind multiset \<Rightarrow> PyRtpJBuf \<Rightarrow> py_mem \<Rightarrow> bool" where
  "class_ok given P F L self m \<longleftrightarrow> (\<exists>refs. pj_refs self = Some refs \<and> table_ok given refs \<and> tab refs = P \<and> owned m (F + slot_refs refs) L)"

text \<open>Only the references and the counter of the object change.\<close>

definition same_inst :: "PyRtpJBuf \<Rightarrow> PyRtpJBuf \<Rightarrow> bool" where
  "same_inst self self' \<longleftrightarrow> pj_jb self' = pj_jb self \<and> pj_capacity self' = pj_capacity self \<and>
     map_option length (pj_refs self') = map_option length (pj_refs self)"

lemma same_inst_refl [simp]: "same_inst self self"
  by (simp add: same_inst_def)

lemma same_inst_trans [trans]: "same_inst s s1 \<Longrightarrow> same_inst s1 s2 \<Longrightarrow> same_inst s s2"
  by (simp add: same_inst_def)

lemma class_ok_alive:
  assumes "class_ok given P F L self m" "x \<in># P + F"
  shows "0 < refcnt m x"
  using assms mset_subset_eqD [OF tab_refs] by (fastforce simp: class_ok_def owned_def)

lemma fetch_cached_ref_ok:
  assumes "class_ok given (add_mset ptr P) F L self m"
  shows "\<exists>refs. fetch_cached_ref ptr (pj_refs self) = Some (\<lparr>ref_data = Obj ptr, ref_opaque = given ptr, ref_ptr = ptr\<rparr>, refs) \<and>
    class_ok given P (F + ref_mset (Obj ptr) + ref_mset (given ptr)) L (self\<lparr>pj_refs := refs\<rparr>) m \<and>
    same_inst self (self\<lparr>pj_refs := refs\<rparr>) \<and> given ptr \<noteq> NULL"
proof -
  from assms obtain rs where rs: "pj_refs self = Some rs" "table_ok given rs" "tab rs = add_mset ptr P" "owned m (F + slot_refs rs) L"
    by (auto simp: class_ok_def)
  then have nz: "ptr \<noteq> 0" "given ptr \<noteq> NULL" using tab_nonzero [OF rs(2), of ptr] by auto
  with take_ref_ok [OF rs(2), of ptr] rs(3) obtain rs' where
    "take_ref ptr rs = Some (\<lparr>ref_data = Obj ptr, ref_opaque = given ptr, ref_ptr = ptr\<rparr>, rs')" "table_ok given rs'"
    "length rs' = length rs" "tab rs' = P" "slot_refs rs = add_mset ptr (ref_mset (given ptr)) + slot_refs rs'" by auto
  with rs nz show ?thesis by (auto simp: fetch_cached_ref_def class_ok_def same_inst_def ac_simps)
qed

lemma process_drop_list_ok:
  assumes "class_ok given (P + cached input_ptr fs) F L self m" "input_ptr \<noteq> 0"
  shows "\<exists>self' m'. process_drop_list self fs input_ptr m = Some (self', m') \<and> class_ok given P F L self' m' \<and>
    keeps m m' \<and> same_inst self self' \<and> pj_dropped self' = pj_dropped self + of_nat (length (rtp_of fs))"
  using assms
proof (induction self fs input_ptr m rule: process_drop_list.induct)
  case (1 self input_ptr m)
  then show ?case by simp
next
  case (2 self p fs input_ptr m)
  let ?self = "self\<lparr>pj_dropped := pj_dropped self + 1\<rparr>"
  show ?case
  proof (cases "pk_data p = input_ptr")
    case True
    moreover have "class_ok given (P + cached input_ptr fs) F L ?self m" using 2 True by (simp add: class_ok_def)
    moreover note 2(2) [OF refl]
    ultimately show ?thesis using 2(4) by (auto simp: same_inst_def ac_simps)
  next
    case False
    then have "class_ok given (add_mset (pk_data p) (P + cached input_ptr fs)) F L ?self m" using 2 by (simp add: class_ok_def)
    from fetch_cached_ref_ok [OF this] obtain refs where
      f: "fetch_cached_ref (pk_data p) (pj_refs ?self) =
          Some (\<lparr>ref_data = Obj (pk_data p), ref_opaque = given (pk_data p), ref_ptr = pk_data p\<rparr>, refs)"
        "class_ok given (P + cached input_ptr fs) (F + ref_mset (Obj (pk_data p)) + ref_mset (given (pk_data p))) L (?self\<lparr>pj_refs := refs\<rparr>) m"
        "same_inst ?self (?self\<lparr>pj_refs := refs\<rparr>)" by blast
    from f(2) obtain rs where rs: "refs = Some rs" "table_ok given rs" "tab rs = P + cached input_ptr fs"
      "owned m (F + slot_refs rs + ref_mset (Obj (pk_data p)) + ref_mset (given (pk_data p))) L"
      by (auto simp: class_ok_def ac_simps)
    from XDECREF_pair_owned [OF rs(4)] obtain m1 m2 where
      m: "Py_XDECREF (Obj (pk_data p)) m = Some m1" "Py_XDECREF (given (pk_data p)) m1 = Some m2" "owned m2 (F + slot_refs rs) L" "keeps m m2"
      by blast
    have "class_ok given (P + cached input_ptr fs) F L (?self\<lparr>pj_refs := refs\<rparr>) m2"
      using rs m by (simp add: class_ok_def)
    with 2(1) [OF refl _ f(1) refl, of m1 m2] m False 2(4) obtain self' m' where
      "process_drop_list (?self\<lparr>pj_refs := refs\<rparr>) fs input_ptr m2 = Some (self', m')" "class_ok given P F L self' m'"
      "keeps m2 m'" "same_inst (?self\<lparr>pj_refs := refs\<rparr>) self'"
      "pj_dropped self' = pj_dropped (?self\<lparr>pj_refs := refs\<rparr>) + of_nat (length (rtp_of fs))" by auto
    then show ?thesis using f(1,3) m False by (auto simp: same_inst_def ac_simps intro: keeps_trans)
  qed
next
  case (3 self e fs input_ptr m)
  then show ?case by simp
qed

text \<open>The wrapper that a frame is delivered in.\<close>

fun wrapper_of :: "(addr \<Rightarrow> py_ref) \<Rightarrow> py_mem \<Rightarrow> rtp_frame \<Rightarrow> PyFrameWrapper" where
  "wrapper_of given m (RFT_RTP p) = rtp_wrapper p (Obj (pk_data p)) (given (pk_data p)) (the (read_payload p m))"
| "wrapper_of given m (RFT_ERS e) = ers_wrapper e"

text \<open>What the caller holds while the list is built.\<close>

definition input_ok :: "(addr \<Rightarrow> py_ref) \<Rightarrow> addr multiset \<Rightarrow> py_ref \<Rightarrow> py_ref \<Rightarrow> addr \<Rightarrow> rtp_frame list \<Rightarrow> bool" where
  "input_ok given F input_bytes input_opaque input_ptr fs \<longleftrightarrow> input_ptr \<noteq> 0 \<and> input_bytes \<noteq> NULL \<and> input_opaque \<noteq> NULL \<and>
     (input_ptr \<in># ptrs fs \<longrightarrow> input_bytes = Obj input_ptr \<and> given input_ptr = input_opaque \<and>
        input_ptr \<in># F \<and> ref_mset input_opaque \<subseteq># F)"

lemma input_ok_mono:
  "input_ok given F b q ptr (f # fs) \<Longrightarrow> input_ok given (F + G) b q ptr fs" "input_ok given F b q ptr fs \<Longrightarrow> input_ok given (F + G) b q ptr fs"
  by (cases f; auto simp: input_ok_def intro: subset_mset.order_trans [OF _ mset_subset_eq_add_left])+

lemma frame_alive:
  assumes "class_ok given (P + cached input_ptr fs) F L self m" "input_ok given F b q input_ptr fs" "p \<in> set (rtp_of fs)"
  shows "0 < refcnt m (pk_data p)"
proof (rule class_ok_alive [OF assms(1)])
  show "pk_data p \<in># P + cached input_ptr fs + F"
    using assms(2,3) by (cases "pk_data p = input_ptr") (auto simp: input_ok_def)
qed

lemma fetch_ready_ref_ok:
  assumes "class_ok given (P + cached input_ptr [RFT_RTP p]) F L self m" "input_ok given F b q input_ptr [RFT_RTP p]"
  shows "\<exists>refs m'. fetch_ready_ref (pk_data p) b q input_ptr (pj_refs self) m =
      Some (\<lparr>ref_data = Obj (pk_data p), ref_opaque = given (pk_data p), ref_ptr = pk_data p\<rparr>, refs, m') \<and>
    class_ok given P (F + ref_mset (Obj (pk_data p)) + ref_mset (given (pk_data p))) L (self\<lparr>pj_refs := refs\<rparr>) m' \<and>
    same_inst self (self\<lparr>pj_refs := refs\<rparr>) \<and> keeps m m' \<and> given (pk_data p) \<noteq> NULL"
proof (cases "pk_data p = input_ptr")
  case True
  with assms(2) have i: "b = Obj input_ptr" "q = given input_ptr" "q \<noteq> NULL" "input_ptr \<noteq> 0" "ref_mset b \<subseteq># F" "ref_mset q \<subseteq># F"
    by (auto simp: input_ok_def)
  from assms(1) True obtain rs where rs: "pj_refs self = Some rs" "table_ok given rs" "tab rs = P" "owned m (F + slot_refs rs) L"
    by (auto simp: class_ok_def)
  have "ref_mset b \<subseteq># F + slot_refs rs" using i(5) by (rule subset_mset.order_trans) simp
  from Py_INCREF_owned [OF rs(4) this] i(1) obtain m1 where
    m1: "Py_INCREF b m = Some m1" "owned m1 (F + slot_refs rs + ref_mset b) L" "keeps m m1" by blast
  have "ref_mset q \<subseteq># F + slot_refs rs + ref_mset b" using i(6) by (rule subset_mset.order_trans) (simp add: ac_simps)
  from Py_INCREF_owned [OF m1(2) this i(3)] obtain m2 where
    m2: "Py_INCREF q m1 = Some m2" "owned m2 (F + slot_refs rs + ref_mset b + ref_mset q) L" "keeps m1 m2" by blast
  have "fetch_ready_ref (pk_data p) b q input_ptr (pj_refs self) m =
      Some (\<lparr>ref_data = Obj (pk_data p), ref_opaque = given (pk_data p), ref_ptr = pk_data p\<rparr>, Some rs, m2)"
    using m1(1) m2(1) i rs(1) True by (auto simp: fetch_ready_ref_def)
  moreover have "class_ok given P (F + ref_mset (Obj (pk_data p)) + ref_mset (given (pk_data p))) L (self\<lparr>pj_refs := Some rs\<rparr>) m2"
    using m2(2) rs(2,3) i(1,2) True by (simp add: class_ok_def ac_simps)
  moreover have "same_inst self (self\<lparr>pj_refs := Some rs\<rparr>)" using rs(1) by (simp add: same_inst_def)
  moreover have "keeps m m2" using m1(3) m2(3) by (rule keeps_trans)
  ultimately show ?thesis using i(2,3) True by blast
next
  case False
  then have "class_ok given (add_mset (pk_data p) P) F L self m" using assms(1) by simp
  from fetch_cached_ref_ok [OF this] False assms(2) show ?thesis by (auto simp: fetch_ready_ref_def input_ok_def)
qed

text \<open>The outcome of a call that makes the wrappers \<open>ws\<close>: they and what they own, or nothing.\<close>

definition delivered ::
    "(addr \<Rightarrow> py_ref) \<Rightarrow> addr multiset \<Rightarrow> addr multiset \<Rightarrow> py_kind multiset \<Rightarrow> py_mem \<Rightarrow> PyFrameWrapper list \<Rightarrow>
     PyFrameWrapper list option \<Rightarrow> PyRtpJBuf \<Rightarrow> py_mem \<Rightarrow> bool" where
  "delivered given P F L m ws r self' m' \<longleftrightarrow>
     r = None \<and> allocs m \<noteq> [] \<and> class_ok given P F L self' m' \<or>
     r = Some ws \<and> class_ok given P (F + (\<Sum>w\<leftarrow>ws. wrap_refs w)) ((\<Sum>w\<leftarrow>ws. wrap_objs w) + L) self' m'"

lemma class_okI:
  assumes "pj_refs self = Some rs" "table_ok given rs" "tab rs = P" "owned m (F + slot_refs rs + G) L"
  shows "class_ok given P (F + G) L self m"
proof -
  have "F + slot_refs rs + G = F + G + slot_refs rs" by (simp add: ac_simps)
  with assms show ?thesis by (simp add: class_ok_def)
qed

text \<open>From a wrapper that was built in the middle of the work to its delivery.\<close>

lemma delivered_one:
  assumes rs: "pj_refs self = Some rs" "table_ok given rs" "tab rs = P"
    and w: "w = None \<and> owned m' (F + slot_refs rs) L \<and> allocs m1 \<noteq> [] \<or> w = Some x \<and> owned m' (F + slot_refs rs + wrap_refs x) (wrap_objs x + L)"
    and m1: "keeps m m1"
  shows "delivered given P F L m [x] (map_option (\<lambda>x. [x]) w) self m'"
  using w
proof
  assume "w = None \<and> owned m' (F + slot_refs rs) L \<and> allocs m1 \<noteq> []"
  with class_okI [OF rs, of m' F "{#}" L] m1 show ?thesis by (auto simp: delivered_def keeps_def)
next
  assume "w = Some x \<and> owned m' (F + slot_refs rs + wrap_refs x) (wrap_objs x + L)"
  with class_okI [OF rs] show ?thesis by (simp add: delivered_def)
qed

lemma frame_wrapper_ok:
  assumes "class_ok given (P + cached input_ptr [f]) F L self m" "input_ok given F b q input_ptr [f]"
    and "\<And>p. f = RFT_RTP p \<Longrightarrow> read_payload p m \<noteq> None"
  shows "\<exists>w self' m'. frame_wrapper self f b q input_ptr m = Some (w, self', m') \<and> keeps m m' \<and> same_inst self self' \<and>
    (w = None \<or> w = Some (wrapper_of given m f)) \<and> pj_dropped self' = pj_dropped self \<and>
    delivered given P F L m [wrapper_of given m f] (map_option (\<lambda>x. [x]) w) self' m'"
proof (cases f)
  case (RFT_RTP p)
  obtain refs m1 where f: "fetch_ready_ref (pk_data p) b q input_ptr (pj_refs self) m =
      Some (\<lparr>ref_data = Obj (pk_data p), ref_opaque = given (pk_data p), ref_ptr = pk_data p\<rparr>, refs, m1)"
    "class_ok given P (F + ref_mset (Obj (pk_data p)) + ref_mset (given (pk_data p))) L (self\<lparr>pj_refs := refs\<rparr>) m1"
    "same_inst self (self\<lparr>pj_refs := refs\<rparr>)" "keeps m m1"
    using fetch_ready_ref_ok assms(1,2) unfolding RFT_RTP by blast
  from f(2) obtain rs where rs: "refs = Some rs" "table_ok given rs" "tab rs = P"
    "owned m1 (F + slot_refs rs + ref_mset (Obj (pk_data p)) + ref_mset (given (pk_data p))) L"
    by (auto simp: class_ok_def ac_simps)
  have "0 < refcnt m1 (pk_data p)" using f(2) by (rule class_ok_alive) simp
  then have "read_payload p m1 = read_payload p m" using f(4) by (intro read_payload_cong) (simp add: keeps_def)
  with assms(3) [OF RFT_RTP] have "read_payload p m1 = Some (the (read_payload p m))" by simp
  from build_wrapper_rtp_wrapped [OF rs(4) _ this]
  have "wrapped m1 (F + slot_refs rs) L (wrapper_of given m f) (build_wrapper_rtp p (Obj (pk_data p)) (given (pk_data p)) m1)"
    by (simp add: RFT_RTP)
  then obtain w m2 where w: "build_wrapper_rtp p (Obj (pk_data p)) (given (pk_data p)) m1 = Some (w, m2)" "keeps m1 m2"
    "w = None \<and> owned m2 (F + slot_refs rs) L \<and> allocs m1 \<noteq> [] \<or> w = Some (wrapper_of given m f) \<and>
      owned m2 (F + slot_refs rs + wrap_refs (wrapper_of given m f)) (wrap_objs (wrapper_of given m f) + L)" by (auto simp: wrapped_def)
  have "delivered given P F L m [wrapper_of given m f] (map_option (\<lambda>x. [x]) w) (self\<lparr>pj_refs := refs\<rparr>) m2"
    by (rule delivered_one [OF _ rs(2,3) w(3) f(4)]) (simp add: rs(1))
  moreover have "frame_wrapper self f b q input_ptr m = Some (w, self\<lparr>pj_refs := refs\<rparr>, m2)"
    using f(1) w(1) by (simp add: RFT_RTP)
  ultimately show ?thesis using f(3) w(3) keeps_trans [OF f(4) w(2)] by auto
next
  case (RFT_ERS e)
  from assms(1) RFT_ERS obtain rs where rs: "pj_refs self = Some rs" "table_ok given rs" "tab rs = P" "owned m (F + slot_refs rs) L"
    by (auto simp: class_ok_def)
  from build_wrapper_ers_wrapped [OF rs(4), of e] obtain w m1 where w: "build_wrapper_ers e m = Some (w, m1)" "keeps m m1"
    "w = None \<and> owned m1 (F + slot_refs rs) L \<and> allocs m \<noteq> [] \<or>
      w = Some (ers_wrapper e) \<and> owned m1 (F + slot_refs rs + wrap_refs (ers_wrapper e)) (wrap_objs (ers_wrapper e) + L)"
    by (auto simp: wrapped_def)
  have "delivered given P F L m [wrapper_of given m f] (map_option (\<lambda>x. [x]) w) self m1"
    using delivered_one [OF rs(1-3) w(3) keeps_refl] by (simp add: RFT_ERS)
  then show ?thesis using w by (auto simp: RFT_ERS)
qed

lemma dealloc_list_class:
  assumes "class_ok given P (F + (\<Sum>w\<leftarrow>ws. wrap_refs w)) ((\<Sum>w\<leftarrow>ws. wrap_objs w) + L) self m"
  shows "\<exists>m'. dealloc_list ws m = Some m' \<and> class_ok given P F L self m' \<and> keeps m m'"
proof -
  from assms obtain rs where rs: "pj_refs self = Some rs" "table_ok given rs" "tab rs = P"
    "owned m (F + slot_refs rs + (\<Sum>w\<leftarrow>ws. wrap_refs w)) ((\<Sum>w\<leftarrow>ws. wrap_objs w) + L)"
    by (auto simp: class_ok_def ac_simps)
  from dealloc_list_owned [OF rs(4)] rs(1-3) show ?thesis by (auto simp: class_ok_def)
qed

text \<open>Giving up: the rest of the frames and the wrappers built so far are freed.\<close>

lemma give_up_ok:
  assumes "class_ok given (P + cached input_ptr fs) (F + (\<Sum>w\<leftarrow>ws. wrap_refs w)) ((\<Sum>w\<leftarrow>ws. wrap_objs w) + L) self m" "input_ptr \<noteq> 0"
  shows "\<exists>self' m1 m'. process_drop_list self fs input_ptr m = Some (self', m1) \<and> dealloc_list ws m1 = Some m' \<and>
    class_ok given P F L self' m' \<and> keeps m m' \<and> same_inst self self'"
proof -
  from process_drop_list_ok [OF assms] obtain self' m1 where
    d: "process_drop_list self fs input_ptr m = Some (self', m1)" "keeps m m1" "same_inst self self'"
      "class_ok given P (F + (\<Sum>w\<leftarrow>ws. wrap_refs w)) ((\<Sum>w\<leftarrow>ws. wrap_objs w) + L) self' m1" by blast
  from dealloc_list_class [OF d(4)] d show ?thesis by (auto intro: keeps_trans)
qed

lemma cached_Cons: "cached input_ptr (f # fs) = cached input_ptr fs + cached input_ptr [f]"
  by (cases f) simp_all

lemma wrapper_of_cong: "(\<And>p. f = RFT_RTP p \<Longrightarrow> read_payload p m' = read_payload p m) \<Longrightarrow> wrapper_of given m' f = wrapper_of given m f"
  by (cases f) simp_all

lemma rtp_of_mem: "RFT_RTP p \<in> set fs \<Longrightarrow> p \<in> set (rtp_of fs)"
  by (induction fs rule: rtp_of.induct) auto

lemma payload_kept:
  assumes "class_ok given (P + cached input_ptr fs) F L self m'" "input_ok given F b q input_ptr fs" "keeps m m'" "p \<in> set (rtp_of fs)"
  shows "read_payload p m' = read_payload p m"
  using frame_alive [OF assms(1,2,4)] assms(3) by (intro read_payload_cong) (simp add: keeps_def)

text \<open>One round of the loop: the wrapper is appended, or the loop gives up and everything is freed.\<close>

lemma ready_round_ok:
  assumes pre: "class_ok given (P + cached input_ptr (f # fs)) (F + (\<Sum>w\<leftarrow>ready. wrap_refs w)) ((\<Sum>w\<leftarrow>ready. wrap_objs w) + L) self m"
    and inp: "input_ok given F b q input_ptr (f # fs)" and rd: "\<forall>p. f = RFT_RTP p \<longrightarrow> read_payload p m \<noteq> None"
  defines "ready' \<equiv> ready @ [wrapper_of given m f]"
  obtains self1 m1 where "ready_loop self ready (f # fs) b q input_ptr m = ready_loop self1 ready' fs b q input_ptr m1"
      "keeps m m1" "same_inst self self1" "pj_dropped self1 = pj_dropped self"
      "class_ok given (P + cached input_ptr fs) (F + (\<Sum>w\<leftarrow>ready'. wrap_refs w)) ((\<Sum>w\<leftarrow>ready'. wrap_objs w) + L) self1 m1"
    | self1 m1 where "ready_loop self ready (f # fs) b q input_ptr m = Some (None, self1, m1)"
      "keeps m m1" "same_inst self self1" "allocs m \<noteq> []" "class_ok given P F L self1 m1"
proof -
  let ?w = "wrapper_of given m f" and ?F = "F + (\<Sum>w\<leftarrow>ready. wrap_refs w)" and ?L = "(\<Sum>w\<leftarrow>ready. wrap_objs w) + L"
  let ?P = "P + cached input_ptr fs"
  have nz: "input_ptr \<noteq> 0" using inp by (simp add: input_ok_def)
  have c: "class_ok given (?P + cached input_ptr [f]) ?F ?L self m"
    using pre unfolding cached_Cons [of _ f fs] by (simp add: add.assoc)
  have "input_ok given ?F b q input_ptr [f]" using input_ok_mono(2) [OF inp] by (cases f) (auto simp: input_ok_def)
  from frame_wrapper_ok [OF c this] rd obtain w self1 m1 where
    f: "frame_wrapper self f b q input_ptr m = Some (w, self1, m1)" "keeps m m1" "same_inst self self1" "pj_dropped self1 = pj_dropped self"
      "w = None \<or> w = Some ?w" "delivered given ?P ?F ?L m [?w] (map_option (\<lambda>x. [x]) w) self1 m1" by blast
  obtain ok m2 where al: "py_alloc m1 = (ok, m2)" by (cases "py_alloc m1")
  note p2 = py_alloc_owned [OF al]
  have k2: "keeps m m2" using f(2) p2(2) by (rule keeps_trans)
  have c2: "class_ok given ?P (?F + wrap_refs ?w) (wrap_objs ?w + ?L) self1 m2" if "w = Some ?w"
    using f(6) that p2(1) by (simp add: delivered_def class_ok_def)
  consider "w = None" | "w = Some ?w" "ok" | "w = Some ?w" "\<not> ok" using f(5) by blast
  then show thesis
  proof cases
    case 1
    with f(6) have "class_ok given ?P ?F ?L self1 m1" "allocs m \<noteq> []" by (auto simp: delivered_def)
    from give_up_ok [OF this(1) nz] this(2) f 1 show thesis by (auto intro: that(2) keeps_trans same_inst_trans)
  next
    case 2
    have "class_ok given ?P (F + (\<Sum>w\<leftarrow>ready'. wrap_refs w)) ((\<Sum>w\<leftarrow>ready'. wrap_objs w) + L) self1 m2"
      using c2 [OF 2(1)] by (simp add: ready'_def ac_simps)
    with f(1,3,4) k2 al 2 show thesis by (intro that(1)) (auto simp: ready'_def)
  next
    case 3
    from c2 [OF 3(1)] have "class_ok given ?P (?F + (\<Sum>w\<leftarrow>[?w]. wrap_refs w)) ((\<Sum>w\<leftarrow>[?w]. wrap_objs w) + ?L) self1 m2" by simp
    from dealloc_list_class [OF this] obtain m3 where
      m3: "PyFrameWrapper_dealloc ?w m2 = Some m3" "class_ok given ?P ?F ?L self1 m3" "keeps m2 m3" by (auto split: option.splits)
    have "allocs m \<noteq> []" using p2(5) 3(2) f(2) by (auto simp: keeps_def)
    moreover have "keeps m m3" using k2 m3(3) by (rule keeps_trans)
    moreover note give_up_ok [OF m3(2) nz]
    ultimately show thesis using f(1,3) 3 al m3(1) by (auto intro: that(2) keeps_trans same_inst_trans)
  qed
qed

lemma ready_loop_ok:
  assumes "class_ok given (P + cached input_ptr fs) (F + (\<Sum>w\<leftarrow>ready. wrap_refs w)) ((\<Sum>w\<leftarrow>ready. wrap_objs w) + L) self m"
    and "input_ok given F b q input_ptr fs" and "\<forall>p \<in> set (rtp_of fs). read_payload p m \<noteq> None"
  shows "\<exists>r self' m'. ready_loop self ready fs b q input_ptr m = Some (r, self', m') \<and> keeps m m' \<and> same_inst self self' \<and>
    (r \<noteq> None \<longrightarrow> pj_dropped self' = pj_dropped self) \<and>
    delivered given P F L m (ready @ map (wrapper_of given m) fs) r self' m'"
  using assms
proof (induction fs arbitrary: self ready m)
  case Nil
  then show ?case by (simp add: delivered_def)
next
  case (Cons f fs)
  let ?ready = "ready @ [wrapper_of given m f]"
  have rd: "\<forall>p. f = RFT_RTP p \<longrightarrow> read_payload p m \<noteq> None" using Cons.prems(3) by auto
  show ?case
  proof (cases rule: ready_round_ok [OF Cons.prems(1,2) rd])
    case (1 self1 m1)
    have i: "input_ok given F b q input_ptr fs" using input_ok_mono(1) [OF Cons.prems(2), of "{#}"] by simp
    have same: "read_payload p m1 = read_payload p m" if "p \<in> set (rtp_of fs)" for p
      using payload_kept [OF 1(5) input_ok_mono(2) [OF i] 1(2) that] .
    have "\<forall>p \<in> set (rtp_of fs). read_payload p m1 \<noteq> None" using same Cons.prems(3) by (cases f) auto
    note IH = Cons.IH [OF 1(5) i this]
    have ws: "map (wrapper_of given m1) fs = map (wrapper_of given m) fs"
      using same by (auto intro!: wrapper_of_cong dest: rtp_of_mem)
    from IH obtain r self' m' where r: "ready_loop self1 ?ready fs b q input_ptr m1 = Some (r, self', m')" "keeps m1 m'" "same_inst self1 self'"
        "r \<noteq> None \<longrightarrow> pj_dropped self' = pj_dropped self1" "delivered given P F L m1 (?ready @ map (wrapper_of given m) fs) r self' m'"
      unfolding ws by blast
    have "delivered given P F L m (?ready @ map (wrapper_of given m) fs) r self' m'"
      using r(5) 1(2) by (auto simp: delivered_def keeps_def)
    then show ?thesis using r(1-4) 1(1-4) by (auto intro: keeps_trans same_inst_trans)
  next
    case (2 self1 m1)
    then show ?thesis by (auto simp: delivered_def)
  qed
qed

lemma process_ready_list_ok:
  assumes "class_ok given (P + cached input_ptr fs) F L self m" "input_ok given F b q input_ptr fs"
    and "\<forall>p \<in> set (rtp_of fs). read_payload p m \<noteq> None"
  shows "\<exists>r self' m'. process_ready_list True self fs b q input_ptr m = Some (r, self', m') \<and> keeps m m' \<and> same_inst self self' \<and>
    (r \<noteq> None \<longrightarrow> pj_dropped self' = pj_dropped self) \<and> delivered given P F L m (map (wrapper_of given m) fs) r self' m'"
  using ready_loop_ok [where ready = "[]"] assms by (simp add: process_ready_list_def)

text \<open>The ready list and then the dropped one, as both methods process them.\<close>

lemma lists_ok:
  assumes "class_ok given (P + cached input_ptr ready + cached input_ptr drp) F L self m" "input_ok given F b q input_ptr ready"
    and "\<forall>p \<in> set (rtp_of ready). read_payload p m \<noteq> None"
  shows "\<exists>r self1 m1 self' m'. process_ready_list True self ready b q input_ptr m = Some (r, self1, m1) \<and>
    process_drop_list self1 drp input_ptr m1 = Some (self', m') \<and> keeps m m' \<and> same_inst self self' \<and>
    (r \<noteq> None \<longrightarrow> pj_dropped self' = pj_dropped self + of_nat (length (rtp_of drp))) \<and>
    delivered given P F L m (map (wrapper_of given m) ready) r self' m'"
proof -
  have nz: "input_ptr \<noteq> 0" using assms(2) by (simp add: input_ok_def)
  have "class_ok given (P + cached input_ptr drp + cached input_ptr ready) F L self m" using assms(1) by (simp add: ac_simps)
  from process_ready_list_ok [OF this assms(2,3)] obtain r self1 m1 where
    r: "process_ready_list True self ready b q input_ptr m = Some (r, self1, m1)" "keeps m m1" "same_inst self self1"
      "r \<noteq> None \<longrightarrow> pj_dropped self1 = pj_dropped self"
      "delivered given (P + cached input_ptr drp) F L m (map (wrapper_of given m) ready) r self1 m1" by blast
  from r(5) obtain F' L' where c: "class_ok given (P + cached input_ptr drp) F' L' self1 m1"
    and d: "\<And>self' m'. class_ok given P F' L' self' m' \<Longrightarrow> delivered given P F L m (map (wrapper_of given m) ready) r self' m'"
    unfolding delivered_def by blast
  from process_drop_list_ok [OF c nz] r d show ?thesis by (auto intro: keeps_trans same_inst_trans)
qed

section \<open>The invariant of the class\<close>

abbreviation addrs :: "rtpjbuf_inst \<Rightarrow> addr multiset" where
  "addrs inst \<equiv> mset (map pk_data (queued inst))"

lemma parse_bounds:
  assumes "rtp_packet_parse_raw bs rtp_info_zero = Some (RTP_PARSER_OK, info)" "length bs \<le> 33554432"
  shows "data_offset info + data_size info \<le> length bs"
proof (rule parse_OK_layout [OF assms(1)])
  fix h csrc ext payload pad assume l: "rtp_layout bs h csrc ext payload pad"
  from parse_layout [OF this assms(2), of rtp_info_zero] assms(1) have "info = layout_info rtp_info_zero h csrc ext payload" by simp
  moreover have "bs = store_hdr h @ csrc @ ext @ payload @ pad" using l by (simp add: rtp_layout_def)
  ultimately show ?thesis by (simp add: layout_info_def)
qed

text \<open>The bytes of a packet are alive, and their header is the one that was parsed when they were queued.\<close>

definition key_ok :: "py_mem \<Rightarrow> rtp_info \<times> addr \<Rightarrow> bool" where
  "key_ok m k \<longleftrightarrow> 2 \<le> snd k \<and>
     (\<exists>bs. bytes_of m (snd k) = Some bs \<and> length bs \<le> 33554432 \<and> rtp_packet_parse_raw bs rtp_info_zero = Some (RTP_PARSER_OK, fst k))"

lemma key_ok_packet:
  assumes "key_ok m (pk_key p)"
  obtains bs where "2 \<le> pk_data p" "bytes_of m (pk_data p) = Some bs" "rtp_packet_parse_raw bs rtp_info_zero = Some (RTP_PARSER_OK, pk_info p)"
    "read_payload p m = Some (take (data_size (pk_info p)) (drop (data_offset (pk_info p)) bs))"
  using assms parse_bounds [of _ "pk_info p"] by (auto simp: key_ok_def pk_key_def read_payload_def)

lemma key_ok_keeps: "key_ok m k \<Longrightarrow> keeps m m' \<Longrightarrow> 0 < refcnt m' (snd k) \<Longrightarrow> key_ok m' k"
  by (auto simp: key_ok_def keeps_def)

lemma held_addr: "image_mset snd (held ps) = mset (map pk_data ps)"
  by (simp add: held_def pk_key_def multiset.map_comp comp_def)

definition pj_ok :: "(addr \<Rightarrow> py_ref) \<Rightarrow> addr multiset \<Rightarrow> py_kind multiset \<Rightarrow> rtpjbuf_inst \<Rightarrow> PyRtpJBuf \<Rightarrow> py_mem \<Rightarrow> bool" where
  "pj_ok given F L inst self m \<longleftrightarrow> pj_jb self = Some inst \<and> jb_inv inst \<and>
     map_option length (pj_refs self) = Some (unat (jb_capacity (jb inst))) \<and>
     class_ok given (addrs inst) F L self m \<and> (\<forall>k \<in># held (queued inst). key_ok m k)"

lemma pj_ok_after:
  assumes "class_ok given (addrs inst') F L self' m'" "keeps m m'" "same_inst self self'" "pj_jb self = Some inst'" "jb_inv inst'"
    and "map_option length (pj_refs self) = Some (unat (jb_capacity (jb inst')))" "\<forall>k \<in># held (queued inst'). key_ok m k"
  shows "pj_ok given F L inst' self' m'"
proof -
  have "key_ok m' k" if "k \<in># held (queued inst')" for k
  proof (rule key_ok_keeps [OF _ assms(2)])
    show "key_ok m k" using assms(7) that by blast
    have "snd k \<in># addrs inst'" using that unfolding held_addr [symmetric] by simp
    then show "0 < refcnt m' (snd k)" by (intro class_ok_alive [OF assms(1)]) simp
  qed
  then show ?thesis using assms(1,3-6) by (auto simp: pj_ok_def same_inst_def)
qed

text \<open>The outcome of a method: its wrappers are the caller's, or an allocation failed.\<close>

definition method_ok ::
    "(addr \<Rightarrow> py_ref) \<Rightarrow> addr multiset \<Rightarrow> py_kind multiset \<Rightarrow> py_mem \<Rightarrow> PyFrameWrapper list \<Rightarrow> rtpjbuf_inst \<Rightarrow>
     (jb_exc + PyFrameWrapper list) \<Rightarrow> PyRtpJBuf \<Rightarrow> py_mem \<Rightarrow> bool" where
  "method_ok given F L m ws inst' r self' m' \<longleftrightarrow> keeps m m' \<and>
     (r = Inl MemoryError \<and> allocs m \<noteq> [] \<and> pj_ok given F L inst' self' m' \<or>
      r = Inr ws \<and> pj_ok given (F + (\<Sum>w\<leftarrow>ws. wrap_refs w)) ((\<Sum>w\<leftarrow>ws. wrap_objs w) + L) inst' self' m')"

lemma delivered_method:
  assumes "delivered given (addrs inst') F L m ws r self' m'" "keeps m m'" "same_inst self self'" "pj_jb self = Some inst'" "jb_inv inst'"
    and "map_option length (pj_refs self) = Some (unat (jb_capacity (jb inst')))" "\<forall>k \<in># held (queued inst'). key_ok m k"
  shows "method_ok given F L m ws inst' (ready_result r) self' m'"
  using assms(1,2) pj_ok_after [OF _ assms(2-)] by (auto simp: delivered_def method_ok_def ready_result_def)

lemma step_ok_addrs:
  assumes "step_ok s new r s'"
  shows "addrs s' + ptrs (r_ready r) + ptrs (r_drop r) = addrs s + image_mset snd new"
proof -
  have "held (queued s') + held (rtp_of (r_ready r)) + held (rtp_of (r_drop r)) = held (queued s) + new"
    using assms by (simp add: step_ok_def)
  from arg_cong [OF this, of "image_mset snd"] show ?thesis by (simp add: held_addr)
qed

lemma step_ok_keys:
  assumes "step_ok s new r s'" "\<forall>k \<in># held (queued s) + new. key_ok m k"
  shows "\<forall>k \<in># held (queued s'). key_ok m k" "\<forall>p \<in> set (rtp_of (r_ready r)). key_ok m (pk_key p)" "\<forall>p \<in> set (rtp_of (r_ready r)). read_payload p m \<noteq> None"
proof -
  have e: "held (queued s') + held (rtp_of (r_ready r)) + held (rtp_of (r_drop r)) = held (queued s) + new"
    using assms(1) by (simp add: step_ok_def)
  then have sub: "set_mset (held (queued s')) \<subseteq> set_mset (held (queued s) + new)"
    "set_mset (held (rtp_of (r_ready r))) \<subseteq> set_mset (held (queued s) + new)" by (auto simp flip: e)
  show "\<forall>k \<in># held (queued s'). key_ok m k" using sub(1) assms(2) by blast
  show k: "\<forall>p \<in> set (rtp_of (r_ready r)). key_ok m (pk_key p)"
  proof
    fix p assume "p \<in> set (rtp_of (r_ready r))"
    then have "pk_key p \<in># held (rtp_of (r_ready r))" by (simp add: held_def)
    with sub(2) assms(2) show "key_ok m (pk_key p)" by blast
  qed
  show "\<forall>p \<in> set (rtp_of (r_ready r)). read_payload p m \<noteq> None"
  proof
    fix p assume "p \<in> set (rtp_of (r_ready r))"
    with k have "key_ok m (pk_key p)" by blast
    then show "read_payload p m \<noteq> None" by (rule key_ok_packet) simp
  qed
qed

lemma cached_outside: "x \<notin># ptrs fs \<Longrightarrow> cached x fs = ptrs fs"
  by (auto simp: filter_mset_eq_conv)

text \<open>An address below 2 is never queued.\<close>

lemma addrs_ge:
  assumes "\<forall>k \<in># held (queued s). key_ok m k" "x \<in># addrs s"
  shows "2 \<le> x"
proof -
  from assms(2) obtain p where "p \<in> set (queued s)" "x = pk_data p" by auto
  with assms(1) have "key_ok m (pk_key p)" by (simp add: held_def)
  with \<open>x = pk_data p\<close> show ?thesis by (simp add: key_ok_def pk_key_def)
qed

lemma flush_lists:
  assumes "pj_ok given F L inst self m" "seq_room inst"
  obtains ruir inst' where "rtpjbuf_flush inst = Some (ruir, inst')" "step_ok inst {#} ruir inst'" "queued inst' = []"
    "class_ok given (addrs inst' + cached NO_INPUT_PTR (r_ready ruir) + cached NO_INPUT_PTR (r_drop ruir)) F L (self\<lparr>pj_jb := Some inst'\<rparr>) m"
    "NO_INPUT_PTR \<notin># ptrs (r_ready ruir)" "\<forall>p \<in> set (rtp_of (r_ready ruir)). read_payload p m \<noteq> None"
proof -
  from assms(1) have s: "jb_inv inst" "class_ok given (addrs inst) F L self m" "\<forall>k \<in># held (queued inst). key_ok m k"
    by (auto simp: pj_ok_def)
  from rtpjbuf_flush_ok [OF s(1) assms(2)] obtain ruir inst' where
    f: "rtpjbuf_flush inst = Some (ruir, inst')" "step_ok inst {#} ruir inst'" "queued inst' = []" by blast
  have "\<forall>k \<in># held (queued inst) + {#}. key_ok m k" using s(3) by simp
  note k = step_ok_keys [OF f(2) this]
  have e: "addrs inst' + ptrs (r_ready ruir) + ptrs (r_drop ruir) = addrs inst" using step_ok_addrs [OF f(2)] by simp
  have "NO_INPUT_PTR \<notin># addrs inst" using addrs_ge [OF s(3)] by (force simp: NO_INPUT_PTR_def)
  then have no: "NO_INPUT_PTR \<notin># ptrs (r_ready ruir)" "NO_INPUT_PTR \<notin># ptrs (r_drop ruir)"
    unfolding e [symmetric] by simp_all
  have "class_ok given (addrs inst' + cached NO_INPUT_PTR (r_ready ruir) + cached NO_INPUT_PTR (r_drop ruir)) F L (self\<lparr>pj_jb := Some inst'\<rparr>) m"
    using s(2) e unfolding cached_outside [OF no(1)] cached_outside [OF no(2)] by (simp add: class_ok_def)
  then show ?thesis using f no(1) k(3) by (intro that)
qed

lemma flush_class_ok:
  assumes ok: "pj_ok given F L inst self m" and room: "seq_room inst"
  shows "\<exists>ruir inst' r self' m'. rtpjbuf_flush inst = Some (ruir, inst') \<and> PyRtpJBuf_flush True True self m = Some (r, self', m') \<and>
    method_ok given F L m (map (wrapper_of given m) (r_ready ruir)) inst' r self' m' \<and> step_ok inst {#} ruir inst' \<and>
    (\<forall>ws. r = Inr ws \<longrightarrow> pj_dropped self' = pj_dropped self + of_nat (length (rtp_of (r_drop ruir))))"
proof (rule flush_lists [OF ok room])
  fix ruir inst'
  let ?self = "self\<lparr>pj_jb := Some inst'\<rparr>"
  assume f: "rtpjbuf_flush inst = Some (ruir, inst')" "step_ok inst {#} ruir inst'" "queued inst' = []"
    and c: "class_ok given (addrs inst' + cached NO_INPUT_PTR (r_ready ruir) + cached NO_INPUT_PTR (r_drop ruir)) F L ?self m"
    and no: "NO_INPUT_PTR \<notin># ptrs (r_ready ruir)" and rd: "\<forall>p \<in> set (rtp_of (r_ready ruir)). read_payload p m \<noteq> None"
  have "input_ok given F PyNone PyNone NO_INPUT_PTR (r_ready ruir)" using no by (simp add: input_ok_def NO_INPUT_PTR_def)
  from lists_ok [OF c this rd] obtain r self1 m1 self' m' where
    l: "process_ready_list True ?self (r_ready ruir) PyNone PyNone NO_INPUT_PTR m = Some (r, self1, m1)"
      "process_drop_list self1 (r_drop ruir) NO_INPUT_PTR m1 = Some (self', m')" "keeps m m'" "same_inst ?self self'"
      "r \<noteq> None \<longrightarrow> pj_dropped self' = pj_dropped ?self + of_nat (length (rtp_of (r_drop ruir)))"
      "delivered given (addrs inst') F L m (map (wrapper_of given m) (r_ready ruir)) r self' m'" by blast
  have "method_ok given F L m (map (wrapper_of given m) (r_ready ruir)) inst' (ready_result r) self' m'"
    by (rule delivered_method [OF l(6,3,4)]) (use ok f in \<open>auto simp: pj_ok_def step_ok_def\<close>)
  moreover have "PyRtpJBuf_flush True True self m = Some (ready_result r, self', m')"
    using ok f(1) l(1,2) by (simp add: PyRtpJBuf_flush_def pj_ok_def)
  ultimately show ?thesis using f(1,2) l(5) by (auto simp: ready_result_def split: option.splits)
qed

section \<open>A datagram\<close>

lemma accepted_key_ok:
  assumes "bytes_of m data = Some bs" "2 \<le> data" "length bs \<le> 33554432"
  shows "\<forall>k \<in># accepted malloc_ok data bs. key_ok m k"
  using assms by (auto simp: accepted_def key_ok_def split: option.splits rtp_parser_err.splits)

text \<open>The parser succeeds or returns a negative code.\<close>

lemma parse_rest_code:
  assumes "parse_rest buf h ri = Some (err, ri')"
  shows "err = RTP_PARSER_OK \<or> parser_err_code err < 0"
  using assms by (auto simp: parse_rest_def parse_padding_def dest: parse_fill_OK split: if_splits sum.splits bind_splits)

lemma parse_code:
  assumes "rtp_packet_parse_raw buf ri = Some (err, ri')"
  shows "err = RTP_PARSER_OK \<or> parser_err_code err < 0"
  using assms parse_rest_code
  by (fastforce simp: rtp_packet_parse_raw_def Let_def parse_ext_def split: if_splits sum.splits bind_splits)

text \<open>The results of the library: no error, or a negative code and no frame that is ready.\<close>

definition clean :: "(rjb_udp_in_r \<times> rtpjbuf_inst) option \<Rightarrow> bool" where
  "clean r \<longleftrightarrow> (case r of None \<Rightarrow> True | Some (ruir, s) \<Rightarrow> r_error ruir = 0)"

lemma clean_bind: "(\<And>x. f = Some x \<Longrightarrow> clean (g x)) \<Longrightarrow> clean (f \<bind> g)"
  by (cases f) (simp_all add: clean_def)

lemma lms_init_clean: "clean (lms_init s fp drp)"
  by (auto simp: lms_init_def clean_def Let_def d_assert_def split: option.splits bind_splits)

lemma release_run_clean: "clean (release_run s drp)"
  by (auto simp: release_run_def Let_def clean_def split: prod.splits option.splits bind_splits)

lemma insert_sorted_clean: "clean (insert_sorted s fp drp)"
  by (auto simp: insert_sorted_def gotdup_def Let_def intro!: clean_bind release_run_clean) (auto simp: clean_def)

lemma enqueue_clean: "clean (enqueue_frame s fp drp)"
  by (auto simp: enqueue_frame_def place_frame_def gotdup_def gotlate_def Let_def
      intro!: clean_bind lms_init_clean insert_sorted_clean split: prod.splits) (auto simp: clean_def)

lemma udp_in_error:
  assumes "rtpjbuf_udp_in s malloc_ok ptr bs = Some (r, s')"
  shows "r_error r < 0 \<and> accepted malloc_ok ptr bs = {#} \<and> r_ready r = [] \<or> r_error r = 0 \<and> (\<exists>info. accepted malloc_ok ptr bs = {#(info, ptr)#})"
proof (cases "malloc_ok \<and> (\<exists>info. rtp_packet_parse_raw bs rtp_info_zero = Some (RTP_PARSER_OK, info))")
  case True
  then obtain info where p: "rtp_packet_parse_raw bs rtp_info_zero = Some (RTP_PARSER_OK, info)" and m: malloc_ok by blast
  obtain stale s1 where "purge_stale_tail s = (stale, s1)" by (cases "purge_stale_tail s")
  with assms m p obtain fp drp where "enqueue_frame s1 fp drp = Some (r, s')" by (auto simp: rtpjbuf_udp_in_def)
  with enqueue_clean [of s1 fp drp] have "r_error r = 0" by (simp add: clean_def)
  then show ?thesis using m p by (simp add: accepted_def)
next
  case False
  then have "accepted malloc_ok ptr bs = {#}" by (auto simp: accepted_def split: option.splits rtp_parser_err.splits)
  moreover have "r_error r < 0 \<and> r_ready r = []"
    using assms False parse_code [of bs rtp_info_zero]
    by (auto simp: rtpjbuf_udp_in_def RJB_ENOMEM_def Let_def split: prod.splits if_splits bind_splits)
  ultimately show ?thesis by blast
qed

lemma class_ok_given: "class_ok given P F L self m \<Longrightarrow> x \<notin># P \<Longrightarrow> class_ok (given(x := q)) P F L self m"
  by (auto simp: class_ok_def intro: slot_ok_given)

lemma release_input:
  assumes "class_ok given P (add_mset data F) L self m"
  shows "\<exists>m'. Py_DECREF (Obj data) m = Some m' \<and> class_ok given P F L self m' \<and> keeps m m'"
proof -
  from assms obtain rs where rs: "pj_refs self = Some rs" "table_ok given rs" "tab rs = P" "owned m (F + slot_refs rs + ref_mset (Obj data)) L"
    by (auto simp: class_ok_def)
  from Py_DECREF_owned [OF rs(4)] rs(1-3) show ?thesis by (auto simp: class_ok_def)
qed

lemma release_delivered:
  assumes "delivered given P (add_mset data F) L m ws r self m1"
  shows "\<exists>m'. Py_DECREF (Obj data) m1 = Some m' \<and> delivered given P F L m ws r self m' \<and> keeps m1 m'"
proof -
  consider "r = None" "allocs m \<noteq> []" "class_ok given P (add_mset data F) L self m1"
    | "r = Some ws" "class_ok given P (add_mset data (F + (\<Sum>w\<leftarrow>ws. wrap_refs w))) ((\<Sum>w\<leftarrow>ws. wrap_objs w) + L) self m1"
    using assms by (auto simp: delivered_def)
  then show ?thesis
  proof cases
    case 1
    with release_input [OF this(3)] show ?thesis by (auto simp: delivered_def)
  next
    case 2
    with release_input [OF this(2)] show ?thesis by (auto simp: delivered_def)
  qed
qed

lemma store_data_ref_ok:
  assumes c: "class_ok given P F L self m" and len: "map_option length (pj_refs self) = Some n" "size P < n"
    and q: "given data = q" "q \<noteq> NULL" "ref_mset q \<subseteq># F" and data: "data \<noteq> 0" "data \<in># F"
  shows "\<exists>refs m'. store_data_ref (Obj data) q data (pj_refs self) m = Some (Some (refs, m')) \<and>
    class_ok given (add_mset data P) F L (self\<lparr>pj_refs := refs\<rparr>) m' \<and> same_inst self (self\<lparr>pj_refs := refs\<rparr>) \<and> keeps m m'"
proof -
  let ?new = "\<lparr>ref_data = Obj data, ref_opaque = q, ref_ptr = data\<rparr>"
  from c obtain rs where rs: "pj_refs self = Some rs" "table_ok given rs" "tab rs = P" "owned m (F + slot_refs rs) L"
    by (auto simp: class_ok_def)
  have "slot_ok given ?new" using q(1,2) data(1) by (simp add: slot_ok_def)
  from put_ref_ok [OF rs(2) this] len rs(1,3) obtain rs' where
    p: "put_ref ?new rs = Some rs'" "table_ok given rs'" "length rs' = length rs" "tab rs' = add_mset data P"
      "slot_refs rs' = ref_mset (Obj data) + ref_mset q + slot_refs rs" by auto
  have "ref_mset (Obj data) \<subseteq># F + slot_refs rs" using data(2) by simp
  from Py_INCREF_owned [OF rs(4) this] obtain m1 where
    m1: "Py_INCREF (Obj data) m = Some m1" "owned m1 (F + slot_refs rs + ref_mset (Obj data)) L" "keeps m m1" by blast
  have "ref_mset q \<subseteq># F + slot_refs rs + ref_mset (Obj data)" using q(3) by (rule subset_mset.order_trans) (simp add: ac_simps)
  from Py_INCREF_owned [OF m1(2) this q(2)] obtain m2 where
    m2: "Py_INCREF q m1 = Some m2" "owned m2 (F + slot_refs rs + ref_mset (Obj data) + ref_mset q) L" "keeps m1 m2" by blast
  have "owned m2 (F + slot_refs rs') L" using m2(2) by (simp add: p(5) ac_simps)
  then have "class_ok given (add_mset data P) F L (self\<lparr>pj_refs := Some rs'\<rparr>) m2" using p(2,4) by (simp add: class_ok_def)
  moreover have "store_data_ref (Obj data) q data (pj_refs self) m = Some (Some (Some rs', m2))"
    using rs(1) data(1) q(2) p(1) m1(1) m2(1) by (simp add: store_data_ref_def)
  moreover have "same_inst self (self\<lparr>pj_refs := Some rs'\<rparr>)" using rs(1) p(3) by (simp add: same_inst_def)
  ultimately show ?thesis using keeps_trans [OF m1(3) m2(3)] by blast
qed

lemma list_has_data_ptr_iff: "list_has_data_ptr fs x \<longleftrightarrow> x \<in># ptrs fs"
  by (induction fs x rule: list_has_data_ptr.induct) auto

text \<open>The new address is at one place only.\<close>

lemma split_input:
  assumes e: "A' + R + D = add_mset x A" and x: "x \<notin># A" "x \<in># R + D"
  shows "A' + filter_mset (\<lambda>y. y \<noteq> x) R + filter_mset (\<lambda>y. y \<noteq> x) D = A"
proof -
  have "count A' x + count R x + count D x = 1" using arg_cong [OF e, of "\<lambda>M. count M x"] x(1) by (simp add: not_in_iff)
  moreover have "0 < count R x + count D x" using x(2) by (simp add: count_greater_zero_iff [symmetric] del: count_greater_zero_iff)
  ultimately have "count A' x = 0" by linarith
  then have "filter_mset (\<lambda>y. y \<noteq> x) A' = A'" "filter_mset (\<lambda>y. y \<noteq> x) A = A"
    using x(1) by (auto simp: filter_mset_eq_conv simp flip: not_in_iff)
  with arg_cong [OF e, of "filter_mset (\<lambda>y. y \<noteq> x)"] show ?thesis by simp
qed

text \<open>The reference to the input is stored exactly when the packet is queued.\<close>

lemma stored_ok:
  fixes given :: "addr \<Rightarrow> py_ref"
  assumes ok: "pj_ok given (add_mset data F) L inst self m" and st: "step_ok inst {#(info, data)#} ruir inst'"
    and new: "data \<notin># addrs inst" "data \<noteq> 0" and q: "q \<noteq> NULL" "ref_mset q \<subseteq># F"
  defines "given' \<equiv> given(data := q)" and "self1 \<equiv> self\<lparr>pj_jb := Some inst'\<rparr>"
  obtains refs m1 where
    "(if list_has_data_ptr (r_ready ruir) data \<or> list_has_data_ptr (r_drop ruir) data then Some (Some (pj_refs self1, m))
      else store_data_ref (Obj data) q data (pj_refs self1) m) = Some (Some (refs, m1))"
    "class_ok given' (addrs inst' + cached data (r_ready ruir) + cached data (r_drop ruir)) (add_mset data F) L (self1\<lparr>pj_refs := refs\<rparr>) m1"
    "same_inst self1 (self1\<lparr>pj_refs := refs\<rparr>)" "keeps m m1"
proof -
  have e: "addrs inst' + ptrs (r_ready ruir) + ptrs (r_drop ruir) = add_mset data (addrs inst)"
    using step_ok_addrs [OF st] by simp
  from ok have c: "class_ok given (addrs inst) (add_mset data F) L self1 m"
    and len: "map_option length (pj_refs self1) = Some (unat (jb_capacity (jb inst)))" and "jb_sizes (jb inst)"
    by (auto simp: pj_ok_def class_ok_def jb_inv_def self1_def)
  then have room: "size (addrs inst) < unat (jb_capacity (jb inst))" by (simp add: jb_sizes_def)
  have c': "class_ok given' (addrs inst) (add_mset data F) L self1 m" unfolding given'_def by (rule class_ok_given [OF c new(1)])
  show thesis
  proof (cases "data \<in># ptrs (r_ready ruir) + ptrs (r_drop ruir)")
    case True
    from split_input [OF e new(1) True] c' True show thesis
      by (intro that [of "pj_refs self1" m]) (auto simp: list_has_data_ptr_iff)
  next
    case False
    then have no: "data \<notin># ptrs (r_ready ruir)" "data \<notin># ptrs (r_drop ruir)" by simp_all
    have "ref_mset q \<subseteq># add_mset data F" using q(2) by (rule subset_mset.order_trans) simp
    from store_data_ref_ok [OF c' len room _ q(1) this new(2), unfolded given'_def] obtain refs m1 where
      "store_data_ref (Obj data) q data (pj_refs self1) m = Some (Some (refs, m1))"
      "class_ok given' (add_mset data (addrs inst)) (add_mset data F) L (self1\<lparr>pj_refs := refs\<rparr>) m1"
      "same_inst self1 (self1\<lparr>pj_refs := refs\<rparr>)" "keeps m m1" by (auto simp: given'_def)
    then show thesis using no e cached_outside [OF no(1)] cached_outside [OF no(2)]
      by (intro that) (simp_all add: list_has_data_ptr_iff)
  qed
qed

text \<open>What the caller has to hold: the bytes object, which is not queued yet, and the opaque one.\<close>

definition arg_ok :: "addr multiset \<Rightarrow> rtpjbuf_inst \<Rightarrow> addr \<Rightarrow> u8 list \<Rightarrow> py_ref \<Rightarrow> py_mem \<Rightarrow> bool" where
  "arg_ok F inst data bs q m \<longleftrightarrow> bytes_of m data = Some bs \<and> data \<notin># addrs inst \<and> 2 \<le> data \<and> q \<noteq> NULL \<and> ref_mset q \<subseteq># F \<and>
     udp_in_admissible inst bs"

lemma udp_in_failed:
  assumes ok: "pj_ok given (add_mset data F) L inst self m" and arg: "arg_ok F inst data bs q m"
    and st: "step_ok inst {#} ruir inst'" and err: "r_error ruir < 0" "r_ready ruir = []"
  shows "\<exists>self' m'. udp_in_result True (self\<lparr>pj_jb := Some inst'\<rparr>) ruir data q m = Some (Inl (RTPParseError (r_error ruir)), self', m') \<and>
    pj_ok given F L inst' self' m' \<and> keeps m m' \<and> pj_dropped self' = pj_dropped self + of_nat (length (rtp_of (r_drop ruir)))"
proof -
  let ?self = "self\<lparr>pj_jb := Some inst'\<rparr>"
  have e: "addrs inst' + ptrs (r_drop ruir) = addrs inst" using step_ok_addrs [OF st] err(2) by simp
  have "data \<notin># addrs inst" using arg by (simp add: arg_ok_def)
  then have no: "data \<notin># ptrs (r_drop ruir)" unfolding e [symmetric] by simp
  from ok have "class_ok given (addrs inst' + cached data (r_drop ruir)) (add_mset data F) L ?self m"
    unfolding cached_outside [OF no] e by (simp add: pj_ok_def class_ok_def)
  from process_drop_list_ok [OF this] arg obtain self' m1 where
    d: "process_drop_list ?self (r_drop ruir) data m = Some (self', m1)" "class_ok given (addrs inst') (add_mset data F) L self' m1"
      "keeps m m1" "same_inst ?self self'" "pj_dropped self' = pj_dropped ?self + of_nat (length (rtp_of (r_drop ruir)))" by (auto simp: arg_ok_def)
  from release_input [OF d(2)] obtain m2 where m2: "Py_DECREF (Obj data) m1 = Some m2" "class_ok given (addrs inst') F L self' m2" "keeps m1 m2" by blast
  have "\<forall>k \<in># held (queued inst) + {#}. key_ok m k" using ok by (simp add: pj_ok_def)
  from step_ok_keys(1) [OF st this] have keys: "\<forall>k \<in># held (queued inst'). key_ok m k" .
  have "pj_ok given F L inst' self' m2"
    by (rule pj_ok_after [OF m2(2) keeps_trans [OF d(3) m2(3)] d(4)]) (use ok st keys in \<open>auto simp: pj_ok_def step_ok_def\<close>)
  moreover have "udp_in_result True ?self ruir data q m = Some (Inl (RTPParseError (r_error ruir)), self', m2)"
    using err d(1) m2(1) by (auto simp: udp_in_result_def)
  ultimately show ?thesis using d(5) keeps_trans [OF d(3) m2(3)] by auto
qed

lemma udp_in_accepted:
  assumes ok: "pj_ok given (add_mset data F) L inst self m" and arg: "arg_ok F inst data bs q m"
    and st: "step_ok inst {#(info, data)#} ruir inst'" and key: "key_ok m (info, data)" and err: "r_error ruir = 0"
  defines "given' \<equiv> given(data := q)"
  shows "\<exists>r self' m'. udp_in_result True (self\<lparr>pj_jb := Some inst'\<rparr>) ruir data q m = Some (r, self', m') \<and>
    method_ok given' F L m (map (wrapper_of given' m) (r_ready ruir)) inst' r self' m' \<and>
    (\<forall>ws. r = Inr ws \<longrightarrow> pj_dropped self' = pj_dropped self + of_nat (length (rtp_of (r_drop ruir))))"
proof -
  let ?self = "self\<lparr>pj_jb := Some inst'\<rparr>" and ?ready = "r_ready ruir" and ?drp = "r_drop ruir"
  have a: "data \<notin># addrs inst" "data \<noteq> 0" "q \<noteq> NULL" "ref_mset q \<subseteq># F" using arg by (auto simp: arg_ok_def)
  have "\<forall>k \<in># held (queued inst) + {#(info, data)#}. key_ok m k" using ok key by (auto simp: pj_ok_def)
  note keys = step_ok_keys [OF st this]
  show ?thesis
  proof (rule stored_ok [OF ok st a], fold given'_def)
    fix refs m1
    let ?self1 = "?self\<lparr>pj_refs := refs\<rparr>"
    assume stored: "(if list_has_data_ptr ?ready data \<or> list_has_data_ptr ?drp data then Some (Some (pj_refs ?self, m))
        else store_data_ref (Obj data) q data (pj_refs ?self) m) = Some (Some (refs, m1))"
      and c: "class_ok given' (addrs inst' + cached data ?ready + cached data ?drp) (add_mset data F) L ?self1 m1"
      and same: "same_inst ?self ?self1" and k1: "keeps m m1"
    have inp: "input_ok given' (add_mset data F) (Obj data) q data ?ready"
      using a by (auto simp: input_ok_def given'_def intro: subset_mset.order_trans)
    have "class_ok given' (addrs inst' + cached data ?drp + cached data ?ready) (add_mset data F) L ?self1 m1" using c by (simp add: ac_simps)
    note kept = payload_kept [OF this inp k1]
    have rd: "\<forall>p \<in> set (rtp_of ?ready). read_payload p m1 \<noteq> None" using kept keys(3) by auto
    have ws: "map (wrapper_of given' m1) ?ready = map (wrapper_of given' m) ?ready"
      using kept by (auto intro!: wrapper_of_cong dest: rtp_of_mem)
    from lists_ok [OF c inp rd] obtain r self2 m2 self' m3 where
      l: "process_ready_list True ?self1 ?ready (Obj data) q data m1 = Some (r, self2, m2)" "process_drop_list self2 ?drp data m2 = Some (self', m3)"
        "keeps m1 m3" "same_inst ?self1 self'" "r \<noteq> None \<longrightarrow> pj_dropped self' = pj_dropped ?self1 + of_nat (length (rtp_of ?drp))"
        "delivered given' (addrs inst') (add_mset data F) L m1 (map (wrapper_of given' m) ?ready) r self' m3" unfolding ws by blast
    from release_delivered [OF l(6)] obtain m4 where m4: "Py_DECREF (Obj data) m3 = Some m4" "keeps m3 m4"
      "delivered given' (addrs inst') F L m1 (map (wrapper_of given' m) ?ready) r self' m4" by blast
    have d: "delivered given' (addrs inst') F L m (map (wrapper_of given' m) ?ready) r self' m4"
      using m4(3) k1 by (auto simp: delivered_def keeps_def)
    have "method_ok given' F L m (map (wrapper_of given' m) ?ready) inst' (ready_result r) self' m4"
      by (rule delivered_method [OF d keeps_trans [OF keeps_trans [OF k1 l(3)] m4(2)] same_inst_trans [OF same l(4)]])
        (use ok st keys(1) in \<open>auto simp: pj_ok_def step_ok_def\<close>)
    moreover have "udp_in_result True ?self ruir data q m = Some (ready_result r, self', m4)"
      using err stored l(1,2) m4(1) by (simp add: udp_in_result_def)
    ultimately show ?thesis using l(5) by (auto simp: ready_result_def split: option.splits)
  qed
qed

end
