(* ===== verification/Rtp_Jbuf_Class.thy ===== *)
theory Rtp_Jbuf_Class
  imports Rtp_Jbuf_Refs
begin

text \<open>
  An \<open>RtpJBuf\<close> object in a Python program: the program makes bytes objects and opaque ones, passes them to the methods, keeps the wrappers it gets,
  and drops its references and wrappers in any order. It never uses an object it has no reference to. The list that a method returns is assumed to be
  allocated (\<open>PyList_New\<close>); every other allocation may fail.
\<close>

section \<open>The program and the object\<close>

text \<open>
  The references the program holds, its wrappers, and, as history, the opaque object that was last passed with a bytes object.
\<close>

record py_sys =
  sys_self :: PyRtpJBuf
  sys_mem :: py_mem
  sys_refs :: "addr list"
  sys_ws :: "PyFrameWrapper list"
  sys_given :: "addr \<Rightarrow> py_ref"

datatype py_input =
    In_udp_in bool data_arg py_ref
  | In_flush
  | In_new_bytes addr "u8 list"
  | In_new_object addr
  | In_release addr
  | In_drop_wrapper nat
  | In_init_wrapper nat

type_synonym py_output = "jb_exc + PyFrameWrapper list"

fun arg_addr :: "data_arg \<Rightarrow> addr option" where
  "arg_addr (Data_bytes x) = Some x"
| "arg_addr (Data_new r) = map_option fst r"

definition sys_result :: "py_sys \<Rightarrow> (addr \<Rightarrow> py_ref) \<Rightarrow> py_output \<times> PyRtpJBuf \<times> py_mem \<Rightarrow> py_output \<times> py_sys" where
  "sys_result s given res = (case res of (r, self', m') \<Rightarrow>
     (r, s\<lparr>sys_self := self', sys_mem := m', sys_given := given, sys_ws := sys_ws s @ (case r of Inl e \<Rightarrow> [] | Inr ws \<Rightarrow> ws)\<rparr>))"

definition sys_new_object :: "addr \<Rightarrow> u8 list option \<Rightarrow> py_sys \<Rightarrow> py_sys" where
  "sys_new_object x bs s = s\<lparr>sys_mem := (sys_mem s)\<lparr>bytes_of := (bytes_of (sys_mem s))(x := bs), refcnt := (refcnt (sys_mem s))(x := 1)\<rparr>,
     sys_refs := x # sys_refs s\<rparr>"

fun py_step :: "py_sys \<Rightarrow> py_input \<Rightarrow> (py_output \<times> py_sys) option" where
  "py_step s (In_udp_in malloc_ok arg q) =
     map_option (sys_result s (case arg_addr arg of None \<Rightarrow> sys_given s | Some x \<Rightarrow> (sys_given s)(x := q)))
       (PyRtpJBuf_udp_in malloc_ok True (Some (arg, q)) (sys_self s) (sys_mem s))"
| "py_step s In_flush = map_option (sys_result s (sys_given s)) (PyRtpJBuf_flush True True (sys_self s) (sys_mem s))"
| "py_step s (In_new_bytes x bs) = Some (Inr [], sys_new_object x (Some bs) s)"
| "py_step s (In_new_object x) = Some (Inr [], sys_new_object x None s)"
| "py_step s (In_release x) =
     map_option (\<lambda>m'. (Inr [], s\<lparr>sys_mem := m', sys_refs := remove1 x (sys_refs s)\<rparr>)) (Py_DECREF (Obj x) (sys_mem s))"
| "py_step s (In_drop_wrapper i) =
     map_option (\<lambda>m'. (Inr [], s\<lparr>sys_mem := m', sys_ws := take i (sys_ws s) @ drop (Suc i) (sys_ws s)\<rparr>))
       (PyFrameWrapper_dealloc (sys_ws s ! i) (sys_mem s))"
| "py_step s (In_init_wrapper i) =
     map_option (\<lambda>(e, w, m'). (Inr [], s\<lparr>sys_mem := m', sys_ws := (sys_ws s)[i := w]\<rparr>))
       (PyFrameWrapper_init True (sys_ws s ! i) (sys_mem s))"

definition sys_inst :: "py_sys \<Rightarrow> rtpjbuf_inst" where
  "sys_inst s = the (pj_jb (sys_self s))"

text \<open>All references of the program.\<close>

definition sys_owned :: "py_sys \<Rightarrow> addr multiset" where
  "sys_owned s = mset (sys_refs s) + (\<Sum>w\<leftarrow>sys_ws s. wrap_refs w)"

definition holds_ref :: "py_sys \<Rightarrow> py_ref \<Rightarrow> bool" where
  "holds_ref s q = (case q of NULL \<Rightarrow> False | PyNone \<Rightarrow> True | Obj x \<Rightarrow> x \<in> set (sys_refs s))"

fun data_ok :: "py_sys \<Rightarrow> data_arg \<Rightarrow> bool" where
  "data_ok s (Data_bytes x) \<longleftrightarrow> x \<in> set (sys_refs s) \<and> 2 \<le> x \<and> x \<notin> set (map pk_data (queued (sys_inst s))) \<and>
     (case bytes_of (sys_mem s) x of None \<Rightarrow> False | Some bs \<Rightarrow> udp_in_admissible (sys_inst s) bs)"
| "data_ok s (Data_new None) \<longleftrightarrow> True"
| "data_ok s (Data_new (Some (x, bs))) \<longleftrightarrow> refcnt (sys_mem s) x = 0 \<and> 2 \<le> x \<and> udp_in_admissible (sys_inst s) bs"

fun py_adm :: "py_sys \<Rightarrow> py_input \<Rightarrow> bool" where
  "py_adm s (In_udp_in malloc_ok arg q) \<longleftrightarrow> data_ok s arg \<and> holds_ref s q"
| "py_adm s In_flush \<longleftrightarrow> seq_room (sys_inst s)"
| "py_adm s (In_new_bytes x bs) \<longleftrightarrow> refcnt (sys_mem s) x = 0"
| "py_adm s (In_new_object x) \<longleftrightarrow> refcnt (sys_mem s) x = 0"
| "py_adm s (In_release x) \<longleftrightarrow> x \<in> set (sys_refs s)"
| "py_adm s (In_drop_wrapper i) \<longleftrightarrow> i < length (sys_ws s)"
| "py_adm s (In_init_wrapper i) \<longleftrightarrow> i < length (sys_ws s)"

definition sys_objs :: "py_sys \<Rightarrow> py_kind multiset" where
  "sys_objs s = (\<Sum>w\<leftarrow>sys_ws s. wrap_objs w) + {#K_RtpJBuf#}"

definition sys_ok :: "py_sys \<Rightarrow> bool" where
  "sys_ok s \<longleftrightarrow> pj_ok (sys_given s) (sys_owned s) (sys_objs s) (sys_inst s) (sys_self s) (sys_mem s)"

text \<open>A new object in an empty interpreter; the list tells which of the next allocations succeed.\<close>

definition sys_start :: "bool list \<Rightarrow> u32 \<Rightarrow> py_sys" where
  "sys_start oks capacity =
     (let m = \<lparr>bytes_of = (\<lambda>x. None), refcnt = (\<lambda>x. 0), allocs = [], created = (\<lambda>k. 0), freed = (\<lambda>k. 0), counting_enabled = True\<rparr>;
          (self, m1) = PyRtpJBuf_new m;
          (e, self1) = PyRtpJBuf_init True True (Some capacity) (the self)
      in \<lparr>sys_self = self1, sys_mem = m1\<lparr>allocs := oks\<rparr>, sys_refs = [], sys_ws = [], sys_given = (\<lambda>x. NULL)\<rparr>)"

section \<open>Every step keeps the books\<close>

lemma empty_table: "tab (replicate n empty_ref) = {#}" "slot_refs (replicate n empty_ref) = {#}" "table_ok given (replicate n empty_ref)"
  by (induction n) (auto simp: empty_ref_def slot_ok_def)

lemma sys_start_ok:
  assumes "3 \<le> capacity"
  shows "sys_ok (sys_start oks capacity)"
proof -
  let ?s = "sys_start oks capacity"
  obtain inst where c: "rtpjbuf_ctor True capacity = Some inst" by (simp add: rtpjbuf_ctor_def)
  note i = ctor_inv [OF c assms]
  have self: "sys_self ?s = \<lparr>pj_jb = Some inst, pj_refs = Some (replicate (unat capacity) empty_ref), pj_capacity = capacity, pj_dropped = 0\<rparr>"
    "sys_owned ?s = {#}" "sys_objs ?s = {#K_RtpJBuf#}" "sys_inst ?s = inst"
    by (simp_all add: sys_start_def PyRtpJBuf_new_def py_generic_new_def py_new_def py_alloc_def PyRtpJBuf_init_def c sys_owned_def sys_objs_def sys_inst_def)
  have "owned (sys_mem ?s) {#} {#K_RtpJBuf#}"
    by (auto simp: sys_start_def PyRtpJBuf_new_def py_generic_new_def py_new_def py_alloc_def PyRtpJBuf_init_def c owned_def count_created_def count_inc_def)
  then show ?thesis using i by (simp add: sys_ok_def pj_ok_def self class_ok_def empty_table)
qed

text \<open>What the program does between the calls.\<close>

text \<open>An operation that consumes references \<open>G\<close> and objects \<open>K\<close> of the program.\<close>

lemma pj_ok_op:
  assumes ok: "pj_ok given (F + G) (K + L) inst self m"
    and op: "\<And>F'. owned m (F' + G) (K + L) \<Longrightarrow> \<exists>m'. f m = Some m' \<and> owned m' F' L \<and> keeps m m'"
  shows "\<exists>m'. f m = Some m' \<and> pj_ok given F L inst self m' \<and> keeps m m'"
proof -
  from ok obtain rs where rs: "pj_refs self = Some rs" "table_ok given rs" "tab rs = addrs inst" "owned m (F + slot_refs rs + G) (K + L)"
    by (auto simp: pj_ok_def class_ok_def ac_simps)
  from op [OF rs(4)] obtain m' where m': "f m = Some m'" "owned m' (F + slot_refs rs) L" "keeps m m'" by blast
  have "class_ok given (addrs inst) F L self m'" using rs(1-3) m'(2) by (auto simp: class_ok_def)
  from pj_ok_after [OF this m'(3) same_inst_refl] ok m'(1,3) show ?thesis by (simp add: pj_ok_def)
qed

lemma pj_ok_new_object:
  assumes ok: "pj_ok given F L inst self m" and new: "refcnt m x = 0"
  shows "pj_ok given (add_mset x F) L inst self (m\<lparr>bytes_of := (bytes_of m)(x := bs), refcnt := (refcnt m)(x := 1)\<rparr>)" (is "pj_ok _ _ _ _ _ ?m")
    and "x \<notin># addrs inst"
proof -
  have alive: "0 < refcnt m y" if "y \<in># addrs inst" for y
  proof -
    have "y \<in># addrs inst + F" using that by simp
    moreover have "class_ok given (addrs inst) F L self m" using ok by (simp add: pj_ok_def)
    ultimately show ?thesis by (blast intro: class_ok_alive)
  qed
  show x: "x \<notin># addrs inst" using alive [of x] new by auto
  have "key_ok ?m k" if "k \<in># held (queued inst)" for k
  proof -
    have "snd k \<in># addrs inst" using that unfolding held_addr [symmetric] by simp
    with x have "snd k \<noteq> x" by blast
    with ok that show ?thesis by (auto simp: key_ok_def pj_ok_def)
  qed
  moreover have "owned ?m (add_mset x F + slot_refs rs) L" if "owned m (F + slot_refs rs) L" for rs
  proof -
    have "count F x + count (slot_refs rs) x = 0" using that new by (simp add: owned_def)
    with that show ?thesis by (auto simp: owned_def fun_eq_iff)
  qed
  then have "class_ok given (addrs inst) (add_mset x F) L self ?m" using ok by (auto simp: pj_ok_def class_ok_def)
  ultimately show "pj_ok given (add_mset x F) L inst self ?m" using ok by (simp add: pj_ok_def)
qed

lemma pj_ok_given:
  assumes "pj_ok given F L inst self m" "x \<notin># addrs inst"
  shows "pj_ok (given(x := q)) F L inst self m"
  using assms class_ok_given [of given "addrs inst" F L self m x q] by (simp add: pj_ok_def)

text \<open>An object that stays alive keeps its contents.\<close>

definition steady :: "py_sys \<Rightarrow> py_sys \<Rightarrow> bool" where
  "steady s s' \<longleftrightarrow> (\<forall>x. 0 < refcnt (sys_mem s) x \<longrightarrow> 0 < refcnt (sys_mem s') x \<longrightarrow> bytes_of (sys_mem s') x = bytes_of (sys_mem s) x)"

lemma steady_keeps: "keeps (sys_mem s) (sys_mem s') \<Longrightarrow> steady s s'"
  by (simp add: steady_def keeps_def)

lemma sys_jb: "sys_ok s \<Longrightarrow> pj_jb (sys_self s) = Some (sys_inst s)"
  by (simp add: sys_ok_def pj_ok_def)

lemma new_object_step: "sys_ok s \<Longrightarrow> refcnt (sys_mem s) x = 0 \<Longrightarrow> sys_ok (sys_new_object x bs s) \<and> steady s (sys_new_object x bs s)"
  using pj_ok_new_object(1) [of "sys_given s" "sys_owned s" "sys_objs s" "sys_inst s" "sys_self s" "sys_mem s" x bs]
  by (simp add: sys_ok_def sys_new_object_def sys_owned_def sys_objs_def sys_inst_def steady_def)

lemma release_step:
  assumes "sys_ok s" "x \<in> set (sys_refs s)"
  shows "\<exists>r s'. py_step s (In_release x) = Some (r, s') \<and> sys_ok s' \<and> steady s s'"
proof -
  let ?F = "mset (remove1 x (sys_refs s)) + (\<Sum>w\<leftarrow>sys_ws s. wrap_refs w)"
  have "sys_owned s = ?F + ref_mset (Obj x)" using assms(2) by (simp add: sys_owned_def)
  with assms(1) have "pj_ok (sys_given s) (?F + ref_mset (Obj x)) ({#} + sys_objs s) (sys_inst s) (sys_self s) (sys_mem s)"
    by (simp add: sys_ok_def)
  from pj_ok_op [OF this, of "Py_DECREF (Obj x)"] Py_DECREF_owned [of "sys_mem s" _ "Obj x" "sys_objs s"]
  obtain m' where m': "Py_DECREF (Obj x) (sys_mem s) = Some m'" "pj_ok (sys_given s) ?F (sys_objs s) (sys_inst s) (sys_self s) m'" "keeps (sys_mem s) m'"
    by auto
  from m'(2,3) have "sys_ok (s\<lparr>sys_mem := m', sys_refs := remove1 x (sys_refs s)\<rparr>)" "steady s (s\<lparr>sys_mem := m', sys_refs := remove1 x (sys_refs s)\<rparr>)"
    by (simp_all add: sys_ok_def sys_owned_def sys_objs_def sys_inst_def steady_keeps)
  with m'(1) show ?thesis by (simp del: Py_DECREF.simps)
qed

lemma sum_list_remove:
  fixes f :: "'a \<Rightarrow> 'b multiset"
  assumes "i < length xs"
  shows "(\<Sum>x\<leftarrow>xs. f x) = (\<Sum>x\<leftarrow>take i xs @ drop (Suc i) xs. f x) + f (xs ! i)"
  by (subst id_take_nth_drop [OF assms]) (simp add: ac_simps)

lemma sum_list_replace:
  fixes f :: "'a \<Rightarrow> 'b multiset"
  assumes "i < length xs"
  shows "(\<Sum>x\<leftarrow>xs[i := y]. f x) = (\<Sum>x\<leftarrow>take i xs @ drop (Suc i) xs. f x) + f y"
  by (simp add: upd_conv_take_nth_drop [OF assms] ac_simps)

text \<open>The program without one of its wrappers.\<close>

lemma sys_ok_wrapper:
  assumes "sys_ok s" "i < length (sys_ws s)"
  defines "ws \<equiv> take i (sys_ws s) @ drop (Suc i) (sys_ws s)"
  shows "pj_ok (sys_given s) (mset (sys_refs s) + (\<Sum>w\<leftarrow>ws. wrap_refs w) + wrap_refs (sys_ws s ! i))
    (wrap_objs (sys_ws s ! i) + ((\<Sum>w\<leftarrow>ws. wrap_objs w) + {#K_RtpJBuf#})) (sys_inst s) (sys_self s) (sys_mem s)"
  using assms(1) unfolding sys_ok_def sys_owned_def sys_objs_def sum_list_remove [OF assms(2)] ws_def by (simp add: ac_simps)

lemma drop_wrapper_step:
  assumes "sys_ok s" "i < length (sys_ws s)"
  shows "\<exists>r s'. py_step s (In_drop_wrapper i) = Some (r, s') \<and> sys_ok s' \<and> steady s s'"
  using pj_ok_op [OF sys_ok_wrapper [OF assms], of "PyFrameWrapper_dealloc (sys_ws s ! i)"] PyFrameWrapper_dealloc_owned
  by (auto simp: sys_ok_def sys_owned_def sys_objs_def sys_inst_def intro!: steady_keeps)

definition none_wrapper :: PyFrameWrapper where
  "none_wrapper = \<lparr>w_content = C_none, w_data = PyNone, w_rtp_data = None, w_opaque = PyNone\<rparr>"

lemma none_wrapper_owns: "wrap_refs none_wrapper = {#}" "wrap_objs none_wrapper = {#K_FrameWrapper#}"
  by (simp_all add: none_wrapper_def wrap_refs_def wrap_objs_def)

lemma PyFrameWrapper_init_owned:
  assumes "owned m (F + wrap_refs w) (content_objs (w_content w) + L)"
  shows "\<exists>m'. PyFrameWrapper_init True w m = Some (None, none_wrapper, m') \<and> owned m' F L \<and> keeps m m'"
proof -
  from assms have "owned (content_dealloc (w_content w) m) (F + ref_mset (w_data w) + ref_mset (w_opaque w)) L"
    by (auto simp: wrap_refs_def ac_simps intro!: content_dealloc_owned)
  from XDECREF_pair_owned [OF this] show ?thesis by (auto simp: PyFrameWrapper_init_def none_wrapper_def keeps_def)
qed

lemma init_wrapper_step:
  assumes "sys_ok s" "i < length (sys_ws s)"
  shows "\<exists>r s'. py_step s (In_init_wrapper i) = Some (r, s') \<and> sys_ok s' \<and> steady s s'"
proof -
  let ?ws = "take i (sys_ws s) @ drop (Suc i) (sys_ws s)" and ?f = "\<lambda>m. map_option (\<lambda>(e, w, m'). m') (PyFrameWrapper_init True (sys_ws s ! i) m)"
  let ?F = "mset (sys_refs s) + (\<Sum>w\<leftarrow>?ws. wrap_refs w)" and ?L = "add_mset K_FrameWrapper ((\<Sum>w\<leftarrow>?ws. wrap_objs w) + {#K_RtpJBuf#})"
  have ok: "pj_ok (sys_given s) (?F + wrap_refs (sys_ws s ! i)) (content_objs (w_content (sys_ws s ! i)) + ?L) (sys_inst s) (sys_self s) (sys_mem s)"
    using sys_ok_wrapper [OF assms] by (simp add: wrap_objs_def [of "sys_ws s ! i"] add.commute add_mset_commute)
  have "\<exists>m'. ?f (sys_mem s) = Some m' \<and> pj_ok (sys_given s) ?F ?L (sys_inst s) (sys_self s) m' \<and> keeps (sys_mem s) m'"
    using PyFrameWrapper_init_owned by (intro pj_ok_op [OF ok]) fastforce
  then obtain m' where m': "?f (sys_mem s) = Some m'" "pj_ok (sys_given s) ?F ?L (sys_inst s) (sys_self s) m'" "keeps (sys_mem s) m'" by blast
  have "PyFrameWrapper_init True (sys_ws s ! i) (sys_mem s) = Some (None, none_wrapper, m')"
    using m'(1) by (auto simp: PyFrameWrapper_init_def none_wrapper_def split: bind_splits)
  moreover have "sys_ok (s\<lparr>sys_mem := m', sys_ws := (sys_ws s)[i := none_wrapper]\<rparr>)"
    using m'(2) unfolding sys_ok_def sys_owned_def sys_objs_def
    by (simp add: sum_list_replace [OF assms(2)] sys_inst_def none_wrapper_owns add_mset_commute del: sum_list_append map_append)
  ultimately show ?thesis using m'(3) by (simp add: steady_keeps)
qed

text \<open>The methods.\<close>

lemma sys_result_ok:
  assumes "method_ok given (sys_owned s) (sys_objs s) m ws inst' r self' m'"
  shows "sys_ok (snd (sys_result s given (r, self', m')))" "sys_inst (snd (sys_result s given (r, self', m'))) = inst'"
  using assms by (auto simp: method_ok_def sys_result_def sys_ok_def sys_owned_def sys_objs_def sys_inst_def pj_ok_def ac_simps)

text \<open>
  A wrapper tells the truth about its bytes object: the header fields are those of the packet in it, the payload is its payload, and the logical
  sequence number extends the one of the header.
\<close>

definition wrapper_ok :: "py_mem \<Rightarrow> PyFrameWrapper \<Rightarrow> bool" where
  "wrapper_ok m w \<longleftrightarrow> w = none_wrapper \<or> (\<exists>e. w = ers_wrapper e) \<or>
     (\<exists>p q bs. w = rtp_wrapper p (Obj (pk_data p)) q (take (data_size (pk_info p)) (drop (data_offset (pk_info p)) bs)) \<and>
        bytes_of m (pk_data p) = Some bs \<and> rtp_packet_parse_raw bs rtp_info_zero = Some (RTP_PARSER_OK, pk_info p) \<and>
        unat (lseq p) mod 65536 = unat (ri_seq (pk_info p)))"

definition sys_typed :: "py_sys \<Rightarrow> bool" where
  "sys_typed s \<longleftrightarrow> (\<forall>w \<in> set (sys_ws s). wrapper_ok (sys_mem s) w)"

lemma sys_alive:
  assumes "sys_ok s" "x \<in># sys_owned s"
  shows "0 < refcnt (sys_mem s) x"
proof -
  have "x \<in># addrs (sys_inst s) + sys_owned s" using assms(2) by simp
  moreover have "class_ok (sys_given s) (addrs (sys_inst s)) (sys_owned s) (sys_objs s) (sys_self s) (sys_mem s)" using assms(1) by (simp add: sys_ok_def pj_ok_def)
  ultimately show ?thesis by (blast intro: class_ok_alive)
qed

lemma wrapper_refs_owned: "w \<in> set (sys_ws s) \<Longrightarrow> x \<in># wrap_refs w \<Longrightarrow> x \<in># sys_owned s"
  by (auto simp: sys_owned_def)

lemma rtp_wrapper_refs: "pk_data p \<in># wrap_refs (rtp_wrapper p (Obj (pk_data p)) q payload)"
  by (simp add: rtp_wrapper_def wrap_refs_def none_if_null_def)

text \<open>A wrapper that the program keeps stays true.\<close>

lemma wrapper_ok_step:
  assumes "sys_ok s" "sys_ok s'" "steady s s'" "wrapper_ok (sys_mem s) w" "w \<in> set (sys_ws s)" "w \<in> set (sys_ws s')"
  shows "wrapper_ok (sys_mem s') w"
proof -
  have same: "bytes_of (sys_mem s') x = bytes_of (sys_mem s) x" if "x \<in># wrap_refs w" for x
    using assms(3) sys_alive [OF assms(1) wrapper_refs_owned [OF assms(5) that]] sys_alive [OF assms(2) wrapper_refs_owned [OF assms(6) that]]
    by (simp add: steady_def)
  from assms(4) show ?thesis unfolding wrapper_ok_def using same rtp_wrapper_refs by metis
qed

lemma sys_typed_step:
  assumes "sys_ok s" "sys_ok s'" "steady s s'" "sys_typed s" "\<forall>w \<in> set (sys_ws s'). w \<in> set (sys_ws s) \<or> wrapper_ok (sys_mem s') w"
  shows "sys_typed s'"
  using wrapper_ok_step [OF assms(1-3)] assms(4,5) by (auto simp: sys_typed_def)

lemma tiles_seq: "tiles a fs b \<Longrightarrow> RFT_RTP p \<in> set fs \<Longrightarrow> unat (lseq p) mod 65536 = unat (ri_seq (pk_info p))"
  by (induction a fs b rule: tiles.induct) auto

text \<open>The wrappers that a method returns are true.\<close>

lemma wrapper_ok_new:
  assumes ok: "sys_ok s'" and st: "step_ok inst new ruir inst'" and keys: "\<forall>k \<in># held (queued inst) + new. key_ok m k"
    and k: "keeps m (sys_mem s')" and ws: "set (map (wrapper_of given m) (r_ready ruir)) \<subseteq> set (sys_ws s')" and f: "f \<in> set (r_ready ruir)"
  shows "wrapper_ok (sys_mem s') (wrapper_of given m f)"
proof (cases f)
  case (RFT_RTP p)
  let ?w = "wrapper_of given m f"
  have "p \<in> set (rtp_of (r_ready ruir))" using f RFT_RTP rtp_of_mem by blast
  with step_ok_keys(2) [OF st keys] have "key_ok m (pk_key p)" by blast
  then obtain bs where bs: "bytes_of m (pk_data p) = Some bs" "rtp_packet_parse_raw bs rtp_info_zero = Some (RTP_PARSER_OK, pk_info p)"
    "read_payload p m = Some (take (data_size (pk_info p)) (drop (data_offset (pk_info p)) bs))" by (rule key_ok_packet)
  have "?w \<in> set (sys_ws s')" using ws f by auto
  moreover have "pk_data p \<in># wrap_refs ?w" by (simp add: RFT_RTP rtp_wrapper_refs)
  ultimately have "0 < refcnt (sys_mem s') (pk_data p)" using sys_alive [OF ok] wrapper_refs_owned by blast
  with k bs(1) have "bytes_of (sys_mem s') (pk_data p) = Some bs" by (simp add: keeps_def)
  moreover have "unat (lseq p) mod 65536 = unat (ri_seq (pk_info p))"
    using st f tiles_seq [of _ "r_ready ruir" _ p] by (auto simp: step_ok_def advances_def RFT_RTP split: if_splits)
  ultimately show ?thesis using bs by (auto simp: wrapper_ok_def RFT_RTP)
qed (auto simp: wrapper_ok_def)

lemma flush_step:
  assumes "sys_ok s" "seq_room (sys_inst s)"
  shows "\<exists>ruir inst' r s'. rtpjbuf_flush (sys_inst s) = Some (ruir, inst') \<and> py_step s In_flush = Some (r, s') \<and> sys_ok s' \<and>
    sys_inst s' = inst' \<and> step_ok (sys_inst s) {#} ruir inst' \<and> keeps (sys_mem s) (sys_mem s') \<and>
    (r = Inl MemoryError \<and> allocs (sys_mem s) \<noteq> [] \<or>
     r = Inr (map (wrapper_of (sys_given s) (sys_mem s)) (r_ready ruir)) \<and>
     pj_dropped (sys_self s') = pj_dropped (sys_self s) + of_nat (length (rtp_of (r_drop ruir))))"
proof -
  from flush_class_ok assms obtain ruir inst' r self' m' where
    f: "rtpjbuf_flush (sys_inst s) = Some (ruir, inst')" "PyRtpJBuf_flush True True (sys_self s) (sys_mem s) = Some (r, self', m')"
      "method_ok (sys_given s) (sys_owned s) (sys_objs s) (sys_mem s) (map (wrapper_of (sys_given s) (sys_mem s)) (r_ready ruir)) inst' r self' m'"
      "step_ok (sys_inst s) {#} ruir inst'"
      "\<forall>ws. r = Inr ws \<longrightarrow> pj_dropped self' = pj_dropped (sys_self s) + of_nat (length (rtp_of (r_drop ruir)))"
    unfolding sys_ok_def by blast
  from f(3,5) have "r = Inl MemoryError \<and> allocs (sys_mem s) \<noteq> [] \<or> r = Inr (map (wrapper_of (sys_given s) (sys_mem s)) (r_ready ruir)) \<and>
     pj_dropped self' = pj_dropped (sys_self s) + of_nat (length (rtp_of (r_drop ruir)))" by (auto simp: method_ok_def)
  moreover have "keeps (sys_mem s) m'" using f(3) by (simp add: method_ok_def)
  ultimately show ?thesis using sys_result_ok [OF f(3)] f(1,2,4) by (auto simp: sys_result_def)
qed

text \<open>The bytes object that the packet is, or is converted to.\<close>

lemma ensure_bytes_ok:
  assumes "sys_ok s" "data_ok s arg" "holds_ref s q" "arg_addr arg = Some data"
  obtains bs m1 where "ensure_bytes arg (sys_mem s) = Some (Some (data, bs), m1)"
    "pj_ok (sys_given s) (add_mset data (sys_owned s)) (sys_objs s) (sys_inst s) (sys_self s) m1"
    "arg_ok (sys_owned s) (sys_inst s) data bs q m1" "allocs m1 = allocs (sys_mem s)"
    "\<forall>x. 0 < refcnt (sys_mem s) x \<longrightarrow> bytes_of m1 x = bytes_of (sys_mem s) x"
proof -
  have q: "q \<noteq> NULL" "ref_mset q \<subseteq># sys_owned s" using assms(3) by (auto simp: holds_ref_def sys_owned_def split: py_ref.splits)
  show thesis
  proof (cases arg)
    case (Data_bytes x)
    with assms(2,4) obtain bs where x: "x = data" "bytes_of (sys_mem s) data = Some bs" "data \<in> set (sys_refs s)" "2 \<le> data"
      "data \<notin># addrs (sys_inst s)" "udp_in_admissible (sys_inst s) bs" by (auto split: option.splits)
    have F: "ref_mset (Obj data) \<subseteq># sys_owned s" using x(3) by (simp add: sys_owned_def)
    from assms(1) obtain rs where rs: "pj_refs (sys_self s) = Some rs" "table_ok (sys_given s) rs" "tab rs = addrs (sys_inst s)"
      "owned (sys_mem s) (sys_owned s + slot_refs rs) (sys_objs s)" by (auto simp: sys_ok_def pj_ok_def class_ok_def)
    have "ref_mset (Obj data) \<subseteq># sys_owned s + slot_refs rs" using F by (rule subset_mset.order_trans) simp
    from Py_INCREF_owned [OF rs(4) this] obtain m1 where
      m1: "Py_INCREF (Obj data) (sys_mem s) = Some m1" "owned m1 (sys_owned s + slot_refs rs + ref_mset (Obj data)) (sys_objs s)" "keeps (sys_mem s) m1"
      by blast
    have "class_ok (sys_given s) (addrs (sys_inst s)) (add_mset data (sys_owned s)) (sys_objs s) (sys_self s) m1"
      using m1(2) rs(1-3) by (simp add: class_ok_def ac_simps)
    from pj_ok_after [OF this m1(3) same_inst_refl] assms(1)
    have "pj_ok (sys_given s) (add_mset data (sys_owned s)) (sys_objs s) (sys_inst s) (sys_self s) m1" by (simp add: sys_ok_def pj_ok_def)
    moreover have "bytes_of m1 = bytes_of (sys_mem s)" "allocs m1 = allocs (sys_mem s)" using m1(1) by (auto split: if_splits)
    ultimately show thesis using x q m1(1) by (intro that [of bs m1]) (auto simp: Data_bytes arg_ok_def)
  next
    case (Data_new n)
    with assms(4) obtain bs where n: "n = Some (data, bs)" by auto
    with assms(2) Data_new have "refcnt (sys_mem s) data = 0" "2 \<le> data" "udp_in_admissible (sys_inst s) bs" by auto
    with pj_ok_new_object(1) [OF assms(1) [unfolded sys_ok_def] this(1), of "Some bs"]
      pj_ok_new_object(2) [OF assms(1) [unfolded sys_ok_def] this(1)] q show thesis
      by (intro that [of bs "(sys_mem s)\<lparr>bytes_of := (bytes_of (sys_mem s))(data \<mapsto> bs), refcnt := (refcnt (sys_mem s))(data := 1)\<rparr>"])
        (simp_all add: Data_new n arg_ok_def)
  qed
qed

text \<open>What \<open>udp_in\<close> returns for an answer of the library.\<close>

definition udp_in_answer :: "(addr \<Rightarrow> py_ref) \<Rightarrow> py_mem \<Rightarrow> rjb_udp_in_r \<Rightarrow> py_output" where
  "udp_in_answer given m ruir =
     (if r_error ruir \<noteq> 0 then Inl (RTPParseError (r_error ruir)) else Inr (map (wrapper_of given m) (r_ready ruir)))"

lemma udp_in_step:
  assumes ok: "sys_ok s" and adm: "data_ok s arg" "holds_ref s q" and data: "arg_addr arg = Some data"
  obtains bs m1 ruir inst' r s' where "ensure_bytes arg (sys_mem s) = Some (Some (data, bs), m1)"
    "rtpjbuf_udp_in (sys_inst s) malloc_ok data bs = Some (ruir, inst')" "py_step s (In_udp_in malloc_ok arg q) = Some (r, s')"
    "sys_ok s'" "sys_inst s' = inst'" "step_ok (sys_inst s) (accepted malloc_ok data bs) ruir inst'"
    "keeps m1 (sys_mem s')" "steady s s'" "\<forall>k \<in># held (queued (sys_inst s)) + accepted malloc_ok data bs. key_ok m1 k"
    "sys_ws s' = sys_ws s @ (case r of Inl e \<Rightarrow> [] | Inr ws \<Rightarrow> ws)"
    "r = Inl MemoryError \<and> allocs (sys_mem s) \<noteq> [] \<or>
     r = udp_in_answer ((sys_given s)(data := q)) m1 ruir \<and>
       pj_dropped (sys_self s') = pj_dropped (sys_self s) + of_nat (length (rtp_of (r_drop ruir)))"
proof -
  let ?given = "(sys_given s)(data := q)"
  obtain bs m1 where e: "ensure_bytes arg (sys_mem s) = Some (Some (data, bs), m1)"
      "pj_ok (sys_given s) (add_mset data (sys_owned s)) (sys_objs s) (sys_inst s) (sys_self s) m1"
      "arg_ok (sys_owned s) (sys_inst s) data bs q m1" "allocs m1 = allocs (sys_mem s)"
      "\<forall>x. 0 < refcnt (sys_mem s) x \<longrightarrow> bytes_of m1 x = bytes_of (sys_mem s) x"
    using ensure_bytes_ok [OF ok adm data] .
  have a: "jb_inv (sys_inst s)" "udp_in_admissible (sys_inst s) bs" "data \<notin># addrs (sys_inst s)" using e(2,3) by (auto simp: pj_ok_def arg_ok_def)
  from rtpjbuf_udp_in_ok [OF a(1,2)] obtain ruir inst' where
    u: "rtpjbuf_udp_in (sys_inst s) malloc_ok data bs = Some (ruir, inst')" "step_ok (sys_inst s) (accepted malloc_ok data bs) ruir inst'" by blast
  have "length bs \<le> 33554432" "2 \<le> data" "bytes_of m1 data = Some bs" using e(3) by (auto simp: arg_ok_def udp_in_admissible_def)
  then have keys: "\<forall>k \<in># accepted malloc_ok data bs. key_ok m1 k" by (intro accepted_key_ok)
  have eq: "PyRtpJBuf_udp_in malloc_ok True (Some (arg, q)) (sys_self s) (sys_mem s) = udp_in_result True ((sys_self s)\<lparr>pj_jb := Some inst'\<rparr>) ruir data q m1"
    using e(1) u(1) sys_jb [OF ok] by (simp add: PyRtpJBuf_udp_in_def)
  have all_keys: "\<forall>k \<in># held (queued (sys_inst s)) + accepted malloc_ok data bs. key_ok m1 k" using keys e(2) by (auto simp: pj_ok_def)
  have steady: "steady s s'" if "keeps m1 (sys_mem s')" for s'
    using that e(5) by (simp add: steady_def keeps_def)
  note finish = that [OF e(1) u(1) _ _ _ u(2) _ _ all_keys]
  from udp_in_error [OF u(1)] show thesis
  proof (elim disjE conjE exE)
    assume f: "r_error ruir < 0" "accepted malloc_ok data bs = {#}" "r_ready ruir = []"
    from udp_in_failed [OF e(2,3) u(2) [unfolded f(2)] f(1,3)] obtain self' m' where
      r: "udp_in_result True ((sys_self s)\<lparr>pj_jb := Some inst'\<rparr>) ruir data q m1 = Some (Inl (RTPParseError (r_error ruir)), self', m')"
        "pj_ok (sys_given s) (sys_owned s) (sys_objs s) inst' self' m'"
        "pj_dropped self' = pj_dropped (sys_self s) + of_nat (length (rtp_of (r_drop ruir)))" "keeps m1 m'" by blast
    have "data \<notin># addrs inst'" using a(3) step_ok_addrs [OF u(2)] f(2) by (metis image_mset_empty add.right_neutral union_iff)
    from pj_ok_given [OF r(2) this, of q] have "sys_ok (snd (sys_result s ?given (Inl (RTPParseError (r_error ruir)), self', m')))"
      "sys_inst (snd (sys_result s ?given (Inl (RTPParseError (r_error ruir)), self', m'))) = inst'"
      by (simp_all add: sys_result_def sys_ok_def sys_owned_def sys_objs_def sys_inst_def pj_ok_def)
    then show thesis using f(1) r(1,3,4) eq data by (intro finish) (auto simp: udp_in_answer_def sys_result_def intro!: steady)
  next
    fix info assume f: "r_error ruir = 0" "accepted malloc_ok data bs = {#(info, data)#}"
    from udp_in_accepted [OF e(2,3) u(2) [unfolded f(2)] _ f(1)] keys f(2) obtain r self' m' where
      r: "udp_in_result True ((sys_self s)\<lparr>pj_jb := Some inst'\<rparr>) ruir data q m1 = Some (r, self', m')"
        "method_ok ?given (sys_owned s) (sys_objs s) m1 (map (wrapper_of ?given m1) (r_ready ruir)) inst' r self' m'"
        "\<forall>ws. r = Inr ws \<longrightarrow> pj_dropped self' = pj_dropped (sys_self s) + of_nat (length (rtp_of (r_drop ruir)))" by auto
    from r(2,3) have "r = Inl MemoryError \<and> allocs (sys_mem s) \<noteq> [] \<or> r = Inr (map (wrapper_of ?given m1) (r_ready ruir)) \<and>
        pj_dropped self' = pj_dropped (sys_self s) + of_nat (length (rtp_of (r_drop ruir)))" using e(4) by (auto simp: method_ok_def)
    moreover have "keeps m1 m'" using r(2) by (simp add: method_ok_def)
    ultimately show thesis using sys_result_ok [OF r(2)] f(1) r(1) eq data
      by (intro finish) (auto simp: udp_in_answer_def sys_result_def intro!: steady)
  qed
qed

text \<open>The invariant of the machine.\<close>

definition sys_good :: "py_sys \<Rightarrow> bool" where
  "sys_good s \<longleftrightarrow> sys_ok s \<and> sys_typed s"

lemma sys_start_good: "3 \<le> capacity \<Longrightarrow> sys_good (sys_start oks capacity)"
  using sys_start_ok by (simp add: sys_good_def sys_typed_def) (simp add: sys_start_def split: prod.splits)

lemma conversion_fails:
  assumes "sys_ok s" "arg_addr arg = None"
  shows "py_step s (In_udp_in malloc_ok arg q) = Some (Inl ConversionError, s)"
proof -
  have arg: "arg = Data_new None" using assms(2) by (cases arg) auto
  have "PyRtpJBuf_udp_in malloc_ok True (Some (arg, q)) (sys_self s) (sys_mem s) = Some (Inl ConversionError, sys_self s, sys_mem s)"
    using sys_jb [OF assms(1)] by (simp add: PyRtpJBuf_udp_in_def arg)
  then show ?thesis by (simp add: arg sys_result_def)
qed

lemma udp_in_good:
  assumes "sys_good s" "data_ok s arg" "holds_ref s q" "arg_addr arg = Some data"
  shows "\<exists>r s'. py_step s (In_udp_in malloc_ok arg q) = Some (r, s') \<and> sys_good s'"
proof (rule udp_in_step [OF _ assms(2-4), of malloc_ok])
  show "sys_ok s" using assms(1) by (simp add: sys_good_def)
  fix bs m1 ruir inst' r s'
  assume st: "py_step s (In_udp_in malloc_ok arg q) = Some (r, s')" and ok: "sys_ok s'" and step: "step_ok (sys_inst s) (accepted malloc_ok data bs) ruir inst'"
    and k: "keeps m1 (sys_mem s')" "steady s s'" and keys: "\<forall>k \<in># held (queued (sys_inst s)) + accepted malloc_ok data bs. key_ok m1 k"
    and ws: "sys_ws s' = sys_ws s @ (case r of Inl e \<Rightarrow> [] | Inr ws \<Rightarrow> ws)"
    and r: "r = Inl MemoryError \<and> allocs (sys_mem s) \<noteq> [] \<or> r = udp_in_answer ((sys_given s)(data := q)) m1 ruir \<and>
      pj_dropped (sys_self s') = pj_dropped (sys_self s) + of_nat (length (rtp_of (r_drop ruir)))"
  have "\<forall>w \<in> set (sys_ws s'). w \<in> set (sys_ws s) \<or> wrapper_ok (sys_mem s') w"
  proof (cases r)
    case (Inl e)
    then show ?thesis using ws by simp
  next
    case (Inr l)
    then have l: "l = map (wrapper_of ((sys_given s)(data := q)) m1) (r_ready ruir)" using r by (auto simp: udp_in_answer_def split: if_splits)
    with ws Inr have sub: "set (map (wrapper_of ((sys_given s)(data := q)) m1) (r_ready ruir)) \<subseteq> set (sys_ws s')" by simp
    from wrapper_ok_new [OF ok step keys k(1) sub] show ?thesis using ws Inr l by auto
  qed
  with sys_typed_step [OF _ ok k(2)] assms(1) ok have "sys_good s'" by (simp add: sys_good_def)
  with st show ?thesis by blast
qed

lemma flush_good:
  assumes "sys_good s" "seq_room (sys_inst s)"
  shows "\<exists>r s'. py_step s In_flush = Some (r, s') \<and> sys_good s'"
proof -
  have good: "sys_ok s" "sys_typed s" using assms(1) by (simp_all add: sys_good_def)
  from flush_step [OF good(1) assms(2)] obtain ruir inst' r s' where
    st: "py_step s In_flush = Some (r, s')" "sys_ok s'" "step_ok (sys_inst s) {#} ruir inst'" "keeps (sys_mem s) (sys_mem s')"
      "r = Inl MemoryError \<or> r = Inr (map (wrapper_of (sys_given s) (sys_mem s)) (r_ready ruir))" by blast
  have ws: "sys_ws s' = sys_ws s @ (case r of Inl e \<Rightarrow> [] | Inr ws \<Rightarrow> ws)" using st(1) by (auto simp: sys_result_def)
  have keys: "\<forall>k \<in># held (queued (sys_inst s)) + {#}. key_ok (sys_mem s) k" using good(1) by (simp add: sys_ok_def pj_ok_def)
  have "\<forall>w \<in> set (sys_ws s'). w \<in> set (sys_ws s) \<or> wrapper_ok (sys_mem s') w"
    using wrapper_ok_new [OF st(2,3) keys st(4), of "sys_given s"] st(5) ws by auto
  from sys_typed_step [OF good(1) st(2) steady_keeps [OF st(4)] good(2) this] st(1,2) show ?thesis by (auto simp: sys_good_def)
qed

lemma sys_good_step:
  assumes "sys_good s" "\<exists>r s'. py_step s i = Some (r, s') \<and> sys_ok s' \<and> steady s s'"
    and "\<And>r s'. py_step s i = Some (r, s') \<Longrightarrow> set (sys_ws s') \<subseteq> insert none_wrapper (set (sys_ws s))"
  shows "\<exists>r s'. py_step s i = Some (r, s') \<and> sys_good s'"
proof -
  from assms(2) obtain r s' where st: "py_step s i = Some (r, s')" "sys_ok s'" "steady s s'" by blast
  have "\<forall>w \<in> set (sys_ws s'). w \<in> set (sys_ws s) \<or> wrapper_ok (sys_mem s') w" using assms(3) [OF st(1)] by (auto simp: wrapper_ok_def)
  with sys_typed_step [of s s'] assms(1) st show ?thesis by (auto simp: sys_good_def)
qed

lemma py_step_good:
  assumes "sys_good s" "py_adm s i"
  shows "\<exists>r s'. py_step s i = Some (r, s') \<and> sys_good s'"
proof (cases i)
  case (In_udp_in malloc_ok arg q)
  have ok: "sys_ok s" using assms(1) by (simp add: sys_good_def)
  show ?thesis
  proof (cases "arg_addr arg")
    case None
    with conversion_fails [OF ok this] assms(1) In_udp_in show ?thesis by blast
  next
    case (Some data)
    with udp_in_good [OF assms(1)] assms(2) In_udp_in show ?thesis by simp
  qed
next
  case In_flush
  with flush_good [OF assms(1)] assms(2) show ?thesis by simp
next
  case (In_release x)
  show ?thesis
    by (rule sys_good_step [OF assms(1)]) (use assms release_step [of s x] In_release in \<open>auto simp: sys_good_def simp del: Py_DECREF.simps\<close>)
next
  case (In_drop_wrapper n)
  show ?thesis
    by (rule sys_good_step [OF assms(1)])
      (use assms drop_wrapper_step [of s n] In_drop_wrapper in \<open>auto simp: sys_good_def dest: in_set_takeD in_set_dropD\<close>)
next
  case (In_init_wrapper n)
  have "set ((sys_ws s)[n := none_wrapper]) \<subseteq> insert none_wrapper (set (sys_ws s))" by (rule set_update_subset_insert)
  then show ?thesis using assms init_wrapper_step [of s n] In_init_wrapper
    by (intro sys_good_step [OF assms(1)]) (auto simp: sys_good_def PyFrameWrapper_init_def none_wrapper_def split: bind_splits)
next
  case (In_new_bytes x bs)
  with assms new_object_step [of s x "Some bs"] show ?thesis
    by (intro sys_good_step [OF assms(1)]) (auto simp: sys_good_def sys_new_object_def)
next
  case (In_new_object x)
  with assms new_object_step [of s x None] show ?thesis
    by (intro sys_good_step [OF assms(1)]) (auto simp: sys_good_def sys_new_object_def)
qed

interpretation pyclass: invariant_machine py_step py_adm sys_good
proof
  fix s i assume "sys_good s" "py_adm s i"
  from py_step_good [OF this] show "py_step s i \<noteq> None" by auto
next
  fix s i out s' assume "sys_good s" "py_adm s i" "py_step s i = Some (out, s')"
  with py_step_good [OF this(1,2)] show "sys_good s'" by auto
qed

section \<open>Destruction\<close>

lemma free_refs_owned:
  "owned m (F + slot_refs rs) L \<Longrightarrow> \<exists>m'. free_refs rs m = Some m' \<and> owned m' F L \<and> keeps m m'"
proof (induction rs arbitrary: m)
  case Nil
  then show ?case by simp
next
  case (Cons r rs)
  then have "owned m (F + slot_refs rs + ref_mset (ref_data r) + ref_mset (ref_opaque r)) L" by (simp add: ac_simps)
  from XDECREF_pair_owned [OF this] obtain m1 m2 where
    m: "Py_XDECREF (ref_data r) m = Some m1" "Py_XDECREF (ref_opaque r) m1 = Some m2" "owned m2 (F + slot_refs rs) L" "keeps m m2" by blast
  from Cons.IH [OF m(3)] m show ?case by (auto intro: keeps_trans)
qed

lemma flush_empty: "queued inst = [] \<Longrightarrow> rtpjbuf_flush inst = Some (\<lparr>r_error = 0, r_ready = [], r_drop = []\<rparr>, inst)"
  by (simp add: rtpjbuf_flush_def)

text \<open>One flush empties the buffer, the next one finds nothing.\<close>

lemma dealloc_loop_ok:
  assumes ok: "pj_ok given F L inst self m" and room: "seq_room inst"
  shows "\<exists>self' inst' m'. dealloc_loop 2 self inst m = Some (self', inst', m') \<and> queued inst' = [] \<and> class_ok given {#} F L self' m' \<and> keeps m m'"
proof (rule flush_lists [OF ok room])
  fix ruir inst'
  assume f: "rtpjbuf_flush inst = Some (ruir, inst')" "step_ok inst {#} ruir inst'" "queued inst' = []"
    and c: "class_ok given (addrs inst' + cached NO_INPUT_PTR (r_ready ruir) + cached NO_INPUT_PTR (r_drop ruir)) F L (self\<lparr>pj_jb := Some inst'\<rparr>) m"
  have nz: "NO_INPUT_PTR \<noteq> 0" by (simp add: NO_INPUT_PTR_def)
  have "class_ok given ({#} + cached NO_INPUT_PTR (r_drop ruir) + cached NO_INPUT_PTR (r_ready ruir)) F L self m"
    using c f(3) by (simp add: class_ok_def ac_simps)
  from process_drop_list_ok [OF this nz] obtain self1 m1 where
    d1: "process_drop_list self (r_ready ruir) NO_INPUT_PTR m = Some (self1, m1)" "class_ok given ({#} + cached NO_INPUT_PTR (r_drop ruir)) F L self1 m1"
      "keeps m m1" by blast
  from process_drop_list_ok [OF d1(2) nz] obtain self2 m2 where
    d2: "process_drop_list self1 (r_drop ruir) NO_INPUT_PTR m1 = Some (self2, m2)" "class_ok given {#} F L self2 m2" "keeps m1 m2" by blast
  show ?thesis
  proof (cases "r_ready ruir = [] \<and> r_drop ruir = []")
    case True
    with d1(1) d2(1) have "self2 = self" "m2 = m" by simp_all
    with True f d2(2) show ?thesis by (simp add: numeral_2_eq_2)
  next
    case False
    then have "dealloc_loop 2 self inst m = dealloc_loop 1 self2 inst' m2" using f(1) d1(1) d2(1) by (auto simp: numeral_2_eq_2)
    also have "\<dots> = Some (self2, inst', m2)" using flush_empty [OF f(3)] by simp
    finally show ?thesis using f(3) d2(2) keeps_trans [OF d1(3) d2(3)] by auto
  qed
qed

lemma dealloc_ok:
  assumes ok: "pj_ok given F (add_mset K_RtpJBuf L) inst self m" and room: "seq_room inst"
  shows "\<exists>self' m'. PyRtpJBuf_dealloc 2 self m = Some ([], self', m') \<and> pj_jb self' = None \<and> pj_refs self' = None \<and> owned m' F L \<and> keeps m m'"
proof -
  let ?m = "count_freed K_RtpJBuf m"
  have k: "keeps m ?m" by (simp add: keeps_def)
  from ok have "class_ok given (addrs inst) F L self ?m" by (auto simp: pj_ok_def class_ok_def intro: count_freed_owned)
  from pj_ok_after [OF this k same_inst_refl] ok have "pj_ok given F L inst self ?m" by (simp add: pj_ok_def)
  from dealloc_loop_ok [OF this room] obtain self1 inst' m1 where
    d: "dealloc_loop 2 self inst ?m = Some (self1, inst', m1)" "queued inst' = []" "class_ok given {#} F L self1 m1" "keeps ?m m1" by blast
  from d(3) obtain rs where rs: "pj_refs self1 = Some rs" "owned m1 (F + slot_refs rs) L" by (auto simp: class_ok_def)
  from free_refs_owned [OF rs(2)] obtain m2 where m2: "free_refs rs m1 = Some m2" "owned m2 F L" "keeps m1 m2" by blast
  have "pj_jb self = Some inst" using ok by (simp add: pj_ok_def)
  then show ?thesis using d(1,2) rs(1) m2 keeps_trans [OF keeps_trans [OF k d(4)] m2(3)]
    by (simp add: PyRtpJBuf_dealloc_def rtpjbuf_dtor_eq)
qed

section \<open>Properties\<close>

text \<open>Which exceptions a method can raise.\<close>

fun expected_output :: "py_output \<Rightarrow> bool" where
  "expected_output (Inl e) = (case e of RTPParseError code \<Rightarrow> code < 0 | MemoryError \<Rightarrow> True | ConversionError \<Rightarrow> True | _ \<Rightarrow> False)"
| "expected_output (Inr ws) = True"

lemma answer_expected: "rtpjbuf_udp_in s malloc_ok data bs = Some (ruir, s') \<Longrightarrow> expected_output (udp_in_answer given m ruir)"
  using udp_in_error [of s malloc_ok data bs ruir s'] by (auto simp: udp_in_answer_def)

lemma py_step_output:
  assumes "sys_ok s" "py_adm s i" "py_step s i = Some (r, s')"
  shows "expected_output r"
proof (cases i)
  case (In_udp_in malloc_ok arg q)
  with assms(2) have adm: "data_ok s arg" "holds_ref s q" by simp_all
  show ?thesis
  proof (cases "arg_addr arg")
    case None
    then have "arg = Data_new None" by (cases arg) auto
    with assms(3) sys_jb [OF assms(1)] show ?thesis by (auto simp: In_udp_in PyRtpJBuf_udp_in_def sys_result_def)
  next
    case (Some data)
    show ?thesis
      by (rule udp_in_step [OF assms(1) adm Some, of malloc_ok]) (use assms(3) In_udp_in answer_expected in auto)
  qed
next
  case In_flush
  with assms flush_step [of s] show ?thesis by auto
qed (use assms(3) in auto)

lemma py_run_output:
  assumes "sys_good s" "admissible_run py_step py_adm s is" "run_steps py_step s is = Some (outs, s')"
  shows "\<forall>r \<in> set outs. expected_output r"
  by (rule pyclass.run_chain [where R = "\<lambda>s outs s'. \<forall>r \<in> set outs. expected_output r", OF _ _ assms]) (auto simp: sys_good_def intro: py_step_output)

text \<open>A state that an object of this capacity can reach.\<close>

definition py_reaches :: "bool list \<Rightarrow> u32 \<Rightarrow> py_input list \<Rightarrow> py_output list \<Rightarrow> py_sys \<Rightarrow> bool" where
  "py_reaches oks capacity ins outs s \<longleftrightarrow> 3 \<le> capacity \<and> admissible_run py_step py_adm (sys_start oks capacity) ins \<and>
     run_steps py_step (sys_start oks capacity) ins = Some (outs, s)"

lemma py_reaches_good: "py_reaches oks capacity ins outs s \<Longrightarrow> sys_good s"
  using pyclass.run_ok [OF sys_start_good] by (fastforce simp: py_reaches_def)

lemma py_reaches_ok: "py_reaches oks capacity ins outs s \<Longrightarrow> sys_ok s"
  using py_reaches_good by (simp add: sys_good_def)

definition sample_py :: "py_input list" where
  "sample_py = [In_new_bytes 10 (sample_packet 0 7), In_new_object 20, In_udp_in True (Data_bytes 10) (Obj 20), In_release 10,
     In_udp_in True (Data_new (Some (11, sample_packet 0 9))) PyNone, In_udp_in True (Data_new (Some (12, [1, 2, 3]))) PyNone,
     In_udp_in True (Data_new (Some (13, sample_packet 0 6))) PyNone, In_init_wrapper 0, In_drop_wrapper 0, In_release 20]"

lemma sample_py_admissible: "admissible_run py_step py_adm (sys_start [] 3) sample_py"
  by code_simp

definition sample_sys :: py_sys where
  "sample_sys = snd (the (run_steps py_step (sys_start [] 3) sample_py))"

definition sample_outs :: "py_output list" where
  "sample_outs = fst (the (run_steps py_step (sys_start [] 3) sample_py))"

lemma sample_py_reaches: "py_reaches [] 3 sample_py sample_outs sample_sys"
proof -
  have "run_steps py_step (sys_start [] 3) sample_py \<noteq> None"
    using pyclass.run_ok [OF sys_start_good sample_py_admissible] by auto
  then show ?thesis using sample_py_admissible by (auto simp: py_reaches_def sample_sys_def sample_outs_def)
qed

text \<open>
  C4. The class never touches a freed object, and its books are exact. Whatever a program does with an object under these conditions: the capacity is
  at least 3, the datagrams are admissible for the library (at most 2^25 bytes, numbers that do not run out, gaps of at most 2^31, no late packet of
  the cycle before the first), no bytes object is submitted again while it is queued, and there is memory for the lists of results, every call
  returns, no exception but those for a bad packet, a failed conversion and a failed allocation is raised, and at each moment the reference count of
  an object is the number of references of the program, of its wrappers and of the table, whose entries are the packets in the buffer.
\<close>

theorem jbuf_py_safe:
  assumes "3 \<le> capacity" and "admissible_run py_step py_adm (sys_start oks capacity) ins"
  shows "\<exists>outs s refs. run_steps py_step (sys_start oks capacity) ins = Some (outs, s) \<and> (\<forall>r \<in> set outs. expected_output r) \<and>
    pj_refs (sys_self s) = Some refs \<and> tab refs = mset (map pk_data (queued (sys_inst s))) \<and>
    (\<forall>x. refcnt (sys_mem s) x = count (sys_owned s + slot_refs refs) x) \<and>
    (\<forall>k. created (sys_mem s) k = freed (sys_mem s) k + of_nat (count (sys_objs s) k))"
proof -
  note start = sys_start_good [OF assms(1), of oks]
  from pyclass.run_ok [OF start assms(2)] obtain outs s where
    run: "run_steps py_step (sys_start oks capacity) ins = Some (outs, s)" "sys_ok s" by (auto simp: sys_good_def)
  note py_run_output [OF start assms(2) run(1)]
  moreover obtain refs where "pj_refs (sys_self s) = Some refs" "tab refs = addrs (sys_inst s)" "owned (sys_mem s) (sys_owned s + slot_refs refs) (sys_objs s)"
    using run(2) by (auto simp: sys_ok_def pj_ok_def class_ok_def)
  ultimately show ?thesis using run(1) by (auto simp: owned_def)
qed

theorem jbuf_py_safe_witness:
  "\<exists>outs s refs. run_steps py_step (sys_start [] 3) sample_py = Some (outs, s) \<and> (\<forall>r \<in> set outs. expected_output r) \<and>
     pj_refs (sys_self s) = Some refs \<and> tab refs = mset (map pk_data (queued (sys_inst s))) \<and>
     (\<forall>x. refcnt (sys_mem s) x = count (sys_owned s + slot_refs refs) x)"
  using jbuf_py_safe [OF _ sample_py_admissible] by auto

text \<open>
  C5. In every state that a program reaches, and when no allocation of an object fails, \<open>udp_in\<close> raises \<open>RTPParseError\<close> with
  the code of the library, or returns exactly the frames that the library made ready, in their order: each packet with the bytes object and the opaque
  object that it was submitted with and with its payload. The attribute \<open>dropped\<close> counts the dropped packets. The conditions are: the
  capacity is at least 3, the datagrams are admissible for the library (at most 2^25 bytes, numbers that do not run out, gaps of at most 2^31, no late
  packet of the cycle before the first), no bytes object is submitted again while it is queued, and there is memory for the lists of results. A bytes
  object that is submitted again while it is queued can come with the opaque object of the first call.
\<close>

theorem jbuf_py_udp_in:
  assumes "py_reaches oks capacity ins outs s" and "py_adm s (In_udp_in malloc_ok arg q)" and "arg_addr arg = Some data"
    and "allocs (sys_mem s) = []"
  shows "\<exists>bs m1 ruir inst' s'. ensure_bytes arg (sys_mem s) = Some (Some (data, bs), m1) \<and>
    rtpjbuf_udp_in (sys_inst s) malloc_ok data bs = Some (ruir, inst') \<and>
    py_step s (In_udp_in malloc_ok arg q) = Some (udp_in_answer ((sys_given s)(data := q)) m1 ruir, s') \<and> sys_inst s' = inst' \<and>
    pj_dropped (sys_self s') = pj_dropped (sys_self s) + of_nat (length (rtp_of (r_drop ruir)))"
proof -
  from assms(2) have adm: "data_ok s arg" "holds_ref s q" by simp_all
  show ?thesis by (rule udp_in_step [OF py_reaches_ok [OF assms(1)] adm assms(3), of malloc_ok]) (use assms(4) in auto)
qed

theorem jbuf_py_udp_in_witness:
  "\<exists>bs m1 ruir inst' s'. ensure_bytes (Data_new (Some (30, sample_packet 0 10))) (sys_mem sample_sys) = Some (Some (30, bs), m1) \<and>
     rtpjbuf_udp_in (sys_inst sample_sys) True 30 bs = Some (ruir, inst') \<and>
     py_step sample_sys (In_udp_in True (Data_new (Some (30, sample_packet 0 10))) PyNone) =
       Some (udp_in_answer ((sys_given sample_sys)(30 := PyNone)) m1 ruir, s') \<and> sys_inst s' = inst'"
proof -
  have "py_adm sample_sys (In_udp_in True (Data_new (Some (30, sample_packet 0 10))) PyNone)" "allocs (sys_mem sample_sys) = []" by code_simp+
  from jbuf_py_udp_in [OF sample_py_reaches this(1) _ this(2), of 30] show ?thesis by auto
qed

text \<open>
  C6. Every wrapper that the program holds tells the truth: an RTP frame comes with the bytes object it was parsed from, its header fields are those
  that the parser finds in these bytes, \<open>rtp_data\<close> is the payload in them, and its logical sequence number extends the one in the header;
  an erasure has no data. The conditions are: the capacity is at least 3, the datagrams are admissible for the library (at most 2^25 bytes, numbers
  that do not run out, gaps of at most 2^31, no late packet of the cycle before the first), no bytes object is submitted again while it is queued, and
  there is memory for the lists of results.
\<close>

theorem jbuf_py_wrappers:
  assumes "py_reaches oks capacity ins outs s" and "w \<in> set (sys_ws s)"
  shows "w = none_wrapper \<or> (\<exists>e. w = ers_wrapper e) \<or>
    (\<exists>p q bs. w = rtp_wrapper p (Obj (pk_data p)) q (take (data_size (pk_info p)) (drop (data_offset (pk_info p)) bs)) \<and>
       bytes_of (sys_mem s) (pk_data p) = Some bs \<and> rtp_packet_parse_raw bs rtp_info_zero = Some (RTP_PARSER_OK, pk_info p) \<and>
       unat (lseq p) mod 65536 = unat (ri_seq (pk_info p)))"
  using py_reaches_good [OF assms(1)] assms(2) by (auto simp: sys_good_def sys_typed_def wrapper_ok_def)

theorem jbuf_py_wrappers_witness:
  "\<exists>w p q bs. w \<in> set (sys_ws sample_sys) \<and> w_data w \<noteq> PyNone \<and>
     w = rtp_wrapper p (Obj (pk_data p)) q (take (data_size (pk_info p)) (drop (data_offset (pk_info p)) bs)) \<and>
     bytes_of (sys_mem sample_sys) (pk_data p) = Some bs"
proof -
  have "\<exists>w \<in> set (sys_ws sample_sys). w_data w \<noteq> PyNone" by code_simp
  then obtain w where "w \<in> set (sys_ws sample_sys)" "w_data w \<noteq> PyNone" by blast
  with jbuf_py_wrappers [OF sample_py_reaches this(1)] show ?thesis by (fastforce simp: none_wrapper_def ers_wrapper_def)
qed

text \<open>
  C12. The destructor ends after at most two rounds of its loop, frees every packet that is still queued, and gives back every reference of the table:
  what remains are the references of the program and of its wrappers, and the objects of these wrappers. The conditions are: the capacity is at least
  3, the datagrams are admissible for the library (at most 2^25 bytes, numbers that do not run out, gaps of at most 2^31, no late packet of the cycle
  before the first), no bytes object is submitted again while it is queued, and there is memory for the lists of results. With a capacity of 2 the
  destructor can run into an assertion.
\<close>

theorem jbuf_py_dealloc:
  assumes "py_reaches oks capacity ins outs s" and "seq_room (sys_inst s)"
  shows "\<exists>self' m'. PyRtpJBuf_dealloc 2 (sys_self s) (sys_mem s) = Some ([], self', m') \<and> pj_jb self' = None \<and> pj_refs self' = None \<and>
    (\<forall>x. refcnt m' x = count (sys_owned s) x) \<and>
    (\<forall>k. created m' k = freed m' k + of_nat (count (\<Sum>w\<leftarrow>sys_ws s. wrap_objs w) k))"
proof -
  have "pj_ok (sys_given s) (sys_owned s) (add_mset K_RtpJBuf (\<Sum>w\<leftarrow>sys_ws s. wrap_objs w)) (sys_inst s) (sys_self s) (sys_mem s)"
    using py_reaches_ok [OF assms(1)] by (simp add: sys_ok_def sys_objs_def)
  from dealloc_ok [OF this assms(2)] show ?thesis by (auto simp: owned_def)
qed

theorem jbuf_py_dealloc_witness:
  "\<exists>self' m'. PyRtpJBuf_dealloc 2 (sys_self sample_sys) (sys_mem sample_sys) = Some ([], self', m') \<and>
     pj_jb self' = None \<and> (\<forall>x. refcnt m' x = count (sys_owned sample_sys) x)"
proof -
  have "seq_room (sys_inst sample_sys)" by code_simp
  from jbuf_py_dealloc [OF sample_py_reaches this] show ?thesis by auto
qed

text \<open>
  An object of capacity 0 has no room for references but its buffer queues packets: \<open>udp_in\<close> raises an exception and drops its
  reference while the packet stays queued. When the program has dropped the bytes object as well, \<open>flush\<close> reads the freed memory.
\<close>

lemma jbuf_py_zero_capacity:
  "run_steps py_step (sys_start [] 0) [In_new_bytes 10 (sample_packet 0 7 @ [1]), In_udp_in True (Data_bytes 10) PyNone, In_release 10, In_flush] = None \<and>
   map_option fst (run_steps py_step (sys_start [] 0) [In_new_bytes 10 (sample_packet 0 7 @ [1]), In_udp_in True (Data_bytes 10) PyNone, In_release 10]) =
     Some [Inr [], Inl (RuntimeError ''RtpJBuf reference buffer exhausted''), Inr []]"
  by code_simp

text \<open>
  A bytes object that is submitted again while it is queued keeps the entry of the first call. If that call's packet is purged by the second call,
  the packet of the second call is delivered with the opaque object of the first one.
\<close>

definition resubmit_py :: "py_input list" where
  "resubmit_py = [In_new_object 20, In_new_object 21, In_new_bytes 10 (sample_packet 0 200),
     In_udp_in True (Data_new (Some (11, sample_packet 0 100))) PyNone, In_udp_in True (Data_bytes 10) (Obj 20),
     In_udp_in True (Data_new (Some (12, sample_packet 0 100))) PyNone, In_udp_in True (Data_new (Some (13, sample_packet 0 100))) PyNone,
     In_udp_in True (Data_bytes 10) (Obj 21), In_flush]"

lemma jbuf_py_resubmitted:
  "map_option (\<lambda>(outs, s). (case last outs of Inl e \<Rightarrow> [] | Inr ws \<Rightarrow> map (\<lambda>w. (w_data w, w_opaque w)) ws, pj_dropped (sys_self s)))
     (run_steps py_step (sys_start [] 3) resubmit_py) = Some ([(PyNone, PyNone), (Obj 10, Obj 20)], 4)"
  by code_simp

end
