(* ===== verification/RS_Double.thy ===== *)
theory RS_Double
  imports RS_Prelude "HOL-Library.Log_Nat"
begin

text \<open>
  Arithmetic with \<open>double\<close>. A value is a rational number; each operation computes the exact result and rounds it to the nearest number with a significand of 53 bits,
  the one with the even significand if two are equally near. The range of the exponent is not bounded: the code that uses this has
  no results that are too small or too large for a \<open>double\<close>.
\<close>

section \<open>Rounding to an integer\<close>

definition half_even :: "rat \<Rightarrow> int" where
  "half_even x =
     (let d = x - of_int \<lfloor>x\<rfloor>
      in if d < 1 / 2 \<or> d = 1 / 2 \<and> even \<lfloor>x\<rfloor> then \<lfloor>x\<rfloor> else \<lfloor>x\<rfloor> + 1)"

lemma half_even_bounds: "\<lfloor>x\<rfloor> \<le> half_even x" "half_even x \<le> \<lceil>x\<rceil>"
proof -
  show "\<lfloor>x\<rfloor> \<le> half_even x" by (simp add: half_even_def Let_def)
  show "half_even x \<le> \<lceil>x\<rceil>"
  proof (cases "of_int \<lfloor>x\<rfloor> = x")
    case True
    then show ?thesis by (simp add: half_even_def ceiling_altdef)
  next
    case False
    then show ?thesis by (simp add: half_even_def Let_def ceiling_altdef)
  qed
qed

lemma half_even_int [simp]: "half_even (of_int n) = n"
  by (simp add: half_even_def)

lemma half_even_mono:
  assumes "x \<le> y"
  shows "half_even x \<le> half_even y"
proof (cases "\<lfloor>x\<rfloor> = \<lfloor>y\<rfloor>")
  case True
  then show ?thesis using assms by (auto simp: half_even_def Let_def)
next
  case False
  then have "\<lfloor>x\<rfloor> < \<lfloor>y\<rfloor>" using floor_mono [OF assms] by simp
  moreover have "half_even x \<le> \<lfloor>x\<rfloor> + 1" by (simp add: half_even_def Let_def)
  ultimately show ?thesis using half_even_bounds(1) [of y] by linarith
qed

lemma half_even_ge: "of_int n \<le> x \<Longrightarrow> n \<le> half_even x"
  using half_even_mono [of "of_int n" x] by simp

lemma half_even_le: "x \<le> of_int n \<Longrightarrow> half_even x \<le> n"
  using half_even_mono [of x "of_int n"] by simp

section \<open>Rounding to 53 bits\<close>

text \<open>The exponent of the highest bit of a positive number.\<close>

definition top_bit :: "rat \<Rightarrow> int" where
  "top_bit x = (case quotient_of x of (p, q) \<Rightarrow>
     let k = bitlen p - bitlen q in if 2 powi k \<le> x then k else k - 1)"

definition round_pos :: "rat \<Rightarrow> rat" where
  "round_pos x = (let e = top_bit x - 52 in of_int (half_even (x / 2 powi e)) * 2 powi e)"

definition dbl :: "rat \<Rightarrow> rat" where
  "dbl x = (if x = 0 then 0 else if x < 0 then - round_pos (- x) else round_pos x)"

lemma bitlen_powi:
  assumes "0 < (n :: int)"
  shows "(2 :: rat) powi (bitlen n - 1) \<le> of_int n" "of_int n < (2 :: rat) powi (bitlen n)"
proof -
  have b: "1 \<le> bitlen n" using assms bitlen_eq_zero_iff [of n] bitlen_nonneg [of n] by linarith
  have "of_int (2 ^ nat (bitlen n - 1)) \<le> (of_int n :: rat)" "of_int n < (of_int (2 ^ nat (bitlen n)) :: rat)"
    using bitlen_bounds [OF assms] by (simp_all only: of_int_le_iff of_int_less_iff)
  then show "(2 :: rat) powi (bitlen n - 1) \<le> of_int n" "of_int n < (2 :: rat) powi (bitlen n)"
    using b by (simp_all add: power_int_def)
qed

lemma top_bit_bounds:
  assumes "0 < x"
  shows "2 powi top_bit x \<le> x" "x < 2 powi (top_bit x + 1)"
proof -
  obtain p q where pq: "quotient_of x = (p, q)" by (cases "quotient_of x")
  have q: "0 < q" and x: "x = of_int p / of_int q" using quotient_of_denom_pos [OF pq] quotient_of_div [OF pq] by auto
  have p: "0 < p" using assms q by (simp add: x zero_less_divide_iff)
  let ?k = "bitlen p - bitlen q"
  have "x < 2 powi bitlen p / 2 powi (bitlen q - 1)"
    unfolding x using bitlen_powi [OF p] bitlen_powi [OF q] q p by (intro frac_less) (auto intro: order_less_imp_le)
  also have "\<dots> = 2 powi (?k + 1)" by (simp add: power_int_diff power_int_add)
  finally have up: "x < 2 powi (?k + 1)" .
  have "2 powi (bitlen p - 1) / 2 powi bitlen q \<le> x"
    unfolding x using bitlen_powi [OF p] bitlen_powi [OF q] q p by (intro frac_le) (auto intro: order_less_imp_le)
  also have "2 powi (bitlen p - 1) / 2 powi bitlen q = (2 :: rat) powi (?k - 1)" by (simp add: power_int_diff)
  finally have down: "2 powi (?k - 1) \<le> x" .
  show "2 powi top_bit x \<le> x" "x < 2 powi (top_bit x + 1)"
    using up down by (auto simp: top_bit_def pq Let_def)
qed

lemma top_bit_mono:
  assumes "0 < x" "x \<le> y"
  shows "top_bit x \<le> top_bit y"
proof (rule ccontr)
  assume "\<not> top_bit x \<le> top_bit y"
  then have "top_bit y + 1 \<le> top_bit x" by simp
  then have "(2 :: rat) powi (top_bit y + 1) \<le> 2 powi top_bit x" by (intro power_int_increasing) simp_all
  moreover have "0 < y" using assms by simp
  ultimately show False using top_bit_bounds(1) [OF assms(1)] top_bit_bounds(2) [of y] assms(2) by simp
qed

lemma powi_split: "(2 :: rat) powi (k + int n) = 2 ^ n * 2 powi k"
  by (simp add: power_int_add)

lemma significand_bounds:
  assumes "0 < x"
  shows "2 ^ 52 \<le> half_even (x / 2 powi (top_bit x - 52))" "half_even (x / 2 powi (top_bit x - 52)) \<le> 2 ^ 53"
proof -
  let ?e = "top_bit x - 52"
  have s: "(2 :: rat) powi top_bit x = 2 ^ 52 * 2 powi ?e" "(2 :: rat) powi (top_bit x + 1) = 2 ^ 53 * 2 powi ?e"
    using powi_split [of ?e 52] powi_split [of ?e 53] by (simp_all add: add.commute)
  have pos: "0 < (2 :: rat) powi ?e" by simp
  have "of_int (2 ^ 52) \<le> x / 2 powi ?e" "x / 2 powi ?e \<le> of_int (2 ^ 53)"
    using top_bit_bounds [OF assms] unfolding s by (simp_all add: pos_le_divide_eq [OF pos] pos_divide_le_eq [OF pos])
  then show "2 ^ 52 \<le> half_even (x / 2 powi ?e)" "half_even (x / 2 powi ?e) \<le> 2 ^ 53"
    by (blast intro: half_even_ge half_even_le)+
qed

lemma round_pos_bounds:
  assumes "0 < x"
  shows "2 powi top_bit x \<le> round_pos x" "round_pos x \<le> 2 powi (top_bit x + 1)"
proof -
  let ?e = "top_bit x - 52"
  have s: "(2 :: rat) powi top_bit x = of_int (2 ^ 52) * 2 powi ?e" "(2 :: rat) powi (top_bit x + 1) = of_int (2 ^ 53) * 2 powi ?e"
    using powi_split [of ?e 52] powi_split [of ?e 53] by (simp_all add: add.commute)
  have "0 \<le> (2 :: rat) powi ?e" by simp
  then show "2 powi top_bit x \<le> round_pos x" "round_pos x \<le> 2 powi (top_bit x + 1)"
    unfolding s round_pos_def Let_def using significand_bounds [OF assms] by (simp_all only: mult_right_mono of_int_le_iff)
qed

lemma round_pos_mono:
  assumes "0 < x" "x \<le> y"
  shows "round_pos x \<le> round_pos y"
proof (cases "top_bit x = top_bit y")
  case True
  then show ?thesis using assms by (auto simp: round_pos_def Let_def intro!: mult_right_mono half_even_mono divide_right_mono)
next
  case False
  have y: "0 < y" using assms by simp
  have "top_bit x + 1 \<le> top_bit y" using False top_bit_mono [OF assms] by simp
  then have "(2 :: rat) powi (top_bit x + 1) \<le> 2 powi top_bit y" by (intro power_int_increasing) simp_all
  then show ?thesis using round_pos_bounds(2) [OF assms(1)] round_pos_bounds(1) [OF y] by simp
qed

lemma round_pos_pos: "0 < x \<Longrightarrow> 0 < round_pos x"
  using round_pos_bounds(1) [of x] zero_less_power_int [of "2 :: rat" "top_bit x"] by linarith

lemma dbl_mono: "x \<le> y \<Longrightarrow> dbl x \<le> dbl y"
  using round_pos_mono [of x y] round_pos_mono [of "- y" "- x"] round_pos_pos [of "- x"] round_pos_pos [of y]
  by (auto simp: dbl_def)

lemma round_pos_int:
  assumes "0 < n" "n \<le> 2 ^ 53"
  shows "round_pos (of_int n) = of_int n"
proof -
  let ?e = "top_bit (of_int n) - 52"
  have pos: "0 < (2 :: rat) powi ?e" by simp
  have "\<exists>m. of_int n / (2 :: rat) powi ?e = of_int m"
  proof (cases "?e \<le> 0")
    case True
    then have "of_int n / (2 :: rat) powi ?e = of_int (n * 2 ^ nat (- ?e))" by (auto simp: power_int_def field_simps)
    then show ?thesis by blast
  next
    case False
    then have "53 \<le> top_bit (of_int n)" by simp
    then have "(2 :: rat) powi 53 \<le> 2 powi top_bit (of_int n)" by (intro power_int_increasing) simp_all
    also have "\<dots> \<le> of_int n" using assms by (intro top_bit_bounds) simp
    finally have "of_int (2 ^ 53) \<le> (of_int n :: rat)" by (simp add: power_int_def)
    then have n: "n = 2 ^ 53" using assms(2) by (simp only: of_int_le_iff)
    have "top_bit (of_int n) + 1 \<le> 54"
    proof (rule ccontr)
      assume "\<not> top_bit (of_int n) + 1 \<le> 54"
      then have "(2 :: rat) powi 54 \<le> 2 powi top_bit (of_int n)" by (intro power_int_increasing) simp_all
      also have "\<dots> \<le> of_int n" using assms by (intro top_bit_bounds) simp
      finally show False unfolding n by (simp add: power_int_def)
    qed
    with False have "?e = 1" by simp
    then have "of_int n / (2 :: rat) powi ?e = of_int (2 ^ 52)" by (simp add: n)
    then show ?thesis by blast
  qed
  then obtain m where m: "of_int n / (2 :: rat) powi ?e = of_int m" by blast
  then have "round_pos (of_int n) = of_int n / 2 powi ?e * 2 powi ?e" unfolding round_pos_def Let_def m by simp
  then show ?thesis using pos by simp
qed

lemma dbl_int: "\<bar>n\<bar> \<le> 2 ^ 53 \<Longrightarrow> dbl (of_int n) = of_int n"
  using round_pos_int [of n] round_pos_int [of "- n"] by (auto simp: dbl_def)

text \<open>The error is at most half of the last place.\<close>

lemma half_even_error: "\<bar>of_int (half_even x) - x\<bar> \<le> 1 / 2"
proof -
  have "of_int \<lfloor>x\<rfloor> \<le> x" "x < of_int \<lfloor>x\<rfloor> + 1" using floor_correct [of x] by simp_all
  then show ?thesis unfolding half_even_def Let_def by (cases "x - of_int \<lfloor>x\<rfloor> < 1 / 2") (simp_all add: abs_le_iff)
qed

lemma round_pos_error:
  assumes "0 < x"
  shows "\<bar>round_pos x - x\<bar> \<le> x / 2 ^ 53"
proof -
  let ?u = "(2 :: rat) powi (top_bit x - 52)"
  have u: "0 < ?u" "2 ^ 52 * ?u = 2 powi top_bit x" using powi_split [of "top_bit x - 52" 52] by simp_all
  have "round_pos x - x = (of_int (half_even (x / ?u)) - x / ?u) * ?u"
    using u(1) by (simp add: round_pos_def Let_def left_diff_distrib)
  then have "\<bar>round_pos x - x\<bar> = \<bar>of_int (half_even (x / ?u)) - x / ?u\<bar> * ?u" using u(1) by (simp add: abs_mult)
  also have "\<dots> \<le> 1 / 2 * ?u" using u(1) by (intro mult_right_mono half_even_error) simp
  also have "\<dots> \<le> x / 2 ^ 53" using top_bit_bounds(1) [OF assms] u(2) by simp
  finally show ?thesis .
qed

lemma dbl_error: "\<bar>dbl x - x\<bar> \<le> \<bar>x\<bar> / 2 ^ 53"
  using round_pos_error [of x] round_pos_error [of "- x"] by (auto simp: dbl_def abs_if split: if_splits)

section \<open>Numbers that are a double\<close>

lemma top_bit_unique:
  assumes "2 powi t \<le> x" "x < 2 powi (t + 1)"
  shows "top_bit x = t"
proof -
  have x: "0 < x" using assms(1) zero_less_power_int [of "2 :: rat" t] by linarith
  have False if "s + 1 \<le> r" "2 powi r \<le> x" "x < 2 powi (s + 1)" for r s
    using power_int_increasing [of "s + 1" r "2 :: rat"] that by simp
  from this [of "top_bit x" t] this [of t "top_bit x"] show ?thesis
    using top_bit_bounds [OF x] assms by force
qed

lemma top_bit_scale:
  assumes "0 < x"
  shows "top_bit (x * 2 powi k) = top_bit x + k"
  using top_bit_bounds [OF assms] by (intro top_bit_unique) (simp_all add: power_int_add algebra_simps)

lemma round_pos_scale:
  assumes "0 < x"
  shows "round_pos (x * 2 powi k) = round_pos x * 2 powi k"
proof -
  have "(2 :: rat) powi (top_bit x + k - 52) = 2 powi (top_bit x - 52) * 2 powi k"
    by (simp flip: power_int_add add: algebra_simps)
  then show ?thesis by (simp add: round_pos_def top_bit_scale [OF assms] Let_def)
qed

lemma dbl_scale: "dbl (x * 2 powi k) = dbl x * 2 powi k"
proof -
  have "\<not> (2 :: rat) powi k < 0" by (simp add: not_less)
  then show ?thesis using round_pos_scale [of x k] round_pos_scale [of "- x" k] by (auto simp: dbl_def mult_less_0_iff)
qed

text \<open>A multiple of a power of two by a number of 53 bits is a double, and every double is one.\<close>

lemma dbl_dyadic: "\<bar>m\<bar> \<le> 2 ^ 53 \<Longrightarrow> dbl (of_int m * 2 powi e) = of_int m * 2 powi e"
  by (simp add: dbl_scale dbl_int)

lemma dbl_minus: "dbl (- x) = - dbl x"
  by (auto simp: dbl_def)

lemma dbl_idem [simp]: "dbl (dbl x) = dbl x"
proof -
  have d: "dbl (round_pos y) = round_pos y" if y: "0 < y" for y
  proof -
    show ?thesis unfolding round_pos_def Let_def using significand_bounds [OF y] by (intro dbl_dyadic) simp
  qed
  have "dbl x = (if x = 0 then 0 else if x < 0 then - round_pos (- x) else round_pos x)" by (simp add: dbl_def)
  then show ?thesis using d [of x] d [of "- x"] by (auto simp: dbl_minus dbl_int [of 0, simplified])
qed

lemma dbl_fixed:
  assumes "dbl x = x" "x \<noteq> 0"
  obtains m where "x = of_int m * 2 powi (top_bit \<bar>x\<bar> - 52)"
proof (cases "x < 0")
  case True
  then have "x = of_int (- half_even (- x / 2 powi (top_bit \<bar>x\<bar> - 52))) * 2 powi (top_bit \<bar>x\<bar> - 52)"
    using assms(1) by (simp add: dbl_def round_pos_def Let_def)
  then show thesis by (rule that)
next
  case False
  then have "x = of_int (half_even (x / 2 powi (top_bit \<bar>x\<bar> - 52))) * 2 powi (top_bit \<bar>x\<bar> - 52)"
    using assms by (simp add: dbl_def round_pos_def Let_def)
  then show thesis by (rule that)
qed

lemma dbl_big_int:
  assumes "dbl x = x" "2 ^ 52 \<le> \<bar>x\<bar>"
  shows "of_int \<lfloor>x\<rfloor> = x"
proof -
  from assms(2) have x: "0 < \<bar>x\<bar>" "x \<noteq> 0" by auto
  obtain m where m: "x = of_int m * 2 powi (top_bit \<bar>x\<bar> - 52)" using dbl_fixed [OF assms(1) x(2)] .
  have "52 \<le> top_bit \<bar>x\<bar>"
  proof (rule ccontr)
    assume "\<not> 52 \<le> top_bit \<bar>x\<bar>"
    then have "(2 :: rat) powi (top_bit \<bar>x\<bar> + 1) \<le> 2 powi 52" by (intro power_int_increasing) simp_all
    then show False using top_bit_bounds(2) [OF x(1)] assms(2) by simp
  qed
  then have "x = of_int (m * 2 ^ nat (top_bit \<bar>x\<bar> - 52))" by (subst m) (simp add: power_int_def)
  then show ?thesis by (metis floor_of_int)
qed

text \<open>The fraction of a double is computed without an error, but for the negative numbers close to 0.\<close>

lemma dbl_fraction:
  assumes "dbl x = x" "0 \<le> x \<or> x \<le> - (1 / 2)"
  shows "dbl (x - of_int \<lfloor>x\<rfloor>) = x - of_int \<lfloor>x\<rfloor>"
proof (cases "x = 0 \<or> of_int \<lfloor>x\<rfloor> = x \<or> \<lfloor>x\<rfloor> = 0")
  case True
  then show ?thesis using assms(1) by (auto simp: dbl_def)
next
  case False
  define t where "t = top_bit \<bar>x\<bar>"
  let ?f = "x - of_int \<lfloor>x\<rfloor>"
  obtain m where m: "x = of_int m * 2 powi (t - 52)" using dbl_fixed [OF assms(1)] False unfolding t_def by blast
  have f: "0 \<le> ?f" "?f < 1" using floor_correct [of x] by (auto simp: algebra_simps)
  have half: "1 / 2 \<le> \<bar>x\<bar>" using assms(2) False floor_eq_iff [of x 0] by auto
  have t: "- 1 \<le> t"
  proof (rule ccontr)
    assume "\<not> - 1 \<le> t"
    then have "(2 :: rat) powi (t + 1) \<le> 2 powi (- 1)" by (intro power_int_increasing) simp_all
    then have "2 powi (t + 1) \<le> (1 / 2 :: rat)" by (simp add: power_int_minus)
    moreover have "\<bar>x\<bar> < 2 powi (t + 1)" unfolding t_def using half by (intro top_bit_bounds) linarith
    ultimately show False using half by linarith
  qed
  have "\<bar>x\<bar> < 2 ^ 52" using dbl_big_int [OF assms(1)] False by force
  then have "t < 52"
    using top_bit_bounds(1) [of "\<bar>x\<bar>"] half power_int_increasing [of 52 t "2 :: rat"] by (force simp: t_def)
  then have one: "of_int (2 ^ nat (52 - t)) * (2 :: rat) powi (t - 52) = 1" by (simp add: power_int_def flip: power_mult_distrib)
  define k where "k = m - \<lfloor>x\<rfloor> * 2 ^ nat (52 - t)"
  have k: "?f = of_int k * 2 powi (t - 52)" using one by (subst m) (simp add: k_def algebra_simps)
  have pos: "0 < (2 :: rat) powi (t - 52)" by simp
  have "of_int 0 * 2 powi (t - 52) \<le> of_int k * (2 :: rat) powi (t - 52)" using f(1) unfolding k by simp
  then have "0 \<le> k" using pos by (simp only: mult_le_cancel_right_pos of_int_le_iff)
  moreover have "of_int k * (2 :: rat) powi (t - 52) < of_int (2 ^ nat (52 - t)) * 2 powi (t - 52)" using f(2) unfolding k one .
  then have "k < 2 ^ nat (52 - t)" using pos by (simp only: mult_less_cancel_right_pos of_int_less_iff)
  moreover have "(2 :: int) ^ nat (52 - t) \<le> 2 ^ 53" using t by (intro power_increasing) simp_all
  ultimately show ?thesis unfolding k by (intro dbl_dyadic) simp
qed

section \<open>The contract of the rounding\<close>

text \<open>What the users of the arithmetic rely on.\<close>

locale rounding =
  fixes fl :: "rat \<Rightarrow> rat"
  assumes fl_mono: "x \<le> y \<Longrightarrow> fl x \<le> fl y"
    and fl_int: "\<bar>n\<bar> \<le> 2 ^ 53 \<Longrightarrow> fl (of_int n) = of_int n"
    and fl_error: "\<bar>fl x - x\<bar> \<le> \<bar>x\<bar> / 2 ^ 53"
begin

lemma fl_ge: "\<bar>n\<bar> \<le> 2 ^ 53 \<Longrightarrow> of_int n \<le> x \<Longrightarrow> of_int n \<le> fl x"
  using fl_mono [of "of_int n" x] by (simp add: fl_int)

lemma fl_le: "\<bar>n\<bar> \<le> 2 ^ 53 \<Longrightarrow> x \<le> of_int n \<Longrightarrow> fl x \<le> of_int n"
  using fl_mono [of x "of_int n"] by (simp add: fl_int)

lemma fl_0 [simp]: "fl 0 = 0"
  using fl_int [of 0] by simp

lemma fl_nonneg: "0 \<le> x \<Longrightarrow> 0 \<le> fl x"
  using fl_mono [of 0 x] by simp

text \<open>Rounding does not cross an integer.\<close>

lemma fl_floor: "\<bar>\<lfloor>x\<rfloor>\<bar> \<le> 2 ^ 53 \<Longrightarrow> of_int \<lfloor>x\<rfloor> \<le> fl x"
  by (rule fl_ge) simp_all

lemma fl_ceiling: "\<bar>\<lceil>x\<rceil>\<bar> \<le> 2 ^ 53 \<Longrightarrow> fl x \<le> of_int \<lceil>x\<rceil>"
  by (rule fl_le) simp_all

text \<open>A multiple of a rounded quotient, rounded again, is close to the exact one.\<close>

lemma fl_multiple:
  assumes "0 \<le> x" "0 \<le> r"
  shows "\<bar>fl (x * fl r) - x * r\<bar> \<le> 3 / 2 ^ 53 * (x * r)"
proof -
  have r: "\<bar>fl r - r\<bar> \<le> r / 2 ^ 53" using fl_error [of r] assms(2) by simp
  have "\<bar>x * fl r - x * r\<bar> = x * \<bar>fl r - r\<bar>" using assms(1) by (simp add: abs_mult flip: right_diff_distrib)
  also have "\<dots> \<le> x * (r / 2 ^ 53)" using r assms(1) by (intro mult_left_mono)
  finally have 1: "\<bar>x * fl r - x * r\<bar> \<le> x * r / 2 ^ 53" by simp
  have "0 \<le> x * fl r" using assms fl_nonneg by simp
  then have "\<bar>fl (x * fl r) - x * fl r\<bar> \<le> x * fl r / 2 ^ 53" using fl_error [of "x * fl r"] by simp
  also have "\<dots> \<le> 2 * (x * r) / 2 ^ 53"
  proof (intro divide_right_mono)
    have "0 \<le> x * r" using assms by simp
    then have "x * r / 2 ^ 53 \<le> x * r" by (simp add: mult.commute)
    then show "x * fl r \<le> 2 * (x * r)" using 1 by linarith
  qed simp
  also have "\<dots> = 2 * (x * r / 2 ^ 53)" by simp
  finally have 2: "\<bar>fl (x * fl r) - x * fl r\<bar> \<le> 2 * (x * r / 2 ^ 53)" .
  have "\<bar>fl (x * fl r) - x * r\<bar> \<le> \<bar>fl (x * fl r) - x * fl r\<bar> + \<bar>x * fl r - x * r\<bar>" by linarith
  also have "\<dots> \<le> 3 * (x * r / 2 ^ 53)" using 1 2 by linarith
  finally show ?thesis by simp
qed

text \<open>Linear interpolation between two integers stays between them, in spite of three roundings.\<close>

lemma interpolation:
  assumes "\<bar>a\<bar> \<le> 2 ^ 51" "\<bar>b\<bar> \<le> 2 ^ 51" "0 \<le> t" "t \<le> 1"
  shows "of_int (min a b) \<le> fl (of_int a + fl (fl (of_int b - of_int a) * t))"
    "fl (of_int a + fl (fl (of_int b - of_int a) * t)) \<le> of_int (max a b)"
proof -
  have d: "\<bar>b - a\<bar> \<le> 2 ^ 53" using assms(1,2) by simp
  then have e: "fl (of_int b - of_int a) = of_int (b - a)" using fl_int [of "b - a"] by simp
  let ?m = "fl (of_int (b - a) * t)"
  have ab: "\<bar>a\<bar> \<le> 2 ^ 53" "\<bar>b\<bar> \<le> 2 ^ 53" using assms(1,2) by simp_all
  have "of_int (min a b) \<le> of_int a + ?m \<and> of_int a + ?m \<le> of_int (max a b)"
  proof (cases "a \<le> b")
    case True
    then have t: "0 \<le> of_int (b - a) * t" "of_int (b - a) * t \<le> of_int (b - a)"
      using assms(3,4) by (auto intro!: mult_nonneg_nonneg mult_left_le)
    have "0 \<le> ?m" "?m \<le> of_int (b - a)" using fl_nonneg [OF t(1)] fl_le [OF d t(2)] by simp_all
    then show ?thesis using True by simp
  next
    case False
    then have "(of_int (a - b) :: rat) * t \<le> of_int (a - b) * 1" using assms(4) by (intro mult_left_mono) simp_all
    moreover have "0 \<le> (of_int (a - b) :: rat) * t" using False assms(3) by simp
    ultimately have t: "of_int (b - a) \<le> of_int (b - a) * t" "of_int (b - a) * t \<le> 0" by (simp_all add: algebra_simps)
    have "?m \<le> 0" "of_int (b - a) \<le> ?m" using fl_mono [OF t(2)] fl_ge [OF d t(1)] by simp_all
    then show ?thesis using False by simp
  qed
  then show "of_int (min a b) \<le> fl (of_int a + fl (fl (of_int b - of_int a) * t))"
    "fl (of_int a + fl (fl (of_int b - of_int a) * t)) \<le> of_int (max a b)"
    unfolding e using ab by (auto intro!: fl_ge fl_le)
qed

end

interpretation double: rounding dbl
  by unfold_locales (rule dbl_mono dbl_int dbl_error; assumption?)+

end
