(* ===== verification/Rtp_Resample.thy ===== *)
theory Rtp_Resample
  imports Rtp_Utils RS_Double
begin

text \<open>
  The linear resampler of \<^verbatim>\<open>python/RtpUtils_mod.c\<close>: the two rounding helpers and the Python function.

  A \<open>double\<close> is a rational number, and \<open>dbl\<close> rounds the result of every operation, one operation at a time. Conversions of integers to
  \<open>double\<close> round too. \<open>long long\<close> and \<open>Py_ssize_t\<close> are \<open>int\<close>. \<open>None\<close> on the outside stands for undefined behaviour: a conversion
  to an integer that does not hold the value, an index outside of the array. \<open>Some None\<close> is the error return of a helper.
\<close>

section \<open>Rounding helpers\<close>

definition LLONG_MAX :: int where
  "LLONG_MAX = 2 ^ 63 - 1"

definition LLONG_MIN :: int where
  "LLONG_MIN = - (2 ^ 63)"

text \<open>The conversion of a \<open>double\<close> to a \<open>long long\<close> cuts off the fraction.\<close>

definition cast_ll :: "rat \<Rightarrow> int option" where
  "cast_ll x = (let t = if x < 0 then \<lceil>x\<rceil> else \<lfloor>x\<rfloor> in if LLONG_MIN \<le> t \<and> t \<le> LLONG_MAX then Some t else None)"

definition floor_ll :: "rat \<Rightarrow> int option option" where
  "floor_ll x =
     (if x > dbl (of_int LLONG_MAX) \<or> x < dbl (of_int LLONG_MIN) then Some None
      else case cast_ll x of
        None \<Rightarrow> None
      | Some iv \<Rightarrow>
          if dbl (of_int iv) > x then (if iv = LLONG_MIN then None else Some (Some (iv - 1)))
          else Some (Some iv))"

definition round_half_even_ll :: "rat \<Rightarrow> int option option" where
  "round_half_even_ll x =
     (case floor_ll x of
        None \<Rightarrow> None
      | Some None \<Rightarrow> Some None
      | Some (Some fl) \<Rightarrow>
          let frac = dbl (x - dbl (of_int fl)) in
          if frac < 1 / 2 then Some (Some fl)
          else if frac > 1 / 2 then (if fl = LLONG_MAX then Some None else Some (Some (fl + 1)))
          else if fl AND 1 = 0 then Some (Some fl)
          else if fl = LLONG_MAX then Some None
          else Some (Some (fl + 1)))"

section \<open>The resampler\<close>

text \<open>The number of output samples.\<close>

definition resample_length :: "int \<Rightarrow> int \<Rightarrow> int \<Rightarrow> int option option" where
  "resample_length n_in in_rate out_rate =
     (let n_out_f = dbl (dbl (dbl (of_int n_in) * dbl (of_int out_rate)) / dbl (of_int in_rate)) in
      case round_half_even_ll n_out_f of
        None \<Rightarrow> None
      | Some None \<Rightarrow> Some None
      | Some (Some n_out_ll) \<Rightarrow>
          if n_out_ll > LLONG_MAX then Some None
          else Some (Some (if n_out_ll < 1 then 1 else n_out_ll)))"

text \<open>Reading an array at a signed index.\<close>

definition rd_ssize :: "'v list \<Rightarrow> int \<Rightarrow> 'v option" where
  "rd_ssize xs i = (if i < 0 then None else rd xs (nat i))"

text \<open>The value between the two samples around a position, before it is rounded to an integer.\<close>

definition resample_value :: "int list \<Rightarrow> rat \<Rightarrow> int \<Rightarrow> rat option" where
  "resample_value in_samples ratio i =
     (let n_in = int (length in_samples);
          pos = dbl (dbl (of_int i) * ratio) in
      case cast_ll pos of
        None \<Rightarrow> None
      | Some idx \<Rightarrow>
          let frac = dbl (pos - dbl (of_int idx)) in
          if idx \<ge> n_in - 1 then map_option (\<lambda>s. dbl (of_int s)) (rd_ssize in_samples (n_in - 1))
          else case (rd_ssize in_samples idx, rd_ssize in_samples (idx + 1)) of
              (Some s0, Some s1) \<Rightarrow>
                Some (dbl (dbl (of_int s0) + dbl (dbl (dbl (of_int s1) - dbl (of_int s0)) * frac)))
            | _ \<Rightarrow> None)"

definition clamp_16 :: "int \<Rightarrow> int" where
  "clamp_16 val_ll = (if val_ll > 32767 then 32767 else if val_ll < -32768 then -32768 else val_ll)"

text \<open>The loop from sample \<open>i\<close> on, with so many samples left. An error leaves it.\<close>

fun resample_loop :: "int list \<Rightarrow> rat \<Rightarrow> int \<Rightarrow> nat \<Rightarrow> int list option option" where
  "resample_loop in_samples ratio i 0 = Some (Some [])"
| "resample_loop in_samples ratio i (Suc left) =
     (case resample_value in_samples ratio i of
        None \<Rightarrow> None
      | Some sample \<Rightarrow>
          (case round_half_even_ll sample of
             None \<Rightarrow> None
           | Some None \<Rightarrow> Some None
           | Some (Some val_ll) \<Rightarrow>
               map_option (map_option ((#) (clamp_16 val_ll))) (resample_loop in_samples ratio (i + 1) left)))"

text \<open>
  The Python function. The format \<open>Oii\<close> refuses integers that do not fit in an \<open>int\<close>. \<open>PyMem_Malloc\<close> refuses more
  than \<open>PY_SSIZE_T_MAX\<close> bytes.
\<close>

definition fits_int :: "int \<Rightarrow> bool" where
  "fits_int n \<longleftrightarrow> - (2 ^ 31) \<le> n \<and> n < 2 ^ 31"

definition PyRtpUtils_resample_linear ::
  "bool \<Rightarrow> bool \<Rightarrow> bool \<Rightarrow> py_value \<Rightarrow> int \<Rightarrow> int \<Rightarrow> (utils_err + py_value) option" where
  "PyRtpUtils_resample_linear malloc_ok out_ok objects_ok pcm_obj in_rate out_rate =
     (if \<not> fits_int in_rate \<or> \<not> fits_int out_rate then Some (Inl Overflow_error)
      else if in_rate \<le> 0 \<or> out_rate \<le> 0 then Some (Inl (Value_error ''in_rate and out_rate must be > 0''))
      else case pcm16_from_obj malloc_ok pcm_obj of
        Inl e \<Rightarrow> Some (Inl e)
      | Inr in_samples \<Rightarrow>
          if in_rate = out_rate then Some (array_h_from_pcm16 objects_ok in_samples)
          else if in_samples = [] then Some (array_h_from_pcm16 objects_ok [])
          else case resample_length (int (length in_samples)) in_rate out_rate of
            None \<Rightarrow> None
          | Some None \<Rightarrow> Some (Inl Overflow_error)
          | Some (Some n_out) \<Rightarrow>
              if \<not> out_ok \<or> 2 * n_out > LLONG_MAX then Some (Inl Memory_error)
              else
                let ratio = dbl (dbl (of_int in_rate) / dbl (of_int out_rate)) in
                case resample_loop in_samples ratio 0 (nat n_out) of
                  None \<Rightarrow> None
                | Some None \<Rightarrow> Some (Inl Overflow_error)
                | Some (Some out_samples) \<Rightarrow> Some (array_h_from_pcm16 objects_ok out_samples))"

section \<open>The rounding helpers round\<close>

lemma dbl_LLONG [simp]: "dbl (of_int LLONG_MAX) = 2 ^ 63" "dbl (of_int LLONG_MIN) = - (2 ^ 63)"
  by code_simp+

lemma cast_ll_floor:
  assumes "\<bar>x\<bar> < 2 ^ 63"
  shows "cast_ll x = Some (if x < 0 then \<lceil>x\<rceil> else \<lfloor>x\<rfloor>)"
proof -
  from assms have "of_int LLONG_MIN \<le> x" "x < of_int (LLONG_MAX + 1)" by (simp_all add: LLONG_MIN_def LLONG_MAX_def)
  then have "LLONG_MIN \<le> \<lfloor>x\<rfloor>" "\<lfloor>x\<rfloor> \<le> LLONG_MAX"
    unfolding le_floor_iff floor_less_iff [symmetric] zless_add1_eq [symmetric] by (simp_all add: floor_less_iff)
  moreover have "x < 0 \<Longrightarrow> \<lceil>x\<rceil> \<le> LLONG_MAX"
    unfolding ceiling_le_iff by (simp add: LLONG_MAX_def)
  moreover have "LLONG_MIN \<le> \<lceil>x\<rceil>" using calculation(1) floor_le_ceiling [of x] by linarith
  ultimately show ?thesis by (auto simp: cast_ll_def Let_def)
qed

lemma dbl_small_int: "- (2 ^ 52) \<le> n \<Longrightarrow> n < 2 ^ 52 \<Longrightarrow> dbl (of_int n) = of_int n"
  by (intro dbl_int) simp

lemma dbl_int_part:
  assumes "dbl x = x"
  shows "dbl (of_int \<lfloor>x\<rfloor>) = of_int \<lfloor>x\<rfloor>"
proof (cases "2 ^ 52 \<le> \<bar>x\<bar>")
  case True
  show ?thesis unfolding dbl_big_int [OF assms True] by (rule assms)
next
  case False
  then have "- (2 ^ 52) < x" "x < 2 ^ 52" by simp_all
  then have "of_int (- (2 ^ 52)) \<le> x" "x < of_int (2 ^ 52)" by simp_all
  then have "- (2 ^ 52) \<le> \<lfloor>x\<rfloor>" "\<lfloor>x\<rfloor> < 2 ^ 52" by (simp_all only: le_floor_iff floor_less_iff)
  then show ?thesis by (rule dbl_small_int)
qed

lemma floor_ll_eq:
  assumes "dbl x = x" "\<bar>x\<bar> < 2 ^ 63"
  shows "floor_ll x = Some (Some \<lfloor>x\<rfloor>)"
proof (cases "x < 0 \<and> of_int \<lfloor>x\<rfloor> \<noteq> x")
  case False
  then have "cast_ll x = Some \<lfloor>x\<rfloor>" using cast_ll_floor [OF assms(2)] by (auto simp: ceiling_altdef)
  moreover have "\<not> dbl (of_int \<lfloor>x\<rfloor>) > x" by (simp add: dbl_int_part [OF assms(1)] not_less)
  ultimately show ?thesis using assms(2) by (auto simp: floor_ll_def)
next
  case True
  then have c: "\<lceil>x\<rceil> = \<lfloor>x\<rfloor> + 1" by (simp add: ceiling_altdef)
  have small: "\<bar>x\<bar> < 2 ^ 52" using dbl_big_int [OF assms(1)] True by force
  then have "of_int (- (2 ^ 52)) \<le> x" by simp
  then have f: "- (2 ^ 52) \<le> \<lfloor>x\<rfloor>" by (simp only: le_floor_iff)
  moreover have "\<lfloor>x\<rfloor> < 0" using True by simp
  ultimately have "dbl (of_int (\<lfloor>x\<rfloor> + 1)) = of_int (\<lfloor>x\<rfloor> + 1)" by (intro dbl_small_int) linarith+
  then have "dbl (of_int \<lceil>x\<rceil>) > x" unfolding c using floor_correct [of x] by simp
  moreover have "LLONG_MIN < \<lceil>x\<rceil>" proof -
    have "(2 :: int) ^ 52 < 2 ^ 63" by simp
    then show ?thesis unfolding c LLONG_MIN_def using f by linarith
  qed
  ultimately show ?thesis using True cast_ll_floor [OF assms(2)] assms(2) c by (simp add: floor_ll_def)
qed

lemma dbl_half: "dbl (1 / 2) = 1 / 2"
  using dbl_dyadic [of 1 "- 1"] by (simp add: power_int_minus)

text \<open>What the fraction is compared with decides like the exact fraction.\<close>

lemma round_half_even_ll_eq:
  assumes "dbl x = x" "\<bar>x\<bar> < 2 ^ 63"
  shows "round_half_even_ll x = Some (Some (half_even x))"
proof -
  let ?f = "x - of_int \<lfloor>x\<rfloor>"
  have no_max: "half_even x \<noteq> \<lfloor>x\<rfloor> \<Longrightarrow> \<lfloor>x\<rfloor> \<noteq> LLONG_MAX"
  proof
    assume h: "half_even x \<noteq> \<lfloor>x\<rfloor>" and "\<lfloor>x\<rfloor> = LLONG_MAX"
    then have "of_int LLONG_MAX \<le> x" by (metis of_int_floor_le)
    then have "2 ^ 52 \<le> \<bar>x\<bar>" by (simp add: LLONG_MAX_def)
    then have "half_even x = \<lfloor>x\<rfloor>" using half_even_int [of "\<lfloor>x\<rfloor>"] dbl_big_int [OF assms(1)] by simp
    with h show False by simp
  qed
  have r: "round_half_even_ll x =
      (if dbl ?f < 1 / 2 \<or> dbl ?f = 1 / 2 \<and> even \<lfloor>x\<rfloor> then Some (Some \<lfloor>x\<rfloor>)
       else if \<lfloor>x\<rfloor> = LLONG_MAX then Some None else Some (Some (\<lfloor>x\<rfloor> + 1)))"
    by (simp add: round_half_even_ll_def floor_ll_eq [OF assms] dbl_int_part [OF assms(1)] Let_def and_one_eq even_iff_mod_2_eq_zero)
  show ?thesis
  proof (cases "0 \<le> x \<or> x \<le> - (1 / 2)")
    case True
    then show ?thesis using no_max unfolding r dbl_fraction [OF assms(1) True] by (simp add: half_even_def Let_def)
  next
    case False
    then have fl: "\<lfloor>x\<rfloor> = - 1" by (simp add: floor_eq_iff)
    then have "1 / 2 < ?f" using False by simp
    then have "1 / 2 \<le> dbl ?f" using dbl_mono [of "1 / 2" ?f] by (simp add: dbl_half)
    with \<open>1 / 2 < ?f\<close> show ?thesis using no_max unfolding r by (auto simp: half_even_def Let_def fl LLONG_MAX_def)
  qed
qed

lemma floor_ll_edge: "floor_ll (2 ^ 63) = None"
  by code_simp

section \<open>The number of samples\<close>

lemma quotient_rounded:
  assumes "0 \<le> m" "m \<le> 2 ^ 53" "0 < (k :: int)"
  shows "\<lfloor>of_int m / of_int k :: rat\<rfloor> \<le> half_even (dbl (of_int m / of_int k))"
    "half_even (dbl (of_int m / of_int k)) \<le> \<lceil>of_int m / of_int k :: rat\<rceil>"
    "\<lceil>of_int m / of_int k :: rat\<rceil> \<le> m" "0 \<le> dbl (of_int m / of_int k)" "dbl (of_int m / of_int k) \<le> of_int m"
proof -
  let ?q = "of_int m / of_int k :: rat"
  have q: "0 \<le> ?q" "?q \<le> of_int m" using assms(1,3) by (simp_all add: divide_le_eq mult_le_cancel_left1)
  then have c: "\<lceil>?q\<rceil> \<le> m" "0 \<le> \<lceil>?q\<rceil>" "0 \<le> \<lfloor>?q\<rfloor>" "\<lfloor>?q\<rfloor> \<le> m" by (simp_all add: ceiling_le_iff floor_le_iff order_le_less_trans)
  then show "\<lceil>?q\<rceil> \<le> m" by simp
  have "of_int \<lfloor>?q\<rfloor> \<le> dbl ?q" "dbl ?q \<le> of_int \<lceil>?q\<rceil>"
    using double.fl_floor [of ?q] double.fl_ceiling [of ?q] c assms(2) by linarith+
  then show "\<lfloor>?q\<rfloor> \<le> half_even (dbl ?q)" "half_even (dbl ?q) \<le> \<lceil>?q\<rceil>" by (auto intro: half_even_ge half_even_le)
  show "0 \<le> dbl ?q" using q(1) by (rule double.fl_nonneg)
  show "dbl ?q \<le> of_int m" using q(2) assms(1,2) by (intro double.fl_le) auto
qed

lemma resample_length_eq:
  assumes "1 \<le> n" "1 \<le> a" "a < 2 ^ 31" "1 \<le> b" "n * b \<le> 2 ^ 53"
  shows "resample_length n a b = Some (Some (max 1 (half_even (dbl (of_int (n * b) / of_int a)))))"
proof -
  have "n * 1 \<le> n * b" "1 * b \<le> n * b" using assms by (auto intro: mult_left_mono mult_right_mono)
  then have "n \<le> 2 ^ 53" "b \<le> 2 ^ 53" using assms(5) by linarith+
  then have d: "dbl (of_int n) = of_int n" "dbl (of_int b) = of_int b" "dbl (of_int a) = of_int a"
    "dbl (of_int n * of_int b) = of_int (n * b)"
    using assms dbl_int [of n] dbl_int [of b] dbl_int [of a] dbl_int [of "n * b"] by simp_all
  let ?v = "dbl (of_int (n * b) / of_int a)"
  have q: "0 \<le> ?v" "?v \<le> of_int (n * b)" "half_even ?v \<le> n * b"
    using quotient_rounded [of "n * b" a] assms by auto
  have "(of_int (n * b) :: rat) \<le> of_int (2 ^ 53)" using assms(5) by (simp only: of_int_le_iff)
  then have "\<bar>?v\<bar> < 2 ^ 63" using q(1,2) by simp
  then have "round_half_even_ll ?v = Some (Some (half_even ?v))" by (intro round_half_even_ll_eq) simp_all
  moreover have "half_even ?v \<le> LLONG_MAX" using q(3) assms(5) by (simp add: LLONG_MAX_def)
  ultimately show ?thesis by (simp add: resample_length_def d Let_def)
qed

section \<open>One sample\<close>

definition int16 :: "int \<Rightarrow> bool" where
  "int16 s \<longleftrightarrow> - 32768 \<le> s \<and> s \<le> 32767"

lemma dbl_int16 [simp]: "int16 s \<Longrightarrow> dbl (of_int s) = of_int s"
  by (rule dbl_int) (auto simp: int16_def)

text \<open>
  What the loop computes for a sample: the value lies between the input samples \<open>j\<close> and \<open>j + 1\<close>, and \<open>j\<close> is close
  to the exact position.
\<close>

definition near :: "int list \<Rightarrow> rat \<Rightarrow> nat \<Rightarrow> bool" where
  "near samples p j \<longleftrightarrow> j < length samples \<and> \<bar>of_nat j - p\<bar> < 3 / 2"

definition neighbour :: "int list \<Rightarrow> nat \<Rightarrow> int" where
  "neighbour samples j = samples ! min (j + 1) (length samples - 1)"

lemma position_error:
  assumes "0 \<le> i" "i \<le> 2 ^ 53" "0 < a" "0 < b" "of_int i * (of_int a / of_int b) < (2 ^ 50 :: rat)"
    "dbl (of_int a) = of_int a" "dbl (of_int b) = of_int b"
  defines "pos \<equiv> dbl (dbl (of_int i) * dbl (dbl (of_int a) / dbl (of_int b)))"
  shows "0 \<le> pos" "\<bar>pos - of_int i * (of_int a / of_int b)\<bar> < 1 / 2"
proof -
  let ?r = "of_int a / of_int b :: rat"
  have e: "pos = dbl (of_int i * dbl ?r)" using assms(1,2) dbl_int [of i] by (simp add: pos_def assms(6,7))
  have r: "0 \<le> ?r" "0 \<le> (of_int i :: rat)" using assms by simp_all
  then show "0 \<le> pos" unfolding e by (intro double.fl_nonneg mult_nonneg_nonneg) simp_all
  have "\<bar>pos - of_int i * ?r\<bar> \<le> 3 / 2 ^ 53 * (of_int i * ?r)" unfolding e by (rule double.fl_multiple [OF r(2,1)])
  also have "\<dots> < 3 / 2 ^ 53 * 2 ^ 50" using assms(5) by (intro mult_strict_left_mono) simp_all
  finally show "\<bar>pos - of_int i * ?r\<bar> < 1 / 2" by simp
qed

text \<open>The two branches: at the end of the input, and between two samples.\<close>

lemma resample_value_last:
  assumes "samples \<noteq> []" "int16 (samples ! (length samples - 1))" "0 \<le> dbl (dbl (of_int i) * r)"
    "dbl (dbl (of_int i) * r) < 2 ^ 63" "int (length samples) - 1 \<le> \<lfloor>dbl (dbl (of_int i) * r)\<rfloor>"
  shows "resample_value samples r i = Some (of_int (samples ! (length samples - 1)))"
  using assms cast_ll_floor [of "dbl (dbl (of_int i) * r)"]
  by (simp add: resample_value_def Let_def rd_ssize_def rd_def nat_diff_distrib Suc_leI)

lemma resample_value_inner:
  assumes "j + 1 < length samples" "int16 (samples ! j)" "int16 (samples ! (j + 1))" "dbl (dbl (of_int i) * r) < 2 ^ 63"
    "0 \<le> dbl (dbl (of_int i) * r)" "\<lfloor>dbl (dbl (of_int i) * r)\<rfloor> = int j" "int j \<le> 2 ^ 53"
  shows "resample_value samples r i =
    Some (dbl (of_int (samples ! j) + dbl (dbl (of_int (samples ! (j + 1)) - of_int (samples ! j)) *
      dbl (dbl (dbl (of_int i) * r) - of_nat j))))"
proof -
  have "dbl (of_nat j) = of_nat j" using dbl_int [of "int j"] assms(7) by simp
  then show ?thesis using assms cast_ll_floor [of "dbl (dbl (of_int i) * r)"]
    by (simp add: resample_value_def Let_def rd_ssize_def rd_def nat_add_distrib)
qed

lemma resample_value_near:
  assumes n: "samples \<noteq> []" "int (length samples) \<le> 2 ^ 50" and s: "\<forall>s \<in> set samples. int16 s"
    and i: "0 \<le> i" "i \<le> 2 ^ 53" and ab: "0 < a" "a < 2 ^ 31" "0 < b" "b < 2 ^ 31"
    and p: "of_int i * (of_int a / of_int b) < (of_nat (length samples) :: rat)"
  shows "\<exists>v j. resample_value samples (dbl (dbl (of_int a) / dbl (of_int b))) i = Some v \<and> dbl v = v \<and>
    near samples (of_int i * (of_int a / of_int b)) j \<and>
    of_int (min (samples ! j) (neighbour samples j)) \<le> v \<and> v \<le> of_int (max (samples ! j) (neighbour samples j))"
proof -
  let ?n = "length samples" and ?r = "dbl (dbl (of_int a) / dbl (of_int b))"
  let ?p = "of_int i * (of_int a / of_int b) :: rat" and ?pos = "dbl (dbl (of_int i) * ?r)"
  have "(of_int (int ?n) :: rat) \<le> of_int (2 ^ 50)" using n(2) by (simp only: of_int_le_iff)
  then have N: "(of_nat ?n :: rat) \<le> 2 ^ 50" by simp
  have d: "dbl (of_int a) = of_int a" "dbl (of_int b) = of_int b" using ab by (auto intro: dbl_int)
  have pos: "0 \<le> ?pos" "\<bar>?pos - ?p\<bar> < 1 / 2" using position_error [OF i ab(1,3) _ d] p N by auto
  have "(2 :: rat) ^ 50 + 1 / 2 < 2 ^ 63" by simp
  then have big: "?pos < 2 ^ 63" using pos p N by linarith
  have fl: "0 \<le> \<lfloor>?pos\<rfloor>" "of_int \<lfloor>?pos\<rfloor> \<le> ?pos" "?pos < of_int \<lfloor>?pos\<rfloor> + 1" using pos(1) floor_correct [of ?pos] by auto
  have in16: "int16 (samples ! j)" if "j < ?n" for j using s that by simp
  show ?thesis
  proof (cases "int ?n - 1 \<le> \<lfloor>?pos\<rfloor>")
    case True
    then have "(of_int (int ?n - 1) :: rat) \<le> of_int \<lfloor>?pos\<rfloor>" by (simp only: of_int_le_iff)
    then have "\<bar>(of_nat ?n - 1) - ?p\<bar> < 3 / 2" using p pos(2) fl by (simp only: of_int_diff of_int_of_nat_eq of_int_1)
    then have "near samples ?p (?n - 1)" using n(1) by (simp add: near_def of_nat_diff Suc_leI)
    moreover have "neighbour samples (?n - 1) = samples ! (?n - 1)" by (simp add: neighbour_def)
    ultimately show ?thesis using n(1) in16 [of "?n - 1"] resample_value_last [OF n(1) _ pos(1) big True]
      by (intro exI [of _ "of_int (samples ! (?n - 1))"] exI [of _ "?n - 1"]) simp
  next
    case False
    obtain j where j1: "\<lfloor>?pos\<rfloor> = int j" using fl(1) nonneg_int_cases by blast
    then have j: "j + 1 < ?n" "int j \<le> 2 ^ 53" using False n(2) by simp_all
    have p1: "0 \<le> ?pos - of_nat j" "?pos - of_nat j \<le> of_int 1" using fl(2,3) unfolding j1 by simp_all
    have frac: "0 \<le> dbl (?pos - of_nat j)" "dbl (?pos - of_nat j) \<le> 1"
      using double.fl_nonneg [OF p1(1)] double.fl_le [OF _ p1(2)] by simp_all
    have s2: "int16 (samples ! j)" "int16 (samples ! (j + 1))" using in16 j(1) by simp_all
    then have m: "\<bar>samples ! j\<bar> \<le> 2 ^ 51" "\<bar>samples ! (j + 1)\<bar> \<le> 2 ^ 51" by (auto simp: int16_def)
    have "neighbour samples j = samples ! (j + 1)" using j(1) by (auto simp: neighbour_def min_def)
    moreover have "\<bar>of_nat j - ?p\<bar> < 3 / 2" using p1 pos(2) by (simp only: of_int_1)
    then have "near samples ?p j" using j(1) by (simp add: near_def)
    ultimately show ?thesis using double.interpolation [OF m frac] resample_value_inner [OF j(1) s2 big pos(1) j1 j(2)]
      by (intro exI conjI) auto
  qed
qed

section \<open>The whole buffer\<close>

lemma round_sample:
  assumes "dbl v = v" "- 32768 \<le> v" "v \<le> 32767"
  shows "round_half_even_ll v = Some (Some (half_even v))" "clamp_16 (half_even v) = half_even v" "int16 (half_even v)"
proof -
  have "\<bar>v\<bar> < 2 ^ 63" using assms(2,3) by (simp add: abs_less_iff)
  then show "round_half_even_ll v = Some (Some (half_even v))" by (rule round_half_even_ll_eq [OF assms(1)])
  show "int16 (half_even v)" using half_even_ge [of "- 32768" v] half_even_le [of v 32767] assms(2,3) by (simp add: int16_def)
  then show "clamp_16 (half_even v) = half_even v" by (auto simp: clamp_16_def int16_def)
qed

lemma resample_loop_ok:
  assumes "\<forall>m < k. \<exists>v. resample_value samples r (i + int m) = Some v \<and> dbl v = v \<and> - 32768 \<le> v \<and> v \<le> 32767"
  shows "\<exists>outs. resample_loop samples r i k = Some (Some outs) \<and> length outs = k \<and>
    (\<forall>m < k. \<exists>v. resample_value samples r (i + int m) = Some v \<and> outs ! m = half_even v)"
  using assms
proof (induction k arbitrary: i)
  case (Suc k)
  obtain v where v: "resample_value samples r i = Some v" "dbl v = v" "- 32768 \<le> v" "v \<le> 32767"
    using Suc.prems by fastforce
  have "\<forall>m < k. \<exists>v. resample_value samples r (i + 1 + int m) = Some v \<and> dbl v = v \<and> - 32768 \<le> v \<and> v \<le> 32767"
    using Suc.prems by (auto simp: less_Suc_eq_0_disj all_conj_distrib ac_simps)
  from Suc.IH [OF this] obtain outs where outs: "resample_loop samples r (i + 1) k = Some (Some outs)" "length outs = k"
    "\<forall>m < k. \<exists>v. resample_value samples r (i + 1 + int m) = Some v \<and> outs ! m = half_even v" by blast
  have "\<exists>w. resample_value samples r (i + int m) = Some w \<and> (half_even v # outs) ! m = half_even w" if "m < Suc k" for m
    using that v(1) outs(3) by (cases m) (auto simp: ac_simps)
  then show ?case using v(1) outs(1,2) round_sample [OF v(2-4)] by (intro exI [of _ "half_even v # outs"]) simp
qed simp

lemma pcm16_from_bytes_range: "pcm16_from_bytes bs = Some samples \<Longrightarrow> \<forall>s \<in> set samples. int16 s"
proof (induction bs arbitrary: samples rule: pcm16_from_bytes.induct)
  case (3 lo hi bs)
  have "int16 (sint w)" for w :: u16 using sint_greater_eq [of w] sint_less [of w] by (simp add: int16_def)
  with 3 show ?case by auto
qed simp_all

lemma pcm16_from_obj_range: "pcm16_from_obj malloc_ok obj = Inr samples \<Longrightarrow> \<forall>s \<in> set samples. int16 s"
  by (auto simp: pcm16_from_obj_def split: py_value.splits if_splits option.splits dest!: pcm16_from_bytes_range)

text \<open>The loop stays before the end of the input.\<close>

lemma position_inside:
  assumes "1 \<le> n" "0 < a" "0 < b" "n * b \<le> 2 ^ 53" "0 \<le> i" "i < max 1 (half_even (dbl (of_int (n * b) / of_int a)))"
  shows "of_int i * (of_int a / of_int b) < (of_int n :: rat)" "i \<le> 2 ^ 53"
proof -
  let ?q = "of_int (n * b) / of_int a :: rat"
  have q: "half_even (dbl ?q) \<le> \<lceil>?q\<rceil>" "\<lceil>?q\<rceil> \<le> n * b" using quotient_rounded [of "n * b" a] assms(1-4) by auto
  then show "i \<le> 2 ^ 53" using assms(4,6) by simp
  have "i = 0 \<or> i < \<lceil>?q\<rceil>" using q(1) assms(5,6) by linarith
  then have "i = 0 \<or> of_int i < ?q" by (auto simp: less_ceiling_iff)
  then show "of_int i * (of_int a / of_int b) < (of_int n :: rat)" using assms(1-3) by (auto simp: field_simps)
qed

lemma resample_call:
  assumes obj: "pcm16_from_obj True obj = Inr samples" "samples \<noteq> []"
    and ab: "0 < a" "a < 2 ^ 31" "0 < b" "b < 2 ^ 31" "a \<noteq> b" and n: "int (length samples) * b \<le> 2 ^ 50"
  defines "q \<equiv> of_int (int (length samples) * b) / of_int a :: rat"
  shows "\<exists>outs. PyRtpUtils_resample_linear True True True obj a b = Some (Inr (Py_buffer 2 (pcm16_bytes outs))) \<and>
    int (length outs) = max 1 (half_even (dbl q)) \<and>
    (\<forall>i < length outs. \<exists>v. resample_value samples (dbl (dbl (of_int a) / dbl (of_int b))) (int i) = Some v \<and> outs ! i = half_even v)"
proof -
  let ?n = "int (length samples)" and ?r = "dbl (dbl (of_int a) / dbl (of_int b))" and ?k = "max 1 (half_even (dbl q))"
  have n1: "1 \<le> ?n" using obj(2) by (simp add: Suc_leI)
  have n53: "?n * b \<le> 2 ^ 53" using n by simp
  have "?n * 1 \<le> ?n * b" using ab(3) by (intro mult_left_mono) auto
  then have n50: "?n \<le> 2 ^ 50" using n by linarith
  have s: "\<forall>s \<in> set samples. int16 s" using pcm16_from_obj_range [OF obj(1)] .
  have "\<exists>v. resample_value samples ?r (0 + int m) = Some v \<and> dbl v = v \<and> - 32768 \<le> v \<and> v \<le> 32767" if m: "m < nat ?k" for m
  proof -
    have i: "0 \<le> int m" "int m < ?k" using m by simp_all
    note p = position_inside [OF n1 ab(1,3) n53 i(1) i(2) [unfolded q_def]]
    obtain v j where vj: "resample_value samples ?r (int m) = Some v" "dbl v = v" "j < length samples"
      "of_int (min (samples ! j) (neighbour samples j)) \<le> v" "v \<le> of_int (max (samples ! j) (neighbour samples j))"
      using resample_value_near [OF obj(2) n50 s i(1) p(2) ab(1-4)] p(1) unfolding near_def by auto
    have "int16 (samples ! j)" "int16 (neighbour samples j)" using vj(3) s by (auto simp: neighbour_def)
    then have "of_int (- 32768) \<le> v" "v \<le> of_int 32767" using vj(4,5) by (auto simp: int16_def min_def max_def split: if_splits)
    then show ?thesis using vj(1,2) by simp
  qed
  then obtain outs where "resample_loop samples ?r 0 (nat ?k) = Some (Some outs)" "length outs = nat ?k"
    "\<forall>m < nat ?k. \<exists>v. resample_value samples ?r (0 + int m) = Some v \<and> outs ! m = half_even v"
    using resample_loop_ok [of "nat ?k" samples ?r 0] by blast
  moreover have "resample_length ?n a b = Some (Some ?k)" using resample_length_eq [OF n1 _ _ _ n53] ab by (simp add: q_def)
  moreover have "2 * ?k \<le> LLONG_MAX" using quotient_rounded [of "?n * b" a] ab n by (simp add: q_def LLONG_MAX_def)
  ultimately show ?thesis using obj ab
    by (intro exI [of _ outs]) (simp add: PyRtpUtils_resample_linear_def fits_int_def array_h_from_pcm16_def Let_def not_less)
qed

lemma resample_same_rate:
  assumes "pcm16_from_obj True obj = Inr samples" "0 < a" "a < 2 ^ 31"
  shows "PyRtpUtils_resample_linear True out_ok True obj a a = Some (Inr (Py_buffer 2 (pcm16_bytes samples)))"
  using assms by (simp add: PyRtpUtils_resample_linear_def fits_int_def array_h_from_pcm16_def)

lemma resample_bounds_other:
  assumes obj: "pcm16_from_obj True obj = Inr samples" "samples \<noteq> []"
    and ab: "0 < a" "a < 2 ^ 31" "0 < b" "b < 2 ^ 31" "a \<noteq> b" and n: "int (length samples) * b \<le> 2 ^ 50"
  defines "q \<equiv> of_int (int (length samples) * b) / of_int a :: rat"
  shows "\<exists>outs. PyRtpUtils_resample_linear True True True obj a b = Some (Inr (Py_buffer 2 (pcm16_bytes outs))) \<and>
    max 1 \<lfloor>q\<rfloor> \<le> int (length outs) \<and> int (length outs) \<le> max 1 \<lceil>q\<rceil> \<and>
    (\<forall>i < length outs. \<exists>j. near samples (of_nat i * (of_int a / of_int b)) j \<and>
       min (samples ! j) (neighbour samples j) \<le> outs ! i \<and> outs ! i \<le> max (samples ! j) (neighbour samples j))"
proof -
  let ?n = "int (length samples)"
  have n1: "1 \<le> ?n" using obj(2) by (simp add: Suc_leI)
  have n53: "?n * b \<le> 2 ^ 53" using n by simp
  have "?n * 1 \<le> ?n * b" using ab(3) by (intro mult_left_mono) auto
  then have n50: "?n \<le> 2 ^ 50" using n by linarith
  obtain outs where o: "PyRtpUtils_resample_linear True True True obj a b = Some (Inr (Py_buffer 2 (pcm16_bytes outs)))"
    "int (length outs) = max 1 (half_even (dbl q))"
    "\<forall>i < length outs. \<exists>v. resample_value samples (dbl (dbl (of_int a) / dbl (of_int b))) (int i) = Some v \<and> outs ! i = half_even v"
    using resample_call [OF obj ab n] unfolding q_def by blast
  have "\<exists>j. near samples (of_nat i * (of_int a / of_int b)) j \<and>
      min (samples ! j) (neighbour samples j) \<le> outs ! i \<and> outs ! i \<le> max (samples ! j) (neighbour samples j)"
    if i: "i < length outs" for i
  proof -
    have p: "of_int (int i) * (of_int a / of_int b) < (of_int ?n :: rat)" "int i \<le> 2 ^ 53"
      using position_inside [OF n1 ab(1,3) n53, of "int i"] i o(2) unfolding q_def by auto
    then show ?thesis
      using resample_value_near [OF obj(2) n50 pcm16_from_obj_range [OF obj(1)] _ p(2) ab(1-4)] o(3) i
      by (fastforce intro: half_even_ge half_even_le)
  qed
  then show ?thesis using o(1,2) quotient_rounded [of "?n * b" a] ab n53 unfolding q_def by (intro exI [of _ outs]) auto
qed

lemma resample_value_exact:
  assumes "samples \<noteq> []" "\<forall>s \<in> set samples. int16 s" "int (i * d) \<le> 2 ^ 52" "int d \<le> 2 ^ 52" "int i \<le> 2 ^ 52"
  shows "resample_value samples (of_nat d) (int i) = Some (of_int (samples ! min (i * d) (length samples - 1)))"
proof -
  have d: "dbl (of_nat k) = of_nat k" if "int k \<le> 2 ^ 52" for k using dbl_int [of "int k"] that by simp
  have pos: "dbl (dbl (of_int (int i)) * of_nat d) = of_nat (i * d)" using d [OF assms(3)] d [OF assms(5)] by simp
  have "(of_int (int (i * d)) :: rat) \<le> of_int (2 ^ 52)" using assms(3) by (simp only: of_int_le_iff)
  then have big: "dbl (dbl (of_int (int i)) * of_nat d) < 2 ^ 63" "0 \<le> dbl (dbl (of_int (int i)) * of_nat d)" unfolding pos by simp_all
  have in16: "int16 (samples ! j)" if "j < length samples" for j using assms(2) that by simp
  have fl: "\<lfloor>dbl (dbl (of_int (int i)) * of_nat d)\<rfloor> = int (i * d)" unfolding pos by (simp only: floor_of_nat)
  show ?thesis
  proof (cases "length samples - 1 \<le> i * d")
    case True
    then have "int (length samples) - 1 \<le> \<lfloor>dbl (dbl (of_int (int i)) * of_nat d)\<rfloor>" unfolding fl using assms(1) by linarith
    from resample_value_last [OF assms(1) in16 big(2,1) this] show ?thesis using True assms(1) by (simp add: min.absorb2)
  next
    case False
    then have j: "i * d + 1 < length samples" by simp
    have "int (i * d) \<le> 2 ^ 53" using assms(3) by simp
    from resample_value_inner [OF j in16 in16 big fl this] j show ?thesis
      unfolding pos by (simp add: min.absorb1 in16)
  qed
qed

section \<open>Properties\<close>

text \<open>
  C37. \<open>round_half_even_ll\<close> rounds every \<open>double\<close> below the range of \<open>long long\<close> to the nearest integer, and to the even one of
  two, although it computes the fraction with a rounding of its own.
\<close>

theorem resample_rounding:
  assumes "dbl x = x" "\<bar>x\<bar> < 2 ^ 63"
  shows "round_half_even_ll x = Some (Some (half_even x))"
  using assms by (rule round_half_even_ll_eq)

theorem resample_rounding_witness: "round_half_even_ll (5 / 2) = Some (Some 2)"
proof -
  have "dbl (5 / 2) = 5 / 2" using dbl_dyadic [of 5 "- 1"] by (simp add: power_int_minus)
  moreover have "half_even (5 / 2) = 2" by code_simp
  ultimately show ?thesis using resample_rounding [of "5 / 2"] by simp
qed

text \<open>
  C24. With memory available, the resampler returns an array for every nonempty buffer of samples and all positive rates, if the number of samples
  times the output rate is at most \<open>2 ^ 50\<close>: no index is outside of the input, no conversion overflows. The number of samples is the
  exact one rounded down or up, and at least 1. Each sample lies between two neighbouring samples of the input, at an index that differs by less than
  \<open>3 / 2\<close> from the exact position.
\<close>

theorem resample_bounds:
  assumes "pcm16_from_obj True obj = Inr samples" "samples \<noteq> []" "0 < in_rate" "in_rate < 2 ^ 31" "0 < out_rate"
    "out_rate < 2 ^ 31" "int (length samples) * out_rate \<le> 2 ^ 50"
  shows "\<exists>outs. PyRtpUtils_resample_linear True True True obj in_rate out_rate = Some (Inr (Py_buffer 2 (pcm16_bytes outs))) \<and>
    max 1 \<lfloor>of_int (int (length samples) * out_rate) / of_int in_rate :: rat\<rfloor> \<le> int (length outs) \<and>
    int (length outs) \<le> max 1 \<lceil>of_int (int (length samples) * out_rate) / of_int in_rate :: rat\<rceil> \<and>
    (\<forall>i < length outs. \<exists>j. near samples (of_nat i * (of_int in_rate / of_int out_rate)) j \<and>
       min (samples ! j) (neighbour samples j) \<le> outs ! i \<and> outs ! i \<le> max (samples ! j) (neighbour samples j))"
proof (cases "in_rate = out_rate")
  case True
  have "\<exists>j. near samples (of_nat i * (of_int in_rate / of_int out_rate)) j \<and>
      min (samples ! j) (neighbour samples j) \<le> samples ! i \<and> samples ! i \<le> max (samples ! j) (neighbour samples j)"
    if "i < length samples" for i
    using that True assms(3) by (intro exI [of _ i]) (simp add: near_def)
  then show ?thesis using resample_same_rate [OF assms(1,3,4)] True assms(2,3)
    by (intro exI [of _ samples]) (simp add: Suc_leI)
next
  case False
  then show ?thesis using resample_bounds_other assms by blast
qed

theorem resample_bounds_witness:
  "\<exists>outs. PyRtpUtils_resample_linear True True True (Py_buffer 2 [0, 0, 100, 0, 200, 0]) 8000 16000 =
     Some (Inr (Py_buffer 2 (pcm16_bytes outs))) \<and> length outs = 6 \<and> (\<forall>i < 6. 0 \<le> outs ! i \<and> outs ! i \<le> 200)"
proof -
  have s: "pcm16_from_obj True (Py_buffer 2 [0, 0, 100, 0, 200, 0]) = Inr [0, 100, 200]" by code_simp
  have b: "0 \<le> min ([0, 100, 200 :: int] ! j) (neighbour [0, 100, 200] j) \<and>
      max ([0, 100, 200 :: int] ! j) (neighbour [0, 100, 200] j) \<le> 200" if "near [0, 100, 200] p j" for p j
    using that by (auto simp: near_def neighbour_def less_Suc_eq numeral_nat)
  obtain outs where o: "PyRtpUtils_resample_linear True True True (Py_buffer 2 [0, 0, 100, 0, 200, 0]) 8000 16000 =
      Some (Inr (Py_buffer 2 (pcm16_bytes outs)))" "length outs = 6"
    "\<forall>i < length outs. \<exists>j. near [0, 100, 200] (of_nat i * (1 / 2)) j \<and>
      min ([0, 100, 200] ! j) (neighbour [0, 100, 200] j) \<le> outs ! i \<and> outs ! i \<le> max ([0, 100, 200] ! j) (neighbour [0, 100, 200] j)"
    using resample_bounds [OF s, of 8000 16000] by auto
  have "0 \<le> outs ! i \<and> outs ! i \<le> 200" if i: "i < 6" for i
  proof -
    obtain j where "near [0, 100, 200] (of_nat i * (1 / 2)) j" "min ([0, 100, 200] ! j) (neighbour [0, 100, 200] j) \<le> outs ! i"
      "outs ! i \<le> max ([0, 100, 200] ! j) (neighbour [0, 100, 200] j)" using o(2,3) i by auto
    then show ?thesis using b [of "of_nat i * (1 / 2)" j] by linarith
  qed
  with o(1,2) show ?thesis by blast
qed

text \<open>
  C25. If the input rate is a multiple of the output rate, by 2 or more, the resampler picks every \<open>d\<close>-th sample of a nonempty buffer,
  without any error, if there is memory and the number of samples times the output rate is at most \<open>2 ^ 50\<close>.
\<close>

theorem resample_decimates:
  assumes "pcm16_from_obj True obj = Inr samples" "samples \<noteq> []" "2 \<le> d" "0 < out_rate" "int d * out_rate < 2 ^ 31"
    "int (length samples) * out_rate \<le> 2 ^ 50"
  shows "\<exists>outs. PyRtpUtils_resample_linear True True True obj (int d * out_rate) out_rate = Some (Inr (Py_buffer 2 (pcm16_bytes outs))) \<and>
    int (length outs) = max 1 (half_even (dbl (of_nat (length samples) / of_nat d))) \<and>
    (\<forall>i < length outs. outs ! i = samples ! min (i * d) (length samples - 1))"
proof -
  let ?n = "length samples" and ?a = "int d * out_rate"
  have a: "0 < ?a" "?a \<noteq> out_rate" using assms(3,4) by simp_all
  have "int d * 1 \<le> ?a" "1 * out_rate \<le> ?a" using assms(3,4) by (auto intro!: mult_left_mono mult_right_mono)
  then have small: "int d < 2 ^ 31" "out_rate < 2 ^ 31" using assms(5) by linarith+
  have e: "dbl (dbl (of_int ?a) / dbl (of_int out_rate)) = of_nat d"
    using assms(4,5) small dbl_int [of ?a] dbl_int [of out_rate] dbl_int [of "int d"] a(1) by simp
  have q: "of_int (int ?n * out_rate) / of_int ?a = (of_nat ?n / of_nat d :: rat)" using assms(4) by simp
  obtain outs where o: "PyRtpUtils_resample_linear True True True obj ?a out_rate = Some (Inr (Py_buffer 2 (pcm16_bytes outs)))"
    "int (length outs) = max 1 (half_even (dbl (of_nat ?n / of_nat d)))"
    "\<forall>i < length outs. \<exists>v. resample_value samples (of_nat d) (int i) = Some v \<and> outs ! i = half_even v"
    using resample_call [OF assms(1,2) a(1) assms(5,4) small(2) a(2) assms(6)] unfolding e q by blast
  have "outs ! i = samples ! min (i * d) (?n - 1)" if i: "i < length outs" for i
  proof -
    have "int ?n * 1 \<le> int ?n * out_rate" using assms(4) by (intro mult_left_mono) auto
    then have n: "int ?n \<le> 2 ^ 50" "1 \<le> int ?n" using assms(2,6) by (linarith, simp add: Suc_leI)
    have "of_int (int i) * (of_int ?a / of_int out_rate) < (of_int (int ?n) :: rat)"
      using i o(2) n(2) a(1) assms(4,6) by (intro position_inside(1)) (auto simp: q simp del: of_int_mult)
    then have "(of_nat (i * d) :: rat) < of_nat ?n" using assms(4) by simp
    then have id: "i * d < ?n" by (simp only: of_nat_less_iff)
    have "i * 1 \<le> i * d" using assms(3) by (intro mult_left_mono) auto
    moreover have "(2 :: int) ^ 50 \<le> 2 ^ 52" "(2 :: int) ^ 31 \<le> 2 ^ 52" by simp_all
    ultimately have "int (i * d) \<le> 2 ^ 52" "int d \<le> 2 ^ 52" "int i \<le> 2 ^ 52" using id n(1) small(1) by linarith+
    with resample_value_exact [OF assms(2) pcm16_from_obj_range [OF assms(1)] this] o(3) i show ?thesis by auto
  qed
  with o(1,2) show ?thesis by blast
qed

theorem resample_decimates_witness:
  "\<exists>outs. PyRtpUtils_resample_linear True True True (Py_buffer 1 [1, 0, 2, 0, 3, 0, 4, 0]) 16000 8000 =
     Some (Inr (Py_buffer 2 (pcm16_bytes outs))) \<and> outs = [1, 3]"
proof -
  have s: "pcm16_from_obj True (Py_buffer 1 [1, 0, 2, 0, 3, 0, 4, 0]) = Inr [1, 2, 3, 4]" by code_simp
  have h: "half_even (dbl (4 / 2)) = 2" by code_simp
  obtain outs where o: "PyRtpUtils_resample_linear True True True (Py_buffer 1 [1, 0, 2, 0, 3, 0, 4, 0]) 16000 8000 =
      Some (Inr (Py_buffer 2 (pcm16_bytes outs)))" "length outs = 2"
    "\<forall>i < length outs. outs ! i = [1, 2, 3, 4] ! min (i * 2) 3"
    using resample_decimates [OF s, of 2 8000] h by auto
  then have "outs = [1, 3]" by (auto simp: list_eq_iff_nth_eq less_Suc_eq numeral_nat)
  with o(1) show ?thesis by blast
qed

end
