(* ===== verification/Rtp_Wait.thy ===== *)
theory Rtp_Wait
  imports Rtp_Proc_Api Rtp_Server_Api
begin

text \<open>
  The sleep of the two workers: \<open>wait_for_commands\<close> of \<^verbatim>\<open>python/RtpServer_mod.c\<close> and \<^verbatim>\<open>python/RtpProc_mod.c\<close>, together with
  the methods that put a command in the queue.

  Every access to the queue happens with the lock held, and the condition variable gives the lock up while the worker
  sleeps. So a step is what happens between two changes of the owner of the lock: the worker tests the queue and sleeps or returns, a method
  puts a command in the queue and signals, the worker wakes up. It also wakes up without a reason, when the time is over, or with an error.
\<close>

section \<open>Sleeping\<close>

definition ETIMEDOUT :: int where
  "ETIMEDOUT = 110"

text \<open>Where the worker is: it holds the lock and has the result of the last wait, sleeps, or has returned.\<close>

datatype cmd_wait_pc = Wait_test int | Wait_asleep | Wait_returned int

record 'p wait_sys =
  owner :: 'p
  wpc :: cmd_wait_pc
  clock_ns :: int

datatype 'c wait_act = Put 'c | Signal | Timer | Wait_fails int | Advance nat | Run

definition wait_start :: "bool \<Rightarrow> 'p \<Rightarrow> int \<Rightarrow> 'p wait_sys" where
  "wait_start lock_ok p t = \<lparr>owner = p, wpc = (if lock_ok then Wait_test 0 else Wait_returned (-1)), clock_ns = t\<rparr>"

definition woken :: "cmd_wait_pc \<Rightarrow> cmd_wait_pc" where
  "woken pc = (if pc = Wait_asleep then Wait_test 0 else pc)"

text \<open>
  \<open>cmds\<close> reads the queue; \<open>put\<close> is the method, and says whether it signals. Both loops of \<open>wait_for_commands\<close> go on while the queue is empty
  and the last wait returned 0; one of them never lets the timer run.
\<close>

fun wait_step :: "('p \<Rightarrow> 'm list) \<Rightarrow> ('p \<Rightarrow> 'c \<Rightarrow> bool \<times> 'p) \<Rightarrow> bool \<Rightarrow> u64 \<Rightarrow>
    'p wait_sys \<Rightarrow> 'c wait_act \<Rightarrow> (int option \<times> 'p wait_sys) option" where
  "wait_step cmds put wait_forever wait_until_ns s (Put c) =
     (case put (owner s) c of (signals, p) \<Rightarrow>
        Some (None, s\<lparr>owner := p, wpc := (if signals then woken (wpc s) else wpc s)\<rparr>))"
| "wait_step cmds put wait_forever wait_until_ns s Signal = Some (None, s\<lparr>wpc := woken (wpc s)\<rparr>)"
| "wait_step cmds put wait_forever wait_until_ns s Timer =
     (if wait_forever \<or> wpc s \<noteq> Wait_asleep then None
      else Some (None, s\<lparr>wpc := Wait_test
        (rtp_sync_cond_timedwait_abs_ns (\<lambda>t. if ts_ns t \<le> clock_ns s then ETIMEDOUT else 0) wait_until_ns)\<rparr>))"
| "wait_step cmds put wait_forever wait_until_ns s (Wait_fails rc) =
     (if wpc s \<noteq> Wait_asleep then None else Some (None, s\<lparr>wpc := Wait_test rc\<rparr>))"
| "wait_step cmds put wait_forever wait_until_ns s (Advance d) = Some (None, s\<lparr>clock_ns := clock_ns s + int d\<rparr>)"
| "wait_step cmds put wait_forever wait_until_ns s Run =
     (case wpc s of
        Wait_test rc \<Rightarrow>
          if cmds (owner s) = [] \<and> rc = 0 then Some (None, s\<lparr>wpc := Wait_asleep\<rparr>)
          else (let res = (if rc = ETIMEDOUT then 0 else rc) in Some (Some res, s\<lparr>wpc := Wait_returned res\<rparr>))
      | _ \<Rightarrow> None)"

section \<open>The queue of commands\<close>

text \<open>What may happen: the worker runs only with the lock, wakes up only when it sleeps; a wait fails with an error that is no timeout.\<close>

fun wait_adm :: "bool \<Rightarrow> 'p wait_sys \<Rightarrow> 'c wait_act \<Rightarrow> bool" where
  "wait_adm wait_forever s Timer \<longleftrightarrow> \<not> wait_forever \<and> wpc s = Wait_asleep"
| "wait_adm wait_forever s (Wait_fails rc) \<longleftrightarrow> wpc s = Wait_asleep \<and> rc \<noteq> 0 \<and> rc \<noteq> ETIMEDOUT"
| "wait_adm wait_forever s Run \<longleftrightarrow> (\<exists>rc. wpc s = Wait_test rc)"
| "wait_adm wait_forever s act \<longleftrightarrow> True"

definition wait_over :: "bool \<Rightarrow> u64 \<Rightarrow> int \<Rightarrow> bool" where
  "wait_over wait_forever wait_until_ns t \<longleftrightarrow> \<not> wait_forever \<and> uint wait_until_ns \<le> t"

definition wait_inv :: "('p \<Rightarrow> 'm list) \<Rightarrow> bool \<Rightarrow> u64 \<Rightarrow> 'p wait_sys \<Rightarrow> bool" where
  "wait_inv cmds wait_forever wait_until_ns s \<longleftrightarrow>
     (case wpc s of
        Wait_test rc \<Rightarrow> rc = ETIMEDOUT \<longrightarrow> wait_over wait_forever wait_until_ns (clock_ns s)
      | Wait_asleep \<Rightarrow> cmds (owner s) = []
      | Wait_returned rc \<Rightarrow> rc = 0 \<longrightarrow> cmds (owner s) \<noteq> [] \<or> wait_over wait_forever wait_until_ns (clock_ns s))"

text \<open>The contract of a method: it adds a command and signals, or it does neither.\<close>

locale command_queue =
  fixes cmds :: "'p \<Rightarrow> 'm list" and put :: "'p \<Rightarrow> 'c \<Rightarrow> bool \<times> 'p"
  assumes put_signals: "put p c = (True, p') \<Longrightarrow> cmds p' \<noteq> []"
    and put_rejects: "put p c = (False, p') \<Longrightarrow> cmds p' = cmds p"
begin

lemma wait_step_inv:
  assumes "wait_inv cmds forever until s" "wait_adm forever s act" "wait_step cmds put forever until s act = Some (out, s')"
  shows "wait_inv cmds forever until s'"
proof (cases act)
  case (Put c)
  obtain sig p where p: "put (owner s) c = (sig, p)" by (cases "put (owner s) c")
  then show ?thesis using assms Put put_signals [of "owner s" c p] put_rejects [of "owner s" c p]
    by (cases sig) (auto simp: wait_inv_def woken_def ETIMEDOUT_def split: cmd_wait_pc.splits)
next
  case Signal
  then show ?thesis using assms by (auto simp: wait_inv_def woken_def ETIMEDOUT_def split: cmd_wait_pc.splits)
next
  case Timer
  then show ?thesis using assms
    by (auto simp: wait_inv_def wait_over_def rtp_sync_cond_timedwait_abs_ns_def timedwait_abs_ns_inv ETIMEDOUT_def)
next
  case (Wait_fails rc)
  then show ?thesis using assms by (auto simp: wait_inv_def)
next
  case (Advance d)
  then show ?thesis using assms by (auto simp: wait_inv_def wait_over_def split: cmd_wait_pc.splits)
next
  case Run
  then show ?thesis using assms by (auto simp: wait_inv_def Let_def split: cmd_wait_pc.splits if_splits)
qed

end

sublocale command_queue \<subseteq> machine: invariant_machine "wait_step cmds put forever until" "wait_adm forever" "wait_inv cmds forever until"
  for forever "until"
proof
  fix s :: "'p wait_sys" and act :: "'c wait_act" and forever "until"
  assume "wait_adm forever s act"
  then show "wait_step cmds put forever until s act \<noteq> None"
    by (cases act) (auto simp: Let_def split: prod.splits)
qed (rule wait_step_inv)

context command_queue
begin

lemma no_lost_command:
  assumes "admissible_run (wait_step cmds put forever until) (wait_adm forever) (wait_start True p t) acts"
  shows "\<exists>outs s. run_steps (wait_step cmds put forever until) (wait_start True p t) acts = Some (outs, s) \<and>
    (wpc s = Wait_asleep \<longrightarrow> cmds (owner s) = []) \<and>
    (cmds (owner s) \<noteq> [] \<longrightarrow> (\<exists>rc. wpc s = Wait_returned rc) \<or>
      (\<exists>rc s'. wait_step cmds put forever until s Run = Some (Some rc, s'))) \<and>
    (wpc s = Wait_returned 0 \<longrightarrow> cmds (owner s) \<noteq> [] \<or> wait_over forever until (clock_ns s))"
proof -
  have "wait_inv cmds forever until (wait_start True p t)" by (simp add: wait_inv_def wait_start_def ETIMEDOUT_def)
  from machine.run_ok [OF this assms] obtain outs s
    where r: "run_steps (wait_step cmds put forever until) (wait_start True p t) acts = Some (outs, s)"
      and i: "wait_inv cmds forever until s" by blast
  have "(\<exists>rc. wpc s = Wait_returned rc) \<or> (\<exists>rc s'. wait_step cmds put forever until s Run = Some (Some rc, s'))"
    if "cmds (owner s) \<noteq> []" using i that by (cases "wpc s") (auto simp: wait_inv_def Let_def)
  then show ?thesis using r i by (intro exI [of _ outs] exI [of _ s]) (auto simp: wait_inv_def)
qed

end

section \<open>The two workers\<close>

text \<open>The methods of the server that signal: \<open>shutdown\<close> and the destructor have commands of their own, put in the queue without assertions here.\<close>

datatype srv_put = Put_command "sockaddr server_cmd" | Put_shutdown srv_lib | Put_stop srv_lib

fun server_put :: "'cb py_server \<Rightarrow> srv_put \<Rightarrow> bool \<times> 'cb py_server" where
  "server_put p (Put_command cmd) =
     (case Rtp_Server_Api.enqueue_command p cmd of (e, p') \<Rightarrow> (e = None, p'))"
| "server_put p (Put_shutdown le) =
     (case rtp_server_drop_channels_internal False le p of Some (Waiting, p') \<Rightarrow> (True, p') | Some (_, p') \<Rightarrow> (False, p') | None \<Rightarrow> (False, p))"
| "server_put p (Put_stop le) =
     (case rtp_server_stop_worker_internal False le p of Some (Waiting, p') \<Rightarrow> (True, p') | Some (_, p') \<Rightarrow> (False, p') | None \<Rightarrow> (False, p))"

definition server_wait_for_commands ::
    "bool \<Rightarrow> u64 \<Rightarrow> 'cb py_server wait_sys \<Rightarrow> srv_put wait_act \<Rightarrow> (int option \<times> 'cb py_server wait_sys) option" where
  "server_wait_for_commands = wait_step py_server.cmd_list server_put"

datatype 'cb prc_put = Put_proc_command lib_env bool "'cb proc_cmd" | Put_proc_shutdown lib_env

fun proc_put :: "('cb, 'e) py_proc \<Rightarrow> 'cb prc_put \<Rightarrow> bool \<times> ('cb, 'e) py_proc" where
  "proc_put p (Put_proc_command le with_error cmd) =
     (case Rtp_Proc_Api.enqueue_command le with_error p cmd of ((rc, e), p') \<Rightarrow> (rc = 0, p'))"
| "proc_put p (Put_proc_shutdown le) =
     (case rtp_proc_shutdown_internal le p of (r, p') \<Rightarrow> (r = Shutdown_joins \<and> \<not> py_proc.shutdown_queued p, p'))"

definition proc_wait_for_commands ::
    "bool \<Rightarrow> u64 \<Rightarrow> ('cb, 'e) py_proc wait_sys \<Rightarrow> 'cb prc_put wait_act \<Rightarrow> (int option \<times> ('cb, 'e) py_proc wait_sys) option" where
  "proc_wait_for_commands = wait_step py_proc.cmd_list proc_put"

interpretation server_queue: command_queue py_server.cmd_list server_put
proof
  fix p p' :: "'cb py_server" and c
  assume "server_put p c = (True, p')"
  then show "py_server.cmd_list p' \<noteq> []"
    by (cases c) (auto simp: Rtp_Server_Api.enqueue_command_def rtp_server_drop_channels_internal_def
      rtp_server_stop_worker_internal_def server_waiter_acquire_def split: if_splits prod.splits option.splits srv_result.splits)
next
  fix p p' :: "'cb py_server" and c
  assume "server_put p c = (False, p')"
  then show "py_server.cmd_list p' = py_server.cmd_list p"
    by (cases c) (auto simp: Rtp_Server_Api.enqueue_command_def rtp_server_drop_channels_internal_def server_waiter_release_def
      rtp_server_stop_worker_internal_def server_waiter_acquire_def Let_def split: if_splits prod.splits option.splits srv_result.splits)
qed

interpretation proc_queue: command_queue py_proc.cmd_list proc_put
proof
  fix p p' :: "('cb, 'e) py_proc" and c
  assume "proc_put p c = (True, p')"
  then show "py_proc.cmd_list p' \<noteq> []"
    by (cases c) (auto simp: Rtp_Proc_Api.enqueue_command_def rtp_proc_shutdown_internal_def Let_def split: if_splits prod.splits)
next
  fix p p' :: "('cb, 'e) py_proc" and c
  assume "proc_put p c = (False, p')"
  then show "py_proc.cmd_list p' = py_proc.cmd_list p"
    by (cases c) (auto simp: Rtp_Proc_Api.enqueue_command_def rtp_proc_shutdown_internal_def Rtp_Proc_Api.free_command_def Let_def
      split: if_splits prod.splits)
qed

section \<open>Properties\<close>

text \<open>
  C19. The worker of the server does not sleep through a command, however the methods, signals without a command, timeouts and errors of the wait interleave: while it
  sleeps the queue is empty, and when a command is in the queue \<open>wait_for_commands\<close> has returned or returns with the next step of the
  worker. A result of 0 means that there is a command or that the given time is reached, which cannot be if there is none.
\<close>

theorem server_worker_wakes:
  assumes "admissible_run (server_wait_for_commands wait_forever wait_until_ns) (wait_adm wait_forever) (wait_start True p t) acts"
  shows "\<exists>outs s. run_steps (server_wait_for_commands wait_forever wait_until_ns) (wait_start True p t) acts = Some (outs, s) \<and>
    (wpc s = Wait_asleep \<longrightarrow> py_server.cmd_list (owner s) = []) \<and>
    (py_server.cmd_list (owner s) \<noteq> [] \<longrightarrow> (\<exists>rc. wpc s = Wait_returned rc) \<or>
      (\<exists>rc s'. server_wait_for_commands wait_forever wait_until_ns s Run = Some (Some rc, s'))) \<and>
    (wpc s = Wait_returned 0 \<longrightarrow> py_server.cmd_list (owner s) \<noteq> [] \<or> wait_over wait_forever wait_until_ns (clock_ns s))"
  using server_queue.no_lost_command assms unfolding server_wait_for_commands_def .

text \<open>The worker sleeps, a command arrives, and the worker returns.\<close>

definition sample_server_waits :: "nat py_server" where
  "sample_server_waits = PyRtpServer_new\<lparr>server_inited := True, py_server.worker_running := True\<rparr>"

theorem server_worker_wakes_witness:
  "\<exists>outs s. run_steps (server_wait_for_commands True 0) (wait_start True sample_server_waits 0)
      [Run, Signal, Run, Put (Put_command CMD_STOP_WORKER)] = Some (outs, s) \<and>
    (\<exists>rc s'. server_wait_for_commands True 0 s Run = Some (Some rc, s'))"
proof -
  let ?acts = "[Run, Signal, Run, Put (Put_command CMD_STOP_WORKER)]"
  have a: "admissible_run (server_wait_for_commands True 0) (wait_adm True) (wait_start True sample_server_waits 0) ?acts"
    by (simp add: server_wait_for_commands_def wait_start_def woken_def sample_server_waits_def PyRtpServer_new_def
      Rtp_Server_Api.enqueue_command_def)
  have "\<forall>outs s. run_steps (server_wait_for_commands True 0) (wait_start True sample_server_waits 0) ?acts = Some (outs, s) \<longrightarrow>
      py_server.cmd_list (owner s) \<noteq> [] \<and> wpc s = Wait_test 0"
    by (auto simp: server_wait_for_commands_def wait_start_def woken_def sample_server_waits_def PyRtpServer_new_def
      Rtp_Server_Api.enqueue_command_def)
  then show ?thesis using server_worker_wakes [OF a] by fastforce
qed

text \<open>The same for the worker of the processor.\<close>

lemma proc_worker_wakes:
  assumes "admissible_run (proc_wait_for_commands wait_forever wait_until_ns) (wait_adm wait_forever) (wait_start True p t) acts"
  shows "\<exists>outs s. run_steps (proc_wait_for_commands wait_forever wait_until_ns) (wait_start True p t) acts = Some (outs, s) \<and>
    (wpc s = Wait_asleep \<longrightarrow> py_proc.cmd_list (owner s) = []) \<and>
    (py_proc.cmd_list (owner s) \<noteq> [] \<longrightarrow> (\<exists>rc. wpc s = Wait_returned rc) \<or>
      (\<exists>rc s'. proc_wait_for_commands wait_forever wait_until_ns s Run = Some (Some rc, s'))) \<and>
    (wpc s = Wait_returned 0 \<longrightarrow> py_proc.cmd_list (owner s) \<noteq> [] \<or> wait_over wait_forever wait_until_ns (clock_ns s))"
  using proc_queue.no_lost_command assms unfolding proc_wait_for_commands_def .

end
