(* ===== verification/Rtp_Proc_Exc.thy ===== *)
theory Rtp_Proc_Exc
  imports Rtp_Proc
begin

text \<open>
  The references to exceptions in \<^verbatim>\<open>python/RtpProc_mod.c\<close>. \<open>Rtp_Proc\<close> sees the exception of a callback as an optional value; here it is
  the triple of references that \<open>PyErr_Fetch\<close> hands over, and the operations say which references they give up.

  An exception comes from a callback into the state of its channel, is moved to the processor when the channel is removed for a closer that
  waits, and from there becomes the cause of the \<open>ChannelProcError\<close> that \<open>close\<close> raises. On the other paths it is released.
\<close>

section \<open>Triples of references\<close>

type_synonym obj_addr = nat

record py_exc_info =
  exc_type :: "obj_addr option"
  exc_value :: "obj_addr option"
  exc_tb :: "obj_addr option"

definition py_exc_info_init :: py_exc_info where
  "py_exc_info_init = \<lparr>exc_type = None, exc_value = None, exc_tb = None\<rparr>"

text \<open>\<open>Py_XDECREF\<close> gives up a reference if there is one; the result lists what was given up.\<close>

definition py_exc_info_clear :: "py_exc_info \<Rightarrow> obj_addr list \<times> py_exc_info" where
  "py_exc_info_clear exc =
     (case_option [] (\<lambda>x. [x]) (exc_type exc) @ case_option [] (\<lambda>x. [x]) (exc_value exc) @ case_option [] (\<lambda>x. [x]) (exc_tb exc),
      py_exc_info_init)"

definition py_exc_info_has :: "py_exc_info \<Rightarrow> bool" where
  "py_exc_info_has exc \<longleftrightarrow> exc_type exc \<noteq> None \<or> exc_value exc \<noteq> None \<or> exc_tb exc \<noteq> None"

definition py_exc_info_clear_on_worker :: "py_exc_info \<Rightarrow> obj_addr list \<times> py_exc_info" where
  "py_exc_info_clear_on_worker exc = (if \<not> py_exc_info_has exc then ([], exc) else py_exc_info_clear exc)"

section \<open>The exceptions of channels and of the processor\<close>

text \<open>The argument is the field \<open>cb_exc\<close> of the channel or \<open>close_exc\<close> of the processor.\<close>

definition channel_clear_callback_exception :: "py_exc_info \<Rightarrow> obj_addr list \<times> py_exc_info" where
  "channel_clear_callback_exception field = (if py_exc_info_has field then py_exc_info_clear field else ([], field))"

definition channel_take_callback_exception :: "py_exc_info \<Rightarrow> py_exc_info \<times> py_exc_info" where
  "channel_take_callback_exception field = (field, py_exc_info_init)"

text \<open>The assertion says that there is an exception. The result is what is released, the field and the argument.\<close>

definition set_callback_exception :: "py_exc_info \<Rightarrow> py_exc_info \<Rightarrow> (obj_addr list \<times> py_exc_info \<times> py_exc_info) option" where
  "set_callback_exception field exc =
     (if \<not> py_exc_info_has exc then None
      else (case channel_clear_callback_exception field of (released, _) \<Rightarrow> Some (released, exc, py_exc_info_init)))"

definition proc_clear_close_exception :: "py_exc_info \<Rightarrow> obj_addr list \<times> py_exc_info" where
  "proc_clear_close_exception field = py_exc_info_clear field"

definition proc_set_close_exception_steal :: "py_exc_info \<Rightarrow> py_exc_info \<Rightarrow> obj_addr list \<times> py_exc_info \<times> py_exc_info" where
  "proc_set_close_exception_steal field exc =
     (case proc_clear_close_exception field of (released, _) \<Rightarrow> (released, exc, py_exc_info_init))"

definition pop_close_exception :: "py_exc_info \<Rightarrow> bool \<times> py_exc_info \<times> py_exc_info" where
  "pop_close_exception field = (py_exc_info_has field, field, py_exc_info_init)"

text \<open>
  \<open>PyException_SetCause\<close> takes over the reference to the cause. \<open>err_ok\<close> says whether the error object could be made. The result is the cause
  that is handed over and what is released.
\<close>

definition raise_error_from :: "bool \<Rightarrow> py_exc_info \<Rightarrow> obj_addr option \<times> obj_addr list" where
  "raise_error_from err_ok cause_exc =
     (if \<not> err_ok then (None, fst (py_exc_info_clear cause_exc))
      else (exc_value cause_exc, fst (py_exc_info_clear (cause_exc\<lparr>exc_value := None\<rparr>))))"

section \<open>The ways of an exception\<close>

text \<open>The references that came from the interpreter, were released and were handed back as causes are recorded.\<close>

record exc_sys =
  ch_excs :: "py_exc_info list"
  close_field :: py_exc_info
  arrived :: "obj_addr list"
  released :: "obj_addr list"
  causes :: "obj_addr list"

text \<open>
  A callback of a channel fails with the triple that was fetched; a command removes a channel, with or without a waiter; the state of a channel is
  released by \<open>clear_channels\<close>; \<open>close\<close> begins, which clears the field of the processor; it returns; the processor is deallocated.
\<close>

datatype exc_act =
    Callback_failed nat py_exc_info
  | Removed nat bool
  | State_released nat
  | Close_begins
  | Close_ends bool
  | Proc_dealloc

definition info_refs :: "py_exc_info \<Rightarrow> obj_addr list" where
  "info_refs exc = fst (py_exc_info_clear exc)"

fun exc_step :: "exc_sys \<Rightarrow> exc_act \<Rightarrow> (obj_addr option \<times> exc_sys) option" where
  "exc_step s (Callback_failed i exc) =
     (if i \<ge> length (ch_excs s) then None
      else
        (let s1 = s\<lparr>arrived := arrived s @ info_refs exc\<rparr>
         in if py_exc_info_has exc then
              (case set_callback_exception (ch_excs s ! i) exc of
                 None \<Rightarrow> None
               | Some (rel, field, _) \<Rightarrow> Some (None, s1\<lparr>ch_excs := (ch_excs s)[i := field], released := released s @ rel\<rparr>))
            else Some (None, s1)))"
| "exc_step s (Removed i waits) =
     (if i \<ge> length (ch_excs s) then None
      else
        (let (exc, field) = channel_take_callback_exception (ch_excs s ! i);
             (rel, field1) = channel_clear_callback_exception field;
             (rel1, close1, exc1) =
               (if waits \<and> py_exc_info_has exc then proc_set_close_exception_steal (close_field s) exc
                else ([], close_field s, exc));
             (rel2, exc2) = py_exc_info_clear_on_worker exc1
         in Some (None, s\<lparr>ch_excs := (ch_excs s)[i := field1], close_field := close1,
              released := released s @ rel @ rel1 @ rel2\<rparr>)))"
| "exc_step s (State_released i) =
     (if i \<ge> length (ch_excs s) then None
      else (case channel_clear_callback_exception (ch_excs s ! i) of (rel, field) \<Rightarrow>
        Some (None, s\<lparr>ch_excs := (ch_excs s)[i := field], released := released s @ rel\<rparr>)))"
| "exc_step s Close_begins =
     (case proc_clear_close_exception (close_field s) of (rel, field) \<Rightarrow>
        Some (None, s\<lparr>close_field := field, released := released s @ rel\<rparr>))"
| "exc_step s (Close_ends err_ok) =
     (case pop_close_exception (close_field s) of (has, exc, field) \<Rightarrow>
        if has then
          (case raise_error_from err_ok exc of (cause, rel) \<Rightarrow>
             Some (cause, s\<lparr>close_field := field, released := released s @ rel,
               causes := causes s @ case_option [] (\<lambda>x. [x]) cause\<rparr>))
        else Some (None, s\<lparr>close_field := field\<rparr>))"
| "exc_step s Proc_dealloc =
     (case proc_clear_close_exception (close_field s) of (rel, field) \<Rightarrow>
        Some (None, s\<lparr>close_field := field, released := released s @ rel\<rparr>))"

fun exc_adm :: "exc_sys \<Rightarrow> exc_act \<Rightarrow> bool" where
  "exc_adm s (Callback_failed i exc) \<longleftrightarrow> i < length (ch_excs s)"
| "exc_adm s (Removed i waits) \<longleftrightarrow> i < length (ch_excs s)"
| "exc_adm s (State_released i) \<longleftrightarrow> i < length (ch_excs s)"
| "exc_adm s act \<longleftrightarrow> True"

text \<open>The references that are still owned by channels and the processor.\<close>

definition exc_held :: "exc_sys \<Rightarrow> obj_addr multiset" where
  "exc_held s = (\<Sum>e \<leftarrow> ch_excs s. mset (info_refs e)) + mset (info_refs (close_field s))"

definition exc_inv :: "exc_sys \<Rightarrow> bool" where
  "exc_inv s \<longleftrightarrow> mset (arrived s) = exc_held s + mset (released s) + mset (causes s)"

section \<open>No reference is lost\<close>

lemma info_refs_init [simp]: "info_refs py_exc_info_init = []" "\<not> py_exc_info_has py_exc_info_init"
  by (simp_all add: info_refs_def py_exc_info_clear_def py_exc_info_init_def py_exc_info_has_def)

lemma info_refs_none: "\<not> py_exc_info_has e \<Longrightarrow> info_refs e = []"
  by (simp add: info_refs_def py_exc_info_clear_def py_exc_info_has_def)

lemma clear_eq: "py_exc_info_clear e = (info_refs e, py_exc_info_init)"
  by (simp add: info_refs_def py_exc_info_clear_def)

lemma has_no_refs: "\<not> py_exc_info_has e \<Longrightarrow> e = py_exc_info_init"
  by (cases e) (simp add: py_exc_info_has_def py_exc_info_init_def)

lemma clears_eq [simp]:
  "channel_clear_callback_exception e = (info_refs e, py_exc_info_init)"
  "py_exc_info_clear_on_worker e = (info_refs e, py_exc_info_init)"
  "proc_clear_close_exception e = (info_refs e, py_exc_info_init)"
  using has_no_refs [of e]
  by (auto simp: channel_clear_callback_exception_def py_exc_info_clear_on_worker_def proc_clear_close_exception_def clear_eq info_refs_none)

lemma raise_refs: "mset (info_refs e) = mset (snd (raise_error_from ok e)) + mset (case_option [] (\<lambda>x. [x]) (fst (raise_error_from ok e)))"
  by (cases "exc_value e") (simp_all add: raise_error_from_def info_refs_def py_exc_info_clear_def)

lemma sum_list_update_refs:
  "i < length es \<Longrightarrow>
     (\<Sum>e \<leftarrow> es[i := e']. mset (info_refs e)) + mset (info_refs (es ! i)) = (\<Sum>e \<leftarrow> es. mset (info_refs e)) + mset (info_refs e')"
  by (induction es arbitrary: i) (auto simp: nth_Cons ac_simps split: nat.splits)

lemma exc_step_total: "exc_adm s act \<Longrightarrow> exc_step s act \<noteq> None"
  by (cases act) (auto simp: set_callback_exception_def Let_def split: prod.splits)

lemma exc_step_inv:
  assumes "exc_inv s" "exc_adm s act" "exc_step s act = Some (out, s')"
  shows "exc_inv s'"
proof (cases act)
  case (Callback_failed i exc)
  show ?thesis
  proof (cases "py_exc_info_has exc")
    case True
    then show ?thesis using assms Callback_failed sum_list_update_refs [of i "ch_excs s" exc]
      by (auto simp: exc_inv_def exc_held_def set_callback_exception_def Let_def multiset_eq_iff)
  next
    case False
    then show ?thesis using assms Callback_failed by (auto simp: exc_inv_def exc_held_def info_refs_none)
  qed
next
  case (Removed i waits)
  then show ?thesis
    using assms sum_list_update_refs [of i "ch_excs s" py_exc_info_init]
    by (auto simp: exc_inv_def exc_held_def channel_take_callback_exception_def proc_set_close_exception_steal_def
      Let_def ac_simps split: if_splits)
next
  case (State_released i)
  then show ?thesis using assms sum_list_update_refs [of i "ch_excs s" py_exc_info_init]
    by (auto simp: exc_inv_def exc_held_def ac_simps)
next
  case (Close_ends err_ok)
  then show ?thesis using assms raise_refs [of "close_field s" err_ok]
    by (auto simp: exc_inv_def exc_held_def pop_close_exception_def info_refs_none ac_simps split: if_splits prod.splits)
qed (use assms in \<open>auto simp: exc_inv_def exc_held_def ac_simps\<close>)

interpretation excs: invariant_machine exc_step exc_adm exc_inv
  using exc_step_total exc_step_inv by unfold_locales

text \<open>What \<open>Rtp_Proc\<close> sees of a triple, and that the operations do there what they do here.\<close>

definition exc_view :: "py_exc_info \<Rightarrow> py_exc_info option" where
  "exc_view exc = (if py_exc_info_has exc then Some exc else None)"

definition views :: "exc_sys \<Rightarrow> ('cb, py_exc_info) proc \<Rightarrow> bool" where
  "views s p \<longleftrightarrow> map cb_exc (channels p) = map exc_view (ch_excs s) \<and> close_exc p = exc_view (close_field s)"

lemma callback_failed_view:
  assumes "views s p" "i < length (ch_excs s)" "py_exc_info_has exc" "exc_step s (Callback_failed i exc) = Some (out, s')"
  shows "views s' (channel_set_callback_exception p i exc)"
proof -
  have l: "length (channels p) = length (ch_excs s)" using assms(1) unfolding views_def by (metis length_map)
  then show ?thesis using assms
    by (auto simp: views_def set_callback_exception_def channel_set_callback_exception_def upd_channel_def map_update exc_view_def)
qed

section \<open>Properties\<close>

text \<open>
  C16. Whatever callbacks fail, channels are removed and closed and in whatever order, the references to exceptions are accounted for: those that
  arrived are held by a channel or the processor, or were released once, or were handed over as the cause of an error. When the channels and the
  processor hold none any more, none is lost.
\<close>

theorem proc_exceptions_accounted:
  assumes "admissible_run exc_step exc_adm \<lparr>ch_excs = replicate n py_exc_info_init, close_field = py_exc_info_init,
      arrived = [], released = [], causes = []\<rparr> acts"
  shows "\<exists>outs s. run_steps exc_step \<lparr>ch_excs = replicate n py_exc_info_init, close_field = py_exc_info_init,
      arrived = [], released = [], causes = []\<rparr> acts = Some (outs, s) \<and>
    mset (arrived s) = exc_held s + mset (released s) + mset (causes s) \<and>
    ((\<forall>i < length (ch_excs s). \<not> py_exc_info_has (ch_excs s ! i)) \<and> \<not> py_exc_info_has (close_field s) \<longrightarrow>
      mset (arrived s) = mset (released s) + mset (causes s))"
proof -
  let ?s = "\<lparr>ch_excs = replicate n py_exc_info_init, close_field = py_exc_info_init, arrived = [], released = [], causes = []\<rparr>"
  have "exc_inv ?s" by (induction n) (auto simp: exc_inv_def exc_held_def)
  from excs.run_ok [OF this assms] obtain outs s where r: "run_steps exc_step ?s acts = Some (outs, s)" and i: "exc_inv s" by blast
  have "exc_held s = {#}" if h: "\<forall>i < length (ch_excs s). \<not> py_exc_info_has (ch_excs s ! i)" "\<not> py_exc_info_has (close_field s)"
  proof -
    have "\<forall>e \<in> set (ch_excs s). info_refs e = []" using h(1) info_refs_none by (metis in_set_conv_nth)
    then have "map (\<lambda>e. mset (info_refs e)) (ch_excs s) = map (\<lambda>e. {#}) (ch_excs s)" by simp
    then show ?thesis using info_refs_none [OF h(2)] unfolding exc_held_def by (simp only: sum_list_0) simp
  qed
  then show ?thesis using r i by (intro exI [of _ outs] exI [of _ s]) (auto simp: exc_inv_def)
qed

text \<open>A callback fails twice, the channel is closed, and the second exception becomes the cause.\<close>

definition sample_exc :: "nat \<Rightarrow> py_exc_info" where
  "sample_exc k = \<lparr>exc_type = Some 1, exc_value = Some k, exc_tb = None\<rparr>"

theorem proc_exceptions_accounted_witness:
  "\<exists>outs s. run_steps exc_step \<lparr>ch_excs = replicate 1 py_exc_info_init, close_field = py_exc_info_init,
       arrived = [], released = [], causes = []\<rparr>
      [Callback_failed 0 (sample_exc 5), Callback_failed 0 (sample_exc 6), Close_begins, Removed 0 True, Close_ends True] = Some (outs, s) \<and>
    mset (arrived s) = exc_held s + mset (released s) + mset (causes s)"
proof -
  let ?acts = "[Callback_failed 0 (sample_exc 5), Callback_failed 0 (sample_exc 6), Close_begins, Removed 0 True, Close_ends True]"
  have "admissible_run exc_step exc_adm \<lparr>ch_excs = replicate 1 py_exc_info_init, close_field = py_exc_info_init,
      arrived = [], released = [], causes = []\<rparr> ?acts"
    by code_simp
  from proc_exceptions_accounted [OF this] show ?thesis by blast
qed

end
