(* ===== verification/Rtp_Server_Locks.thy ===== *)
theory Rtp_Server_Locks
  imports Rtp_Server
begin

text \<open>
  The locks of \<^verbatim>\<open>python/RtpServer_mod.c\<close>: the interpreter lock, \<open>cmd_lock\<close> and the mutex of the waiter. \<open>Rtp_Server_Sys\<close> takes a method and a command
  of the worker as one step each; here they are the sequences of the locks they take and give back, one step each, and any number
  of threads runs them in any interleaving. Where a condition variable is waited for, the mutex is given back and taken again; what ends the wait is not
  part of this theory. A thread that has the interpreter lock can take it again, which is not a step here.

  With an order on the locks that everybody keeps to there is no deadlock. The methods and most of the commands keep to the order
  interpreter lock, \<open>cmd_lock\<close>, waiter; \<open>CMD_DROP_CHANNELS\<close> does not, and does deadlock with \<open>create_channel\<close>.
\<close>

section \<open>Threads and locks\<close>

datatype 'l lock_op = Acquire 'l | Release 'l

record 'l lock_state =
  owner :: "'l \<Rightarrow> nat option"
  progs :: "'l lock_op list list"

text \<open>One thread does its next operation; \<open>None\<close> is a thread that has none or has to wait.\<close>

definition lock_step :: "'l lock_state \<Rightarrow> nat \<Rightarrow> (unit \<times> 'l lock_state) option" where
  "lock_step s i =
     (if i < length (progs s) then
        (case progs s ! i of
           [] \<Rightarrow> None
         | Acquire l # rest \<Rightarrow>
             if owner s l = None then Some ((), s\<lparr>owner := (owner s)(l := Some i), progs := (progs s)[i := rest]\<rparr>) else None
         | Release l # rest \<Rightarrow>
             if owner s l = Some i then Some ((), s\<lparr>owner := (owner s)(l := None), progs := (progs s)[i := rest]\<rparr>) else None)
      else None)"

definition lock_start :: "'l lock_op list list \<Rightarrow> 'l lock_state" where
  "lock_start ps = \<lparr>owner = (\<lambda>l. None), progs = ps\<rparr>"

definition all_done :: "'l lock_state \<Rightarrow> bool" where
  "all_done s \<longleftrightarrow> list_all (\<lambda>p. p = []) (progs s)"

text \<open>A lock is only taken above those that the thread has, and given back at the end.\<close>

fun keeps_order :: "('l \<Rightarrow> nat) \<Rightarrow> 'l set \<Rightarrow> 'l lock_op list \<Rightarrow> bool" where
  "keeps_order rank held [] \<longleftrightarrow> held = {}"
| "keeps_order rank held (Acquire l # rest) \<longleftrightarrow> (\<forall>h \<in> held. rank h < rank l) \<and> keeps_order rank (insert l held) rest"
| "keeps_order rank held (Release l # rest) \<longleftrightarrow> l \<in> held \<and> keeps_order rank (held - {l}) rest"









section \<open>The locks of the server\<close>

datatype srv_lock = GIL | Cmd_lock | Waiter_lock

fun lock_rank :: "srv_lock \<Rightarrow> nat" where
  "lock_rank GIL = 0"
| "lock_rank Cmd_lock = 1"
| "lock_rank Waiter_lock = 2"


type_synonym srv_ops = "srv_lock lock_op list"

definition under :: "srv_lock \<Rightarrow> srv_ops \<Rightarrow> srv_ops" where
  "under l ops = Acquire l # ops @ [Release l]"

text \<open>A wait for a condition variable that wakes up \<open>k\<close> times.\<close>

definition cond_wait_locks :: "srv_lock \<Rightarrow> nat \<Rightarrow> srv_ops" where
  "cond_wait_locks l k = concat (replicate k [Release l, Acquire l])"

definition waiter_reset_locks :: srv_ops where
  "waiter_reset_locks = under Waiter_lock []"

definition waiter_complete_locks :: srv_ops where
  "waiter_complete_locks = under Waiter_lock []"

definition waiter_wait_locks :: "nat \<Rightarrow> srv_ops" where
  "waiter_wait_locks k = under Waiter_lock (cond_wait_locks Waiter_lock k)"

definition py_decref_on_worker_locks :: srv_ops where
  "py_decref_on_worker_locks = under GIL []"

definition allow_threads :: "srv_ops \<Rightarrow> srv_ops" where
  "allow_threads ops = Release GIL # ops @ [Acquire GIL]"

definition server_waiter_release_locks :: srv_ops where
  "server_waiter_release_locks = under Cmd_lock []"

text \<open>The waiter is in use, or it is reset, which can fail.\<close>

definition server_waiter_acquire_locks :: "bool \<Rightarrow> bool \<Rightarrow> srv_ops" where
  "server_waiter_acquire_locks busy reset_ok = under Cmd_lock [] @
     (if busy then [] else waiter_reset_locks @ (if reset_ok then [] else server_waiter_release_locks))"

definition enqueue_command_locks :: srv_ops where
  "enqueue_command_locks = under Cmd_lock []"

definition detach_commands_locks :: srv_ops where
  "detach_commands_locks = under Cmd_lock []"

definition wait_for_commands_locks :: "nat \<Rightarrow> srv_ops" where
  "wait_for_commands_locks k = under Cmd_lock (cond_wait_locks Cmd_lock k)"

text \<open>
  How far a method that sends a command and waits gets: it returns before it takes a lock, it does not get the waiter, its command is
  rejected, or it waits with \<open>k\<close> wake-ups.
\<close>

datatype call_path = Refused | Busy | Reset_fails | Rejected | Waits nat

fun sync_call_locks :: "call_path \<Rightarrow> srv_ops" where
  "sync_call_locks Refused = []"
| "sync_call_locks Busy = server_waiter_acquire_locks True True"
| "sync_call_locks Reset_fails = server_waiter_acquire_locks False False"
| "sync_call_locks Rejected = server_waiter_acquire_locks False True @ enqueue_command_locks @ server_waiter_release_locks"
| "sync_call_locks (Waits k) = server_waiter_acquire_locks False True @ enqueue_command_locks @ allow_threads (waiter_wait_locks k) @
     server_waiter_release_locks"

text \<open>\<open>close\<close> on the worker does not wait, \<open>send_pkt\<close> takes no lock, and the destructor of the server joins the worker.\<close>

datatype srv_call =
    Call_create call_path
  | Call_close bool call_path
  | Call_set_target call_path
  | Call_shutdown call_path
  | Call_send
  | Call_dealloc

fun call_locks :: "srv_call \<Rightarrow> srv_ops" where
  "call_locks (Call_create path) = sync_call_locks path"
| "call_locks (Call_close on_worker path) =
     (if on_worker then (if path = Refused then [] else enqueue_command_locks) else sync_call_locks path)"
| "call_locks (Call_set_target path) = sync_call_locks path"
| "call_locks (Call_shutdown path) = sync_call_locks path"
| "call_locks Call_send = []"
| "call_locks Call_dealloc = enqueue_command_locks @ allow_threads [] @ detach_commands_locks @ detach_commands_locks"

definition method_locks :: "srv_call \<Rightarrow> srv_ops" where
  "method_locks call = under GIL (call_locks call)"

text \<open>
  A command, with the number of the channels that are registered when it is processed and whether there is memory for a new one.
\<close>

definition clear_channels_locks :: "nat \<Rightarrow> srv_ops" where
  "clear_channels_locks n = concat (replicate n py_decref_on_worker_locks)"

fun command_locks :: "nat \<Rightarrow> bool \<Rightarrow> 'a server_cmd \<Rightarrow> srv_ops" where
  "command_locks n slot_ok (CMD_ADD_CHANNEL h) =
     under Cmd_lock [] @ waiter_complete_locks @ (if slot_ok then [] else py_decref_on_worker_locks)"
| "command_locks n slot_ok (CMD_REMOVE_CHANNEL h waits) = under Cmd_lock [] @ (if waits then waiter_complete_locks else [])"
| "command_locks n slot_ok (CMD_SET_TARGET h addr) = under Cmd_lock [] @ waiter_complete_locks"
| "command_locks n slot_ok CMD_DROP_CHANNELS = under Cmd_lock (clear_channels_locks n) @ waiter_complete_locks"
| "command_locks n slot_ok CMD_STOP_WORKER = under Cmd_lock (clear_channels_locks n)"

text \<open>What the worker does: the commands, the wait, a callback with the methods it calls, and a packet that was sent.\<close>

datatype 'a worker_item =
    Item_detach
  | Item_command nat bool "'a server_cmd"
  | Item_wait nat
  | Item_callback "srv_call list"
  | Item_free

fun item_locks :: "'a worker_item \<Rightarrow> srv_ops" where
  "item_locks Item_detach = detach_commands_locks"
| "item_locks (Item_command n slot_ok cmd) = command_locks n slot_ok cmd"
| "item_locks (Item_wait k) = wait_for_commands_locks k"
| "item_locks (Item_callback calls) = under GIL (concat (map call_locks calls))"
| "item_locks Item_free = py_decref_on_worker_locks"


text \<open>Some threads that call methods, and the worker.\<close>

definition srv_progs :: "srv_call list list \<Rightarrow> 'a worker_item list \<Rightarrow> srv_ops list" where
  "srv_progs calls items = map (\<lambda>cs. concat (map method_locks cs)) calls @ [concat (map item_locks items)]"


lemma order_under:
  assumes "\<And>h. h \<in> held \<Longrightarrow> lock_rank h < lock_rank l" "keeps_order lock_rank (insert l held) (ops @ Release l # rest)"
  shows "keeps_order lock_rank held (under l ops @ rest)"
  using assms by (simp add: under_def)







section \<open>Properties\<close>



text \<open>
  Clearing a registry with channels in it does deadlock: the worker has \<open>cmd_lock\<close> and waits for the interpreter lock to give up the reference to
  a channel, and a thread that has called \<open>create_channel\<close> has the interpreter lock and waits for \<open>cmd_lock\<close>. None of them ever gets on.
\<close>

lemma server_drop_deadlock:
  assumes "0 < n" and "path \<noteq> Refused"
  shows "\<exists>outs s. run_steps lock_step (lock_start (srv_progs [[Call_create path]] [Item_command n True CMD_DROP_CHANNELS])) [0, 1] = Some (outs, s) \<and>
    \<not> all_done s \<and> (\<forall>i. lock_step s i = None)"
proof -
  obtain m where m: "n = Suc m" using assms(1) by (cases n) auto
  obtain rest where p: "sync_call_locks path = Acquire Cmd_lock # rest" using assms(2)
    by (cases path) (auto simp: server_waiter_acquire_locks_def under_def)
  obtain rest' where q: "item_locks (Item_command n True CMD_DROP_CHANNELS) = Acquire Cmd_lock # Acquire GIL # rest'"
    by (simp add: m under_def clear_channels_locks_def py_decref_on_worker_locks_def)
  let ?s = "\<lparr>owner = (\<lambda>l. None)(GIL := Some 0, Cmd_lock := Some 1), progs = [Acquire Cmd_lock # rest @ [Release GIL], Acquire GIL # rest']\<rparr>"
  have "run_steps lock_step (lock_start (srv_progs [[Call_create path]] [Item_command n True CMD_DROP_CHANNELS])) [0, 1] = Some ([(), ()], ?s)"
    using p q by (simp add: lock_start_def srv_progs_def lock_step_def method_locks_def under_def)
  moreover have "lock_step ?s i = None" for i by (cases i; cases "i - 1") (simp_all add: lock_step_def)
  moreover have "\<not> all_done ?s" by (simp add: all_done_def)
  ultimately show ?thesis by blast
qed

end
