(* ===== verification/Spec2Isabelle.thy ===== *)
theory Spec2Isabelle
  imports Rtp_Jbuf_Props Rtp_Synth SPMC_Threads Rtp_Utils Rtp_Proc_Api Rtp_Server_Props Rtp_Synth_Py Rtp_Jbuf_Class Rtp_Resample Rtp_Wait Rtp_Proc_Exc Rtp_Server_Locks
begin

text \<open>
  A verification of librtpsynth, a C library with Python modules for RTP: it parses and generates RTP packets,
  reorders them in a jitter buffer, and runs worker threads for packet input and output and for periodic callbacks.

  \<^bold>\<open>Parts and theories.\<close>

  \<^item> \<open>RS_Prelude\<close>: machine words, the reading and writing of memory with bounds (\<open>rd\<close>), collections of simplification
    rules, runs of a step function, and the locales that several components use.
  \<^item> \<open>Rtp_Wire\<close>: the layout of \<open>struct rtp_hdr\<close> in \<^verbatim>\<open>src/rtp.h\<close>, bit fields and byte order.
  \<^item> \<open>Rtp_Parser\<close>: \<^verbatim>\<open>src/rtp.c\<close>: payload profiles, sample counts, \<open>rtp_packet_parse_raw\<close>.
  \<^item> \<open>Rtp_Jbuf\<close>, \<open>Rtp_Jbuf_Inv\<close>, \<open>Rtp_Jbuf_Props\<close>: \<^verbatim>\<open>src/rtpjbuf.c\<close>: the definitions, the invariant, the properties. The linked
    list of the buffer is a list, the fields that belong together are records as in the code.
  \<^item> \<open>RS_Time\<close>, \<open>Rtp_Synth\<close>: \<^verbatim>\<open>src/rsth_timeops.h\<close> and \<^verbatim>\<open>src/rtpsynth.c\<close>: packet generation with a clock and a random
    function as arguments.
  \<^item> \<open>SPMC_Queue\<close>, \<open>SPMC_Threads\<close>: \<^verbatim>\<open>src/SPMCQueue.c\<close>: the queue as functions of its state, and the same code as steps of
    one producer and many consumers that interleave at each access to shared memory.
  \<^item> \<open>Rtp_Sync\<close>: \<^verbatim>\<open>src/rtp_sync.c\<close>: the command queue, the waiter as a step relation with its condition variable (its mutex is implicit: testing
    the flag and falling asleep is one step, and so is setting the flag and signalling), timed waits.
  \<^item> \<open>Rtp_Utils\<close>, \<open>RS_Double\<close>, \<open>Rtp_Resample\<close>: \<^verbatim>\<open>python/RtpUtils_mod.c\<close>: the companding functions, the arithmetic of \<open>double\<close> as rounding of rational
    numbers to 53 bits, and the linear resampler that computes with it.
  \<^item> \<open>Rtp_Synth_Py\<close>: the Python class of \<^verbatim>\<open>python/RtpSynth_mod.c\<close>.
  \<^item> \<open>Rtp_Jbuf_Py\<close>, \<open>Rtp_Jbuf_Refs\<close>, \<open>Rtp_Jbuf_Class\<close>: the Python classes of \<^verbatim>\<open>python/RtpJBuf_mod.c\<close>: the definitions with a memory of counted objects, who owns
    which reference, and the class as a machine that the program drives.
  \<^item> \<open>Rtp_Proc\<close>, \<open>Rtp_Proc_Api\<close>, \<open>Rtp_Proc_Exc\<close>: \<^verbatim>\<open>python/RtpProc_mod.c\<close>: the worker with its schedule, the Python methods interleaved with
    it, and the references to the exceptions of callbacks.
  \<^item> \<open>Rtp_Server\<close>, \<open>Rtp_Server_Api\<close>, \<open>Rtp_Server_Sys\<close>, \<open>Rtp_Server_Props\<close>: \<^verbatim>\<open>python/RtpServer_mod.c\<close>: the worker, the Python methods with
    addresses and sockets, both as one machine in which they interleave, and the properties of the machine.
  \<^item> \<open>Rtp_Server_Locks\<close>: the same module again, as the sequences in which methods and worker take and give back the interpreter lock, \<open>cmd_lock\<close> and the
    mutex of the waiter.
  \<^item> \<open>Rtp_Wait\<close>: \<open>wait_for_commands\<close> of the two modules, the sleep of a worker against the methods that put commands in its queue.

  The libraries do not depend on each other, except that the jitter buffer and the Python classes parse packets with \<open>rtp.c\<close>. The
  modules \<open>RtpProc\<close> and \<open>RtpServer\<close> use \<open>rtp_sync.c\<close> to hand commands from the methods to a worker; a channel of the server has an \<open>SPMCQueue\<close>
  from the method \<open>send_pkt\<close> to the worker.

  \<^bold>\<open>How the code is modelled.\<close> A C function is a definition of the same name; its state is a record with the fields of the
  struct. Words keep their width (\<open>u8\<close>, \<open>u16\<close>, \<open>u32\<close>, \<open>u64\<close>) where they can wrap around, and a signed \<open>int\<close> is
  an \<open>int\<close> with its range written out where it can overflow. \<open>None\<close> as the result of an operation stands for what must not happen: a failing assertion,
  an access outside of a buffer or to a freed object, undefined arithmetic. Errors that the code reports are values.
  What the code gets from outside (allocation, clocks, random numbers, sockets, callbacks) is an argument, either a value per call or a record of functions that
  thread a state of the world. A method of a Python module is atomic up to the point where it releases the interpreter lock and waits, and so is a command of the worker; that
  they can be taken as atomic rests on the locks, and \<open>Rtp_Server_Locks\<close> shows when the locks of the server do not deadlock. (The worker of \<open>RtpProc\<close> does not hold
  \<open>cmd_lock\<close> while it takes the interpreter lock.)

  \<^bold>\<open>What is shown.\<close>

  \<^item> Parser: it accepts exactly the packets of the layout that RFC 3550 describes, reads only inside of the packet, leaves the
    result untouched on an error, and counts samples as a reference definition does.
  \<^item> Jitter buffer, with a capacity of at least 3 and for admissible sequences of calls (\<open>jb_adm\<close>: numbers that do not run out, and no late packet of the
    cycle of numbers before the first one): from the constructor no call runs into an assertion; the frames and erasure frames that it releases
    cover the sequence numbers without gap or overlap; every packet is released, dropped, or queued exactly once; a stream in
    order passes through without delay.
  \<^item> Synthesizer: what it generates parses back to the same header and payload, a stream has consecutive numbers and times.
  \<^item> Queue: it refines a bounded first-in-first-out queue, sequentially and for any interleaving of the threads, for batches of fewer than \<open>2 ^ 63\<close> elements;
    with larger ones the read index can move back (\<open>spmc_huge_batch\<close>).
  \<^item> Synchronisation: no wake-up is lost, commands are handed over in order.
  \<^item> Companding: round trips, the error bound of the quantisation, and the tables agree with the scalar functions.
  \<^item> Resampler: \<open>round_half_even_ll\<close> rounds as its name says; the output has the right length up to rounding, every sample lies between two input samples around its exact
    position, no index is outside; integer ratios are exact.
  \<^item> Scheduler: the schedule stays sorted and complete, the earliest channel runs first, the loop over due channels ends if callbacks ask for times that the clock has not reached, a
    caller of a synchronous method is answered with the status of its own command if in addition no callback calls a method that blocks (both conditions are shown to be
    needed), references to callables balance.
    Exceptions of callbacks are released or handed over, once each.
  \<^item> Server: a pass of the worker touches no freed channel, the queues are drained in order, the tick keeps its phase. With the methods: the reference counts of channels are exact, so
    that nothing is used after it is freed and no channel is leaked (but for one case that is shown); callers of all methods but \<open>shutdown\<close> are answered with the status of their
    own command; after a shutdown no command is accepted; what was sent is delivered in order; a \<open>create_channel\<close> that fails closes its socket once and leaves no channel and
    no command behind (its output queue is leaked if the object cannot be allocated; the memory of queues is not tracked). This is for runs that \<open>srv_adm\<close> admits: no callback calls a method
    that waits, with assertions there is one shutdown, the destructor gets its memory.
  \<^item> Locks of the server: no deadlock for any number of threads and any interleaving, unless a registry with channels is cleared, which happens under \<open>cmd_lock\<close>; then
    there is one (\<open>server_drop_deadlock\<close>).
  \<^item> Sleep of the workers: it does not outlast the arrival of a command.
  \<^item> Synthesizer class: packets of the class parse back, every call returns what its method returns, \<open>set_mbt\<close> the old marker bit.
  \<^item> Jitter buffer class, under the conditions of the library and if no bytes object is submitted again while it is queued (\<open>data_ok\<close>): no object is used after it is freed, reference counts and the counters of objects are exact, \<open>udp_in\<close> returns what the library
    returns, the wrappers describe the packets truly, the destructor ends and gives everything back.
  \<^item> Where the code does not do what it means to, a theorem shows the input on which it fails.

  \<^bold>\<open>Interfaces.\<close> \<open>lock_order\<close> (locks with an order) is interpreted by the locks of the server. \<open>invariant_machine\<close> (a step function, the inputs it may get and an invariant; runs are then safe) is interpreted by the
  jitter buffer, the synthesizer, their Python classes, the exceptions of \<open>RtpProc\<close>, and the systems of scheduler and server with their methods, the latter with several invariants;
  every \<open>command_queue\<close> (a method adds a command and signals, or does neither) gives one by \<open>sublocale\<close>, and both modules with a worker
  interpret it. \<open>fifo_queue\<close> (a queue with its abstract contents) is interpreted by the queue of \<open>SPMC_Queue\<close> and used by the worker of the server. \<open>rounding\<close> (monotone, exact
  on integers of 53 bits, small relative error) is interpreted by the arithmetic of \<open>RS_Double\<close> and used by the resampler.

  \<^bold>\<open>Fuel.\<close> Loops whose end depends on the environment take a number that bounds their iterations: the
  datagrams that can be read in one pass (\<open>recv_ends\<close> says how many there are), the callbacks that are due in one pass (\<open>calm\<close>). The loops that drain a
  queue get its capacity, and the loop of the destructor of the jitter buffer class gets two iterations; both are proved to be enough. All other loops are total functions.

  \<^bold>\<open>Not modelled.\<close> Weak memory: the steps of the queue are sequentially consistent. The links of the schedule of \<open>RtpProc\<close> are indices and not pointers, so a pointer that is stale
  after a \<open>realloc\<close> could not be seen; that the list is rebuilt when the array has moved is modelled. What ends the waits in the theory of locks. A \<open>close\<close> in a callback of the server may come at any
  time between two passes of the worker, not only with a datagram. Infinities, subnormal numbers and fused operations of \<open>double\<close>, which the
  resampler does not meet or a compiler is taken not to use. In the machine of the jitter buffer class the program does not take wrappers apart or share their parts, and the lists of
  results can be allocated. The reference counts of arguments and temporary objects in calls of callbacks of the server. The tables that register types and
  methods with Python, the Windows replacements of system calls, build files and tests.
\<close>

end
